(* ===== verification/Prelude.thy ===== *)
theory Prelude
  imports Main "HOL-Library.Word" "HOL-Library.Char_ord" "HOL-Library.List_Lexorder"
begin

text \<open>
  Shared vocabulary of the development: the outcome type of a Go call, its sequencing and its
  loops, the edits of a text that the editor's components agree on, and the lemmas on lists and
  sums that every component uses.

  A Go call that runs to its end returns a value; it may also panic (a nil dereference, an index
  or a slice out of range, \<open>make\<close> with a length above its capacity, an explicit \<open>panic\<close>), or it
  may never return. \<open>None\<close> is the call that never returns, \<open>Some (Inl p)\<close> the call that
  panics with \<open>p\<close>, \<open>Some (Inr x)\<close> the call that returns \<open>x\<close>. No code of the repository recovers
  from a panic, so the state a panicking call leaves behind is not part of its outcome.
\<close>

section \<open>Machine types\<close>

type_synonym byte = char
type_synonym uint16 = "16 word"
type_synonym uint32 = "32 word"
type_synonym uint64 = "64 word"

text \<open>A counter below some other value does not wrap when it is incremented.\<close>

lemma uint32_succ:
  assumes "(a :: uint32) < b"
  shows "unat (a + 1) = Suc (unat a)" "a \<le> a + 1"
proof -
  have "unat a < unat b" "unat b < 2 ^ 32" using assms unsigned_less [of b] by (simp_all add: word_less_nat_alt)
  then show "unat (a + 1) = Suc (unat a)" by (simp add: unat_word_ariths)
  then show "a \<le> a + 1" by (simp add: word_le_nat_alt)
qed

lemma uint32_next_iff:
  assumes "b \<noteq> (0 :: uint32)"
  shows "a < b \<and> b - 1 \<le> a \<longleftrightarrow> a + 1 = b"
proof -
  have b: "unat (b - 1) = unat b - 1" "0 < unat b"
    using assms unat_minus_one [OF assms] by (simp_all add: unat_gt_0)
  show ?thesis
  proof
    assume "a < b \<and> b - 1 \<le> a"
    then have "unat a < unat b" "unat b - 1 \<le> unat a" "unat (a + 1) = Suc (unat a)"
      using b(1) uint32_succ(1) [of a b] by (simp_all add: word_less_nat_alt word_le_nat_alt)
    then have "unat (a + 1) = unat b" by linarith
    then show "a + 1 = b" by (simp only: word_unat_eq_iff)
  next
    assume eq: "a + 1 = b"
    have "b - 1 = a" unfolding eq [symmetric] by simp
    with b have "unat b - 1 = unat a" by simp
    then show "a < b \<and> b - 1 \<le> a" using b unfolding word_less_nat_alt word_le_nat_alt b(1) by linarith
  qed
qed

section \<open>Outcomes of a call\<close>

datatype go_panic =
    NilDereference
  | IndexOutOfRange
  | SliceOutOfRange
  | MakeSliceRange
  | ExplicitPanic string

type_synonym 'a prog = "(go_panic + 'a) option"

abbreviation returns :: "'a \<Rightarrow> 'a prog" where
  "returns x \<equiv> Some (Inr x)"

abbreviation panics :: "go_panic \<Rightarrow> 'a prog" where
  "panics p \<equiv> Some (Inl p)"

abbreviation never_returns :: "'a prog" where
  "never_returns \<equiv> None"

definition pbind :: "'a prog \<Rightarrow> ('a \<Rightarrow> 'b prog) \<Rightarrow> 'b prog" where
  "pbind m f = Option.bind m (\<lambda>r. case r of Inl p \<Rightarrow> panics p | Inr x \<Rightarrow> f x)"

fun pfold :: "('s \<Rightarrow> 'a \<Rightarrow> 's prog) \<Rightarrow> 'a list \<Rightarrow> 's \<Rightarrow> 's prog" where
  "pfold f [] s = returns s"
| "pfold f (x # xs) s = pbind (f s x) (\<lambda>s'. pfold f xs s')"

definition guard_else :: "bool \<Rightarrow> go_panic \<Rightarrow> 'a prog \<Rightarrow> 'a prog" where
  "guard_else b p m = (if b then m else panics p)"

lemma pbind_simps [simp]:
  "pbind (returns x) f = f x"
  "pbind (panics p) f = panics p"
  "pbind never_returns f = never_returns"
  by (simp_all add: pbind_def)

lemma pbind_eq_returns [simp]:
  "pbind m f = returns y \<longleftrightarrow> (\<exists>x. m = returns x \<and> f x = returns y)"
  by (auto simp: pbind_def split: Option.bind_splits sum.splits)

lemma pbind_assoc: "pbind (pbind m f) g = pbind m (\<lambda>x. pbind (f x) g)"
  by (cases m) (auto simp: pbind_def split: sum.splits)

lemma pbind_cong [fundef_cong]:
  "m = m' \<Longrightarrow> (\<And>x. m' = returns x \<Longrightarrow> f x = f' x) \<Longrightarrow> pbind m f = pbind m' f'"
  by (auto simp: pbind_def split: Option.bind_splits sum.splits intro!: Option.bind_cong)

lemma pbind_mono [partial_function_mono]:
  assumes "mono_option m" and "\<And>x. mono_option (\<lambda>f. g x f)"
  shows "mono_option (\<lambda>f. pbind (m f) (\<lambda>x. g x f))"
proof -
  have "mono_option (\<lambda>f. case r of Inl p \<Rightarrow> panics p | Inr x \<Rightarrow> g x f)" for r
    using assms(2) by (cases r) (simp_all add: option.const_mono)
  then show ?thesis
    unfolding pbind_def by (intro bind_mono assms(1))
qed

lemma pfold_mono [partial_function_mono]:
  assumes "\<And>s x. mono_option (\<lambda>f. g s x f)"
  shows "mono_option (\<lambda>f. pfold (\<lambda>s x. g s x f) xs s)"
proof (induction xs arbitrary: s)
  case Nil
  show ?case by (simp add: option.const_mono)
next
  case (Cons x xs)
  show ?case by (simp, intro pbind_mono assms Cons.IH)
qed

lemma pfold_append: "pfold f (xs @ ys) s = pbind (pfold f xs s) (pfold f ys)"
  by (induction xs arbitrary: s) (auto simp: pbind_assoc intro: pbind_cong)

text \<open>What holds of the result of a call if it returns.\<close>

definition on_return :: "'a prog \<Rightarrow> ('a \<Rightarrow> bool) \<Rightarrow> bool" where
  "on_return m P \<longleftrightarrow> (\<forall>x. m = returns x \<longrightarrow> P x)"

lemma on_return_simps [simp]: "on_return (returns x) P \<longleftrightarrow> P x" "on_return (panics e) P"
  "on_return m (\<lambda>x. True)"
  by (simp_all add: on_return_def)

lemma on_return_pbind: "on_return (pbind m f) P \<longleftrightarrow> on_return m (\<lambda>x. on_return (f x) P)"
proof (cases m)
  case (Some r)
  then show ?thesis by (cases r) (simp_all add: on_return_def pbind_def)
qed (simp add: on_return_def pbind_def)

lemma on_returnD: "on_return m P \<Longrightarrow> m = returns x \<Longrightarrow> P x"
  by (simp add: on_return_def)

lemma on_returnI: "(\<And>x. m = returns x \<Longrightarrow> P x) \<Longrightarrow> on_return m P"
  by (simp add: on_return_def)

section \<open>Lists\<close>

lemma in_set_take_nth: "x \<in> set (take n xs) \<Longrightarrow> \<exists>i<n. i < length xs \<and> x = xs ! i"
  by (auto simp: in_set_conv_nth)

lemma in_set_drop_nth:
  assumes "x \<in> set (drop n xs)"
  shows "\<exists>i\<ge>n. i < length xs \<and> x = xs ! i"
proof -
  obtain j where "j < length xs - n" "x = drop n xs ! j"
    using assms by (auto simp: in_set_conv_nth)
  then show ?thesis by (intro exI [of _ "n + j"]) auto
qed

section \<open>Edits of a text\<close>

text \<open>
  What every component of the editor means by an edit: one byte goes in at a position, or one
  byte goes out. The tree, the line buffer and the queue of remote operations all promise it.
\<close>

definition insert_at :: "nat \<Rightarrow> 'a \<Rightarrow> 'a list \<Rightarrow> 'a list" where
  "insert_at p c t = take p t @ c # drop p t"

definition delete_at :: "nat \<Rightarrow> 'a list \<Rightarrow> 'a list" where
  "delete_at p t = take p t @ drop (Suc p) t"

lemma length_insert_at [simp]: "length (insert_at p c t) = Suc (length t)"
  by (simp add: insert_at_def)

lemma length_delete_at [simp]: "p < length t \<Longrightarrow> length (delete_at p t) = length t - 1"
  by (simp add: delete_at_def)

lemma insert_at_append:
  "p \<le> length u \<Longrightarrow> t @ insert_at p c u @ v = insert_at (length t + p) c (t @ u @ v)"
  by (simp add: insert_at_def)

lemma delete_at_append:
  "p < length u \<Longrightarrow> t @ delete_at p u @ v = delete_at (length t + p) (t @ u @ v)"
  by (simp add: delete_at_def Suc_diff_le)

lemma butlast_insert_at: "p < length t \<Longrightarrow> butlast (insert_at p c t) = insert_at p c (butlast t)"
  by (cases t rule: rev_cases) (auto simp: insert_at_def butlast_append)

lemma butlast_delete_at: "Suc p < length t \<Longrightarrow> butlast (delete_at p t) = delete_at p (butlast t)"
  by (cases t rule: rev_cases) (auto simp: delete_at_def butlast_append)

lemma concat_update:
  assumes "j < length ls"
  shows "concat (ls[j := l]) = concat (take j ls) @ l @ concat (drop (Suc j) ls)"
    and "concat ls = concat (take j ls) @ (ls ! j) @ concat (drop (Suc j) ls)"
proof -
  show "concat (ls[j := l]) = concat (take j ls) @ l @ concat (drop (Suc j) ls)"
    using assms by (simp add: upd_conv_take_nth_drop)
  show "concat ls = concat (take j ls) @ (ls ! j) @ concat (drop (Suc j) ls)"
    by (subst id_take_nth_drop [OF assms]) simp
qed

lemma concat_insert_at:
  assumes "j < length ls" and "x \<le> length (ls ! j)"
  shows "concat (ls[j := insert_at x c (ls ! j)]) =
    insert_at (length (concat (take j ls)) + x) c (concat ls)"
  using insert_at_append [OF assms(2)] concat_update(2) [OF assms(1)]
  by (simp add: concat_update(1) [OF assms(1)])

lemma concat_delete_at:
  assumes "j < length ls" and "x < length (ls ! j)"
  shows "concat (ls[j := delete_at x (ls ! j)]) =
    delete_at (length (concat (take j ls)) + x) (concat ls)"
  using delete_at_append [OF assms(2)] concat_update(2) [OF assms(1)]
  by (simp add: concat_update(1) [OF assms(1)])

end
