(* ===== verification/Gossip.thy ===== *)
theory Gossip
  imports Prelude "HOL-Library.Multiset"
begin

text \<open>
  The contract of a state that replicas merge into each other: what a state knows under a key only grows, and
  merging takes the larger of the two. Replicas that have merged the same updates then know the same, in
  whatever order and however often the updates came. The version vectors and the network metadata of the
  editor are two such states.
\<close>

locale join_merge =
  fixes merge_into :: "'s \<Rightarrow> 'u \<Rightarrow> 's" and known :: "'s \<Rightarrow> 'k \<Rightarrow> 'v :: linorder" and offered :: "'u \<Rightarrow> 'k \<Rightarrow> 'v"
    and good :: "'u \<Rightarrow> bool"
  assumes known_merge: "good u \<Longrightarrow> known (merge_into s u) k = max (known s k) (offered u k)"
begin

lemma merge_grows: "good u \<Longrightarrow> known s k \<le> known (merge_into s u) k"
  by (simp add: known_merge)

lemma merge_commutes:
  assumes "good u" "good u'"
  shows "known (merge_into (merge_into s u) u') k = known (merge_into (merge_into s u') u) k"
  using assms by (simp add: known_merge ac_simps)

lemma merge_again:
  assumes "good u"
  shows "known (merge_into (merge_into s u) u) k = known (merge_into s u) k"
  using assms by (simp add: known_merge)

lemma known_merge_all:
  assumes "\<forall>u\<in>set us. good u"
  shows "known (foldl merge_into s us) k = Max (insert (known s k) ((\<lambda>u. offered u k) ` set us))"
  using assms
proof (induction us arbitrary: s)
  case (Cons u us)
  then have "known (foldl merge_into s (u # us)) k =
      Max (insert (max (known s k) (offered u k)) ((\<lambda>u. offered u k) ` set us))"
    by (simp add: known_merge)
  also have "\<dots> = Max (insert (known s k) (insert (offered u k) ((\<lambda>u. offered u k) ` set us)))"
    by (cases "us = []") (simp_all add: max.assoc)
  finally show ?case by simp
qed simp

lemma merge_all_grows: "\<forall>u\<in>set us. good u \<Longrightarrow> known s k \<le> known (foldl merge_into s us) k"
  by (simp add: known_merge_all)

lemma merge_all_same:
  assumes "set us = set us'" "\<forall>u\<in>set us. good u" "\<And>k. known s k = known s' k"
  shows "known (foldl merge_into s us) k = known (foldl merge_into s' us') k"
  using assms by (simp add: known_merge_all)

end

end
