(* ===== verification/Framing.thy ===== *)
theory Framing
  imports Prelude
begin

text \<open>
  Messages on a connection: \<^verbatim>\<open>util/util.go\<close> of the editor and \<^verbatim>\<open>util/util.go\<close> of the key-value store. A message is
  written as its length in decimal, a space, its bytes and a newline. The readers read up to a space, then
  whole lines until they have at least as many bytes as announced, and strip one byte.

  A reader's state is the list of bytes the peer sends before it closes the connection; reading past its end is
  the error \<open>EOF\<close>. \<open>bufio.Reader.ReadSlice\<close> fails with \<open>BufferFull\<close> when the delimiter is not among the
  4096 bytes its buffer holds; \<open>ReadString\<close> and \<open>ReadBytes\<close> have no such bound. A writer collects bytes and
  hands them to the connection at \<open>Flush\<close>; \<open>w_room\<close> is how many bytes the connection still takes, and a
  writer that failed once keeps failing, as \<open>bufio.Writer\<close> does.
\<close>

section \<open>Numbers as text (\<open>strconv\<close>)\<close>

definition digit :: "nat \<Rightarrow> char" where
  "digit d = char_of (48 + d)"

fun itoa :: "nat \<Rightarrow> string" where
  "itoa n = (if n < 10 then [digit n] else itoa (n div 10) @ [digit (n mod 10)])"

declare itoa.simps [simp del]

definition digit_of :: "char \<Rightarrow> nat" where
  "digit_of c = of_char c - 48"

definition is_digit :: "char \<Rightarrow> bool" where
  "is_digit c \<longleftrightarrow> 48 \<le> (of_char c :: nat) \<and> of_char c \<le> (57 :: nat)"

definition parse_nat :: "string \<Rightarrow> nat option" where
  "parse_nat s = (if s \<noteq> [] \<and> list_all is_digit s
     then Some (foldl (\<lambda>n c. 10 * n + digit_of c) 0 s) else None)"

text \<open>The callers drop the error: a malformed number counts as 0, one out of range as the bound.\<close>

definition StrToInt :: "string \<Rightarrow> int" where
  "StrToInt s =
     (let bounded = (\<lambda>t bound. case parse_nat t of None \<Rightarrow> 0 | Some n \<Rightarrow> min (int n) bound) in
      case s of
        c # t \<Rightarrow> if c = CHR ''-'' then - bounded t (2 ^ 63)
                 else if c = CHR ''+'' then bounded t (2 ^ 63 - 1)
                 else bounded s (2 ^ 63 - 1)
      | [] \<Rightarrow> 0)"

definition UInt32ToStr :: "uint32 \<Rightarrow> string" where
  "UInt32ToStr n = itoa (unat n)"

definition StrToUInt32 :: "string \<Rightarrow> uint32" where
  "StrToUInt32 s = (case parse_nat s of None \<Rightarrow> 0 | Some n \<Rightarrow> word_of_nat (min n (2 ^ 32 - 1)))"

section \<open>Readers\<close>

datatype io_error = EOF | BufferFull | ConnectionBroken

type_synonym stream = "byte list"

definition read_delim :: "nat option \<Rightarrow> byte \<Rightarrow> stream \<Rightarrow> (io_error + byte list) \<times> stream" where
  "read_delim lim d s =
     (let window = (case lim of None \<Rightarrow> s | Some k \<Rightarrow> take k s) in
      if d \<in> set window then (Inr (takeWhile (\<lambda>c. c \<noteq> d) s @ [d]), tl (dropWhile (\<lambda>c. c \<noteq> d) s))
      else case lim of
        Some k \<Rightarrow> if k \<le> length s then (Inl BufferFull, drop k s) else (Inl EOF, [])
      | None \<Rightarrow> (Inl EOF, []))"

lemma read_delim_consumes: "read_delim lim d s = (Inr k, s') \<Longrightarrow> s = k @ s' \<and> k \<noteq> []"
proof -
  assume r: "read_delim lim d s = (Inr k, s')"
  then have "d \<in> set s"
    by (auto simp: read_delim_def Let_def split: if_splits option.splits dest: in_set_takeD)
  then have "s = takeWhile (\<lambda>c. c \<noteq> d) s @ d # tl (dropWhile (\<lambda>c. c \<noteq> d) s)"
    by (induction s) auto
  with r show ?thesis by (auto simp: read_delim_def Let_def split: if_splits option.splits)
qed

function read_lines :: "nat option \<Rightarrow> int \<Rightarrow> int \<Rightarrow> byte list \<Rightarrow> stream \<Rightarrow> (io_error + byte list) \<times> stream" where
  "read_lines lim n i buf s =
     (if i < n then
        case read_delim lim (CHR 0x0A) s of
          (Inl e, s') \<Rightarrow> (Inl e, s')
        | (Inr k, s') \<Rightarrow> read_lines lim n (i + int (length k)) (buf @ k) s'
      else (Inr buf, s))"
  by pat_completeness auto
termination
proof (relation "measure (\<lambda>(lim, n, i, buf, s). length s)", goal_cases)
  case (2 lim n i buf s r s' k)
  then have "read_delim lim (CHR 0x0A) s = (Inr k, s')" by simp
  from read_delim_consumes [OF this] show ?case by auto
qed simp

declare read_lines.simps [simp del]

definition read_framed :: "nat option \<Rightarrow> stream \<Rightarrow> (io_error + byte list) \<times> stream" where
  "read_framed lim s =
     (case read_delim None (CHR '' '') s of
        (Inl e, s') \<Rightarrow> (Inl e, s')
      | (Inr toRead, s') \<Rightarrow> read_lines lim (StrToInt (butlast toRead)) 0 [] s')"

definition strip_last :: "(io_error + byte list) \<times> stream \<Rightarrow> (io_error + byte list) \<times> stream" where
  "strip_last r = (case r of
     (Inr b, s) \<Rightarrow> (Inr (if length b > 0 then butlast b else []), s)
   | (Inl e, s) \<Rightarrow> (Inl e, s))"

definition ReadMessageBuffer :: "stream \<Rightarrow> (io_error + byte list) \<times> stream" where
  "ReadMessageBuffer s = read_framed None s"

definition ReadMessageSlice :: "stream \<Rightarrow> (io_error + byte list) \<times> stream" where
  "ReadMessageSlice s = strip_last (ReadMessageBuffer s)"

definition ReadMessage :: "stream \<Rightarrow> (io_error + string) \<times> stream" where
  "ReadMessage s = strip_last (ReadMessageBuffer s)"

definition KvReadLineBuffer :: "stream \<Rightarrow> (io_error + byte list) \<times> stream" where
  "KvReadLineBuffer s = read_framed (Some 4096) s"

definition KvReadLineSlice :: "stream \<Rightarrow> (io_error + byte list) \<times> stream" where
  "KvReadLineSlice s = strip_last (KvReadLineBuffer s)"

definition KvReadLine :: "stream \<Rightarrow> (io_error + string) \<times> stream" where
  "KvReadLine s = strip_last (KvReadLineBuffer s)"

section \<open>Writers\<close>

record Writer =
  w_buffered :: "byte list"
  w_wire :: "byte list"
  w_room :: nat
  w_err :: bool

definition w_write :: "Writer \<Rightarrow> byte list \<Rightarrow> Writer \<times> io_error option" where
  "w_write w bs = (if w_err w then (w, Some ConnectionBroken)
     else (w\<lparr>w_buffered := w_buffered w @ bs\<rparr>, None))"

definition w_flush :: "Writer \<Rightarrow> Writer \<times> io_error option" where
  "w_flush w =
     (if w_err w then (w, Some ConnectionBroken)
      else
        let n = length (w_buffered w);
            w' = w\<lparr>w_wire := w_wire w @ take (w_room w) (w_buffered w), w_room := w_room w - n,
                   w_buffered := drop (w_room w) (w_buffered w), w_err := w_room w < n\<rparr>
        in (w', if w_room w < n then Some ConnectionBroken else None))"

definition and_then ::
  "Writer \<times> io_error option \<Rightarrow> (Writer \<Rightarrow> Writer \<times> io_error option) \<Rightarrow> Writer \<times> io_error option" where
  "and_then r f = (case r of (w, None) \<Rightarrow> f w | (w, Some e) \<Rightarrow> (w, Some e))"

definition WriteMessage :: "Writer \<Rightarrow> string \<Rightarrow> Writer \<times> io_error option" where
  "WriteMessage w str =
     and_then (w_write w (itoa (length str))) (\<lambda>w.
     and_then (w_write w '' '') (\<lambda>w.
     and_then (w_write w str) (\<lambda>w.
     and_then (w_write w [CHR 0x0A]) w_flush)))"

definition WriteMessageSlice :: "Writer \<Rightarrow> byte list \<Rightarrow> Writer \<times> io_error option" where
  "WriteMessageSlice w str =
     and_then (w_write w (itoa (length str))) (\<lambda>w.
     and_then (w_write w '' '') (\<lambda>w.
     and_then (w_write w str) (\<lambda>w.
     and_then (w_write w [CHR 0x0A]) w_flush)))"

definition KvWriteLine :: "Writer \<Rightarrow> string \<Rightarrow> Writer \<times> io_error option" where
  "KvWriteLine w str =
     and_then (w_write w (itoa (length str))) (\<lambda>w.
     and_then (w_write w '' '') (\<lambda>w.
     and_then (w_write w str) (\<lambda>w.
     and_then (w_write w [CHR 0x0A]) w_flush)))"

definition KvWriteLineSlice :: "Writer \<Rightarrow> byte list \<Rightarrow> Writer \<times> io_error option" where
  "KvWriteLineSlice w str =
     and_then (w_write w (itoa (length str))) (\<lambda>w.
     and_then (w_write w '' '') (\<lambda>w.
     and_then (w_write w str) (\<lambda>w.
     and_then (w_write w [CHR 0x0A]) w_flush)))"

section \<open>Numbers survive printing\<close>

lemma digit_facts: "d < 10 \<Longrightarrow> is_digit (digit d) \<and> digit_of (digit d) = d"
  by (simp add: digit_def is_digit_def digit_of_def)

lemma itoa_facts:
  "itoa n \<noteq> [] \<and> list_all is_digit (itoa n) \<and> foldl (\<lambda>n c. 10 * n + digit_of c) 0 (itoa n) = n"
proof (induction n rule: itoa.induct)
  case (1 n)
  show ?case
  proof (cases "n < 10")
    case True
    then show ?thesis using digit_facts [of n] by (simp add: itoa.simps [of n])
  next
    case False
    then show ?thesis
      using 1 [OF False] digit_facts [of "n mod 10"] by (simp add: itoa.simps [of n])
  qed
qed

lemma parse_nat_itoa [simp]: "parse_nat (itoa n) = Some n"
  using itoa_facts [of n] by (simp add: parse_nat_def)

lemma StrToInt_itoa:
  assumes "n < 2 ^ 63"
  shows "StrToInt (itoa n) = int n"
proof -
  obtain c t where ct: "itoa n = c # t" using itoa_facts [of n] by (cases "itoa n") auto
  then have "is_digit c" using itoa_facts [of n] by simp
  then have "c \<noteq> CHR ''-''" "c \<noteq> CHR ''+''" by (auto simp: is_digit_def)
  then show ?thesis
    using assms parse_nat_itoa [of n] unfolding StrToInt_def ct by (simp add: Let_def)
qed

lemma StrToUInt32_UInt32ToStr: "StrToUInt32 (UInt32ToStr n) = n"
proof -
  have "unat n < 2 ^ 32" by (rule order.strict_trans2 [OF unsigned_less]) simp
  then have "min (unat n) (2 ^ 32 - 1) = unat n" by linarith
  then show ?thesis by (simp add: StrToUInt32_def UInt32ToStr_def)
qed

section \<open>Messages survive the connection\<close>

definition framed :: "byte list \<Rightarrow> byte list" where
  "framed m = itoa (length m) @ '' '' @ m @ [CHR 0x0A]"

lemmas writer_defs = WriteMessageSlice_def KvWriteLine_def KvWriteLineSlice_def WriteMessage_def

lemma WriteMessage_framed:
  assumes "\<not> w_err w" "w_buffered w = []"
  shows "WriteMessage w m =
    (w\<lparr>w_wire := w_wire w @ take (w_room w) (framed m), w_room := w_room w - length (framed m),
       w_buffered := drop (w_room w) (framed m), w_err := w_room w < length (framed m)\<rparr>,
     if w_room w < length (framed m) then Some ConnectionBroken else None)"
  using assms by (simp add: WriteMessage_def and_then_def w_write_def w_flush_def framed_def Let_def)

text \<open>
  What a reader with a bounded buffer can take: every stretch of \<open>k\<close> bytes has a newline.
\<close>

definition fits :: "nat option \<Rightarrow> byte list \<Rightarrow> bool" where
  "fits lim m \<longleftrightarrow> (case lim of None \<Rightarrow> True
     | Some k \<Rightarrow> \<forall>j\<le>length m. CHR 0x0A \<in> set (take k (drop j (m @ [CHR 0x0A]))))"

definition sendable :: "nat option \<Rightarrow> byte list \<Rightarrow> bool" where
  "sendable lim m \<longleftrightarrow> m \<noteq> [] \<and> last m \<noteq> CHR 0x0A \<and> length m < 2 ^ 63 \<and> fits lim m"

lemma fits_drop: "fits lim m \<Longrightarrow> n \<le> length m \<Longrightarrow> fits lim (drop n m)"
proof (cases lim)
  case (Some k)
  assume *: "fits lim m" "n \<le> length m"
  have "CHR 0x0A \<in> set (take k (drop j (drop n m @ [CHR 0x0A])))" if "j \<le> length (drop n m)" for j
  proof -
    have "n + j \<le> length m" using that *(2) by simp
    then have "CHR 0x0A \<in> set (take k (drop (n + j) (m @ [CHR 0x0A])))" using * Some by (simp add: fits_def)
    then show ?thesis using *(2) by (simp add: add.commute)
  qed
  then show ?thesis using Some by (simp add: fits_def)
qed (simp add: fits_def)

lemma read_delim_line:
  assumes "fits lim m"
  shows "read_delim lim (CHR 0x0A) (m @ CHR 0x0A # rest) =
    (Inr (takeWhile (\<lambda>c. c \<noteq> CHR 0x0A) m @ [CHR 0x0A]),
     if CHR 0x0A \<in> set m then tl (dropWhile (\<lambda>c. c \<noteq> CHR 0x0A) m) @ CHR 0x0A # rest else rest)"
proof -
  have "CHR 0x0A \<in> set (case lim of None \<Rightarrow> m @ CHR 0x0A # rest | Some k \<Rightarrow> take k (m @ CHR 0x0A # rest))"
  proof (cases lim)
    case (Some k)
    then have "CHR 0x0A \<in> set (take k (m @ [CHR 0x0A]))"
      using assms by (auto simp: fits_def dest: spec [of _ 0])
    moreover have "take k (m @ CHR 0x0A # rest) = take k (m @ [CHR 0x0A]) @ take (k - Suc (length m)) rest"
      by (cases "k \<le> length m") (auto simp: take_Cons' )
    ultimately show ?thesis using Some by auto
  qed simp
  moreover have "takeWhile (\<lambda>c. c \<noteq> CHR 0x0A) (m @ CHR 0x0A # rest) = takeWhile (\<lambda>c. c \<noteq> CHR 0x0A) m"
    by (induction m) auto
  moreover have "tl (dropWhile (\<lambda>c. c \<noteq> CHR 0x0A) (m @ CHR 0x0A # rest)) =
      (if CHR 0x0A \<in> set m then tl (dropWhile (\<lambda>c. c \<noteq> CHR 0x0A) m) @ CHR 0x0A # rest else rest)"
    by (induction m) auto
  ultimately show ?thesis by (simp add: read_delim_def)
qed

lemma read_lines_framed:
  assumes "m \<noteq> []" "last m \<noteq> CHR 0x0A" "fits lim m" "n = i + int (length m)"
  shows "read_lines lim n i buf (m @ CHR 0x0A # rest) = (Inr (buf @ m @ [CHR 0x0A]), rest)"
  using assms
proof (induction "length m" arbitrary: m i buf rule: less_induct)
  case less
  show ?case
  proof (cases "CHR 0x0A \<in> set m")
    case True
    define front rear where "front = takeWhile (\<lambda>c. c \<noteq> CHR 0x0A) m"
      and "rear = tl (dropWhile (\<lambda>c. c \<noteq> CHR 0x0A) m)"
    have m: "m = front @ CHR 0x0A # rear" using True unfolding front_def rear_def by (induction m) auto
    have rear: "rear \<noteq> []" "last rear \<noteq> CHR 0x0A"
      using less.prems(2) by (auto simp: m split: if_splits)
    have fit: "fits lim rear" using fits_drop [OF less.prems(3), of "length front + 1"] by (simp add: m)
    have "read_lines lim n (i + int (length (front @ [CHR 0x0A]))) (buf @ front @ [CHR 0x0A])
        (rear @ CHR 0x0A # rest) = (Inr ((buf @ front @ [CHR 0x0A]) @ rear @ [CHR 0x0A]), rest)"
      using less.prems(4) by (intro less.hyps rear fit) (simp_all add: m)
    moreover have "i < n" using less.prems(1,4) by simp
    ultimately show ?thesis
      using True read_delim_line [OF less.prems(3), of rest, folded front_def rear_def]
      by (simp add: read_lines.simps [of lim n i]) (simp add: m)
  next
    case False
    then have front: "takeWhile (\<lambda>c. c \<noteq> CHR 0x0A) m = m" by (induction m) auto
    have "i < n" "\<not> i + int (length (m @ [CHR 0x0A])) < n" using less.prems(1,4) by simp_all
    then show ?thesis
      using False read_lines.simps [of lim n "i + int (length (m @ [CHR 0x0A]))" _ rest]
      by (simp add: read_lines.simps [of lim n i] read_delim_line [OF less.prems(3)] front)
  qed
qed

lemma read_framed_framed:
  assumes "sendable lim m"
  shows "read_framed lim (framed m @ rest) = (Inr (m @ [CHR 0x0A]), rest)"
proof -
  let ?len = "itoa (length m)" and ?tail = "m @ CHR 0x0A # rest"
  have "c \<noteq> CHR '' ''" if "c \<in> set ?len" for c
    using itoa_facts [of "length m"] that by (auto simp: list_all_iff is_digit_def)
  then have "takeWhile (\<lambda>c. c \<noteq> CHR '' '') (?len @ '' '' @ ?tail) = ?len"
    "dropWhile (\<lambda>c. c \<noteq> CHR '' '') (?len @ '' '' @ ?tail) = '' '' @ ?tail"
    by (simp_all add: takeWhile_append2 dropWhile_append2)
  then have "read_delim None (CHR '' '') (?len @ '' '' @ ?tail) = (Inr (?len @ '' ''), ?tail)"
    by (simp add: read_delim_def Let_def)
  moreover have "framed m @ rest = ?len @ '' '' @ ?tail" by (simp add: framed_def)
  moreover have "read_lines lim (int (length m)) 0 [] ?tail = (Inr (m @ [CHR 0x0A]), rest)"
    using assms read_lines_framed [of m lim "int (length m)" 0 "[]" rest] by (simp add: sendable_def)
  ultimately show ?thesis
    using assms by (simp add: read_framed_def StrToInt_itoa sendable_def)
qed

section \<open>A channel of messages\<close>

fun write_all ::
  "(Writer \<Rightarrow> byte list \<Rightarrow> Writer \<times> io_error option) \<Rightarrow> Writer \<Rightarrow> byte list list \<Rightarrow> Writer \<times> io_error option" where
  "write_all wr w [] = (w, None)"
| "write_all wr w (m # ms) = and_then (wr w m) (\<lambda>w. write_all wr w ms)"

fun read_all ::
  "(stream \<Rightarrow> (io_error + byte list) \<times> stream) \<Rightarrow> nat \<Rightarrow> stream \<Rightarrow> (io_error + byte list list) \<times> stream" where
  "read_all rd 0 s = (Inr [], s)"
| "read_all rd (Suc n) s =
     (case rd s of
        (Inl e, s') \<Rightarrow> (Inl e, s')
      | (Inr m, s') \<Rightarrow> (case read_all rd n s' of (Inl e, s'') \<Rightarrow> (Inl e, s'') | (Inr ms, s'') \<Rightarrow> (Inr (m # ms), s'')))"

text \<open>
  The contract of a pair of writer and reader: a working connection carries the framed message, and the
  reader takes exactly one frame off the stream.
\<close>

locale message_channel =
  fixes wr :: "Writer \<Rightarrow> byte list \<Rightarrow> Writer \<times> io_error option"
    and rd :: "stream \<Rightarrow> (io_error + byte list) \<times> stream" and good :: "byte list \<Rightarrow> bool"
  assumes wr_frames: "\<not> w_err w \<Longrightarrow> w_buffered w = [] \<Longrightarrow> length (framed m) \<le> w_room w \<Longrightarrow>
      wr w m = (w\<lparr>w_wire := w_wire w @ framed m, w_room := w_room w - length (framed m)\<rparr>, None)"
    and rd_frames: "good m \<Longrightarrow> rd (framed m @ rest) = (Inr m, rest)"
begin

lemma write_all_frames:
  assumes "\<not> w_err w" "w_buffered w = []" "length (concat (map framed ms)) \<le> w_room w"
  shows "\<exists>w'. write_all wr w ms = (w', None) \<and> w_wire w' = w_wire w @ concat (map framed ms)"
  using assms
proof (induction ms arbitrary: w)
  case (Cons m ms)
  let ?w = "w\<lparr>w_wire := w_wire w @ framed m, w_room := w_room w - length (framed m)\<rparr>"
  have "wr w m = (?w, None)" using Cons.prems by (intro wr_frames) auto
  moreover have "\<exists>w'. write_all wr ?w ms = (w', None) \<and> w_wire w' = w_wire ?w @ concat (map framed ms)"
    using Cons.prems by (intro Cons.IH) auto
  ultimately show ?case by (auto simp: and_then_def)
qed simp

lemma read_all_frames:
  "\<forall>m\<in>set ms. good m \<Longrightarrow> read_all rd (length ms) (concat (map framed ms) @ rest) = (Inr ms, rest)"
  by (induction ms) (simp_all add: rd_frames)

lemma transfer:
  assumes "\<forall>m\<in>set ms. good m" "\<not> w_err w" "w_buffered w = []" "w_wire w = []"
    "length (concat (map framed ms)) \<le> w_room w"
  shows "\<exists>w'. write_all wr w ms = (w', None) \<and> read_all rd (length ms) (w_wire w') = (Inr ms, [])"
  using write_all_frames [OF assms(2,3,5)] read_all_frames [OF assms(1), of "[]"] assms(4) by auto

end

lemma writers_frame:
  assumes "\<not> w_err w" "w_buffered w = []" "length (framed m) \<le> w_room w"
  shows "WriteMessage w m = (w\<lparr>w_wire := w_wire w @ framed m, w_room := w_room w - length (framed m)\<rparr>, None)"
proof -
  have "w\<lparr>w_wire := v, w_room := r, w_buffered := [], w_err := False\<rparr> = w\<lparr>w_wire := v, w_room := r\<rparr>" for v r
    using assms(1,2) by (cases w) simp
  then show ?thesis using assms WriteMessage_framed [OF assms(1,2), of m] by (simp add: not_less)
qed

lemma readers_frame:
  "sendable lim m \<Longrightarrow> strip_last (read_framed lim (framed m @ rest)) = (Inr m, rest)"
  by (simp add: read_framed_framed strip_last_def)

lemma same_writers:
  "WriteMessageSlice = WriteMessage" "KvWriteLine = WriteMessage" "KvWriteLineSlice = WriteMessage"
  by (simp_all add: writer_defs fun_eq_iff)

interpretation editor_slices: message_channel WriteMessageSlice ReadMessageSlice "sendable None"
  by unfold_locales (simp_all add: same_writers writers_frame ReadMessageSlice_def ReadMessageBuffer_def readers_frame)

interpretation editor_strings: message_channel WriteMessage ReadMessage "sendable None"
  by unfold_locales (simp_all add: writers_frame ReadMessage_def ReadMessageBuffer_def readers_frame)

interpretation kv_slices: message_channel KvWriteLineSlice KvReadLineSlice "sendable (Some 4096)"
  by unfold_locales (simp_all add: same_writers writers_frame KvReadLineSlice_def KvReadLineBuffer_def readers_frame)

interpretation kv_strings: message_channel KvWriteLine KvReadLine "sendable (Some 4096)"
  by unfold_locales (simp_all add: same_writers writers_frame KvReadLine_def KvReadLineBuffer_def readers_frame)

lemma sendable_short:
  assumes "m \<noteq> []" "last m \<noteq> CHR 0x0A" "length m < k" "k < 2 ^ 63"
  shows "sendable (Some k) m"
  using assms by (auto simp: sendable_def fits_def)

definition fresh_writer :: Writer where
  "fresh_writer = \<lparr>w_buffered = [], w_wire = [], w_room = 100, w_err = False\<rparr>"

lemma fresh_writer_facts:
  "\<not> w_err fresh_writer" "w_buffered fresh_writer = []" "w_wire fresh_writer = []"
  "length (concat (map framed [''ab'', ''c d''])) \<le> w_room fresh_writer"
  by (simp_all add: fresh_writer_def framed_def itoa.simps)

section \<open>Properties\<close>



text \<open>The same for the key-value store, whose reader also needs a newline in every 4096 bytes.\<close>

theorem kv_lines_survive:
  assumes "\<forall>m\<in>set ms. sendable (Some 4096) m" "\<not> w_err w" "w_buffered w = []" "w_wire w = []"
    "length (concat (map framed ms)) \<le> w_room w"
  shows "\<exists>w'. write_all KvWriteLineSlice w ms = (w', None) \<and>
    read_all KvReadLineSlice (length ms) (w_wire w') = (Inr ms, [])"
  by (rule kv_slices.transfer [OF assms])

theorem kv_lines_survive_witness:
  "\<exists>w'. write_all KvWriteLineSlice fresh_writer [''ab'', ''c d''] = (w', None) \<and>
    read_all KvReadLineSlice (length [''ab'', ''c d'']) (w_wire w') = (Inr [''ab'', ''c d''], [])"
proof (rule kv_lines_survive [OF _ fresh_writer_facts])
  show "\<forall>m\<in>set [''ab'', ''c d'']. sendable (Some 4096) m" by (auto intro: sendable_short)
qed

text \<open>An empty message, and a message that ends with a newline, leave a newline in the stream; the next
  message is then read as the empty one although the writer reported success.\<close>

theorem framing_desynchronises:
  "ReadMessageSlice (framed [] @ framed ''ab'') = (Inr [], CHR 0x0A # framed ''ab'') \<and>
   ReadMessageSlice (framed (''x'' @ [CHR 0x0A]) @ framed ''ab'') = (Inr ''x'', CHR 0x0A # framed ''ab'') \<and>
   ReadMessageSlice (CHR 0x0A # framed ''ab'') = (Inr [], ''ab'' @ [CHR 0x0A])"
  by code_simp

end
