(* ===== verification/KvNode.thy ===== *)
theory KvNode
  imports Gossip Framing "HOL-Library.AList"
begin

text \<open>
  A node of the key-value store: \<^verbatim>\<open>assignment4/kv-node.go\<close>. The store maps keys to a version and a value; a key that is
  absent reads as version 0 and the empty value. Maps are association lists, in the order a \<open>range\<close> loop visits
  them. A failed \<open>CheckError\<close> ends the process, which is the left side of the result. The JSON library is a
  parameter. Versions are 64-bit words.
\<close>

section \<open>Requests and responses\<close>

definition GET :: int where "GET = 0"
definition PUT :: int where "PUT = 1"
definition TEST_PUT :: int where "TEST_PUT = 2"
definition QUERY :: int where "QUERY = 3"

lemmas request_types = GET_def PUT_def TEST_PUT_def QUERY_def

record KeyArg =
  ka_Type :: int
  ka_Version :: uint64
  ka_TestVal :: string
  ka_NewVal :: string

record KvArgs =
  args_RequestId :: uint64
  args_Keys :: "(string \<times> KeyArg) list"
  args_Kill :: bool

record KvValue =
  kv_Version :: uint64
  kv_Value :: string

record KvResponse =
  resp_RequestId :: uint64
  resp_Values :: "(string \<times> KvValue) list"
  resp_Kill :: bool

type_synonym kvmap = "(string \<times> KvValue) list"

definition no_value :: KvValue where
  "no_value = \<lparr>kv_Version = 0, kv_Value = []\<rparr>"

definition kv_lookup :: "kvmap \<Rightarrow> string \<Rightarrow> KvValue" where
  "kv_lookup m key = (case map_of m key of None \<Rightarrow> no_value | Some v \<Rightarrow> v)"

text \<open>The end of the branches of the loop: a key that is asked for is there from then on.\<close>

definition kv_ensure :: "kvmap \<Rightarrow> string \<Rightarrow> kvmap" where
  "kv_ensure m key = (if map_of m key = None then AList.update key no_value m else m)"

definition handle_key :: "kvmap \<times> kvmap \<Rightarrow> string \<times> KeyArg \<Rightarrow> kvmap \<times> kvmap" where
  "handle_key = (\<lambda>(kvmap, responseMap) (key, keyarg).
     if ka_Type keyarg = GET then
       (kv_ensure kvmap key, AList.update key (kv_lookup kvmap key) responseMap)
     else if ka_Type keyarg = QUERY then
       (kvmap, AList.update key (kv_lookup kvmap key) responseMap)
     else if ka_Type keyarg = PUT then
       let kvmap = (if kv_Version (kv_lookup kvmap key) < ka_Version keyarg
              then AList.update key \<lparr>kv_Version = ka_Version keyarg, kv_Value = ka_NewVal keyarg\<rparr> kvmap else kvmap)
       in (kv_ensure kvmap key,
           AList.update key \<lparr>kv_Version = kv_Version (kv_lookup kvmap key), kv_Value = []\<rparr> responseMap)
     else if ka_Type keyarg = TEST_PUT then
       let kvmap =
             (if kv_Version (kv_lookup kvmap key) < ka_Version keyarg then
                if kv_Value (kv_lookup kvmap key) = ka_TestVal keyarg
                then AList.update key \<lparr>kv_Version = ka_Version keyarg, kv_Value = ka_NewVal keyarg\<rparr> kvmap
                else AList.update key \<lparr>kv_Version = ka_Version keyarg, kv_Value = kv_Value (kv_lookup kvmap key)\<rparr> kvmap
              else kvmap)
       in (kv_ensure kvmap key, AList.update key (kv_lookup kvmap key) responseMap)
     else (kvmap, responseMap))"

definition handle_keys :: "kvmap \<Rightarrow> (string \<times> KeyArg) list \<Rightarrow> kvmap \<times> kvmap" where
  "handle_keys kvmap ks = foldl handle_key (kvmap, []) ks"

definition handleRequest :: "(byte list \<Rightarrow> string + KvArgs) \<Rightarrow> kvmap \<Rightarrow> byte list \<Rightarrow> string + (kvmap \<times> KvResponse)" where
  "handleRequest unmarshal kvmap request =
     (case unmarshal request of
        Inl err \<Rightarrow> Inl err
      | Inr arg \<Rightarrow>
          if args_Kill arg then
            Inr (kvmap, \<lparr>resp_RequestId = args_RequestId arg, resp_Values = [], resp_Kill = True\<rparr>)
          else
            (case handle_keys kvmap (args_Keys arg) of
               (kvmap, responseMap) \<Rightarrow>
                 Inr (kvmap, \<lparr>resp_RequestId = args_RequestId arg, resp_Values = responseMap, resp_Kill = False\<rparr>)))"

text \<open>One round of the loop of \<open>main\<close>, and one of \<open>writeRoutine\<close>; the boolean says that the process exits.\<close>

definition main_round ::
  "(byte list \<Rightarrow> string + KvArgs) \<Rightarrow> stream \<Rightarrow> kvmap \<Rightarrow> KvResponse list \<Rightarrow> string + (stream \<times> kvmap \<times> KvResponse list)" where
  "main_round unmarshal s kvmap writeChannel =
     (case KvReadLineSlice s of
        (Inl e, s') \<Rightarrow> Inl ''read''
      | (Inr request, s') \<Rightarrow>
          (case handleRequest unmarshal kvmap request of
             Inl err \<Rightarrow> Inl err
           | Inr (kvmap, response) \<Rightarrow> Inr (s', kvmap, writeChannel @ [response])))"

definition writeRoutine :: "(KvResponse \<Rightarrow> string + byte list) \<Rightarrow> Writer \<Rightarrow> KvResponse \<Rightarrow> Writer \<times> bool" where
  "writeRoutine marshal writer response =
     (let str = (case marshal response of Inl err \<Rightarrow> [] | Inr bytes \<Rightarrow> bytes)
      in (fst (KvWriteLineSlice writer str), resp_Kill response))"

section \<open>What a request does to a key\<close>

definition next_value :: "KeyArg \<Rightarrow> KvValue \<Rightarrow> KvValue" where
  "next_value a v =
     (if ka_Type a \<in> {PUT, TEST_PUT} \<and> kv_Version v < ka_Version a
      then \<lparr>kv_Version = ka_Version a,
             kv_Value = (if ka_Type a = PUT \<or> kv_Value v = ka_TestVal a then ka_NewVal a else kv_Value v)\<rparr>
      else v)"

definition answer :: "KeyArg \<Rightarrow> KvValue \<Rightarrow> KvValue" where
  "answer a v = (if ka_Type a = PUT then v\<lparr>kv_Value := []\<rparr> else v)"

definition asks :: "KeyArg \<Rightarrow> bool" where
  "asks a \<longleftrightarrow> ka_Type a \<in> {GET, PUT, TEST_PUT, QUERY}"

lemma kv_lookup_update [simp]: "kv_lookup (AList.update k v m) j = (if j = k then v else kv_lookup m j)"
  by (simp add: kv_lookup_def update_conv)

lemma kv_lookup_ensure [simp]: "kv_lookup (kv_ensure m k) j = kv_lookup m j"
  by (simp add: kv_ensure_def) (simp add: kv_lookup_def)

lemma handle_key_effect:
  "kv_lookup (fst (handle_key (m, r) (key, a))) k = (if k = key then next_value a (kv_lookup m key) else kv_lookup m k)"
  "map_of (snd (handle_key (m, r) (key, a))) k =
    (if k = key \<and> asks a then Some (answer a (next_value a (kv_lookup m key))) else map_of r k)"
  by (simp_all add: handle_key_def next_value_def answer_def asks_def request_types update_conv Let_def)

lemma handle_keys_effect:
  assumes "distinct (map fst ks)"
  shows "kv_lookup (fst (foldl handle_key (m, r) ks)) k =
      (case map_of ks k of None \<Rightarrow> kv_lookup m k | Some a \<Rightarrow> next_value a (kv_lookup m k)) \<and>
    map_of (snd (foldl handle_key (m, r) ks)) k =
      (case map_of ks k of None \<Rightarrow> map_of r k
       | Some a \<Rightarrow> if asks a then Some (answer a (next_value a (kv_lookup m k))) else map_of r k)"
  using assms
proof (induction ks arbitrary: m r)
  case (Cons e ks)
  obtain key a where e: "e = (key, a)" by force
  obtain m' r' where h: "handle_key (m, r) (key, a) = (m', r')" by force
  have none: "map_of ks key = None" using Cons.prems by (simp add: e map_of_eq_None_iff)
  have IH: "kv_lookup (fst (foldl handle_key (m', r') ks)) k =
      (case map_of ks k of None \<Rightarrow> kv_lookup m' k | Some a \<Rightarrow> next_value a (kv_lookup m' k)) \<and>
    map_of (snd (foldl handle_key (m', r') ks)) k =
      (case map_of ks k of None \<Rightarrow> map_of r' k
       | Some a \<Rightarrow> if asks a then Some (answer a (next_value a (kv_lookup m' k))) else map_of r' k)"
    using Cons.prems by (intro Cons.IH) simp
  show ?case
    using IH handle_key_effect [of m r key a k, unfolded h] none
    by (cases "k = key") (simp_all add: e h split: option.split)
qed simp

lemma next_value_grows: "kv_Version v \<le> kv_Version (next_value a v)"
  by (auto simp: next_value_def less_imp_le)

definition offered_version :: "(string \<times> KeyArg) list \<Rightarrow> string \<Rightarrow> uint64" where
  "offered_version ks k =
     (case map_of ks k of None \<Rightarrow> 0 | Some a \<Rightarrow> if ka_Type a \<in> {PUT, TEST_PUT} then ka_Version a else 0)"

lemma next_value_version:
  "kv_Version (next_value a v) = max (kv_Version v) (if ka_Type a \<in> {PUT, TEST_PUT} then ka_Version a else 0)"
  by (auto simp: next_value_def max_def less_imp_le)

interpretation version_gossip: join_merge "\<lambda>m ks. fst (handle_keys m ks)" "\<lambda>m k. kv_Version (kv_lookup m k)"
  offered_version "\<lambda>ks. distinct (map fst ks)"
proof unfold_locales
  fix ks :: "(string \<times> KeyArg) list" and m k
  assume "distinct (map fst ks)"
  from handle_keys_effect [OF this, of m "[]" k]
  show "kv_Version (kv_lookup (fst (handle_keys m ks)) k) = max (kv_Version (kv_lookup m k)) (offered_version ks k)"
    by (simp add: handle_keys_def offered_version_def next_value_version split: option.split)
qed

section \<open>Replicas\<close>

text \<open>
  The front end gives every write of a key its own version, so the version says which value was written: \<open>val k n\<close>.
\<close>

definition writes :: "(string \<Rightarrow> uint64 \<Rightarrow> string) \<Rightarrow> (string \<times> KeyArg) list \<Rightarrow> bool" where
  "writes val ks \<longleftrightarrow> distinct (map fst ks) \<and>
     (\<forall>(k, a)\<in>set ks. ka_Type a \<noteq> TEST_PUT \<and> (ka_Type a = PUT \<longrightarrow> ka_NewVal a = val k (ka_Version a)))"

definition faithful :: "(string \<Rightarrow> uint64 \<Rightarrow> string) \<Rightarrow> kvmap \<Rightarrow> bool" where
  "faithful val m \<longleftrightarrow> (\<forall>k. kv_Value (kv_lookup m k) = val k (kv_Version (kv_lookup m k)))"

lemma handle_keys_faithful:
  assumes "writes val ks" "faithful val m"
  shows "faithful val (fst (handle_keys m ks))"
proof -
  have "kv_Value (kv_lookup (fst (handle_keys m ks)) k) = val k (kv_Version (kv_lookup (fst (handle_keys m ks)) k))" for k
  proof (cases "map_of ks k")
    case None
    then show ?thesis
      using handle_keys_effect [of ks m "[]" k] assms by (simp add: handle_keys_def writes_def faithful_def)
  next
    case (Some a)
    have "ka_Type a \<noteq> TEST_PUT" "ka_Type a = PUT \<longrightarrow> ka_NewVal a = val k (ka_Version a)"
      using assms(1) map_of_SomeD [OF Some] by (auto simp: writes_def)
    then show ?thesis
      using handle_keys_effect [of ks m "[]" k] assms Some
      by (auto simp: handle_keys_def writes_def faithful_def next_value_def request_types)
  qed
  then show ?thesis by (simp add: faithful_def)
qed

lemma faithful_all:
  "\<forall>ks\<in>set kss. writes val ks \<Longrightarrow> faithful val m \<Longrightarrow> faithful val (foldl (\<lambda>m ks. fst (handle_keys m ks)) m kss)"
  by (induction kss arbitrary: m) (simp_all add: handle_keys_faithful)

section \<open>Properties\<close>

text \<open>a request is answered key by key: a newer \<open>PUT\<close> replaces the value, a newer \<open>TEST_PUT\<close> replaces it when
  the value is the expected one and takes the new version in any case, everything else leaves it; the response has
  exactly the keys asked for, with the values as they are afterwards, and no version ever goes down.\<close>

theorem handleRequest_effect:
  assumes "unmarshal request = Inr arg" "\<not> args_Kill arg" "distinct (map fst (args_Keys arg))"
  shows "\<exists>m' r. handleRequest unmarshal m request = Inr (m', r) \<and> resp_RequestId r = args_RequestId arg \<and>
    kv_lookup m' k = (case map_of (args_Keys arg) k of None \<Rightarrow> kv_lookup m k | Some a \<Rightarrow> next_value a (kv_lookup m k)) \<and>
    map_of (resp_Values r) k =
      (case map_of (args_Keys arg) k of None \<Rightarrow> None | Some a \<Rightarrow> if asks a then Some (answer a (kv_lookup m' k)) else None) \<and>
    kv_Version (kv_lookup m k) \<le> kv_Version (kv_lookup m' k)"
  using assms handle_keys_effect [OF assms(3), of m "[]" k] next_value_grows
  by (auto simp: handleRequest_def handle_keys_def split: prod.split option.split)

theorem handleRequest_effect_witness:
  "\<exists>m' r. handleRequest (\<lambda>bs. Inr \<lparr>args_RequestId = 7, args_Keys = [(''k'', \<lparr>ka_Type = PUT, ka_Version = 1, ka_TestVal = [], ka_NewVal = ''v''\<rparr>)],
      args_Kill = False\<rparr>) [] ''json'' = Inr (m', r) \<and> kv_lookup m' ''k'' = \<lparr>kv_Version = 1, kv_Value = ''v''\<rparr>"
proof -
  let ?arg = "\<lparr>args_RequestId = 7, args_Keys = [(''k'', \<lparr>ka_Type = PUT, ka_Version = 1, ka_TestVal = [], ka_NewVal = ''v''\<rparr>)],
    args_Kill = False\<rparr>"
  from handleRequest_effect [of "\<lambda>bs. Inr ?arg" "''json''" ?arg "[]" "''k''"] show ?thesis
    by (auto simp: next_value_def kv_lookup_def no_value_def)
qed



end
