(* ===== verification/KvFront.thy ===== *)
theory KvFront
  imports KvNode
begin

text \<open>
  The front end of the key-value store: \<^verbatim>\<open>assignment4/kv-front-end.go\<close>. Clients call \<open>Get\<close>, \<open>Put\<close> and \<open>TestSet\<close>;
  \<open>mainRoutine\<close> sends each request to all replicas of its key; one goroutine per node writes the requests to the node
  and another one reads its responses; \<open>nodesRoutine\<close> follows nodes that come and go; \<open>replicationRoutine\<close> copies keys
  to another node.

  Nodes, request queues and response channels are objects that several goroutines hold pointers to, so the
  state has a store for each. Entries of \<open>KeyMap\<close> are never replaced, so a pointer to the metadata of a key is the
  key, and the map \<open>Keys\<close> of a node is the list of its keys. Maps are association lists in the order a \<open>range\<close> loop
  visits them. A critical section is one step; a goroutine that waits for a channel keeps what it needs in
  its \<open>fe_thread\<close>. A response channel has a capacity, and the non-blocking send drops a response when it is full; other
  sends are to channels with room. The random numbers of \<open>rand.Intn\<close> and the JSON library are parameters.
\<close>

section \<open>Data\<close>

definition DISCONNECTED :: int where "DISCONNECTED = 4"
definition KILL :: int where "KILL = 5"
definition KV_CONNECT :: string where "KV_CONNECT = ''CONNECT''"
definition KV_DISCCONECT :: string where "KV_DISCCONECT = ''DISCONNECT''"
definition UNAVAILABLE :: string where "UNAVAILABLE = ''unavailable''"

record FeResponse =
  fr_RequestId :: uint64
  fr_Values :: "(string \<times> KvValue) list"
  fr_Unavailable :: bool
  fr_Kill :: bool

definition unavailable_response :: FeResponse where
  "unavailable_response = \<lparr>fr_RequestId = 0, fr_Values = [], fr_Unavailable = True, fr_Kill = False\<rparr>"

record KvRequest =
  rq_Type :: int
  rq_Key :: string
  rq_Keys :: "(string \<times> KeyArg) list"
  rq_Channel :: "nat option"

record KvRequestQueue =
  q_Channel :: "KvRequest list"
  q_Closed :: bool

record KvBroadcast =
  b_Type :: string
  b_Id :: string
  b_RequestQueue :: nat

record KeyMetadata =
  km_Version :: uint64
  km_Unavailable :: bool
  km_Sending :: int
  km_Nodes :: "(string \<times> nat) list"

record NodeMetadata =
  md_Id :: string
  md_Keys :: "string list"
  md_RequestQueue :: nat
  md_Killed :: bool

text \<open>
  Goroutines that are started and may wait: a send to a channel, the loop of \<open>filterChannelUnavailable\<close> with the
  responses still to come, and \<open>replicationRoutine\<close> at the start of a round, while it collects the answers of the
  replicas, and while it waits for the target node.
\<close>

datatype fe_thread =
    Respond "nat option" FeResponse
  | Filter nat nat "nat option" string
  | Replicate nat "string list"
  | Collect nat "string list" nat nat "(string \<times> KeyArg) list"
  | AwaitPut nat "string list" nat

record chan =
  ch_cap :: nat
  ch_buf :: "FeResponse list"

record frontend =
  fe_KeyMap :: "(string \<times> KeyMetadata) list"
  fe_NodeMap :: "(string \<times> nat) list"
  fe_nodes :: "NodeMetadata list"
  fe_queues :: "KvRequestQueue list"
  fe_chans :: "chan list"
  fe_requestChannel :: "KvRequest list"
  fe_nodesBroadcast :: "KvBroadcast list"
  fe_threads :: "fe_thread list"

definition new_frontend :: frontend where
  "new_frontend = \<lparr>fe_KeyMap = [], fe_NodeMap = [], fe_nodes = [], fe_queues = [], fe_chans = [],
     fe_requestChannel = [], fe_nodesBroadcast = [], fe_threads = []\<rparr>"

definition go :: "frontend \<Rightarrow> fe_thread list \<Rightarrow> frontend" where
  "go fe ts = fe\<lparr>fe_threads := fe_threads fe @ ts\<rparr>"

definition make_chan :: "frontend \<Rightarrow> nat \<Rightarrow> frontend \<times> nat" where
  "make_chan fe n = (fe\<lparr>fe_chans := fe_chans fe @ [\<lparr>ch_cap = n, ch_buf = []\<rparr>]\<rparr>, length (fe_chans fe))"

definition chan_send :: "frontend \<Rightarrow> nat \<Rightarrow> FeResponse \<Rightarrow> frontend" where
  "chan_send fe c r =
     fe\<lparr>fe_chans := (fe_chans fe)[c := (fe_chans fe ! c)\<lparr>ch_buf := ch_buf (fe_chans fe ! c) @ [r]\<rparr>]\<rparr>"

definition chan_rest :: "frontend \<Rightarrow> nat \<Rightarrow> FeResponse list \<Rightarrow> frontend" where
  "chan_rest fe c rs = fe\<lparr>fe_chans := (fe_chans fe)[c := (fe_chans fe ! c)\<lparr>ch_buf := rs\<rparr>]\<rparr>"

definition chan_try_send :: "frontend \<Rightarrow> nat \<Rightarrow> FeResponse \<Rightarrow> frontend" where
  "chan_try_send fe c r = (if length (ch_buf (fe_chans fe ! c)) < ch_cap (fe_chans fe ! c) then chan_send fe c r else fe)"

section \<open>Request queues\<close>

definition RequestAndClose :: "frontend \<Rightarrow> nat \<Rightarrow> KvRequest \<Rightarrow> frontend" where
  "RequestAndClose fe q request =
     fe\<lparr>fe_queues := (fe_queues fe)[q := \<lparr>q_Channel = q_Channel (fe_queues fe ! q) @ [request], q_Closed = True\<rparr>]\<rparr>"

definition Request :: "frontend \<Rightarrow> nat \<Rightarrow> KvRequest \<Rightarrow> frontend" where
  "Request fe q request =
     (if \<not> q_Closed (fe_queues fe ! q) then
        fe\<lparr>fe_queues := (fe_queues fe)[q := (fe_queues fe ! q)\<lparr>q_Channel := q_Channel (fe_queues fe ! q) @ [request]\<rparr>]\<rparr>
      else if rq_Channel request \<noteq> None then go fe [Respond (rq_Channel request) unavailable_response] else fe)"

definition Receive :: "frontend \<Rightarrow> nat \<Rightarrow> (frontend \<times> KvRequest) option" where
  "Receive fe q =
     (case q_Channel (fe_queues fe ! q) of
        [] \<Rightarrow> None
      | r # rs \<Rightarrow> Some (fe\<lparr>fe_queues := (fe_queues fe)[q := (fe_queues fe ! q)\<lparr>q_Channel := rs\<rparr>]\<rparr>, r))"

section \<open>Calls of the clients\<close>

datatype rpc = Replied string | Failed string | Waits nat string

definition setResponse :: "string \<Rightarrow> FeResponse \<Rightarrow> string prog" where
  "setResponse key response =
     (if fr_Unavailable response then returns UNAVAILABLE
      else case map_of (fr_Values response) key of None \<Rightarrow> panics NilDereference | Some v \<Rightarrow> returns (kv_Value v))"

definition ask :: "frontend \<Rightarrow> string \<Rightarrow> KeyArg \<Rightarrow> frontend \<times> rpc" where
  "ask fe key keyArg =
     (case make_chan fe 5 of
        (fe, c) \<Rightarrow>
          (fe\<lparr>fe_requestChannel := fe_requestChannel fe @
               [\<lparr>rq_Type = 0, rq_Key = key, rq_Keys = [(key, keyArg)], rq_Channel = Some c\<rparr>]\<rparr>, Waits c key))"

text \<open>\<open>strings.Fields\<close> on ASCII text, and \<open>strings.Join\<close>.\<close>

definition is_space :: "char \<Rightarrow> bool" where
  "is_space c \<longleftrightarrow> c \<in> {CHR '' '', CHR 0x09, CHR 0x0A, CHR 0x0B, CHR 0x0C, CHR 0x0D}"

function fields :: "string \<Rightarrow> string list" where
  "fields [] = []"
| "fields (c # s) =
     (if is_space c then fields s
      else (c # takeWhile (\<lambda>d. \<not> is_space d) s) # fields (dropWhile (\<lambda>d. \<not> is_space d) s))"
  by pat_completeness auto
termination by (relation "measure length") (auto simp: less_Suc_eq_le length_dropWhile_le)

fun join_with :: "string list \<Rightarrow> string \<Rightarrow> string" where
  "join_with [] sep = []"
| "join_with [x] sep = x"
| "join_with (x # xs) sep = x @ sep @ join_with xs sep"

text \<open>
  The request that kills a node. The caller holds the lock until the node has answered or is gone, so nothing
  happens to the metadata in between.
\<close>

definition kill_node :: "frontend \<Rightarrow> nat \<Rightarrow> frontend" where
  "kill_node fe a =
     (case make_chan fe 5 of
        (fe, c) \<Rightarrow>
          let fe = RequestAndClose fe (md_RequestQueue (fe_nodes fe ! a))
                 \<lparr>rq_Type = KILL, rq_Key = [], rq_Keys = [], rq_Channel = Some c\<rparr>
          in fe\<lparr>fe_nodes := (fe_nodes fe)[a := (fe_nodes fe ! a)\<lparr>md_Killed := True\<rparr>]\<rparr>)"

definition replicas_of :: "frontend \<Rightarrow> string \<Rightarrow> string list" where
  "replicas_of fe key =
     (case map_of (fe_KeyMap fe) key of
        None \<Rightarrow> []
      | Some km \<Rightarrow> map fst (filter (\<lambda>(nid, a). \<not> md_Killed (fe_nodes fe ! a)) (km_Nodes km)))"

definition kill_replica :: "frontend \<Rightarrow> string \<Rightarrow> frontend \<times> rpc" where
  "kill_replica fe nid =
     (case map_of (fe_NodeMap fe) nid of
        None \<Rightarrow> (fe, Replied ''false'')
      | Some a \<Rightarrow> if \<not> md_Killed (fe_nodes fe ! a) then (kill_node fe a, Replied ''true'') else (fe, Replied ''false''))"

text \<open>The loop that picks the nodes to kill writes to a slice of length \<open>size\<close> before it tests whether it is full.\<close>

fun pick_loop :: "NodeMetadata list \<Rightarrow> nat \<Rightarrow> (string \<times> nat) list \<Rightarrow> nat list \<Rightarrow> nat list prog" where
  "pick_loop heap room [] picked = returns picked"
| "pick_loop heap room ((nid, a) # nodes) picked =
     (if \<not> md_Killed (heap ! a) \<and> \<not> length picked < room then panics IndexOutOfRange
      else
        let picked = (if \<not> md_Killed (heap ! a) then picked @ [a] else picked)
        in if room \<le> length picked then returns picked else pick_loop heap room nodes picked)"

definition kill_replicas_of :: "frontend \<Rightarrow> string \<Rightarrow> int \<Rightarrow> (frontend \<times> rpc) prog" where
  "kill_replicas_of fe key nReplicas =
     (if nReplicas < 0 then returns (fe, Failed ''number of replicas killed should be positive'')
      else case map_of (fe_KeyMap fe) key of
        None \<Rightarrow> returns (fe, Replied (itoa 0))
      | Some km \<Rightarrow>
          pbind (pick_loop (fe_nodes fe) (min (length (km_Nodes km)) (nat nReplicas)) (km_Nodes km) []) (\<lambda>picked.
          returns (foldl kill_node fe picked, Replied (itoa (length picked)))))"

text \<open>\<open>strconv.Atoi\<close> with its error.\<close>

definition Atoi :: "string \<Rightarrow> int option" where
  "Atoi s =
     (let sign = (\<lambda>t f. case parse_nat t of None \<Rightarrow> None | Some n \<Rightarrow> if - (2 ^ 63) \<le> f n \<and> f n < 2 ^ 63 then Some (f n) else None)
      in case s of
           c # t \<Rightarrow> if c = CHR ''-'' then sign t (\<lambda>n. - int n)
                    else if c = CHR ''+'' then sign t int else sign s int
         | [] \<Rightarrow> None)"

definition rpc_Get :: "frontend \<Rightarrow> string \<Rightarrow> (frontend \<times> rpc) prog" where
  "rpc_Get fe key =
     (if length key < 3 then panics SliceOutOfRange
      else
        let tokens = fields key;
            plain = returns (ask fe key \<lparr>ka_Type = GET, ka_Version = 0, ka_TestVal = [], ka_NewVal = []\<rparr>)
        in if take 3 key = ''CMD'' then
             if length tokens = 3 then
               if tokens ! 1 = ''get-replicas-of'' then returns (fe, Replied (join_with (replicas_of fe (tokens ! 2)) '' ''))
               else if tokens ! 1 = ''kill-replica'' then returns (kill_replica fe (tokens ! 2)) else plain
             else if length tokens = 4 then
               if tokens ! 1 = ''kill-replicas-of'' then
                 (case Atoi (tokens ! 3) of
                    None \<Rightarrow> returns (fe, Failed ''strconv.Atoi'')
                  | Some nReplicas \<Rightarrow> kill_replicas_of fe (tokens ! 2) nReplicas)
               else plain
             else plain
           else plain)"

definition rpc_Put :: "frontend \<Rightarrow> string \<Rightarrow> string \<Rightarrow> frontend \<times> rpc" where
  "rpc_Put fe key val = ask fe key \<lparr>ka_Type = PUT, ka_Version = 0, ka_TestVal = [], ka_NewVal = val\<rparr>"

definition rpc_TestSet :: "frontend \<Rightarrow> string \<Rightarrow> string \<Rightarrow> string \<Rightarrow> frontend \<times> rpc" where
  "rpc_TestSet fe key testVal newVal =
     ask fe key \<lparr>ka_Type = TEST_PUT, ka_Version = 0, ka_TestVal = testVal, ka_NewVal = newVal\<rparr>"

text \<open>The end of a call, when the response is there.\<close>

definition rpc_finish :: "frontend \<Rightarrow> nat \<Rightarrow> string \<Rightarrow> (frontend \<times> string) option prog" where
  "rpc_finish fe c key =
     (case ch_buf (fe_chans fe ! c) of
        [] \<Rightarrow> returns None
      | r # rs \<Rightarrow> pbind (setResponse key r) (\<lambda>val. returns (Some (chan_rest fe c rs, val))))"

section \<open>Connections of the nodes\<close>

text \<open>
  The two goroutines of a connected node share the map from request ids to channels. \<open>kc_in\<close> is what the node
  sends, \<open>kc_listening\<close> and \<open>kc_serving\<close> say which of the two goroutines still run.
\<close>

record kv_conn =
  kc_id :: string
  kc_queue :: nat
  kc_Map :: "(uint64 \<times> nat option) list"
  kc_requestId :: uint64
  kc_in :: stream
  kc_writer :: Writer
  kc_serving :: bool
  kc_listening :: bool

definition handleKvNode :: "frontend \<Rightarrow> stream \<Rightarrow> Writer \<Rightarrow> frontend \<times> kv_conn option" where
  "handleKvNode fe s w =
     (case KvReadLine s of
        (Inl err, s') \<Rightarrow> (fe, None)
      | (Inr nid, s') \<Rightarrow>
          let q = length (fe_queues fe)
          in (fe\<lparr>fe_queues := fe_queues fe @ [\<lparr>q_Channel = [], q_Closed = False\<rparr>],
                 fe_nodesBroadcast := fe_nodesBroadcast fe @ [\<lparr>b_Type = KV_CONNECT, b_Id = nid, b_RequestQueue = q\<rparr>]\<rparr>,
              Some \<lparr>kc_id = nid, kc_queue = q, kc_Map = [], kc_requestId = 0, kc_in = s', kc_writer = w,
                kc_serving = True, kc_listening = True\<rparr>))"

definition kv_serve :: "(KvArgs \<Rightarrow> string + byte list) \<Rightarrow> frontend \<Rightarrow> kv_conn \<Rightarrow> frontend \<times> kv_conn" where
  "kv_serve marshal fe kc =
     (case Receive fe (kc_queue kc) of
        None \<Rightarrow> (fe, kc)
      | Some (fe, request) \<Rightarrow>
          if rq_Type request = DISCONNECTED then
            (go (fe\<lparr>fe_nodesBroadcast := fe_nodesBroadcast fe @
                    [\<lparr>b_Type = KV_DISCCONECT, b_Id = kc_id kc, b_RequestQueue = kc_queue kc\<rparr>]\<rparr>)
               (map (\<lambda>(i, c). Respond c unavailable_response) (kc_Map kc)),
             kc\<lparr>kc_serving := False\<rparr>)
          else
            let args = \<lparr>args_RequestId = kc_requestId kc, args_Keys = rq_Keys request, args_Kill = rq_Type request = KILL\<rparr>;
                str = (case marshal args of Inl err \<Rightarrow> [] | Inr bytes \<Rightarrow> bytes)
            in (fe, kc\<lparr>kc_Map := AList.update (kc_requestId kc) (rq_Channel request) (kc_Map kc),
                      kc_requestId := kc_requestId kc + 1,
                      kc_writer := fst (KvWriteLineSlice (kc_writer kc) str)\<rparr>))"

definition listenKvNodeResponse :: "(byte list \<Rightarrow> FeResponse) \<Rightarrow> frontend \<Rightarrow> kv_conn \<Rightarrow> frontend \<times> kv_conn" where
  "listenKvNodeResponse unmarshal fe kc =
     (case KvReadLineSlice (kc_in kc) of
        (Inl err, s') \<Rightarrow>
          (RequestAndClose fe (kc_queue kc) \<lparr>rq_Type = DISCONNECTED, rq_Key = [], rq_Keys = [], rq_Channel = None\<rparr>,
           kc\<lparr>kc_in := s', kc_listening := False\<rparr>)
      | (Inr str, s') \<Rightarrow>
          let response = unmarshal str;
              kc' = kc\<lparr>kc_in := s', kc_Map := AList.delete (fr_RequestId response) (kc_Map kc)\<rparr>
          in case map_of (kc_Map kc) (fr_RequestId response) of
               Some (Some c) \<Rightarrow> (chan_try_send fe c response, kc')
             | _ \<Rightarrow> (fe, kc'))"

section \<open>Choosing nodes\<close>

definition getNodesAsList :: "(string \<times> nat) list \<Rightarrow> nat list" where
  "getNodesAsList nodes = map snd nodes"

definition swap :: "nat list \<Rightarrow> nat \<Rightarrow> nat \<Rightarrow> nat list" where
  "swap xs i j = xs[j := xs ! i, i := xs ! j]"

text \<open>\<open>intn i n\<close> is what the \<open>i\<close>-th call of \<open>rand.Intn\<close> returns for \<open>n\<close>.\<close>

fun randomize_loop :: "(nat \<Rightarrow> nat \<Rightarrow> nat) \<Rightarrow> nat list \<Rightarrow> nat \<Rightarrow> nat \<Rightarrow> nat list prog" where
  "randomize_loop intn xs i 0 = returns xs"
| "randomize_loop intn xs i (Suc n) =
     (if length xs \<le> i then panics (ExplicitPanic ''invalid argument to Intn'')
      else randomize_loop intn (swap xs i (i + intn i (length xs - i))) (Suc i) n)"

definition randomizeNodes :: "(nat \<Rightarrow> nat \<Rightarrow> nat) \<Rightarrow> nat list \<Rightarrow> nat \<Rightarrow> nat list prog" where
  "randomizeNodes intn nodesList limit = randomize_loop intn nodesList 0 limit"

definition key_meta :: "frontend \<Rightarrow> string \<Rightarrow> KeyMetadata" where
  "key_meta fe key = the (map_of (fe_KeyMap fe) key)"

definition set_key_meta :: "frontend \<Rightarrow> string \<Rightarrow> KeyMetadata \<Rightarrow> frontend" where
  "set_key_meta fe key km = fe\<lparr>fe_KeyMap := AList.update key km (fe_KeyMap fe)\<rparr>"

definition add_key :: "frontend \<Rightarrow> nat \<Rightarrow> string \<Rightarrow> frontend" where
  "add_key fe a key = fe\<lparr>fe_nodes := (fe_nodes fe)[a := (fe_nodes fe ! a)\<lparr>md_Keys := List.insert key (md_Keys (fe_nodes fe ! a))\<rparr>]\<rparr>"

text \<open>Both directions of the relation between a key and a node that has it.\<close>

definition link :: "string \<Rightarrow> frontend \<Rightarrow> nat \<Rightarrow> frontend" where
  "link key fe a =
     (let km = key_meta fe key
      in add_key (set_key_meta fe key (km\<lparr>km_Nodes := AList.update (md_Id (fe_nodes fe ! a)) a (km_Nodes km)\<rparr>)) a key)"

definition prepareNodesForFirstReplication ::
  "(nat \<Rightarrow> nat \<Rightarrow> nat) \<Rightarrow> frontend \<Rightarrow> string \<Rightarrow> nat \<Rightarrow> (frontend \<times> nat list) prog" where
  "prepareNodesForFirstReplication intn fe key replicationFactor =
     (let nodesList = getNodesAsList (fe_NodeMap fe); limit = min (length nodesList) replicationFactor
      in pbind (randomizeNodes intn nodesList limit) (\<lambda>nodesList.
         let nodesList = take limit nodesList;
             fe = set_key_meta fe key \<lparr>km_Version = 0, km_Unavailable = False, km_Sending = 0, km_Nodes = []\<rparr>
         in returns (foldl (link key) fe nodesList, nodesList)))"

section \<open>Requests\<close>

definition filterChannelUnavailable :: "frontend \<Rightarrow> nat \<Rightarrow> nat option \<Rightarrow> string \<Rightarrow> frontend \<times> nat" where
  "filterChannelUnavailable fe limit channel key =
     (case make_chan fe (limit + 5) of (fe, newChannel) \<Rightarrow> (go fe [Filter limit newChannel channel key], newChannel))"

text \<open>
  One step of its goroutine: it takes a response and goes on or answers, which is its last action. Nothing
  happens as long as there is no response. After as many unavailable responses as there are nodes the key is lost.
\<close>

definition filter_step :: "frontend \<Rightarrow> nat \<Rightarrow> nat \<Rightarrow> nat option \<Rightarrow> string \<Rightarrow> (frontend \<times> fe_thread) option" where
  "filter_step fe limit newChannel channel key =
     (if limit = 0 then
        let km = key_meta fe key
        in Some (set_key_meta fe key (km\<lparr>km_Unavailable := True, km_Sending := km_Sending km - 1\<rparr>),
             Respond channel unavailable_response)
      else case ch_buf (fe_chans fe ! newChannel) of
        [] \<Rightarrow> None
      | r # rs \<Rightarrow>
          let fe = chan_rest fe newChannel rs; km = key_meta fe key
          in if \<not> fr_Unavailable r then
               Some (set_key_meta fe key (km\<lparr>km_Sending := km_Sending km - 1\<rparr>),
                 Respond channel (if km_Unavailable km then unavailable_response else r))
             else Some (fe, Filter (limit - 1) newChannel channel key))"

definition mainRoutine :: "(nat \<Rightarrow> nat \<Rightarrow> nat) \<Rightarrow> nat \<Rightarrow> frontend \<Rightarrow> KvRequest \<Rightarrow> frontend prog" where
  "mainRoutine intn replicationFactor fe request =
     (let key = rq_Key request in
      pbind (case map_of (fe_KeyMap fe) key of
               None \<Rightarrow> prepareNodesForFirstReplication intn fe key replicationFactor
             | Some km \<Rightarrow> returns (fe, getNodesAsList (km_Nodes km))) (\<lambda>(fe, nodes).
      let km = key_meta fe key; unavailable = km_Unavailable km;
          fe = set_key_meta fe key (km\<lparr>km_Sending := km_Sending km + 1\<rparr>)
      in if unavailable \<or> length nodes = 0 then
            let km = key_meta fe key;
                fe = (if \<not> unavailable then set_key_meta fe key (km\<lparr>km_Unavailable := True, km_Sending := km_Sending km - 1\<rparr>) else fe)
            in returns (go fe [Respond (rq_Channel request) unavailable_response])
          else
            (case filterChannelUnavailable fe (length nodes) (rq_Channel request) key of
               (fe, newChannel) \<Rightarrow>
                 (case map_of (rq_Keys request) key of
                    None \<Rightarrow> panics NilDereference
                  | Some keyArg \<Rightarrow>
                      let km = key_meta fe key; writes = ka_Type keyArg = PUT \<or> ka_Type keyArg = TEST_PUT;
                          fe = (if writes then set_key_meta fe key (km\<lparr>km_Version := km_Version km + 1\<rparr>) else fe);
                          keyArg = (if writes then keyArg\<lparr>ka_Version := km_Version km + 1\<rparr> else keyArg);
                          request = request\<lparr>rq_Channel := Some newChannel, rq_Keys := AList.update key keyArg (rq_Keys request)\<rparr>
                      in returns (foldl (\<lambda>fe a. Request fe (md_RequestQueue (fe_nodes fe ! a)) request) fe nodes)))))"

section \<open>Replication\<close>

fun partition_loop :: "NodeMetadata list \<Rightarrow> nat list \<Rightarrow> string list \<Rightarrow> fe_thread list \<Rightarrow> fe_thread list" where
  "partition_loop heap [] ks started = started"
| "partition_loop heap (a # as) ks started =
     (let subkeys = filter (\<lambda>k. k \<notin> set (md_Keys (heap ! a))) ks;
          ks = filter (\<lambda>k. k \<in> set (md_Keys (heap ! a))) ks;
          started = (if length subkeys > 0 then started @ [Replicate a subkeys] else started)
      in if length ks = 0 then started else partition_loop heap as ks started)"

definition partitionAndReplicate :: "(nat \<Rightarrow> nat \<Rightarrow> nat) \<Rightarrow> frontend \<Rightarrow> string list \<Rightarrow> frontend prog" where
  "partitionAndReplicate intn fe ks =
     (let nodesList = getNodesAsList (fe_NodeMap fe)
      in pbind (randomizeNodes intn nodesList (length nodesList)) (\<lambda>nodesList.
         returns (go fe (partition_loop (fe_nodes fe) nodesList ks []))))"

definition unlink :: "string \<Rightarrow> frontend \<Rightarrow> string \<Rightarrow> frontend" where
  "unlink nid fe key =
     (let km = key_meta fe key in set_key_meta fe key (km\<lparr>km_Nodes := AList.delete nid (km_Nodes km)\<rparr>))"

definition nodesRoutine :: "(nat \<Rightarrow> nat \<Rightarrow> nat) \<Rightarrow> nat \<Rightarrow> frontend \<Rightarrow> KvBroadcast \<Rightarrow> frontend prog" where
  "nodesRoutine intn replicationFactor fe nodeInfo =
     (if b_Type nodeInfo = KV_CONNECT then
        let a = length (fe_nodes fe);
            fe = fe\<lparr>fe_nodes := fe_nodes fe @
                     [\<lparr>md_Id = b_Id nodeInfo, md_Keys = [], md_RequestQueue = b_RequestQueue nodeInfo, md_Killed = False\<rparr>],
                   fe_NodeMap := AList.update (b_Id nodeInfo) a (fe_NodeMap fe)\<rparr>
        in returns
             (if length (fe_NodeMap fe) \<le> replicationFactor
              then go fe [Replicate a (map fst (filter (\<lambda>(key, km). length (km_Nodes km) > 0) (fe_KeyMap fe)))] else fe)
      else if b_Type nodeInfo = KV_DISCCONECT then
        (case map_of (fe_NodeMap fe) (b_Id nodeInfo) of
           None \<Rightarrow> panics NilDereference
         | Some a \<Rightarrow>
             let ks = md_Keys (fe_nodes fe ! a);
                 fe = foldl (unlink (b_Id nodeInfo)) fe ks;
                 fe = fe\<lparr>fe_NodeMap := AList.delete (b_Id nodeInfo) (fe_NodeMap fe)\<rparr>
             in partitionAndReplicate intn fe ks)
      else returns fe)"

text \<open>
  \<open>replicationRoutine\<close> in three parts: it asks the replicas of the keys, collects their answers until it has all keys or
  has heard all replicas (\<open>mergeReplicatingQuery\<close>), and checks what the target node has after the \<open>PUT\<close>.
\<close>

fun nodes_with_keys :: "frontend \<Rightarrow> string list \<Rightarrow> (string \<times> nat option) list \<Rightarrow> (string \<times> nat option) list prog" where
  "nodes_with_keys fe [] nodesMap = returns nodesMap"
| "nodes_with_keys fe (key # ks) nodesMap =
     (case map_of (fe_KeyMap fe) key of
        None \<Rightarrow> panics NilDereference
      | Some km \<Rightarrow> nodes_with_keys fe ks
          (foldl (\<lambda>m (nid, a). AList.update nid (map_of (fe_NodeMap fe) nid) m) nodesMap (km_Nodes km)))"

fun query_nodes :: "KvRequest \<Rightarrow> (string \<times> nat option) list \<Rightarrow> frontend \<Rightarrow> frontend prog" where
  "query_nodes request [] fe = returns fe"
| "query_nodes request ((nid, None) # nodes) fe = panics NilDereference"
| "query_nodes request ((nid, Some a) # nodes) fe =
     query_nodes request nodes (Request fe (md_RequestQueue (fe_nodes fe ! a)) request)"

definition replicationRoutine :: "frontend \<Rightarrow> nat \<Rightarrow> string list \<Rightarrow> (frontend \<times> fe_thread option) prog" where
  "replicationRoutine fe a ks =
     (if length ks = 0 then returns (fe, None)
      else
        pbind (nodes_with_keys fe ks []) (\<lambda>nodesMap.
        case make_chan fe (length nodesMap + 5) of
          (fe, c) \<Rightarrow>
            let request = \<lparr>rq_Type = 0, rq_Key = [],
                  rq_Keys = map (\<lambda>k. (k, \<lparr>ka_Type = QUERY, ka_Version = 0, ka_TestVal = [], ka_NewVal = []\<rparr>)) ks,
                  rq_Channel = Some c\<rparr>
            in pbind (query_nodes request nodesMap fe) (\<lambda>fe. returns (fe, Some (Collect a ks (length nodesMap) c [])))))"

fun merge_values :: "(string \<times> KeyArg) list \<Rightarrow> (string \<times> KvValue) list \<Rightarrow> (string \<times> KeyArg) list" where
  "merge_values keyMap [] = keyMap"
| "merge_values keyMap ((key, v) # vs) =
     (case map_of keyMap key of
        None \<Rightarrow> merge_values (AList.update key
            \<lparr>ka_Type = PUT, ka_Version = kv_Version v, ka_TestVal = [], ka_NewVal = kv_Value v\<rparr> keyMap) vs
      | Some keyArg \<Rightarrow>
          if ka_Version keyArg < kv_Version v
          then merge_values (AList.update key (keyArg\<lparr>ka_Version := kv_Version v, ka_NewVal := kv_Value v\<rparr>) keyMap) vs
          else merge_values keyMap vs)"

definition put_merged :: "frontend \<Rightarrow> nat \<Rightarrow> string list \<Rightarrow> (string \<times> KeyArg) list \<Rightarrow> frontend \<times> fe_thread" where
  "put_merged fe a ks requestKeys =
     (case make_chan fe 5 of
        (fe, c) \<Rightarrow>
          (Request fe (md_RequestQueue (fe_nodes fe ! a))
             \<lparr>rq_Type = 0, rq_Key = [], rq_Keys = requestKeys, rq_Channel = Some c\<rparr>, AwaitPut a ks c))"

definition mergeReplicatingQuery ::
  "frontend \<Rightarrow> nat \<Rightarrow> string list \<Rightarrow> nat \<Rightarrow> nat \<Rightarrow> (string \<times> KeyArg) list \<Rightarrow> (frontend \<times> fe_thread) option" where
  "mergeReplicatingQuery fe a ks n c keyMap =
     (if n = 0 then Some (put_merged fe a ks keyMap)
      else case ch_buf (fe_chans fe ! c) of
        [] \<Rightarrow> None
      | r # rs \<Rightarrow>
          let fe = chan_rest fe c rs
          in if fr_Unavailable r then Some (fe, Collect a ks (n - 1) c keyMap)
             else
               let keyMap = merge_values keyMap (fr_Values r)
               in if length ks \<le> length keyMap then Some (put_merged fe a ks keyMap)
                  else Some (fe, Collect a ks (n - 1) c keyMap))"

fun check_keys :: "FeResponse \<Rightarrow> nat \<Rightarrow> string list \<Rightarrow> frontend \<Rightarrow> string list \<Rightarrow> frontend \<times> string list" where
  "check_keys r a [] fe left = (fe, left)"
| "check_keys r a (key # ks) fe left =
     (let km = key_meta fe key in
      if length (km_Nodes km) = 0 then check_keys r a ks fe left
      else case map_of (fr_Values r) key of
        Some v \<Rightarrow>
          if \<not> km_Unavailable km \<and> km_Sending km = 0 \<and> kv_Version v = km_Version km
          then check_keys r a ks (link key fe a) left else check_keys r a ks fe (left @ [key])
      | None \<Rightarrow> check_keys r a ks fe (left @ [key]))"

definition replication_check ::
  "(nat \<Rightarrow> nat \<Rightarrow> nat) \<Rightarrow> frontend \<Rightarrow> nat \<Rightarrow> string list \<Rightarrow> nat \<Rightarrow> (frontend \<times> fe_thread option) option prog" where
  "replication_check intn fe a ks c =
     (case ch_buf (fe_chans fe ! c) of
        [] \<Rightarrow> returns None
      | r # rs \<Rightarrow>
          let fe = chan_rest fe c rs
          in if fr_Unavailable r then pbind (partitionAndReplicate intn fe ks) (\<lambda>fe. returns (Some (fe, None)))
             else (case check_keys r a ks fe [] of (fe, left) \<Rightarrow> returns (Some (fe, Some (Replicate a left)))))"

end
