(* ===== verification/KvFrontInv.thy ===== *)
theory KvFrontInv
  imports KvFront "HOL-Library.Multiset"
begin

text \<open>
  The invariant of the front end of the key-value store and its proof: the tables of keys and nodes point at each
  other consistently, queues and channels exist, and every goroutine, request and broadcast refers to things that
  are there.
\<close>

section \<open>Shuffling\<close>

definition rand_ok :: "(nat \<Rightarrow> nat \<Rightarrow> nat) \<Rightarrow> bool" where
  "rand_ok intn \<longleftrightarrow> (\<forall>i n. 0 < n \<longrightarrow> intn i n < n)"

lemma randomize_loop_perm:
  assumes "rand_ok intn" "i + n \<le> length xs"
  shows "\<exists>ys. randomize_loop intn xs i n = returns ys \<and> mset ys = mset xs"
  using assms(2)
proof (induction n arbitrary: xs i)
  case (Suc n)
  let ?j = "i + intn i (length xs - i)"
  have "intn i (length xs - i) < length xs - i" using assms(1) Suc.prems by (simp add: rand_ok_def)
  then have j: "?j < length xs" "i < length xs" using Suc.prems by simp_all
  have m: "mset (swap xs i ?j) = mset xs" unfolding swap_def by (rule mset_swap [OF j(2,1)])
  have "Suc i + n \<le> length (swap xs i ?j)" using Suc.prems by (simp add: swap_def)
  from Suc.IH [OF this] show ?case using j m by (auto simp: not_le)
qed simp

lemma randomizeNodes_perm:
  assumes "rand_ok intn" "n \<le> length xs"
  shows "\<exists>ys. randomizeNodes intn xs n = returns ys \<and> mset ys = mset xs"
  using randomize_loop_perm [OF assms(1), of 0 n xs] assms(2) by (simp add: randomizeNodes_def)

section \<open>The tables\<close>

definition has_key :: "frontend \<Rightarrow> string \<Rightarrow> bool" where
  "has_key fe k \<longleftrightarrow> map_of (fe_KeyMap fe) k \<noteq> None"

definition key_ok :: "frontend \<Rightarrow> string \<Rightarrow> KeyMetadata \<Rightarrow> bool" where
  "key_ok fe k km \<longleftrightarrow> distinct (map fst (km_Nodes km)) \<and>
     (\<forall>(nid, a)\<in>set (km_Nodes km). a < length (fe_nodes fe) \<and> md_Id (fe_nodes fe ! a) = nid \<and> k \<in> set (md_Keys (fe_nodes fe ! a)))"

definition node_ok :: "frontend \<Rightarrow> NodeMetadata \<Rightarrow> bool" where
  "node_ok fe n \<longleftrightarrow> md_RequestQueue n < length (fe_queues fe) \<and> (\<forall>k\<in>set (md_Keys n). has_key fe k)"

definition tables_ok :: "frontend \<Rightarrow> bool" where
  "tables_ok fe \<longleftrightarrow> distinct (map fst (fe_KeyMap fe)) \<and> distinct (map fst (fe_NodeMap fe)) \<and>
     (\<forall>(nid, a)\<in>set (fe_NodeMap fe). a < length (fe_nodes fe) \<and> md_Id (fe_nodes fe ! a) = nid) \<and>
     (\<forall>n\<in>set (fe_nodes fe). node_ok fe n) \<and>
     (\<forall>k km. map_of (fe_KeyMap fe) k = Some km \<longrightarrow> key_ok fe k km)"

lemma tables_okD:
  assumes "tables_ok fe"
  shows "distinct (map fst (fe_KeyMap fe))" "distinct (map fst (fe_NodeMap fe))"
    "\<And>nid a. (nid, a) \<in> set (fe_NodeMap fe) \<Longrightarrow> a < length (fe_nodes fe) \<and> md_Id (fe_nodes fe ! a) = nid"
    "\<And>a. a < length (fe_nodes fe) \<Longrightarrow> node_ok fe (fe_nodes fe ! a)"
    "\<And>k km. map_of (fe_KeyMap fe) k = Some km \<Longrightarrow> key_ok fe k km"
  using assms by (auto simp: tables_ok_def)

lemma tables_ok_frame:
  assumes "tables_ok fe" "fe_KeyMap fe' = fe_KeyMap fe" "fe_NodeMap fe' = fe_NodeMap fe" "fe_nodes fe' = fe_nodes fe"
    "length (fe_queues fe) \<le> length (fe_queues fe')"
  shows "tables_ok fe'"
proof -
  have same: "key_ok fe' = key_ok fe" using assms(4) by (simp add: fun_eq_iff key_ok_def)
  have "node_ok fe' n" if "node_ok fe n" for n using that assms(2,5) by (auto simp: node_ok_def has_key_def)
  then show ?thesis using assms(1-4) by (auto simp: tables_ok_def same)
qed

lemma has_key_set [simp]: "has_key (set_key_meta fe k km) j \<longleftrightarrow> j = k \<or> has_key fe j"
  by (simp add: has_key_def set_key_meta_def update_conv)

lemma key_meta_set [simp]: "key_meta (set_key_meta fe k km) j = (if j = k then km else key_meta fe j)"
  by (simp add: key_meta_def set_key_meta_def update_conv)

lemma set_key_meta_simps [simp]:
  "fe_NodeMap (set_key_meta fe k km) = fe_NodeMap fe" "fe_nodes (set_key_meta fe k km) = fe_nodes fe"
  "fe_queues (set_key_meta fe k km) = fe_queues fe" "fe_chans (set_key_meta fe k km) = fe_chans fe"
  "fe_threads (set_key_meta fe k km) = fe_threads fe" "fe_requestChannel (set_key_meta fe k km) = fe_requestChannel fe"
  "fe_nodesBroadcast (set_key_meta fe k km) = fe_nodesBroadcast fe"
  by (simp_all add: set_key_meta_def)

lemma tables_ok_set_key:
  assumes "tables_ok fe" "key_ok fe k km"
  shows "tables_ok (set_key_meta fe k km)"
proof -
  have same: "key_ok (set_key_meta fe k km) = key_ok fe" by (simp add: fun_eq_iff key_ok_def)
  have "key_ok fe j km'" if j: "map_of (AList.update k km (fe_KeyMap fe)) j = Some km'" for j km'
  proof (cases "j = k")
    case False
    then show ?thesis using j tables_okD(5) [OF assms(1)] by (simp add: update_conv)
  qed (use j assms(2) in \<open>simp add: update_conv\<close>)
  then show ?thesis
    using assms(1) by (auto simp: tables_ok_def same node_ok_def distinct_update) (simp add: set_key_meta_def distinct_update | simp add: set_key_meta_def)+
qed

lemma key_ok_meta: "tables_ok fe \<Longrightarrow> has_key fe k \<Longrightarrow> key_ok fe k (key_meta fe k)"
  using tables_okD(5) by (auto simp: has_key_def key_meta_def)

lemma key_ok_nodes: "key_ok fe k km \<Longrightarrow> set (km_Nodes km') \<subseteq> set (km_Nodes km) \<Longrightarrow> distinct (map fst (km_Nodes km')) \<Longrightarrow> key_ok fe k km'"
  by (auto simp: key_ok_def)

lemma tables_ok_update_meta:
  assumes "tables_ok fe" "has_key fe k" "km_Nodes km = km_Nodes (key_meta fe k)"
  shows "tables_ok (set_key_meta fe k km)"
  using key_ok_meta [OF assms(1,2)] assms(3) by (intro tables_ok_set_key [OF assms(1)]) (simp add: key_ok_def)

lemma tables_ok_add_key:
  assumes "tables_ok fe" "a < length (fe_nodes fe)" "has_key fe k"
  shows "tables_ok (add_key fe a k)"
proof -
  let ?fe = "add_key fe a k"
  have node: "fe_nodes ?fe ! b = (if b = a then (fe_nodes fe ! a)\<lparr>md_Keys := List.insert k (md_Keys (fe_nodes fe ! a))\<rparr> else fe_nodes fe ! b)" for b
    using assms(2) by (simp add: add_key_def)
  have rest: "fe_KeyMap ?fe = fe_KeyMap fe" "fe_NodeMap ?fe = fe_NodeMap fe" "length (fe_nodes ?fe) = length (fe_nodes fe)" "fe_queues ?fe = fe_queues fe"
    by (simp_all add: add_key_def)
  have "node_ok ?fe (fe_nodes ?fe ! b)" if b: "b < length (fe_nodes fe)" for b
    using tables_okD(4) [OF assms(1) b] assms(3) by (auto simp: node rest node_ok_def has_key_def)
  then have "\<forall>n\<in>set (fe_nodes ?fe). node_ok ?fe n" by (simp add: all_set_conv_all_nth rest)
  moreover have "key_ok ?fe j km" if j: "map_of (fe_KeyMap fe) j = Some km" for j km
    using tables_okD(5) [OF assms(1) j] by (fastforce simp: key_ok_def node rest)
  moreover have "\<forall>(nid, b)\<in>set (fe_NodeMap fe). b < length (fe_nodes fe) \<and> md_Id (fe_nodes ?fe ! b) = nid"
    using tables_okD(3) [OF assms(1)] by (fastforce simp: node)
  ultimately show ?thesis using assms(1) by (simp add: tables_ok_def rest)
qed

lemma set_update_subset: "set (AList.update k v xs) \<subseteq> insert (k, v) (set xs)"
  by (induction xs) auto

lemma link_ok:
  assumes "tables_ok fe" "a < length (fe_nodes fe)" "has_key fe k"
  shows "tables_ok (link k fe a)"
proof -
  let ?nid = "md_Id (fe_nodes fe ! a)" and ?km = "key_meta fe k"
  let ?fe1 = "add_key fe a k"
  let ?km' = "?km\<lparr>km_Nodes := AList.update ?nid a (km_Nodes ?km)\<rparr>"
  have 1: "tables_ok ?fe1" by (rule tables_ok_add_key [OF assms])
  have hk: "has_key ?fe1 k" and km: "key_meta ?fe1 k = ?km" using assms(3) by (simp_all add: add_key_def has_key_def key_meta_def)
  have ok: "key_ok ?fe1 k ?km" using key_ok_meta [OF 1 hk] km by simp
  have "set (AList.update ?nid a (km_Nodes ?km)) \<subseteq> insert (?nid, a) (set (km_Nodes ?km))"
    by (rule set_update_subset)
  then have "key_ok ?fe1 k ?km'"
    using ok assms(2) by (fastforce simp: key_ok_def distinct_update add_key_def)
  moreover have "link k fe a = set_key_meta ?fe1 k ?km'"
    by (cases fe) (simp add: link_def Let_def set_key_meta_def add_key_def key_meta_def)
  ultimately show ?thesis using tables_ok_set_key [OF 1] by simp
qed

lemma link_simps [simp]:
  "fe_NodeMap (link k fe a) = fe_NodeMap fe" "length (fe_nodes (link k fe a)) = length (fe_nodes fe)"
  "fe_queues (link k fe a) = fe_queues fe" "fe_chans (link k fe a) = fe_chans fe" "fe_threads (link k fe a) = fe_threads fe"
  "fe_requestChannel (link k fe a) = fe_requestChannel fe" "fe_nodesBroadcast (link k fe a) = fe_nodesBroadcast fe"
  "has_key (link k fe a) j \<longleftrightarrow> j = k \<or> has_key fe j"
  by (simp_all add: link_def Let_def add_key_def) (simp add: has_key_def set_key_meta_def update_conv)

lemma unlink_ok:
  assumes "tables_ok fe" "has_key fe k"
  shows "tables_ok (unlink nid fe k)"
proof -
  have ok: "key_ok fe k (key_meta fe k)" by (rule key_ok_meta [OF assms])
  have "key_ok fe k ((key_meta fe k)\<lparr>km_Nodes := AList.delete nid (km_Nodes (key_meta fe k))\<rparr>)"
    by (rule key_ok_nodes [OF ok])
      (use ok distinct_delete [of "km_Nodes (key_meta fe k)" nid] in \<open>auto simp: key_ok_def AList.delete_eq\<close>)
  from tables_ok_set_key [OF assms(1) this] show ?thesis by (simp add: unlink_def Let_def)
qed

section \<open>Goroutines, requests and broadcasts\<close>

definition chan_ok :: "frontend \<Rightarrow> nat option \<Rightarrow> bool" where
  "chan_ok fe c \<longleftrightarrow> (case c of None \<Rightarrow> True | Some c \<Rightarrow> c < length (fe_chans fe))"

fun fe_thread_ok :: "frontend \<Rightarrow> fe_thread \<Rightarrow> bool" where
  "fe_thread_ok fe (Respond c r) \<longleftrightarrow> chan_ok fe c"
| "fe_thread_ok fe (Filter n c d k) \<longleftrightarrow> c < length (fe_chans fe) \<and> chan_ok fe d \<and> has_key fe k"
| "fe_thread_ok fe (Replicate a ks) \<longleftrightarrow> a < length (fe_nodes fe) \<and> (\<forall>k\<in>set ks. has_key fe k)"
| "fe_thread_ok fe (Collect a ks n c m) \<longleftrightarrow> a < length (fe_nodes fe) \<and> (\<forall>k\<in>set ks. has_key fe k) \<and> c < length (fe_chans fe)"
| "fe_thread_ok fe (AwaitPut a ks c) \<longleftrightarrow> a < length (fe_nodes fe) \<and> (\<forall>k\<in>set ks. has_key fe k) \<and> c < length (fe_chans fe)"

definition request_ok :: "frontend \<Rightarrow> KvRequest \<Rightarrow> bool" where
  "request_ok fe r \<longleftrightarrow> chan_ok fe (rq_Channel r) \<and> map_of (rq_Keys r) (rq_Key r) \<noteq> None"

definition fe_ok :: "frontend \<Rightarrow> bool" where
  "fe_ok fe \<longleftrightarrow> tables_ok fe \<and> (\<forall>t\<in>set (fe_threads fe). fe_thread_ok fe t) \<and>
     (\<forall>r\<in>set (fe_requestChannel fe). request_ok fe r) \<and>
     (\<forall>b\<in>set (fe_nodesBroadcast fe). b_RequestQueue b < length (fe_queues fe)) \<and>
     (\<forall>q\<in>set (fe_queues fe). \<forall>r\<in>set (q_Channel q). chan_ok fe (rq_Channel r))"

text \<open>What a step may change of the things others point at: they only become more.\<close>

definition fe_le :: "frontend \<Rightarrow> frontend \<Rightarrow> bool" where
  "fe_le fe fe' \<longleftrightarrow> length (fe_nodes fe) \<le> length (fe_nodes fe') \<and> length (fe_queues fe) \<le> length (fe_queues fe') \<and>
     length (fe_chans fe) \<le> length (fe_chans fe') \<and> (\<forall>k. has_key fe k \<longrightarrow> has_key fe' k)"

lemma fe_le_refl [simp]: "fe_le fe fe"
  by (simp add: fe_le_def)

lemma fe_le_trans [trans]: "fe_le a b \<Longrightarrow> fe_le b c \<Longrightarrow> fe_le a c"
  unfolding fe_le_def by (meson order_trans)

lemma chan_ok_mono: "chan_ok fe c \<Longrightarrow> fe_le fe fe' \<Longrightarrow> chan_ok fe' c"
  by (auto simp: chan_ok_def fe_le_def split: option.splits)

lemma fe_thread_ok_mono: "fe_thread_ok fe t \<Longrightarrow> fe_le fe fe' \<Longrightarrow> fe_thread_ok fe' t"
  by (cases t) (auto simp: chan_ok_mono, auto simp: fe_le_def)

lemma request_ok_mono: "request_ok fe r \<Longrightarrow> fe_le fe fe' \<Longrightarrow> request_ok fe' r"
  by (auto simp: request_ok_def chan_ok_mono)

definition fe_advances :: "frontend \<Rightarrow> frontend \<Rightarrow> bool" where
  "fe_advances fe fe' \<longleftrightarrow> fe_ok fe' \<and> fe_le fe fe'"

lemma fe_advances_refl: "fe_ok fe \<Longrightarrow> fe_advances fe fe"
  by (simp add: fe_advances_def)

lemma fe_advances_trans [trans]: "fe_advances a b \<Longrightarrow> fe_advances b c \<Longrightarrow> fe_advances a c"
  by (auto simp: fe_advances_def intro: fe_le_trans)

lemma fe_advances_ok: "fe_advances fe fe' \<Longrightarrow> fe_ok fe'"
  by (simp add: fe_advances_def)

lemma fe_advances_step:
  assumes "fe_ok fe" "tables_ok fe'" "fe_le fe fe'"
    "set (fe_threads fe') \<subseteq> set (fe_threads fe) \<union> T" "\<forall>t\<in>T. fe_thread_ok fe' t"
    "set (fe_requestChannel fe') \<subseteq> set (fe_requestChannel fe) \<union> R" "\<forall>r\<in>R. request_ok fe' r"
    "set (fe_nodesBroadcast fe') \<subseteq> set (fe_nodesBroadcast fe) \<union> B" "\<forall>b\<in>B. b_RequestQueue b < length (fe_queues fe')"
    "\<forall>q\<in>set (fe_queues fe'). \<forall>r\<in>set (q_Channel q). chan_ok fe' (rq_Channel r)"
  shows "fe_advances fe fe'"
proof -
  have "fe_thread_ok fe' t" if "t \<in> set (fe_threads fe')" for t
    using that assms(1,4,5) fe_thread_ok_mono [OF _ assms(3)] by (auto simp: fe_ok_def)
  moreover have "request_ok fe' r" if "r \<in> set (fe_requestChannel fe')" for r
    using that assms(1,6,7) request_ok_mono [OF _ assms(3)] by (auto simp: fe_ok_def)
  moreover have "b_RequestQueue b < length (fe_queues fe')" if "b \<in> set (fe_nodesBroadcast fe')" for b
  proof -
    have "length (fe_queues fe) \<le> length (fe_queues fe')" using assms(3) by (simp add: fe_le_def)
    moreover have "b \<in> set (fe_nodesBroadcast fe) \<or> b \<in> B" using that assms(8) by auto
    ultimately show ?thesis using assms(1,9) by (auto simp: fe_ok_def dest: order_less_le_trans)
  qed
  ultimately show ?thesis using assms(2,3,10) by (simp add: fe_advances_def fe_ok_def)
qed

lemma fe_okD:
  assumes "fe_ok fe"
  shows "tables_ok fe" "\<And>t. t \<in> set (fe_threads fe) \<Longrightarrow> fe_thread_ok fe t" "\<And>r. r \<in> set (fe_requestChannel fe) \<Longrightarrow> request_ok fe r"
    "\<And>b. b \<in> set (fe_nodesBroadcast fe) \<Longrightarrow> b_RequestQueue b < length (fe_queues fe)"
    "\<And>q r. q \<in> set (fe_queues fe) \<Longrightarrow> r \<in> set (q_Channel q) \<Longrightarrow> chan_ok fe (rq_Channel r)"
  using assms by (auto simp: fe_ok_def)

lemma queued_ok_mono:
  assumes "fe_ok fe" "fe_le fe fe'" "fe_queues fe' = fe_queues fe"
  shows "\<forall>q\<in>set (fe_queues fe'). \<forall>r\<in>set (q_Channel q). chan_ok fe' (rq_Channel r)"
  using fe_okD(5) [OF assms(1)] chan_ok_mono [OF _ assms(2)] assms(3) by auto

text \<open>Steps that leave the tables and the queues alone.\<close>

lemma fe_advances_quiet:
  assumes "fe_ok fe" "fe_KeyMap fe' = fe_KeyMap fe" "fe_NodeMap fe' = fe_NodeMap fe" "fe_nodes fe' = fe_nodes fe"
    "fe_queues fe' = fe_queues fe" "length (fe_chans fe) \<le> length (fe_chans fe')"
    "set (fe_threads fe') \<subseteq> set (fe_threads fe) \<union> T" "\<forall>t\<in>T. fe_thread_ok fe' t"
    "set (fe_requestChannel fe') \<subseteq> set (fe_requestChannel fe) \<union> R" "\<forall>r\<in>R. request_ok fe' r"
    "set (fe_nodesBroadcast fe') \<subseteq> set (fe_nodesBroadcast fe) \<union> B" "\<forall>b\<in>B. b_RequestQueue b < length (fe_queues fe')"
  shows "fe_advances fe fe'"
proof -
  have le: "fe_le fe fe'" using assms(2-6) by (simp add: fe_le_def has_key_def)
  show ?thesis
    using tables_ok_frame [OF fe_okD(1) [OF assms(1)] assms(2-4)] assms(5,7-) le queued_ok_mono [OF assms(1) le assms(5)]
    by (intro fe_advances_step [OF assms(1) _ le, of T R B]) simp_all
qed

lemma fe_advances_go: "fe_ok fe \<Longrightarrow> \<forall>t\<in>set ts. fe_thread_ok fe t \<Longrightarrow> fe_advances fe (go fe ts)"
  by (rule fe_advances_quiet [where T = "set ts" and R = "{}" and B = "{}"])
    (auto simp: go_def intro: fe_thread_ok_mono [where fe = fe] simp: fe_le_def has_key_def)

lemma fe_advances_make_chan:
  assumes "fe_ok fe" "make_chan fe n = (fe', c)"
  shows "fe_advances fe fe'" "c < length (fe_chans fe')" "fe_KeyMap fe' = fe_KeyMap fe" "fe_nodes fe' = fe_nodes fe"
    "fe_queues fe' = fe_queues fe" "fe_NodeMap fe' = fe_NodeMap fe"
  using assms(2) by (auto simp: make_chan_def intro!: fe_advances_quiet [OF assms(1), where T = "{}" and R = "{}" and B = "{}"])

lemma fe_advances_chans:
  assumes "fe_ok fe"
  shows "fe_advances fe (chan_send fe c r)" "fe_advances fe (chan_rest fe c rs)" "fe_advances fe (chan_try_send fe c r)"
  using fe_advances_refl [OF assms]
  by (auto simp: chan_try_send_def chan_send_def chan_rest_def
      intro!: fe_advances_quiet [OF assms, where T = "{}" and R = "{}" and B = "{}"])

lemma fe_advances_set_key:
  assumes "fe_ok fe" "key_ok fe k km"
  shows "fe_advances fe (set_key_meta fe k km)"
proof -
  have le: "fe_le fe (set_key_meta fe k km)" by (simp add: fe_le_def)
  show ?thesis
    using tables_ok_set_key [OF fe_okD(1) [OF assms(1)] assms(2)] queued_ok_mono [OF assms(1) le]
    by (intro fe_advances_step [OF assms(1) _ le, where T = "{}" and R = "{}" and B = "{}"]) simp_all
qed

lemma fe_advances_set_meta:
  assumes "fe_ok fe" "has_key fe k" "km_Nodes km = km_Nodes (key_meta fe k)"
  shows "fe_advances fe (set_key_meta fe k km)"
  using key_ok_meta [OF fe_okD(1) [OF assms(1)] assms(2)] assms(3)
  by (intro fe_advances_set_key [OF assms(1)]) (simp add: key_ok_def)

lemma fe_advances_link:
  assumes "fe_ok fe" "a < length (fe_nodes fe)" "has_key fe k"
  shows "fe_advances fe (link k fe a)"
proof -
  have le: "fe_le fe (link k fe a)" by (simp add: fe_le_def)
  show ?thesis
    using link_ok [OF fe_okD(1) [OF assms(1)] assms(2,3)] queued_ok_mono [OF assms(1) le]
    by (intro fe_advances_step [OF assms(1) _ le, where T = "{}" and R = "{}" and B = "{}"]) simp_all
qed

section \<open>Queues\<close>

lemma fe_advances_queues:
  assumes "fe_ok fe" "length (fe_queues fe) \<le> length qs" "\<forall>q\<in>set qs. \<forall>r\<in>set (q_Channel q). chan_ok fe (rq_Channel r)"
  shows "fe_advances fe (fe\<lparr>fe_queues := qs\<rparr>)"
proof -
  let ?fe = "fe\<lparr>fe_queues := qs\<rparr>"
  have le: "fe_le fe ?fe" using assms(2) by (simp add: fe_le_def has_key_def)
  have "tables_ok ?fe" by (rule tables_ok_frame [OF fe_okD(1) [OF assms(1)]]) (simp_all add: assms(2))
  then show ?thesis
    using assms(3) chan_ok_mono [OF _ le]
    by (intro fe_advances_step [OF assms(1) _ le, where T = "{}" and R = "{}" and B = "{}"]) simp_all
qed

lemma queue_in: "q < length (fe_queues fe) \<Longrightarrow> fe_ok fe \<Longrightarrow> \<forall>r\<in>set (q_Channel (fe_queues fe ! q)). chan_ok fe (rq_Channel r)"
  using fe_okD(5) [of fe "fe_queues fe ! q"] by simp

lemma fe_advances_queue:
  assumes "fe_ok fe" "q < length (fe_queues fe) \<Longrightarrow> \<forall>r\<in>set (q_Channel x). chan_ok fe (rq_Channel r)"
  shows "fe_advances fe (fe\<lparr>fe_queues := (fe_queues fe)[q := x]\<rparr>)"
proof (cases "q < length (fe_queues fe)")
  case True
  then show ?thesis
    using assms(2) fe_okD(5) [OF assms(1)] set_update_subset_insert [of "fe_queues fe" q x]
    by (intro fe_advances_queues [OF assms(1)]) auto
next
  case False
  then have "fe\<lparr>fe_queues := (fe_queues fe)[q := x]\<rparr> = fe" by (cases fe) (simp add: list_update_beyond not_less)
  then show ?thesis using fe_advances_refl [OF assms(1)] by simp
qed

lemma fe_advances_Request:
  assumes "fe_ok fe" "chan_ok fe (rq_Channel r)"
  shows "fe_advances fe (Request fe q r)" "fe_advances fe (RequestAndClose fe q r)"
proof -
  have "fe_advances fe (go fe [Respond (rq_Channel r) unavailable_response])"
    using assms by (intro fe_advances_go) simp_all
  then show "fe_advances fe (Request fe q r)"
    using fe_advances_queue [OF assms(1)] queue_in [OF _ assms(1)] assms fe_advances_refl [OF assms(1)]
    by (auto simp: Request_def)
  show "fe_advances fe (RequestAndClose fe q r)"
    unfolding RequestAndClose_def
    by (rule fe_advances_queue [OF assms(1)]) (use queue_in [OF _ assms(1)] assms(2) in auto)
qed

lemma Request_frame [simp]:
  "fe_nodes (Request fe q r) = fe_nodes fe" "fe_KeyMap (Request fe q r) = fe_KeyMap fe"
  "fe_NodeMap (Request fe q r) = fe_NodeMap fe" "length (fe_queues (Request fe q r)) = length (fe_queues fe)"
  "fe_chans (Request fe q r) = fe_chans fe"
  by (simp_all add: Request_def go_def)

lemma chan_ok_Request [simp]: "chan_ok (Request fe q r) c \<longleftrightarrow> chan_ok fe c"
  by (cases c) (simp_all add: chan_ok_def)

lemma fe_advances_Receive:
  assumes "fe_ok fe" "Receive fe q = Some (fe', r)" "q < length (fe_queues fe)"
  shows "fe_advances fe fe'" "chan_ok fe' (rq_Channel r)"
proof -
  obtain rs where rs: "q_Channel (fe_queues fe ! q) = r # rs" "fe' = fe\<lparr>fe_queues := (fe_queues fe)[q := (fe_queues fe ! q)\<lparr>q_Channel := rs\<rparr>]\<rparr>"
    using assms(2) by (auto simp: Receive_def split: list.splits)
  note q = queue_in [OF assms(3,1)]
  show 1: "fe_advances fe fe'" unfolding rs(2) using q rs(1) by (intro fe_advances_queue [OF assms(1)]) simp
  then show "chan_ok fe' (rq_Channel r)" using q rs(1) by (auto simp: fe_advances_def intro: chan_ok_mono)
qed

lemma fe_advances_nodes_same:
  assumes "fe_ok fe" "a < length (fe_nodes fe)" "md_Id n = md_Id (fe_nodes fe ! a)" "md_Keys n = md_Keys (fe_nodes fe ! a)"
    "md_RequestQueue n = md_RequestQueue (fe_nodes fe ! a)"
  shows "fe_advances fe (fe\<lparr>fe_nodes := (fe_nodes fe)[a := n]\<rparr>)"
proof -
  let ?fe = "fe\<lparr>fe_nodes := (fe_nodes fe)[a := n]\<rparr>"
  note t = tables_okD [OF fe_okD(1) [OF assms(1)]]
  have le: "fe_le fe ?fe" by (simp add: fe_le_def has_key_def)
  have n: "md_Id (fe_nodes ?fe ! b) = md_Id (fe_nodes fe ! b)" "md_Keys (fe_nodes ?fe ! b) = md_Keys (fe_nodes fe ! b)" for b
    using assms(2-4) by (simp_all add: nth_list_update)
  have "node_ok ?fe m" if "m \<in> set (fe_nodes ?fe)" for m
  proof -
    have "m = n \<or> m \<in> set (fe_nodes fe)" using that set_update_subset_insert [of "fe_nodes fe" a n] by auto
    moreover have "node_ok fe n" using t(4) [OF assms(2)] assms(4,5) by (simp add: node_ok_def)
    ultimately have "node_ok fe m" using fe_okD(1) [OF assms(1)] by (auto simp: tables_ok_def)
    then show ?thesis by (simp add: node_ok_def has_key_def)
  qed
  moreover have "key_ok ?fe = key_ok fe" using n by (simp add: fun_eq_iff key_ok_def)
  ultimately have "tables_ok ?fe" using fe_okD(1) [OF assms(1)] n(1) by (auto simp: tables_ok_def nth_list_update)
  then show ?thesis
    using queued_ok_mono [OF assms(1) le]
    by (intro fe_advances_step [OF assms(1) _ le, where T = "{}" and R = "{}" and B = "{}"]) simp_all
qed

lemma fe_advances_kill:
  assumes "fe_ok fe" "a < length (fe_nodes fe)"
  shows "fe_advances fe (kill_node fe a)"
proof -
  obtain fe1 c where c: "make_chan fe 5 = (fe1, c)" by force
  note mk = fe_advances_make_chan [OF assms(1) c]
  let ?r = "\<lparr>rq_Type = KILL, rq_Key = [], rq_Keys = [], rq_Channel = Some c\<rparr>"
  let ?fe2 = "RequestAndClose fe1 (md_RequestQueue (fe_nodes fe1 ! a)) ?r"
  have 2: "fe_advances fe1 ?fe2" by (rule fe_advances_Request [OF fe_advances_ok [OF mk(1)]]) (simp add: chan_ok_def mk(2))
  have "a < length (fe_nodes ?fe2)" using assms(2) mk(4) by (simp add: RequestAndClose_def)
  then have "fe_advances ?fe2 (?fe2\<lparr>fe_nodes := (fe_nodes ?fe2)[a := (fe_nodes ?fe2 ! a)\<lparr>md_Killed := True\<rparr>]\<rparr>)"
    by (intro fe_advances_nodes_same [OF fe_advances_ok [OF 2]]) simp_all
  from fe_advances_trans [OF mk(1) fe_advances_trans [OF 2 this]] show ?thesis by (simp add: kill_node_def c Let_def)
qed

lemma fe_advances_fold:
  assumes "fe_ok fe" "\<And>fe x. x \<in> set xs \<Longrightarrow> fe_ok fe \<Longrightarrow> I fe \<Longrightarrow> fe_advances fe (f fe x) \<and> I (f fe x)" "I fe"
  shows "fe_advances fe (foldl f fe xs) \<and> I (foldl f fe xs)"
  using assms
proof (induction xs arbitrary: fe)
  case (Cons x xs)
  have 1: "fe_advances fe (f fe x)" "I (f fe x)" using Cons.prems by auto
  have "fe_advances (f fe x) (foldl f (f fe x) xs) \<and> I (foldl f (f fe x) xs)"
    using Cons.prems(2) 1 by (intro Cons.IH) (auto simp: fe_advances_ok)
  then show ?case using fe_advances_trans [OF 1(1)] by simp
qed (simp add: fe_advances_refl)

section \<open>The routines\<close>

lemma ask_advances:
  assumes "fe_ok fe"
  shows "fe_advances fe (fst (ask fe key ka))"
proof -
  obtain fe1 c where c: "make_chan fe 5 = (fe1, c)" by force
  note mk = fe_advances_make_chan [OF assms c]
  let ?r = "\<lparr>rq_Type = 0, rq_Key = key, rq_Keys = [(key, ka)], rq_Channel = Some c\<rparr>"
  have "fe_advances fe1 (fe1\<lparr>fe_requestChannel := fe_requestChannel fe1 @ [?r]\<rparr>)"
    using mk(2) by (intro fe_advances_quiet [OF fe_advances_ok [OF mk(1)], where T = "{}" and R = "{?r}" and B = "{}"])
      (auto simp: request_ok_def chan_ok_def)
  from fe_advances_trans [OF mk(1) this] show ?thesis by (simp add: ask_def c)
qed

lemma pick_loop_picks:
  assumes "pick_loop heap n nodes picked = returns picked'"
  shows "set picked' \<subseteq> set picked \<union> snd ` set nodes"
  using assms
proof (induction heap n nodes picked rule: pick_loop.induct)
  case (2 heap n nid a nodes picked)
  then show ?case by (fastforce simp: Let_def split: if_splits)
qed simp

lemma kills_advance:
  assumes "fe_ok fe" "\<forall>a\<in>set as. a < length (fe_nodes fe)"
  shows "fe_advances fe (foldl kill_node fe as)"
proof -
  have len: "length (fe_nodes (kill_node fe b)) = length (fe_nodes fe)" for fe b
    by (simp add: kill_node_def make_chan_def RequestAndClose_def Let_def)
  let ?I = "\<lambda>fe'. length (fe_nodes fe') = length (fe_nodes fe)"
  have "fe_advances fe (foldl kill_node fe as) \<and> ?I (foldl kill_node fe as)"
    using assms(2) by (intro fe_advances_fold [OF assms(1), where I = ?I]) (auto simp: len fe_advances_kill)
  then show ?thesis by simp
qed

lemma rpc_Get_advances:
  assumes "fe_ok fe" "rpc_Get fe key = returns (fe', r)"
  shows "fe_advances fe fe'"
proof -
  note t = tables_okD [OF fe_okD(1) [OF assms(1)]]
  have node: "a < length (fe_nodes fe)" if "map_of (fe_KeyMap fe) k = Some km" "a \<in> snd ` set (km_Nodes km)" for k km a
    using t(5) [OF that(1)] that(2) by (auto simp: key_ok_def)
  have kr: "fe_advances fe (fst (kill_replica fe x))" for x
    using fe_advances_refl [OF assms(1)] fe_advances_kill [OF assms(1)] t(3)
    by (auto simp: kill_replica_def split: option.split dest: map_of_SomeD)
  have "on_return (kill_replicas_of fe x n) (\<lambda>(fe', r). fe_advances fe fe')" for x n
  proof (cases "map_of (fe_KeyMap fe) x")
    case (Some km)
    have "fe_advances fe (foldl kill_node fe p)"
      if p: "pick_loop (fe_nodes fe) (min (length (km_Nodes km)) (nat n)) (km_Nodes km) [] = returns p" for p
      using pick_loop_picks [OF p] node [OF Some] by (intro kills_advance [OF assms(1)]) auto
    then show ?thesis
      using fe_advances_refl [OF assms(1)] by (auto simp: kill_replicas_of_def Some on_return_pbind intro: on_returnI)
  qed (simp add: kill_replicas_of_def fe_advances_refl [OF assms(1)])
  then have "on_return (rpc_Get fe key) (\<lambda>(fe', r). fe_advances fe fe')"
    using kr ask_advances [OF assms(1)] fe_advances_refl [OF assms(1)]
    unfolding rpc_Get_def Let_def by (simp add: split_beta split: option.split)
  then show ?thesis using assms(2) by simp
qed

lemma filter_step_advances:
  assumes "fe_ok fe" "fe_thread_ok fe (Filter n c d k)" "filter_step fe n c d k = Some (fe', t)"
  shows "fe_advances fe fe' \<and> fe_thread_ok fe' t"
proof -
  have k: "has_key fe k" using assms(2) by simp
  note rest = fe_advances_chans(2) [OF assms(1)]
  have k': "has_key (chan_rest fe c rs) k" "key_meta (chan_rest fe c rs) k = key_meta fe k" for rs
    using k by (simp_all add: chan_rest_def has_key_def key_meta_def)
  have a1: "fe_advances fe (set_key_meta fe k ((key_meta fe k)\<lparr>km_Unavailable := True, km_Sending := km_Sending (key_meta fe k) - 1\<rparr>))"
    by (rule fe_advances_set_meta [OF assms(1) k]) simp
  have a2: "fe_advances fe (set_key_meta (chan_rest fe c rs) k ((key_meta fe k)\<lparr>km_Sending := km_Sending (key_meta fe k) - 1\<rparr>))" for rs
    by (rule fe_advances_trans [OF rest fe_advances_set_meta [OF fe_advances_ok [OF rest] k'(1)]]) (simp add: k'(2))
  have le: "fe_advances fe fe1 \<Longrightarrow> chan_ok fe1 d" for fe1
    using assms(2) by (auto simp: fe_advances_def intro: chan_ok_mono)
  show ?thesis
    using assms(2,3) a1 le [OF a1] a2 le [OF a2] rest le [OF rest] k' fe_thread_ok_mono [OF assms(2)]
    by (auto simp: filter_step_def Let_def k'(2) fe_advances_def split: if_splits list.splits)
qed

lemma links_advance:
  assumes "fe_ok fe" "has_key fe k" "\<forall>a\<in>set as. a < length (fe_nodes fe)"
  shows "fe_advances fe (foldl (link k) fe as)" "has_key (foldl (link k) fe as) k"
proof -
  let ?I = "\<lambda>fe'. length (fe_nodes fe') = length (fe_nodes fe) \<and> has_key fe' k"
  have "fe_advances fe (foldl (link k) fe as) \<and> ?I (foldl (link k) fe as)"
    using assms(2,3) by (intro fe_advances_fold [OF assms(1), where I = ?I]) (auto simp: fe_advances_link)
  then show "fe_advances fe (foldl (link k) fe as)" "has_key (foldl (link k) fe as) k" by simp_all
qed

lemma node_addresses:
  assumes "tables_ok fe"
  shows "\<forall>a\<in>set (getNodesAsList (fe_NodeMap fe)). a < length (fe_nodes fe)" "distinct (getNodesAsList (fe_NodeMap fe))"
proof -
  note t = tables_okD [OF assms]
  show "\<forall>a\<in>set (getNodesAsList (fe_NodeMap fe)). a < length (fe_nodes fe)" using t(3) by (auto simp: getNodesAsList_def)
  have "inj_on snd (set (fe_NodeMap fe))" by (auto simp: inj_on_def dest!: t(3))
  then show "distinct (getNodesAsList (fe_NodeMap fe))" using t(2) by (simp add: getNodesAsList_def distinct_map)
qed

lemma prepare_ok:
  assumes "fe_ok fe" "rand_ok intn"
  shows "\<exists>nodes fe'. prepareNodesForFirstReplication intn fe key n = returns (fe', nodes) \<and>
    fe_advances fe fe' \<and> has_key fe' key \<and> distinct nodes \<and> length nodes = min (length (fe_NodeMap fe)) n \<and>
    set nodes \<subseteq> set (getNodesAsList (fe_NodeMap fe)) \<and>
    fe' = foldl (link key) (set_key_meta fe key \<lparr>km_Version = 0, km_Unavailable = False, km_Sending = 0, km_Nodes = []\<rparr>) nodes"
proof -
  let ?l = "getNodesAsList (fe_NodeMap fe)"
  let ?n = "min (length ?l) n"
  obtain ys where ys: "randomizeNodes intn ?l ?n = returns ys" "mset ys = mset ?l"
    using randomizeNodes_perm [OF assms(2), of ?n ?l] by auto
  have sub: "set (take ?n ys) \<subseteq> set ?l" using mset_eq_setD [OF ys(2)] set_take_subset [of ?n ys] by simp
  have dist: "distinct (take ?n ys)" using node_addresses(2) [OF fe_okD(1) [OF assms(1)]] ys(2) by (metis distinct_take mset_eq_imp_distinct_iff)
  let ?fe1 = "set_key_meta fe key \<lparr>km_Version = 0, km_Unavailable = False, km_Sending = 0, km_Nodes = []\<rparr>"
  have 1: "fe_advances fe ?fe1" by (rule fe_advances_set_key [OF assms(1)]) (simp add: key_ok_def)
  have "\<forall>a\<in>set (take ?n ys). a < length (fe_nodes ?fe1)"
    using sub node_addresses(1) [OF fe_okD(1) [OF assms(1)]] by auto
  note 2 = links_advance [OF fe_advances_ok [OF 1] _ this, of key]
  have "length ys = length ?l" using ys(2) by (rule mset_eq_length)
  then have "length (take ?n ys) = min (length (fe_NodeMap fe)) n" by (simp add: getNodesAsList_def)
  then show ?thesis
    using ys(1) sub dist 2 fe_advances_trans [OF 1]
    by (intro exI [of _ "take ?n ys"] exI [of _ "foldl (link key) ?fe1 (take ?n ys)"])
      (simp add: prepareNodesForFirstReplication_def Let_def)
qed

lemma Requests_advance:
  assumes "fe_ok fe" "chan_ok fe (rq_Channel r)"
  shows "fe_advances fe (foldl (\<lambda>fe a. Request fe (md_RequestQueue (fe_nodes fe ! a)) r) fe as)"
proof -
  let ?I = "\<lambda>fe'. chan_ok fe' (rq_Channel r)"
  let ?f = "\<lambda>fe a. Request fe (md_RequestQueue (fe_nodes fe ! a)) r"
  have "fe_advances fe (foldl ?f fe as) \<and> ?I (foldl ?f fe as)"
    using assms(2) by (intro fe_advances_fold [OF assms(1), where I = ?I]) (auto simp: fe_advances_Request)
  then show ?thesis by simp
qed

lemma filterChannel_advances:
  assumes "fe_ok fe" "chan_ok fe d" "has_key fe k" "filterChannelUnavailable fe n d k = (fe', c)"
  shows "fe_advances fe fe'" "c < length (fe_chans fe')" "fe_KeyMap fe' = fe_KeyMap fe" "fe_nodes fe' = fe_nodes fe"
    "fe_queues fe' = fe_queues fe"
proof -
  obtain fe1 c1 where c: "make_chan fe (n + 5) = (fe1, c1)" by force
  note mk = fe_advances_make_chan [OF assms(1) c]
  have eq: "fe' = go fe1 [Filter n c d k]" "c1 = c" using assms(4) by (auto simp: filterChannelUnavailable_def c)
  have "chan_ok fe1 d" "has_key fe1 k"
    using mk(1,3) assms(2,3) by (auto simp: fe_advances_def has_key_def intro: chan_ok_mono)
  then have 2: "fe_advances fe1 fe'" unfolding eq(1) using mk(2) eq(2) by (intro fe_advances_go [OF fe_advances_ok [OF mk(1)]]) simp
  from fe_advances_trans [OF mk(1) 2] show "fe_advances fe fe'" .
  show "c < length (fe_chans fe')" "fe_KeyMap fe' = fe_KeyMap fe" "fe_nodes fe' = fe_nodes fe" "fe_queues fe' = fe_queues fe"
    using mk eq by (simp_all add: go_def)
qed

lemma mainRoutine_advances:
  assumes "fe_ok fe" "request_ok fe r" "rand_ok intn"
  shows "\<exists>fe'. mainRoutine intn n fe r = returns fe' \<and> fe_advances fe fe'"
proof -
  let ?k = "rq_Key r"
  obtain fe1 nodes where 1: "(case map_of (fe_KeyMap fe) ?k of
        None \<Rightarrow> prepareNodesForFirstReplication intn fe ?k n
      | Some km \<Rightarrow> returns (fe, getNodesAsList (km_Nodes km))) = returns (fe1, nodes)" "fe_advances fe fe1" "has_key fe1 ?k"
  proof (cases "map_of (fe_KeyMap fe) ?k")
    case None
    with prepare_ok [OF assms(1,3), of ?k n] show ?thesis by (auto intro: that)
  next
    case (Some km)
    then show ?thesis using that [of fe "getNodesAsList (km_Nodes km)"] fe_advances_refl [OF assms(1)] by (simp add: has_key_def)
  qed
  let ?km = "key_meta fe1 ?k"
  let ?fe2 = "set_key_meta fe1 ?k (?km\<lparr>km_Sending := km_Sending ?km + 1\<rparr>)"
  have 2: "fe_advances fe ?fe2"
    by (rule fe_advances_trans [OF 1(2) fe_advances_set_meta [OF fe_advances_ok [OF 1(2)] 1(3)]]) simp
  have chan: "chan_ok ?fe2 (rq_Channel r)"
    using assms(2) 2 by (auto simp: request_ok_def fe_advances_def intro: chan_ok_mono)
  let ?kmF = "key_meta ?fe2 ?k"
  let ?fe3 = "if \<not> km_Unavailable ?km then set_key_meta ?fe2 ?k (?kmF\<lparr>km_Unavailable := True, km_Sending := km_Sending ?kmF - 1\<rparr>) else ?fe2"
  have 3: "fe_advances ?fe2 ?fe3"
    using fe_advances_refl [OF fe_advances_ok [OF 2]] by (auto intro!: fe_advances_set_meta [OF fe_advances_ok [OF 2]])
  have "chan_ok ?fe3 (rq_Channel r)" using chan 3 by (auto simp: fe_advances_def intro: chan_ok_mono)
  then have lost: "fe_advances fe (go ?fe3 [Respond (rq_Channel r) unavailable_response])"
    by (intro fe_advances_trans [OF 2 fe_advances_trans [OF 3 fe_advances_go [OF fe_advances_ok [OF 3]]]]) simp
  obtain fe4 c where 4: "filterChannelUnavailable ?fe2 (length nodes) (rq_Channel r) ?k = (fe4, c)" by force
  note f = filterChannel_advances [OF fe_advances_ok [OF 2] chan _ 4]
  obtain ka where ka: "map_of (rq_Keys r) ?k = Some ka" using assms(2) by (auto simp: request_ok_def)
  let ?w = "ka_Type ka = PUT \<or> ka_Type ka = TEST_PUT" and ?km4 = "key_meta fe4 ?k"
  let ?fe5 = "if ?w then set_key_meta fe4 ?k (?km4\<lparr>km_Version := km_Version ?km4 + 1\<rparr>) else fe4"
  have has4: "has_key fe4 ?k" using f(3) 1(3) by (simp add: has_key_def set_key_meta_def update_conv)
  have 5: "fe_advances fe4 ?fe5"
    using fe_advances_refl [OF fe_advances_ok [OF f(1)]] has4 by (auto intro!: fe_advances_set_meta [OF fe_advances_ok [OF f(1)]])
  have c5: "chan_ok ?fe5 (Some c)" using f(2) by (simp add: chan_ok_def)
  have sent: "fe_advances fe (foldl (\<lambda>fe a. Request fe (md_RequestQueue (fe_nodes fe ! a)) r') ?fe5 nodes)"
    if "rq_Channel r' = Some c" for r'
    using c5 that by (intro fe_advances_trans [OF 2 fe_advances_trans [OF f(1) fe_advances_trans [OF 5 Requests_advance [OF fe_advances_ok [OF 5]]]]]) simp_all
  show ?thesis
  proof (cases "km_Unavailable ?km \<or> length nodes = 0")
    case True
    then show ?thesis using lost 1(1) by (auto simp: mainRoutine_def Let_def)
  next
    case False
    then show ?thesis using sent 1(1) by (simp add: mainRoutine_def Let_def 4 ka)
  qed
qed

lemma partition_loop_threads:
  assumes "\<forall>a\<in>set as. a < length (fe_nodes fe)" "\<forall>k\<in>set ks. has_key fe k" "\<forall>t\<in>set ts. fe_thread_ok fe t"
  shows "\<forall>t\<in>set (partition_loop (fe_nodes fe) as ks ts). fe_thread_ok fe t"
  using assms
proof (induction "fe_nodes fe" as ks ts rule: partition_loop.induct)
  case (2 a as ks ts)
  let ?sub = "filter (\<lambda>k. k \<notin> set (md_Keys (fe_nodes fe ! a))) ks"
  let ?ks = "filter (\<lambda>k. k \<in> set (md_Keys (fe_nodes fe ! a))) ks"
  let ?ts = "if length ?sub > 0 then ts @ [Replicate a ?sub] else ts"
  have ts: "\<forall>t\<in>set ?ts. fe_thread_ok fe t" using "2.prems" by auto
  show ?case
  proof (cases "length ?ks = 0")
    case True
    then show ?thesis using ts by (simp add: Let_def)
  next
    case False
    have "\<forall>t\<in>set (partition_loop (fe_nodes fe) as ?ks ?ts). fe_thread_ok fe t"
      by (rule "2.hyps" [OF refl refl refl False]) (use "2.prems" ts in auto)
    then show ?thesis using False by (simp add: Let_def)
  qed
qed simp

lemma partitionAndReplicate_advances:
  assumes "fe_ok fe" "rand_ok intn" "\<forall>k\<in>set ks. has_key fe k"
  shows "\<exists>fe'. partitionAndReplicate intn fe ks = returns fe' \<and> fe_advances fe fe'"
proof -
  let ?l = "getNodesAsList (fe_NodeMap fe)"
  obtain ys where ys: "randomizeNodes intn ?l (length ?l) = returns ys" "mset ys = mset ?l"
    using randomizeNodes_perm [OF assms(2), of "length ?l" ?l] by auto
  have "\<forall>a\<in>set ys. a < length (fe_nodes fe)"
    using mset_eq_setD [OF ys(2)] node_addresses(1) [OF fe_okD(1) [OF assms(1)]] by simp
  then have "\<forall>t\<in>set (partition_loop (fe_nodes fe) ys ks []). fe_thread_ok fe t"
    using assms(3) by (intro partition_loop_threads) simp_all
  from fe_advances_go [OF assms(1) this] ys(1) show ?thesis by (simp add: partitionAndReplicate_def Let_def)
qed

lemma connect_node_advances:
  assumes "fe_ok fe" "q < length (fe_queues fe)"
  shows "fe_advances fe (fe\<lparr>fe_nodes := fe_nodes fe @ [\<lparr>md_Id = nid, md_Keys = [], md_RequestQueue = q, md_Killed = False\<rparr>],
    fe_NodeMap := AList.update nid (length (fe_nodes fe)) (fe_NodeMap fe)\<rparr>)" (is "fe_advances fe ?fe")
proof -
  note t = tables_okD [OF fe_okD(1) [OF assms(1)]]
  have le: "fe_le fe ?fe" by (simp add: fe_le_def has_key_def)
  have nth: "fe_nodes ?fe ! a = fe_nodes fe ! a" if "a < length (fe_nodes fe)" for a using that by (simp add: nth_append)
  have "key_ok ?fe k km" if "key_ok fe k km" for k km
    using that nth by (fastforce simp: key_ok_def)
  moreover have "node_ok ?fe n" if "node_ok fe n" for n using that by (simp add: node_ok_def has_key_def)
  moreover have "a < length (fe_nodes ?fe) \<and> md_Id (fe_nodes ?fe ! a) = j" if j: "(j, a) \<in> set (fe_NodeMap ?fe)" for j a
  proof -
    have "(j, a) = (nid, length (fe_nodes fe)) \<or> (j, a) \<in> set (fe_NodeMap fe)"
      using j set_update_subset [of nid "length (fe_nodes fe)" "fe_NodeMap fe"] by auto
    then show ?thesis using t(3) [of j a] by (auto simp: nth_append)
  qed
  ultimately have "tables_ok ?fe"
    using fe_okD(1) [OF assms(1)] assms(2) by (auto simp: tables_ok_def distinct_update node_ok_def)
  then show ?thesis
    using queued_ok_mono [OF assms(1) le]
    by (intro fe_advances_step [OF assms(1) _ le, where T = "{}" and R = "{}" and B = "{}"]) simp_all
qed

lemma unlinks_advance:
  assumes "fe_ok fe" "\<forall>k\<in>set ks. has_key fe k"
  shows "fe_advances fe (foldl (unlink nid) fe ks)"
    "fe_NodeMap (foldl (unlink nid) fe ks) = fe_NodeMap fe" "fe_nodes (foldl (unlink nid) fe ks) = fe_nodes fe"
proof -
  have frame: "fe_NodeMap (foldl (unlink nid) fe ks) = fe_NodeMap fe \<and> fe_nodes (foldl (unlink nid) fe ks) = fe_nodes fe" for fe ks
    by (induction ks arbitrary: fe) (simp_all add: unlink_def Let_def)
  then show "fe_NodeMap (foldl (unlink nid) fe ks) = fe_NodeMap fe" "fe_nodes (foldl (unlink nid) fe ks) = fe_nodes fe" by simp_all
  let ?I = "\<lambda>fe'. \<forall>k\<in>set ks. has_key fe' k"
  have step: "fe_advances fe (unlink nid fe k)" if "fe_ok fe" "has_key fe k" for fe k
  proof -
    have le: "fe_le fe (unlink nid fe k)" by (simp add: fe_le_def unlink_def Let_def)
    show ?thesis
      using unlink_ok [OF fe_okD(1) [OF that(1)] that(2)] queued_ok_mono [OF that(1) le]
      by (intro fe_advances_step [OF that(1) _ le, where T = "{}" and R = "{}" and B = "{}"]) (simp_all add: unlink_def Let_def)
  qed
  have "fe_advances fe (foldl (unlink nid) fe ks) \<and> ?I (foldl (unlink nid) fe ks)"
    using assms(2) step by (intro fe_advances_fold [OF assms(1), where I = ?I]) (auto simp: fe_advances_def fe_le_def)
  then show "fe_advances fe (foldl (unlink nid) fe ks)" by simp
qed

lemma delete_node_advances:
  assumes "fe_ok fe"
  shows "fe_advances fe (fe\<lparr>fe_NodeMap := AList.delete nid (fe_NodeMap fe)\<rparr>)" (is "fe_advances fe ?fe")
proof -
  have le: "fe_le fe ?fe" by (simp add: fe_le_def has_key_def)
  have "key_ok ?fe = key_ok fe" "node_ok ?fe = node_ok fe" by (simp_all add: fun_eq_iff key_ok_def node_ok_def has_key_def)
  then have "tables_ok ?fe"
    using fe_okD(1) [OF assms] distinct_delete [of "fe_NodeMap fe" nid] by (auto simp: tables_ok_def AList.delete_eq)
  then show ?thesis
    using queued_ok_mono [OF assms le]
    by (intro fe_advances_step [OF assms _ le, where T = "{}" and R = "{}" and B = "{}"]) simp_all
qed

lemma nodesRoutine_advances:
  assumes "fe_ok fe" "b_RequestQueue b < length (fe_queues fe)" "rand_ok intn"
  shows "on_return (nodesRoutine intn n fe b) (fe_advances fe)"
proof -
  let ?fe1 = "fe\<lparr>fe_nodes := fe_nodes fe @ [\<lparr>md_Id = b_Id b, md_Keys = [], md_RequestQueue = b_RequestQueue b, md_Killed = False\<rparr>],
    fe_NodeMap := AList.update (b_Id b) (length (fe_nodes fe)) (fe_NodeMap fe)\<rparr>"
  let ?t = "Replicate (length (fe_nodes fe)) (map fst (filter (\<lambda>(key, km). length (km_Nodes km) > 0) (fe_KeyMap fe)))"
  have 1: "fe_advances fe ?fe1" by (rule connect_node_advances [OF assms(1,2)])
  have "fe_thread_ok ?fe1 ?t" by (auto simp: has_key_def map_of_eq_None_iff intro: rev_image_eqI)
  then have 2: "fe_advances fe (go ?fe1 [?t])"
    by (intro fe_advances_trans [OF 1 fe_advances_go [OF fe_advances_ok [OF 1]]]) simp
  have 3: "on_return (partitionAndReplicate intn (fe2\<lparr>fe_NodeMap := AList.delete (b_Id b) (fe_NodeMap fe2)\<rparr>) (md_Keys (fe_nodes fe ! a))) (fe_advances fe)"
    if a: "map_of (fe_NodeMap fe) (b_Id b) = Some a" "fe2 = foldl (unlink (b_Id b)) fe (md_Keys (fe_nodes fe ! a))" for a fe2
  proof -
    have ks: "\<forall>k\<in>set (md_Keys (fe_nodes fe ! a)). has_key fe k"
      using tables_okD(3,4) [OF fe_okD(1) [OF assms(1)]] map_of_SomeD [OF a(1)] by (auto simp: node_ok_def)
    let ?fe3 = "fe2\<lparr>fe_NodeMap := AList.delete (b_Id b) (fe_NodeMap fe2)\<rparr>"
    have 4: "fe_advances fe ?fe3"
      using unlinks_advance(1) [OF assms(1) ks] delete_node_advances [OF fe_advances_ok] unfolding a(2) by (blast intro: fe_advances_trans)
    then have "\<forall>k\<in>set (md_Keys (fe_nodes fe ! a)). has_key ?fe3 k" using ks by (simp add: fe_advances_def fe_le_def)
    from partitionAndReplicate_advances [OF fe_advances_ok [OF 4] assms(3) this] show ?thesis
      using fe_advances_trans [OF 4] by (auto simp: on_return_def)
  qed
  show ?thesis
    using 1 2 3 fe_advances_refl [OF assms(1)] by (simp add: nodesRoutine_def Let_def split: option.split)
qed

definition next_ok :: "frontend \<Rightarrow> frontend \<times> fe_thread option \<Rightarrow> bool" where
  "next_ok fe r = (case r of (fe', t) \<Rightarrow> fe_advances fe fe' \<and> (\<forall>x. t = Some x \<longrightarrow> fe_thread_ok fe' x))"

lemma query_nodes_advances:
  assumes "fe_ok fe" "chan_ok fe (rq_Channel r)" "query_nodes r nodes fe = returns fe'"
  shows "fe_advances fe fe'"
  using assms
proof (induction r nodes fe rule: query_nodes.induct)
  case (3 r nid a nodes fe)
  let ?fe = "Request fe (md_RequestQueue (fe_nodes fe ! a)) r"
  have 1: "fe_advances fe ?fe" by (rule fe_advances_Request(1) [OF 3(2,3)])
  have "fe_advances ?fe fe'" using 3 fe_advances_ok [OF 1] by simp
  then show ?case by (rule fe_advances_trans [OF 1])
qed (simp_all add: fe_advances_refl)

lemma replicationRoutine_advances:
  assumes "fe_ok fe" "fe_thread_ok fe (Replicate a ks)"
  shows "on_return (replicationRoutine fe a ks) (next_ok fe)"
proof -
  have "next_ok fe (fe2, Some (Collect a ks (length m) c []))"
    if c: "make_chan fe (length m + 5) = (fe1, c)" and q: "query_nodes r m fe1 = returns fe2" "rq_Channel r = Some c" for m fe1 c r fe2
  proof -
    note mk = fe_advances_make_chan [OF assms(1) c]
    have "fe_advances fe1 fe2" using mk(2) q(2) by (intro query_nodes_advances [OF fe_advances_ok [OF mk(1)] _ q(1)]) (simp add: chan_ok_def)
    then have "fe_advances fe fe2" "c < length (fe_chans fe2)"
      using mk(1,2) by (auto simp: fe_advances_def fe_le_def)
    then show ?thesis using assms(2) by (auto simp: next_ok_def fe_advances_def fe_le_def)
  qed
  then have "on_return (query_nodes r m fe1) (\<lambda>fe2. next_ok fe (fe2, Some (Collect a ks (length m) c [])))"
    if "make_chan fe (length m + 5) = (fe1, c)" "rq_Channel r = Some c" for m fe1 c r
    using that by (auto simp: on_return_def)
  moreover have "next_ok fe (fe, None)" by (simp add: next_ok_def fe_advances_refl [OF assms(1)])
  ultimately show ?thesis
    by (auto simp: replicationRoutine_def on_return_pbind Let_def split: prod.split intro!: on_returnI [of "nodes_with_keys fe ks []"])
qed

lemma put_merged_advances:
  assumes "fe_ok fe" "fe_thread_ok fe (Replicate a ks)" "put_merged fe a ks m = (fe', t)"
  shows "next_ok fe (fe', Some t)"
proof -
  obtain fe1 c where c: "make_chan fe 5 = (fe1, c)" by force
  note mk = fe_advances_make_chan [OF assms(1) c]
  let ?r = "\<lparr>rq_Type = 0, rq_Key = [], rq_Keys = m, rq_Channel = Some c\<rparr>"
  have 2: "fe_advances fe1 (Request fe1 (md_RequestQueue (fe_nodes fe1 ! a)) ?r)"
    by (rule fe_advances_Request(1) [OF fe_advances_ok [OF mk(1)]]) (simp add: chan_ok_def mk(2))
  from fe_advances_trans [OF mk(1) 2] show ?thesis
    using assms(2,3) mk(2,3,4) by (auto simp: put_merged_def c next_ok_def has_key_def)
qed

lemma mergeReplicatingQuery_advances:
  assumes "fe_ok fe" "fe_thread_ok fe (Collect a ks n c m)" "mergeReplicatingQuery fe a ks n c m = Some (fe', t)"
  shows "next_ok fe (fe', Some t)"
proof -
  have rep: "fe_thread_ok fe (Replicate a ks)" using assms(2) by simp
  have rest: "fe_advances fe (chan_rest fe c rs)" for rs by (rule fe_advances_chans(2) [OF assms(1)])
  have col: "next_ok fe (chan_rest fe c rs, Some (Collect a ks (n - 1) c m'))" for rs m'
  proof -
    have "fe_thread_ok fe (Collect a ks (n - 1) c m')" using assms(2) by simp
    then show ?thesis using rest fe_thread_ok_mono by (auto simp: next_ok_def fe_advances_def simp del: fe_thread_ok.simps)
  qed
  have put: "next_ok fe (fe1, Some t1)" if "put_merged fe0 a ks m' = (fe1, t1)" "fe_advances fe fe0" for fe0 m' fe1 t1
  proof -
    have "fe_thread_ok fe0 (Replicate a ks)" using fe_thread_ok_mono [OF rep] that(2) by (simp add: fe_advances_def)
    from put_merged_advances [OF fe_advances_ok [OF that(2)] this that(1)] show ?thesis
      using fe_advances_trans [OF that(2)] by (auto simp: next_ok_def)
  qed
  show ?thesis
    using assms(3) col put [OF _ fe_advances_refl [OF assms(1)]] put [OF _ rest]
    by (auto simp: mergeReplicatingQuery_def Let_def split: if_splits list.splits)
qed

lemma check_keys_advances:
  assumes "fe_ok fe" "a < length (fe_nodes fe)" "\<forall>k\<in>set ks. has_key fe k" "\<forall>k\<in>set left. has_key fe k"
    "check_keys r a ks fe left = (fe', left')"
  shows "fe_advances fe fe' \<and> (\<forall>k\<in>set left'. has_key fe' k)"
  using assms
proof (induction r a ks fe left rule: check_keys.induct)
  case (2 r a k ks fe left)
  let ?km = "key_meta fe k"
  have k: "has_key fe k" using "2.prems" by simp
  have link: "fe_advances fe (link k fe a)" by (rule fe_advances_link [OF "2.prems"(1,2) k])
  show ?case
  proof (cases "length (km_Nodes ?km) = 0")
    case True
    then show ?thesis using "2.IH"(1) [OF refl True] "2.prems" by simp
  next
    case False
    note nonempty = this
    show ?thesis
    proof (cases "map_of (fr_Values r) k")
      case None
      then show ?thesis using "2.IH"(2) [OF refl nonempty None] "2.prems" nonempty by simp
    next
      case (Some v)
      show ?thesis
      proof (cases "\<not> km_Unavailable ?km \<and> km_Sending ?km = 0 \<and> kv_Version v = km_Version ?km")
        case True
        then have "check_keys r a ks (link k fe a) left = (fe', left')" using "2.prems"(5) nonempty Some by simp
        then show ?thesis
          using "2.IH"(3) [OF refl nonempty Some True] "2.prems" fe_advances_ok [OF link] fe_advances_trans [OF link] by auto
      next
        case False
        then have "check_keys r a ks fe (left @ [k]) = (fe', left')" using "2.prems"(5) nonempty Some by (auto simp: Let_def)
        then show ?thesis using "2.IH"(4) [OF refl nonempty Some False] "2.prems" k by auto
      qed
    qed
  qed
qed (simp add: fe_advances_refl)

lemma replication_check_advances:
  assumes "fe_ok fe" "fe_thread_ok fe (AwaitPut a ks c)" "rand_ok intn"
  shows "on_return (replication_check intn fe a ks c) (\<lambda>x. \<forall>r. x = Some r \<longrightarrow> next_ok fe r)"
proof (cases "ch_buf (fe_chans fe ! c)")
  case (Cons r rs)
  let ?fe = "chan_rest fe c rs"
  have 1: "fe_advances fe ?fe" by (rule fe_advances_chans(2) [OF assms(1)])
  have a: "a < length (fe_nodes ?fe)" "\<forall>k\<in>set ks. has_key ?fe k"
    using assms(2) by (simp_all add: chan_rest_def has_key_def)
  obtain fe1 where p: "partitionAndReplicate intn ?fe ks = returns fe1" "fe_advances ?fe fe1"
    using partitionAndReplicate_advances [OF fe_advances_ok [OF 1] assms(3) a(2)] by blast
  obtain fe2 left where ck: "check_keys r a ks ?fe [] = (fe2, left)" by force
  have 2: "fe_advances ?fe fe2 \<and> (\<forall>k\<in>set left. has_key fe2 k)"
    by (rule check_keys_advances [OF fe_advances_ok [OF 1] a _ ck]) simp
  then have "a < length (fe_nodes fe2)" using a(1) by (auto simp: fe_advances_def fe_le_def)
  then show ?thesis
    using p(1) ck 2 fe_advances_trans [OF 1 p(2)] fe_advances_trans [OF 1, of fe2]
    by (simp add: replication_check_def Cons Let_def next_ok_def)
qed (simp add: replication_check_def)

end
