(* ===== verification/NetMeta.thy ===== *)
theory NetMeta
  imports Gossip "HOL-Library.AList"
begin

text \<open>
  What a node knows about the members of the network: \<^verbatim>\<open>network/netmeta.go\<close>. A map from ids to an
  address and a flag whether the member has left, kept as an association list in the order a \<open>range\<close> loop
  visits it; the nil map is the empty list. The JSON library is a parameter.
\<close>

record NodeMeta =
  nm_Addr :: string
  nm_Left :: bool

type_synonym NetMeta = "(string \<times> NodeMeta) list"

definition newNetMeta :: NetMeta where
  "newNetMeta = []"

definition newQuitNetMeta :: "string \<Rightarrow> string \<Rightarrow> NetMeta" where
  "newQuitNetMeta nid addr = AList.update nid \<lparr>nm_Addr = addr, nm_Left = True\<rparr> newNetMeta"

definition newJoinNetMeta :: "string \<Rightarrow> string \<Rightarrow> NetMeta" where
  "newJoinNetMeta nid addr = AList.update nid \<lparr>nm_Addr = addr, nm_Left = False\<rparr> newNetMeta"

definition newNetMetaFromJson :: "(byte list \<Rightarrow> string + NetMeta) \<Rightarrow> byte list \<Rightarrow> string + NetMeta" where
  "newNetMetaFromJson unmarshal bytes = unmarshal bytes"

definition netMeta_update :: "NetMeta \<Rightarrow> string \<Rightarrow> NodeMeta \<Rightarrow> NetMeta \<times> bool" where
  "netMeta_update netMeta nid newNodeMeta =
     (case map_of netMeta nid of
        None \<Rightarrow> (AList.update nid newNodeMeta netMeta, True)
      | Some n \<Rightarrow> if \<not> nm_Left n \<and> nm_Left newNodeMeta then (AList.update nid newNodeMeta netMeta, True)
                  else (netMeta, False))"

fun merge_loop :: "NetMeta \<Rightarrow> NetMeta \<Rightarrow> NetMeta \<Rightarrow> NetMeta \<times> NetMeta" where
  "merge_loop netMeta delta [] = (netMeta, delta)"
| "merge_loop netMeta delta ((nid, node) # netMeta2) =
     (case netMeta_update netMeta nid node of
        (netMeta, changed) \<Rightarrow>
          merge_loop netMeta (if changed then AList.update nid node delta else delta) netMeta2)"

definition netMeta_merge :: "NetMeta \<Rightarrow> NetMeta \<Rightarrow> NetMeta \<times> NetMeta \<times> bool" where
  "netMeta_merge netMeta netMeta2 =
     (case merge_loop netMeta newNetMeta netMeta2 of
        (netMeta, delta) \<Rightarrow> if length delta = 0 then (netMeta, [], False) else (netMeta, delta, length delta \<noteq> 0))"

definition netMeta_toJson :: "(NetMeta \<Rightarrow> string + byte list) \<Rightarrow> NetMeta \<Rightarrow> byte list" where
  "netMeta_toJson marshal netMeta = (case marshal netMeta of Inl err \<Rightarrow> [] | Inr bytes \<Rightarrow> bytes)"

definition netMeta_copy :: "NetMeta \<Rightarrow> NetMeta" where
  "netMeta_copy netMeta = foldl (\<lambda>m (nid, node). AList.update nid node m) newNetMeta netMeta"

record NodeMetaListElem =
  ml_Id :: string
  ml_Addr :: string
  ml_Left :: bool

definition ml_Len :: "NodeMetaListElem list \<Rightarrow> int" where
  "ml_Len l = int (length l)"

definition ml_Less :: "NodeMetaListElem list \<Rightarrow> nat \<Rightarrow> nat \<Rightarrow> bool prog" where
  "ml_Less l i j = guard_else (i < length l \<and> j < length l) IndexOutOfRange (returns (ml_Id (l ! i) < ml_Id (l ! j)))"

definition ml_Swap :: "NodeMetaListElem list \<Rightarrow> nat \<Rightarrow> nat \<Rightarrow> NodeMetaListElem list prog" where
  "ml_Swap l i j = guard_else (i < length l \<and> j < length l) IndexOutOfRange (returns (l[i := l ! j, j := l ! i]))"

definition ToList :: "NetMeta \<Rightarrow> NodeMetaListElem list" where
  "ToList netMeta = map (\<lambda>(nid, node). \<lparr>ml_Id = nid, ml_Addr = nm_Addr node, ml_Left = nm_Left node\<rparr>) netMeta"

section \<open>What a member knows\<close>

definition meta_ok :: "NetMeta \<Rightarrow> bool" where
  "meta_ok m \<longleftrightarrow> distinct (map fst m)"

text \<open>Nothing known, known as a member, known to have left: a member that left never comes back.\<close>

definition rank :: "NodeMeta option \<Rightarrow> nat" where
  "rank n = (case n of None \<Rightarrow> 0 | Some n \<Rightarrow> if nm_Left n then 2 else 1)"

definition status :: "NetMeta \<Rightarrow> string \<Rightarrow> nat" where
  "status m nid = rank (map_of m nid)"

definition overrides :: "NodeMeta option \<Rightarrow> NodeMeta option \<Rightarrow> bool" where
  "overrides new old \<longleftrightarrow> rank old < rank new"

lemma rank_simps [simp]: "rank None = 0" "rank (Some n) = (if nm_Left n then 2 else 1)"
  by (simp_all add: rank_def)

lemma meta_ok_update [simp]: "meta_ok m \<Longrightarrow> meta_ok (AList.update k v m)"
  by (simp add: meta_ok_def distinct_update)

lemma netMeta_update_eq:
  "netMeta_update m nid n =
    (if overrides (Some n) (map_of m nid) then (AList.update nid n m, True) else (m, False))"
  by (auto simp: netMeta_update_def overrides_def split: option.splits)

lemma merge_loop_lookup:
  assumes "meta_ok u"
  shows "map_of (fst (merge_loop m d u)) k =
      (if overrides (map_of u k) (map_of m k) then map_of u k else map_of m k)"
    and "map_of (snd (merge_loop m d u)) k =
      (if overrides (map_of u k) (map_of m k) then map_of u k else map_of d k)"
  using assms
proof (induction u arbitrary: m d)
  case Nil
  { case 1 then show ?case by (simp add: overrides_def) }
  { case 2 then show ?case by (simp add: overrides_def) }
next
  case (Cons e u)
  obtain nid n where e: "e = (nid, n)" by force
  { case 1
    then have u: "meta_ok u" "map_of u nid = None" by (auto simp: e meta_ok_def map_of_eq_None_iff)
    show ?case
      using Cons.IH(1) [OF u(1)] u(2)
      by (auto simp: e netMeta_update_eq overrides_def update_conv split: if_splits) }
  { case 2
    then have u: "meta_ok u" "map_of u nid = None" by (auto simp: e meta_ok_def map_of_eq_None_iff)
    show ?case
      using Cons.IH(2) [OF u(1)] u(2)
      by (auto simp: e netMeta_update_eq overrides_def update_conv split: if_splits) }
qed

lemma netMeta_merge_lookup:
  assumes "meta_ok u" "netMeta_merge m u = (m', d, changed)"
  shows "map_of m' k = (if overrides (map_of u k) (map_of m k) then map_of u k else map_of m k)"
    and "map_of d k = (if overrides (map_of u k) (map_of m k) then map_of u k else None)"
    and "changed \<longleftrightarrow> d \<noteq> []"
  using assms(2) merge_loop_lookup [OF assms(1), of m newNetMeta k]
  by (auto simp: netMeta_merge_def newNetMeta_def split: prod.splits if_splits)

lemma merge_loop_ok: "meta_ok m \<Longrightarrow> meta_ok d \<Longrightarrow> meta_ok (fst (merge_loop m d u)) \<and> meta_ok (snd (merge_loop m d u))"
  by (induction u arbitrary: m d) (auto simp: netMeta_update_eq)

lemma netMeta_merge_ok:
  assumes "meta_ok m" "netMeta_merge m u = (m', d, changed)"
  shows "meta_ok m'" "meta_ok d"
  using assms(2) merge_loop_ok [OF assms(1), of newNetMeta u]
  by (auto simp: netMeta_merge_def newNetMeta_def meta_ok_def split: prod.splits if_splits)

lemma status_merge:
  assumes "meta_ok u"
  shows "status (fst (netMeta_merge m u)) k = max (status m k) (status u k)"
proof -
  obtain m' d c where "netMeta_merge m u = (m', d, c)" by (cases "netMeta_merge m u") auto
  from netMeta_merge_lookup(1) [OF assms this] this show ?thesis
    by (auto simp: status_def overrides_def)
qed

interpretation meta_gossip: join_merge "\<lambda>m u. fst (netMeta_merge m u)" status status meta_ok
  by unfold_locales (rule status_merge)

text \<open>The pair returned by \<open>merge\<close> says exactly what changed.\<close>

lemma netMeta_merge_unchanged:
  assumes "meta_ok u" "netMeta_merge m u = (m', d, False)"
  shows "map_of m' = map_of m"
proof
  fix k
  have "map_of d k = None" using netMeta_merge_lookup(3) [OF assms] by simp
  then show "map_of m' k = map_of m k"
    using netMeta_merge_lookup(1,2) [OF assms, of k] by (auto simp: overrides_def split: if_splits)
qed

lemma netMeta_copy_lookup: "map_of (netMeta_copy m) k = map_of (rev m) k"
proof -
  have "map_of (foldl (\<lambda>m (nid, node). AList.update nid node m) acc m) k =
      (case map_of (rev m) k of None \<Rightarrow> map_of acc k | Some v \<Rightarrow> Some v)" for acc
    by (induction m arbitrary: acc) (auto simp: update_conv map_add_def split: option.splits)
  from this [of newNetMeta] show ?thesis by (simp add: netMeta_copy_def newNetMeta_def split: option.splits)
qed

lemma netMeta_copy_same: "meta_ok m \<Longrightarrow> map_of (netMeta_copy m) = map_of m"
  using map_of_inject_set [of "rev m" m] by (simp add: fun_eq_iff netMeta_copy_lookup meta_ok_def rev_map [symmetric])

section \<open>Properties\<close>

text \<open>Merging an update changes exactly the entries that are new or newly marked as left, and the delta it
  returns (what the node passes on) is exactly these entries.\<close>

theorem netMeta_merge_delta:
  assumes "meta_ok u" "netMeta_merge m u = (m', d, changed)"
  shows "map_of m' k = (if overrides (map_of u k) (map_of m k) then map_of u k else map_of m k) \<and>
    map_of d k = (if overrides (map_of u k) (map_of m k) then map_of u k else None) \<and>
    (changed \<longleftrightarrow> map_of m' \<noteq> map_of m)"
proof -
  note lk = netMeta_merge_lookup [OF assms]
  have "map_of m' \<noteq> map_of m" if ne: "d \<noteq> []"
  proof -
    obtain j where "j \<in> fst ` set d" using ne by (cases d) auto
    then have "map_of d j \<noteq> None" by (simp add: map_of_eq_None_iff)
    then have "overrides (map_of u j) (map_of m j)" using lk(2) [of j] by (auto split: if_splits)
    then have "map_of m' j \<noteq> map_of m j" using lk(1) [of j] by (auto simp: overrides_def)
    then show ?thesis by auto
  qed
  then show ?thesis using lk(1) [of k] lk(2) [of k] lk(3) netMeta_merge_unchanged [OF assms(1)] assms(2)
    by (cases changed) auto
qed

theorem netMeta_merge_delta_witness:
  "map_of (fst (netMeta_merge (newJoinNetMeta ''a'' ''x'') (newQuitNetMeta ''a'' ''y''))) ''a'' =
    Some \<lparr>nm_Addr = ''y'', nm_Left = True\<rparr>"
proof -
  let ?m = "newJoinNetMeta ''a'' ''x''" and ?u = "newQuitNetMeta ''a'' ''y''"
  obtain m' d c where m: "netMeta_merge ?m ?u = (m', d, c)" by (cases "netMeta_merge ?m ?u") auto
  have "meta_ok ?u" by (simp add: meta_ok_def newQuitNetMeta_def newNetMeta_def)
  from netMeta_merge_delta [OF this m, of "''a''"] m show ?thesis
    by (simp add: overrides_def newJoinNetMeta_def newQuitNetMeta_def newNetMeta_def)
qed

text \<open>C28: gossip converges: nodes that start from the same knowledge and merge the same updates, in any order
  and any number of times, agree on who is a member and who has left, and a member known to have left stays left.\<close>

theorem membership_converges:
  assumes "\<forall>u\<in>set us. meta_ok u" "set us = set us'"
  shows "status (foldl (\<lambda>m u. fst (netMeta_merge m u)) m us) k =
      status (foldl (\<lambda>m u. fst (netMeta_merge m u)) m us') k \<and>
    status m k \<le> status (foldl (\<lambda>m u. fst (netMeta_merge m u)) m us) k"
  using meta_gossip.merge_all_same [OF assms(2,1), of m m k] meta_gossip.merge_all_grows [OF assms(1), of m k]
  by blast

theorem membership_converges_witness:
  "status (foldl (\<lambda>m u. fst (netMeta_merge m u)) newNetMeta [newQuitNetMeta ''a'' ''y'', newJoinNetMeta ''a'' ''x'']) ''a'' =
   status (foldl (\<lambda>m u. fst (netMeta_merge m u)) newNetMeta [newJoinNetMeta ''a'' ''x'', newQuitNetMeta ''a'' ''y'']) ''a''"
  using membership_converges [of "[newQuitNetMeta ''a'' ''y'', newJoinNetMeta ''a'' ''x'']"
      "[newJoinNetMeta ''a'' ''x'', newQuitNetMeta ''a'' ''y'']" newNetMeta "''a''"]
  by (auto simp: meta_ok_def newQuitNetMeta_def newJoinNetMeta_def newNetMeta_def)

end
