(* ===== verification/NodePool.thy ===== *)
theory NodePool
  imports NetMeta
begin

text \<open>
  Messages and the pool of known nodes: \<^verbatim>\<open>network/message.go\<close> and \<^verbatim>\<open>network/nodepool.go\<close>. Nodes are objects that
  threads keep pointers to, also after they left the pool, so the pool has a store \<open>np_heap\<close> and \<open>pool\<close> maps ids
  to addresses in it. A channel is the list of the messages waiting in it; sending to a full channel fails, as in
  \<open>select\<close> with a \<open>default\<close>. A connection is a number, \<open>np_closed\<close> lists the closed ones.

  Each operation holds its lock or works on one node, and is one step. The field \<open>Visited\<close> of a message is a map that all
  copies of the message share: \<open>broadcastRecursive\<close> changes it while the copies already wait in the channels, so every
  copy carries the map as it is at the end. The logger is not modelled.
\<close>

section \<open>Messages (\<open>message.go\<close>)\<close>

definition MSG_TYPE_VERSION_CHECK :: string where "MSG_TYPE_VERSION_CHECK = ''versionCheck''"
definition MSG_TYPE_NET_META_UPDATE :: string where "MSG_TYPE_NET_META_UPDATE = ''netMetaUpdate''"
definition MSG_TYPE_REMOTE_OP :: string where "MSG_TYPE_REMOTE_OP = ''remoteOp''"

lemmas message_types = MSG_TYPE_VERSION_CHECK_def MSG_TYPE_NET_META_UPDATE_def MSG_TYPE_REMOTE_OP_def

record Message =
  m_Type :: string
  m_Visited :: "string list option"
  m_Msg :: "byte list"

definition NewBroadcastMessage :: "string \<Rightarrow> string \<Rightarrow> byte list \<Rightarrow> Message" where
  "NewBroadcastMessage nid msgType content = \<lparr>m_Type = msgType, m_Visited = Some [nid], m_Msg = content\<rparr>"

definition NewReplyMessage :: "string \<Rightarrow> byte list \<Rightarrow> Message" where
  "NewReplyMessage msgType content = \<lparr>m_Type = msgType, m_Visited = None, m_Msg = content\<rparr>"

definition newNetMetaUpdateMsg :: "(NetMeta \<Rightarrow> string + byte list) \<Rightarrow> string \<Rightarrow> NetMeta \<Rightarrow> Message" where
  "newNetMetaUpdateMsg marshal nid delta =
     NewBroadcastMessage nid MSG_TYPE_NET_META_UPDATE (netMeta_toJson marshal delta)"

definition newSyncOrCheckMessage :: "string \<Rightarrow> byte list \<Rightarrow> Message" where
  "newSyncOrCheckMessage msgType content = \<lparr>m_Type = msgType, m_Visited = None, m_Msg = content\<rparr>"

record VersionCheckMsgContent =
  vc_Source :: string
  vc_NetworkMeta :: NetMeta
  vc_VersionVector :: "byte list"

definition newVersionCheckMsgContentFromJson ::
  "(byte list \<Rightarrow> string + VersionCheckMsgContent) \<Rightarrow> byte list \<Rightarrow> string + VersionCheckMsgContent" where
  "newVersionCheckMsgContentFromJson unmarshal bytes = unmarshal bytes"

definition versionCheck_toJson ::
  "(VersionCheckMsgContent \<Rightarrow> string + byte list) \<Rightarrow> VersionCheckMsgContent \<Rightarrow> byte list" where
  "versionCheck_toJson marshal content = (case marshal content of Inl err \<Rightarrow> [] | Inr bytes \<Rightarrow> bytes)"

section \<open>Nodes and threads\<close>

datatype NodeState = Disconnected | Connected | NodeLeft | SessionEnded

definition chanBufferSize :: nat where "chanBufferSize = 30"

record node =
  nd_state :: NodeState
  nd_id :: string
  nd_addr :: string
  nd_outChan :: "Message list"
  nd_conn :: "nat option"

definition setState :: "node \<Rightarrow> NodeState \<Rightarrow> node \<times> bool" where
  "setState n state =
     (case nd_state n of
        NodeLeft \<Rightarrow> (n, state = NodeLeft)
      | SessionEnded \<Rightarrow>
          if state = NodeLeft then (n\<lparr>nd_state := NodeLeft\<rparr>, True) else (n, state = SessionEnded)
      | _ \<Rightarrow> (n\<lparr>nd_state := state\<rparr>, True))"

text \<open>The goroutines that the network code starts; the sender keeps the connection it was started with.\<close>

datatype thread =
    ConnectThread nat
  | PokeThread nat
  | SendThread nat nat
  | ReceiveThread nat
  | RemoteOpThread "byte list"
  | ReplyThread Message string

definition shouldConnect :: "string \<Rightarrow> string \<Rightarrow> bool" where
  "shouldConnect localAddr remoteAddr \<longleftrightarrow> localAddr < remoteAddr"

definition initiateNewNode :: "string \<Rightarrow> node list \<Rightarrow> nat \<Rightarrow> thread list" where
  "initiateNewNode publicAddr H a =
     (if nd_state (H ! a) \<noteq> Disconnected then []
      else if shouldConnect publicAddr (nd_addr (H ! a)) then [ConnectThread a] else [PokeThread a])"

section \<open>The pool (\<open>nodepool.go\<close>)\<close>

record nodePool =
  np_netMeta :: NetMeta
  np_pool :: "(string \<times> nat) list"
  np_heap :: "node list"
  np_closed :: "nat list"

definition newNodePool :: nodePool where
  "newNodePool = \<lparr>np_netMeta = newNetMeta, np_pool = [], np_heap = [], np_closed = []\<rparr>"

definition np_node :: "nodePool \<Rightarrow> nat \<Rightarrow> node" where
  "np_node np a = np_heap np ! a"

definition np_set :: "nodePool \<Rightarrow> nat \<Rightarrow> node \<Rightarrow> nodePool" where
  "np_set np a n = np\<lparr>np_heap := (np_heap np)[a := n]\<rparr>"

definition set_state_at :: "nodePool \<Rightarrow> nat \<Rightarrow> NodeState \<Rightarrow> nodePool \<times> bool" where
  "set_state_at np a state = (case setState (np_node np a) state of (n, ok) \<Rightarrow> (np_set np a n, ok))"

definition putMsgOnSendingQueueOfNode :: "Message \<Rightarrow> nodePool \<Rightarrow> nat \<Rightarrow> nodePool \<times> bool" where
  "putMsgOnSendingQueueOfNode msg np a =
     (let n = np_node np a in
      if length (nd_outChan n) < chanBufferSize
      then (np_set np a (n\<lparr>nd_outChan := nd_outChan n @ [msg]\<rparr>), True)
      else (np, False))"

definition getNodeWithId :: "nodePool \<Rightarrow> string \<Rightarrow> nat option" where
  "getNodeWithId np nid = map_of (np_pool np) nid"

definition sendMessageToNodeWithId :: "nodePool \<Rightarrow> Message \<Rightarrow> string \<Rightarrow> nodePool \<times> bool" where
  "sendMessageToNodeWithId np msg nid =
     (case getNodeWithId np nid of Some a \<Rightarrow> putMsgOnSendingQueueOfNode msg np a | None \<Rightarrow> (np, False))"

definition getConnectedNodes :: "nodePool \<Rightarrow> nat list" where
  "getConnectedNodes np = filter (\<lambda>a. nd_state (np_node np a) = Connected) (map snd (np_pool np))"

definition getAllNodes :: "nodePool \<Rightarrow> nat list" where
  "getAllNodes np = map snd (np_pool np)"

definition broadcastOnce :: "nodePool \<Rightarrow> Message \<Rightarrow> nodePool" where
  "broadcastOnce np msg = foldl (\<lambda>np a. fst (putMsgOnSendingQueueOfNode msg np a)) np (getConnectedNodes np)"

text \<open>The second loop of \<open>broadcastRecursive\<close>: who gets a copy, and the shared map after the failures.\<close>

fun recursive_loop ::
  "nodePool \<Rightarrow> string list \<Rightarrow> nat list \<Rightarrow> string list \<Rightarrow> nat list \<Rightarrow> string list \<times> nat list" where
  "recursive_loop np original [] visited sent = (visited, sent)"
| "recursive_loop np original (a # as) visited sent =
     (let n = np_node np a in
      if nd_id n \<in> set original then recursive_loop np original as visited sent
      else if length (nd_outChan n) < chanBufferSize then recursive_loop np original as visited (sent @ [a])
      else recursive_loop np original as (removeAll (nd_id n) visited) sent)"

definition broadcastRecursive :: "nodePool \<Rightarrow> Message \<Rightarrow> string list \<Rightarrow> nodePool" where
  "broadcastRecursive np msg visited =
     (let connected = getConnectedNodes np;
          visited' = visited @ map (\<lambda>a. nd_id (np_node np a)) connected
      in case recursive_loop np visited connected visited' [] of
           (final, sent) \<Rightarrow>
             foldl (\<lambda>np a. fst (putMsgOnSendingQueueOfNode (msg\<lparr>m_Visited := Some final\<rparr>) np a)) np sent)"

definition broadcast :: "nodePool \<Rightarrow> Message \<Rightarrow> nodePool" where
  "broadcast np msg =
     (case m_Visited msg of None \<Rightarrow> broadcastOnce np msg | Some visited \<Rightarrow> broadcastRecursive np msg visited)"

definition np_has :: "nodePool \<Rightarrow> string \<Rightarrow> bool" where
  "np_has np nid \<longleftrightarrow> map_of (np_netMeta np) nid \<noteq> None"

fun new_session_loop :: "string \<Rightarrow> nat list \<Rightarrow> nodePool \<Rightarrow> thread list \<Rightarrow> nodePool \<times> thread list" where
  "new_session_loop publicAddr [] np ts = (np, ts)"
| "new_session_loop publicAddr (a # as) np ts =
     (let n = np_node np a;
          np = (if nd_state n = SessionEnded then np_set np a (n\<lparr>nd_state := Disconnected\<rparr>) else np)
      in new_session_loop publicAddr as np (ts @ initiateNewNode publicAddr (np_heap np) a))"

definition handleNewSession :: "nodePool \<Rightarrow> string \<Rightarrow> string \<Rightarrow> nodePool \<times> thread list" where
  "handleNewSession np sid publicAddr =
     new_session_loop publicAddr (map snd (np_pool np))
       (np\<lparr>np_netMeta := AList.update sid \<lparr>nm_Addr = publicAddr, nm_Left = False\<rparr> (np_netMeta np)\<rparr>) []"

definition handleEndSession :: "nodePool \<Rightarrow> string \<Rightarrow> string \<Rightarrow> nodePool" where
  "handleEndSession np sid publicAddr =
     foldl (\<lambda>np a. fst (set_state_at np a SessionEnded))
       (np\<lparr>np_netMeta := AList.update sid \<lparr>nm_Addr = publicAddr, nm_Left = True\<rparr> (np_netMeta np)\<rparr>)
       (map snd (np_pool np))"

definition close_node :: "nodePool \<Rightarrow> nat \<Rightarrow> nodePool" where
  "close_node np a =
     (case nd_conn (np_node np a) of None \<Rightarrow> np | Some c \<Rightarrow> np\<lparr>np_closed := c # np_closed np\<rparr>)"

definition removeNodeFromPool :: "nodePool \<Rightarrow> string \<Rightarrow> nodePool" where
  "removeNodeFromPool np nid =
     (case map_of (np_pool np) nid of
        None \<Rightarrow> np
      | Some a \<Rightarrow>
          let np = fst (set_state_at np a NodeLeft);
              np = (if nd_conn (np_node np a) \<noteq> None then close_node np a else np)
          in np\<lparr>np_pool := AList.delete nid (np_pool np)\<rparr>)"

definition addOrGetNodeFromPool :: "nodePool \<Rightarrow> string \<Rightarrow> NodeMeta \<Rightarrow> nodePool \<times> nat" where
  "addOrGetNodeFromPool np nid nodeMeta =
     (case map_of (np_pool np) nid of
        Some a \<Rightarrow> (np, a)
      | None \<Rightarrow>
          let a = length (np_heap np)
          in (np\<lparr>np_heap := np_heap np @ [\<lparr>nd_state = Disconnected, nd_id = nid, nd_addr = nm_Addr nodeMeta,
                    nd_outChan = [], nd_conn = None\<rparr>],
                 np_pool := AList.update nid a (np_pool np)\<rparr>, a))"

fun apply_delta :: "NetMeta \<Rightarrow> nodePool \<Rightarrow> nat list \<Rightarrow> nodePool \<times> nat list" where
  "apply_delta [] np nodeList = (np, nodeList)"
| "apply_delta ((nid, n) # delta) np nodeList =
     (if nm_Left n then apply_delta delta (removeNodeFromPool np nid) nodeList
      else case addOrGetNodeFromPool np nid n of (np, a) \<Rightarrow> apply_delta delta np (nodeList @ [a]))"

definition applyReceivedUpdates :: "nodePool \<Rightarrow> NetMeta \<Rightarrow> nodePool \<times> nat list \<times> NetMeta \<times> bool" where
  "applyReceivedUpdates np updates =
     (case netMeta_merge (np_netMeta np) updates of
        (netMeta, delta, changed) \<Rightarrow>
          (case apply_delta delta (np\<lparr>np_netMeta := netMeta\<rparr>) [] of
             (np, nodeList) \<Rightarrow> (np, nodeList, delta, changed)))"

definition getLatestNetMeta :: "nodePool \<Rightarrow> NetMeta" where
  "getLatestNetMeta np = np_netMeta np"

definition getLatestNetMetaCopy :: "nodePool \<Rightarrow> NetMeta" where
  "getLatestNetMetaCopy np = netMeta_copy (np_netMeta np)"

section \<open>Invariant\<close>

text \<open>
  Ids and nodes in the pool match one to one, a node is in the pool exactly as long as it has not left, and no channel
  holds more than its capacity.
\<close>

definition pool_ok :: "nodePool \<Rightarrow> bool" where
  "pool_ok np \<longleftrightarrow> meta_ok (np_netMeta np) \<and> distinct (map fst (np_pool np)) \<and>
     (\<forall>(nid, a)\<in>set (np_pool np). a < length (np_heap np) \<and> nd_id (np_node np a) = nid) \<and>
     (\<forall>a<length (np_heap np). length (nd_outChan (np_node np a)) \<le> chanBufferSize \<and>
        (nd_state (np_node np a) = NodeLeft \<longleftrightarrow> a \<notin> snd ` set (np_pool np)))"

lemma pool_okD:
  assumes "pool_ok np"
  shows "meta_ok (np_netMeta np)" "distinct (map fst (np_pool np))"
    "\<And>nid a. (nid, a) \<in> set (np_pool np) \<Longrightarrow> a < length (np_heap np) \<and> nd_id (np_node np a) = nid"
    "\<And>a. a < length (np_heap np) \<Longrightarrow> length (nd_outChan (np_node np a)) \<le> chanBufferSize"
    "\<And>a. a < length (np_heap np) \<Longrightarrow> nd_state (np_node np a) = NodeLeft \<longleftrightarrow> a \<notin> snd ` set (np_pool np)"
  using assms by (auto simp: pool_ok_def)

lemma np_set_simps [simp]:
  "np_netMeta (np_set np a n) = np_netMeta np" "np_pool (np_set np a n) = np_pool np"
  "length (np_heap (np_set np a n)) = length (np_heap np)" "np_closed (np_set np a n) = np_closed np"
  "a < length (np_heap np) \<Longrightarrow> np_node (np_set np a n) b = (if b = a then n else np_node np b)"
  by (auto simp: np_set_def np_node_def)

lemma pool_ok_set:
  assumes "pool_ok np" "a < length (np_heap np)" "nd_id n = nd_id (np_node np a)"
    "length (nd_outChan n) \<le> chanBufferSize" "nd_state n = NodeLeft \<longleftrightarrow> nd_state (np_node np a) = NodeLeft"
  shows "pool_ok (np_set np a n)"
  using assms by (fastforce simp: pool_ok_def)

lemma setState_facts:
  assumes "setState n st = (n', ok)"
  shows "nd_id n' = nd_id n" "nd_addr n' = nd_addr n" "nd_outChan n' = nd_outChan n" "nd_conn n' = nd_conn n"
    "ok \<longleftrightarrow> nd_state n' = st" "nd_state n = NodeLeft \<Longrightarrow> n' = n"
    "nd_state n' = NodeLeft \<longleftrightarrow> nd_state n = NodeLeft \<or> st = NodeLeft"
    "nd_state n = SessionEnded \<Longrightarrow> nd_state n' \<in> {SessionEnded, NodeLeft}"
  using assms by (auto simp: setState_def split: NodeState.splits if_splits)

lemma set_state_at_ok:
  assumes "pool_ok np" "a < length (np_heap np)" "st \<noteq> NodeLeft"
  shows "pool_ok (fst (set_state_at np a st))"
proof -
  obtain n ok where n: "setState (np_node np a) st = (n, ok)" by force
  show ?thesis
    using pool_okD(4) [OF assms(1,2)] setState_facts [OF n] assms(3)
    by (auto simp: set_state_at_def n intro!: pool_ok_set [OF assms(1,2)])
qed

lemma putMsg_eq:
  assumes "a < length (np_heap np)"
  shows "np_netMeta (fst (putMsgOnSendingQueueOfNode msg np a)) = np_netMeta np"
    "np_pool (fst (putMsgOnSendingQueueOfNode msg np a)) = np_pool np"
    "length (np_heap (fst (putMsgOnSendingQueueOfNode msg np a))) = length (np_heap np)"
    "np_node (fst (putMsgOnSendingQueueOfNode msg np a)) b =
      (if b = a \<and> length (nd_outChan (np_node np a)) < chanBufferSize
       then (np_node np a)\<lparr>nd_outChan := nd_outChan (np_node np a) @ [msg]\<rparr> else np_node np b)"
  using assms by (auto simp: putMsgOnSendingQueueOfNode_def Let_def)

lemma putMsg_ok:
  assumes "pool_ok np" "a < length (np_heap np)"
  shows "pool_ok (fst (putMsgOnSendingQueueOfNode msg np a))"
  using pool_okD(4) [OF assms]
  by (auto simp: putMsgOnSendingQueueOfNode_def Let_def intro!: pool_ok_set [OF assms] assms(1))

lemma put_all:
  fixes msg :: Message
  assumes "pool_ok np" "\<forall>a\<in>set as. a < length (np_heap np)" "distinct as"
  defines "np' \<equiv> foldl (\<lambda>np a. fst (putMsgOnSendingQueueOfNode msg np a)) np as"
  shows "pool_ok np' \<and> np_netMeta np' = np_netMeta np \<and> np_pool np' = np_pool np \<and>
    length (np_heap np') = length (np_heap np) \<and>
    (\<forall>b. np_node np' b =
      (if b \<in> set as \<and> length (nd_outChan (np_node np b)) < chanBufferSize
       then (np_node np b)\<lparr>nd_outChan := nd_outChan (np_node np b) @ [msg]\<rparr> else np_node np b))"
  unfolding np'_def using assms(1-3)
proof (induction as arbitrary: np)
  case (Cons a as)
  let ?np = "fst (putMsgOnSendingQueueOfNode msg np a)"
  have a: "a < length (np_heap np)" using Cons.prems(2) by simp
  note put = putMsg_eq [OF a, of msg]
  have "pool_ok ?np" "\<forall>a\<in>set as. a < length (np_heap ?np)" "distinct as"
    using putMsg_ok [OF Cons.prems(1) a] Cons.prems(2,3) put(3) by auto
  note IH = Cons.IH [OF this]
  show ?case using IH Cons.prems(3) by (auto simp: put)
qed simp

lemma connected_facts:
  assumes "pool_ok np"
  shows "distinct (getConnectedNodes np)" "\<forall>a\<in>set (getConnectedNodes np). a < length (np_heap np)"
    "inj_on (\<lambda>a. nd_id (np_node np a)) (snd ` set (np_pool np))"
    "set (getConnectedNodes np) = {a \<in> snd ` set (np_pool np). nd_state (np_node np a) = Connected}"
proof -
  have inj: "k = k'" if "(k, a) \<in> set (np_pool np)" "(k', a) \<in> set (np_pool np)" for k k' a
    using pool_okD(3) [OF assms that(1)] pool_okD(3) [OF assms that(2)] by simp
  have "inj_on snd (set (np_pool np))"
    using inj by (auto simp: inj_on_def)
  then have "distinct (map snd (np_pool np))"
    using pool_okD(2) [OF assms] by (simp add: distinct_map)
  then show "distinct (getConnectedNodes np)" by (simp add: getConnectedNodes_def)
  show "\<forall>a\<in>set (getConnectedNodes np). a < length (np_heap np)"
    using pool_okD(3) [OF assms] by (auto simp: getConnectedNodes_def)
  show "inj_on (\<lambda>a. nd_id (np_node np a)) (snd ` set (np_pool np))"
  proof (rule inj_onI)
    fix a b assume "a \<in> snd ` set (np_pool np)" "b \<in> snd ` set (np_pool np)"
      "nd_id (np_node np a) = nd_id (np_node np b)"
    then obtain k where "(k, a) \<in> set (np_pool np)" "(k, b) \<in> set (np_pool np)"
      using pool_okD(3) [OF assms] by force
    then show "a = b" using pool_okD(2) [OF assms] eq_key_imp_eq_value by metis
  qed
  show "set (getConnectedNodes np) = {a \<in> snd ` set (np_pool np). nd_state (np_node np a) = Connected}"
    by (auto simp: getConnectedNodes_def)
qed

section \<open>Broadcasting\<close>

lemma recursive_loop_eq:
  "recursive_loop np original as visited sent =
    (fold (\<lambda>a v. if nd_id (np_node np a) \<notin> set original \<and> \<not> length (nd_outChan (np_node np a)) < chanBufferSize
        then removeAll (nd_id (np_node np a)) v else v) as visited,
     sent @ filter (\<lambda>a. nd_id (np_node np a) \<notin> set original \<and> length (nd_outChan (np_node np a)) < chanBufferSize) as)"
  by (induction as arbitrary: visited sent) (auto simp: Let_def)

lemma set_fold_removeAll:
  "set (fold (\<lambda>a v. if P a then removeAll (f a) v else v) as v) = set v - f ` {a \<in> set as. P a}"
  by (induction as arbitrary: v) auto

definition receives :: "nodePool \<Rightarrow> string list \<Rightarrow> nat \<Rightarrow> bool" where
  "receives np visited a \<longleftrightarrow> a \<in> set (getConnectedNodes np) \<and> nd_id (np_node np a) \<notin> set visited \<and>
     length (nd_outChan (np_node np a)) < chanBufferSize"

lemma broadcastRecursive_eq:
  assumes "pool_ok np"
  shows "\<exists>final. set final = set visited \<union> (\<lambda>a. nd_id (np_node np a)) ` {a. receives np visited a} \<and>
    pool_ok (broadcastRecursive np msg visited) \<and>
    np_netMeta (broadcastRecursive np msg visited) = np_netMeta np \<and>
    np_pool (broadcastRecursive np msg visited) = np_pool np \<and>
    length (np_heap (broadcastRecursive np msg visited)) = length (np_heap np) \<and>
    (\<forall>b. np_node (broadcastRecursive np msg visited) b =
      (if receives np visited b
       then (np_node np b)\<lparr>nd_outChan := nd_outChan (np_node np b) @ [msg\<lparr>m_Visited := Some final\<rparr>]\<rparr>
       else np_node np b))"
proof -
  let ?c = "getConnectedNodes np" and ?id = "\<lambda>a. nd_id (np_node np a)"
  let ?full = "\<lambda>a. ?id a \<notin> set visited \<and> \<not> length (nd_outChan (np_node np a)) < chanBufferSize"
  let ?sent = "filter (\<lambda>a. ?id a \<notin> set visited \<and> length (nd_outChan (np_node np a)) < chanBufferSize) ?c"
  let ?final = "fold (\<lambda>a v. if ?full a then removeAll (?id a) v else v) ?c (visited @ map ?id ?c)"
  note c = connected_facts [OF assms]
  have "?id ` set ?c - ?id ` {a \<in> set ?c. ?full a} = ?id ` (set ?c - {a \<in> set ?c. ?full a})"
    by (rule inj_on_image_set_diff [symmetric, OF c(3)]) (auto simp: c(4))
  moreover have "set visited \<inter> ?id ` {a \<in> set ?c. ?full a} = {}" by auto
  ultimately have "set ?final = set visited \<union> ?id ` (set ?c - {a \<in> set ?c. ?full a})"
    by (auto simp: set_fold_removeAll)
  also have "\<dots> = set visited \<union> ?id ` {a. receives np visited a}" by (auto simp: receives_def)
  finally have final: "set ?final = \<dots>" .
  have "broadcastRecursive np msg visited =
      foldl (\<lambda>np a. fst (putMsgOnSendingQueueOfNode (msg\<lparr>m_Visited := Some ?final\<rparr>) np a)) np ?sent"
    by (simp add: broadcastRecursive_def recursive_loop_eq Let_def)
  then show ?thesis
    using put_all [OF assms, of ?sent "msg\<lparr>m_Visited := Some ?final\<rparr>"] c(1,2) final
    by (intro exI [of _ ?final]) (auto simp: receives_def)
qed

lemma broadcastOnce_ok:
  assumes "pool_ok np"
  shows "pool_ok (broadcastOnce np msg)" "np_pool (broadcastOnce np msg) = np_pool np"
    "np_netMeta (broadcastOnce np msg) = np_netMeta np"
  using put_all [OF assms connected_facts(2,1) [OF assms]] by (auto simp: broadcastOnce_def)

lemma broadcastRecursive_ok:
  assumes "pool_ok np"
  shows "pool_ok (broadcastRecursive np msg visited)" "np_pool (broadcastRecursive np msg visited) = np_pool np"
    "np_netMeta (broadcastRecursive np msg visited) = np_netMeta np"
  using broadcastRecursive_eq [OF assms, of visited msg] by blast+

lemma broadcast_ok:
  assumes "pool_ok np"
  shows "pool_ok (broadcast np msg)" "np_pool (broadcast np msg) = np_pool np"
    "np_netMeta (broadcast np msg) = np_netMeta np"
  using broadcastOnce_ok [OF assms] broadcastRecursive_ok [OF assms]
  by (auto simp: broadcast_def split: option.splits)

lemma sendMessage_ok:
  assumes "pool_ok np"
  shows "pool_ok (fst (sendMessageToNodeWithId np msg nid))"
    "np_netMeta (fst (sendMessageToNodeWithId np msg nid)) = np_netMeta np"
proof -
  have "a < length (np_heap np)" if "map_of (np_pool np) nid = Some a" for a
    using pool_okD(3) [OF assms map_of_SomeD [OF that]] by simp
  then show "pool_ok (fst (sendMessageToNodeWithId np msg nid))"
    "np_netMeta (fst (sendMessageToNodeWithId np msg nid)) = np_netMeta np"
    using assms by (auto simp: sendMessageToNodeWithId_def getNodeWithId_def putMsg_ok putMsg_eq split: option.splits)
qed

section \<open>Members come and go\<close>

lemma np_node_frame [simp]:
  "np_node (np\<lparr>np_netMeta := m\<rparr>) a = np_node np a" "np_node (np\<lparr>np_pool := p\<rparr>) a = np_node np a"
  "np_node (np\<lparr>np_closed := c\<rparr>) a = np_node np a"
  by (simp_all add: np_node_def)

lemma pool_ok_netMeta: "pool_ok np \<Longrightarrow> meta_ok m \<Longrightarrow> pool_ok (np\<lparr>np_netMeta := m\<rparr>)"
  by (simp add: pool_ok_def)

lemma removeNodeFromPool_frame [simp]: "np_netMeta (removeNodeFromPool np nid) = np_netMeta np"
  by (auto simp: removeNodeFromPool_def Let_def set_state_at_def close_node_def split: option.splits prod.splits)

lemma removeNodeFromPool_ok:
  assumes "pool_ok np"
  shows "pool_ok (removeNodeFromPool np nid)" "np_pool (removeNodeFromPool np nid) = AList.delete nid (np_pool np)"
proof -
  note np = pool_okD [OF assms]
  have "pool_ok (removeNodeFromPool np nid) \<and> np_pool (removeNodeFromPool np nid) = AList.delete nid (np_pool np)"
  proof (cases "map_of (np_pool np) nid")
    case None
    then have "nid \<notin> fst ` set (np_pool np)" by (simp add: map_of_eq_None_iff)
    then have "AList.delete nid (np_pool np) = np_pool np" by (simp add: AList.delete_eq filter_id_conv) (auto intro: rev_image_eqI)
    with None assms show ?thesis by (simp add: removeNodeFromPool_def)
  next
    case (Some a)
    have a: "(nid, a) \<in> set (np_pool np)" by (rule map_of_SomeD [OF Some])
    obtain n ok where n: "setState (np_node np a) NodeLeft = (n, ok)" by force
    note n' = setState_facts [OF n]
    let ?np = "removeNodeFromPool np nid"
    have eq: "np_pool ?np = AList.delete nid (np_pool np)" "length (np_heap ?np) = length (np_heap np)"
      "np_node ?np b = (if b = a then n else np_node np b)" "np_netMeta ?np = np_netMeta np" for b
      using np(3) [OF a] by (auto simp: removeNodeFromPool_def Some set_state_at_def n close_node_def Let_def split: option.splits)
    have rest: "(k, b) \<in> set (AList.delete nid (np_pool np)) \<longleftrightarrow> (k, b) \<in> set (np_pool np) \<and> k \<noteq> nid" for k b
      by (auto simp: AList.delete_eq)
    have only: "b \<in> snd ` set (AList.delete nid (np_pool np)) \<longleftrightarrow> b \<in> snd ` set (np_pool np) \<and> b \<noteq> a" for b
    proof
      assume "b \<in> snd ` set (AList.delete nid (np_pool np))"
      then obtain k where k: "(k, b) \<in> set (np_pool np)" "k \<noteq> nid" using rest by force
      then show "b \<in> snd ` set (np_pool np) \<and> b \<noteq> a" using np(3) [OF k(1)] np(3) [OF a] by force
    next
      assume "b \<in> snd ` set (np_pool np) \<and> b \<noteq> a"
      then obtain k where k: "(k, b) \<in> set (np_pool np)" "b \<noteq> a" by force
      have "k \<noteq> nid"
      proof
        assume "k = nid"
        then have "(nid, b) \<in> set (np_pool np)" using k(1) by simp
        from eq_key_imp_eq_value [OF np(2) a this] k(2) show False by simp
      qed
      then have "(k, b) \<in> set (AList.delete nid (np_pool np))" using k(1) rest by blast
      then show "b \<in> snd ` set (AList.delete nid (np_pool np))" by (rule rev_image_eqI) simp
    qed
    have "pool_ok ?np"
      unfolding pool_ok_def
    proof (intro conjI allI impI ballI)
      show "meta_ok (np_netMeta ?np)" "distinct (map fst (np_pool ?np))"
        using np(1) distinct_delete [OF np(2), of nid] by (simp_all add: eq)
      fix e assume "e \<in> set (np_pool ?np)"
      moreover obtain k b where e: "e = (k, b)" by force
      ultimately have kb: "(k, b) \<in> set (np_pool np)" by (simp add: eq rest)
      show "case e of (nid, a) \<Rightarrow> a < length (np_heap ?np) \<and> nd_id (np_node ?np a) = nid"
        using np(3) [OF kb] n'(1) by (auto simp: eq e)
    next
      fix b assume "b < length (np_heap ?np)"
      then have b: "b < length (np_heap np)" by (simp add: eq)
      show "length (nd_outChan (np_node ?np b)) \<le> chanBufferSize" using np(4) [OF b] n'(3) by (auto simp: eq)
      show "(nd_state (np_node ?np b) = NodeLeft) = (b \<notin> snd ` set (np_pool ?np))"
        unfolding eq only using np(5) [OF b] n'(7) by simp
    qed
    with eq(1) show ?thesis by simp
  qed
  then show "pool_ok (removeNodeFromPool np nid)" "np_pool (removeNodeFromPool np nid) = AList.delete nid (np_pool np)"
    by simp_all
qed

lemma set_update_fresh: "k \<notin> fst ` set xs \<Longrightarrow> set (AList.update k v xs) = insert (k, v) (set xs)"
  by (induction xs) auto

lemma addOrGetNodeFromPool_ok:
  assumes "pool_ok np" "addOrGetNodeFromPool np nid n = (np', a)"
  shows "pool_ok np'" "np_netMeta np' = np_netMeta np" "map_of (np_pool np') nid = Some a"
    "k \<noteq> nid \<Longrightarrow> map_of (np_pool np') k = map_of (np_pool np) k"
proof -
  note np = pool_okD [OF assms(1)]
  have "pool_ok np' \<and> np_netMeta np' = np_netMeta np \<and> map_of (np_pool np') nid = Some a \<and>
    (k \<noteq> nid \<longrightarrow> map_of (np_pool np') k = map_of (np_pool np) k)"
  proof (cases "map_of (np_pool np) nid")
    case (Some b)
    then show ?thesis using assms by (simp add: addOrGetNodeFromPool_def)
  next
    case None
    let ?n = "\<lparr>nd_state = Disconnected, nd_id = nid, nd_addr = nm_Addr n, nd_outChan = [], nd_conn = None\<rparr>"
    have a: "a = length (np_heap np)" and np': "np' = np\<lparr>np_heap := np_heap np @ [?n], np_pool := AList.update nid a (np_pool np)\<rparr>"
      using assms(2) None by (auto simp: addOrGetNodeFromPool_def Let_def)
    have fresh: "nid \<notin> fst ` set (np_pool np)" using None by (simp add: map_of_eq_None_iff)
    have upd: "set (AList.update nid a (np_pool np)) = insert (nid, a) (set (np_pool np))"
      using set_update_fresh [OF fresh] .
    have node: "np_node np' b = (if b = a then ?n else np_node np b)" if "b \<le> a" for b
      using that by (auto simp: np_node_def np' a nth_append)
    have "pool_ok np'"
      unfolding pool_ok_def
    proof (intro conjI allI impI ballI)
      show "meta_ok (np_netMeta np')" "distinct (map fst (np_pool np'))"
        using np(1,2) by (simp_all add: np' distinct_update)
      fix e assume "e \<in> set (np_pool np')"
      moreover obtain k b where e: "e = (k, b)" by force
      ultimately have "(k, b) = (nid, a) \<or> (k, b) \<in> set (np_pool np)" by (simp add: np' upd)
      then have "b \<le> a" "b = a \<longrightarrow> k = nid" "b \<noteq> a \<longrightarrow> nd_id (np_node np b) = k"
        using np(3) [of k b] by (auto simp: a)
      then show "case e of (nid, a) \<Rightarrow> a < length (np_heap np') \<and> nd_id (np_node np' a) = nid"
        using node [of b] by (simp add: e) (simp add: np' a)
    next
      fix b assume "b < length (np_heap np')"
      then have b: "b \<le> a" by (simp add: np' a)
      show "length (nd_outChan (np_node np' b)) \<le> chanBufferSize"
        using np(4) [of b] b by (auto simp: node a)
      show "(nd_state (np_node np' b) = NodeLeft) = (b \<notin> snd ` set (np_pool np'))"
      proof -
        have "snd ` set (np_pool np') = insert a (snd ` set (np_pool np))" by (auto simp: np' upd)
        then show ?thesis using np(5) [of b] b by (auto simp: node a)
      qed
    qed
    then show ?thesis by (simp add: np' update_conv)
  qed
  then show "pool_ok np'" "np_netMeta np' = np_netMeta np" "map_of (np_pool np') nid = Some a"
    "k \<noteq> nid \<Longrightarrow> map_of (np_pool np') k = map_of (np_pool np) k" by blast+
qed

definition pool_after :: "NodeMeta option \<Rightarrow> nat list \<Rightarrow> nat option \<Rightarrow> nat option \<Rightarrow> bool" where
  "pool_after n l old new \<longleftrightarrow>
     (case n of None \<Rightarrow> new = old
      | Some n \<Rightarrow> if nm_Left n then new = None else \<exists>a\<in>set l. new = Some a)"

lemma apply_delta_ok:
  assumes "pool_ok np" "meta_ok d" "apply_delta d np l = (np', l')"
  shows "pool_ok np' \<and> np_netMeta np' = np_netMeta np \<and> set l \<subseteq> set l' \<and>
    (\<forall>nid. pool_after (map_of d nid) l' (map_of (np_pool np) nid) (map_of (np_pool np') nid))"
  using assms
proof (induction d np l rule: apply_delta.induct)
  case (2 k n d np l)
  have d: "meta_ok d" "map_of d k = None" using "2.prems"(2) by (auto simp: meta_ok_def map_of_eq_None_iff)
  let ?after = "\<lambda>d np nid. pool_after (map_of d nid) l' (map_of (np_pool np) nid) (map_of (np_pool np') nid)"
  show ?case
  proof (cases "nm_Left n")
    case True
    note del = removeNodeFromPool_ok [OF "2.prems"(1), of k]
    have "apply_delta d (removeNodeFromPool np k) l = (np', l')" using "2.prems"(3) True by simp
    note IH = "2.IH"(1) [OF True del(1) d(1) this]
    have "?after ((k, n) # d) np nid" for nid
    proof -
      have "?after d (removeNodeFromPool np k) nid" using IH by blast
      then show ?thesis using True d(2) by (cases "nid = k") (simp_all add: pool_after_def del(2) delete_conv)
    qed
    then show ?thesis using IH by simp
  next
    case False
    obtain np1 a where add: "addOrGetNodeFromPool np k n = (np1, a)" by force
    note add' = addOrGetNodeFromPool_ok [OF "2.prems"(1) add]
    have "apply_delta d np1 (l @ [a]) = (np', l')" using "2.prems"(3) False add by simp
    note IH = "2.IH"(2) [OF False add [symmetric] add'(1) d(1) this]
    have "?after ((k, n) # d) np nid" for nid
    proof -
      have "?after d np1 nid" using IH by blast
      then show ?thesis using False d(2) add'(3) add'(4) [of nid] IH by (cases "nid = k") (simp_all add: pool_after_def)
    qed
    then show ?thesis using IH add'(2) by simp
  qed
qed (simp add: pool_after_def)

lemma applyReceivedUpdates_ok:
  assumes "pool_ok np" "meta_ok u" "applyReceivedUpdates np u = (np', l, d, changed)"
  shows "pool_ok np'" "netMeta_merge (np_netMeta np) u = (np_netMeta np', d, changed)"
    "pool_after (map_of d nid) l (map_of (np_pool np) nid) (map_of (np_pool np') nid)"
proof -
  obtain m d' c where m: "netMeta_merge (np_netMeta np) u = (m, d', c)" by (cases "netMeta_merge (np_netMeta np) u") auto
  note ok = netMeta_merge_ok [OF pool_okD(1) [OF assms(1)] m]
  obtain np1 l1 where del: "apply_delta d' (np\<lparr>np_netMeta := m\<rparr>) [] = (np1, l1)" by force
  note after = apply_delta_ok [OF pool_ok_netMeta [OF assms(1) ok(1)] ok(2) del]
  have eq: "np' = np1" "l = l1" "d = d'" "changed = c"
    using assms(3) by (simp_all add: applyReceivedUpdates_def m del)
  show "pool_ok np'" "netMeta_merge (np_netMeta np) u = (np_netMeta np', d, changed)"
    "pool_after (map_of d nid) l (map_of (np_pool np) nid) (map_of (np_pool np') nid)"
    using after m by (simp_all add: eq)
qed

section \<open>Sessions\<close>

lemma new_session_loop_ok:
  assumes "pool_ok np" "\<forall>a\<in>set as. a < length (np_heap np)" "new_session_loop addr as np ts = (np', ts')"
  shows "pool_ok np' \<and> np_netMeta np' = np_netMeta np \<and> np_pool np' = np_pool np \<and>
    length (np_heap np') = length (np_heap np) \<and>
    (\<forall>a. nd_state (np_node np' a) = (if a \<in> set as \<and> nd_state (np_node np a) = SessionEnded
       then Disconnected else nd_state (np_node np a)))"
  using assms
proof (induction addr as np ts rule: new_session_loop.induct)
  case (2 addr a as np ts)
  let ?n = "np_node np a"
  let ?np = "if nd_state ?n = SessionEnded then np_set np a (?n\<lparr>nd_state := Disconnected\<rparr>) else np"
  have a: "a < length (np_heap np)" using "2.prems"(2) by simp
  have "pool_ok ?np"
    using "2.prems"(1) a pool_okD(4) [OF "2.prems"(1) a] by (auto intro!: pool_ok_set)
  moreover have "\<forall>a\<in>set as. a < length (np_heap ?np)" using "2.prems"(2) by auto
  moreover have "new_session_loop addr as ?np (ts @ initiateNewNode addr (np_heap ?np) a) = (np', ts')"
    using "2.prems"(3) by (simp add: Let_def)
  ultimately have "pool_ok np' \<and> np_netMeta np' = np_netMeta ?np \<and> np_pool np' = np_pool ?np \<and>
    length (np_heap np') = length (np_heap ?np) \<and>
    (\<forall>a. nd_state (np_node np' a) = (if a \<in> set as \<and> nd_state (np_node ?np a) = SessionEnded
       then Disconnected else nd_state (np_node ?np a)))"
    using "2.IH" [OF refl refl] by blast
  then show ?case using a by (auto split: if_splits)
qed simp

lemma pool_addresses: "pool_ok np \<Longrightarrow> \<forall>a\<in>set (map snd (np_pool np)). a < length (np_heap np)"
  using pool_okD(3) by auto

lemma handleNewSession_ok:
  assumes "pool_ok np" "handleNewSession np sid addr = (np', ts)"
  shows "pool_ok np'" "np_netMeta np' = AList.update sid \<lparr>nm_Addr = addr, nm_Left = False\<rparr> (np_netMeta np)"
    "np_pool np' = np_pool np" "a \<in> snd ` set (np_pool np) \<Longrightarrow> nd_state (np_node np' a) \<noteq> SessionEnded"
proof -
  let ?np = "np\<lparr>np_netMeta := AList.update sid \<lparr>nm_Addr = addr, nm_Left = False\<rparr> (np_netMeta np)\<rparr>"
  have "pool_ok ?np" using pool_ok_netMeta [OF assms(1)] pool_okD(1) [OF assms(1)] by simp
  note loop = new_session_loop_ok [OF this, of "map snd (np_pool np)" addr "[]" np' ts]
  show "pool_ok np'" "np_netMeta np' = AList.update sid \<lparr>nm_Addr = addr, nm_Left = False\<rparr> (np_netMeta np)"
    "np_pool np' = np_pool np" "a \<in> snd ` set (np_pool np) \<Longrightarrow> nd_state (np_node np' a) \<noteq> SessionEnded"
    using loop assms(2) pool_addresses [OF assms(1)] by (auto simp: handleNewSession_def)
qed

lemma set_all_states:
  assumes "pool_ok np" "\<forall>a\<in>set as. a < length (np_heap np)" "st \<noteq> NodeLeft"
  shows "pool_ok (foldl (\<lambda>np a. fst (set_state_at np a st)) np as) \<and>
    np_netMeta (foldl (\<lambda>np a. fst (set_state_at np a st)) np as) = np_netMeta np \<and>
    np_pool (foldl (\<lambda>np a. fst (set_state_at np a st)) np as) = np_pool np \<and>
    (\<forall>a. np_node (foldl (\<lambda>np a. fst (set_state_at np a st)) np as) a =
       (if a \<in> set as then fst (setState (np_node np a) st) else np_node np a))"
  using assms(1,2)
proof (induction as arbitrary: np)
  case (Cons a as)
  let ?np = "fst (set_state_at np a st)"
  have a: "a < length (np_heap np)" using Cons.prems(2) by simp
  obtain n ok where n: "setState (np_node np a) st = (n, ok)" by force
  have np: "?np = np_set np a n" by (simp add: set_state_at_def n)
  have again: "fst (setState n st) = n" using n by (auto simp: setState_def split: NodeState.splits if_splits)
  show ?case
    using Cons.IH [of ?np] set_state_at_ok [OF Cons.prems(1) a assms(3)] Cons.prems(2) a again n
    by (auto simp: np)
qed simp

lemma handleEndSession_ok:
  assumes "pool_ok np"
  shows "pool_ok (handleEndSession np sid addr)"
    "np_netMeta (handleEndSession np sid addr) = AList.update sid \<lparr>nm_Addr = addr, nm_Left = True\<rparr> (np_netMeta np)"
    "np_pool (handleEndSession np sid addr) = np_pool np"
    "a \<in> snd ` set (np_pool np) \<Longrightarrow> nd_state (np_node (handleEndSession np sid addr) a) = SessionEnded"
proof -
  let ?np = "np\<lparr>np_netMeta := AList.update sid \<lparr>nm_Addr = addr, nm_Left = True\<rparr> (np_netMeta np)\<rparr>"
  have "pool_ok ?np" using pool_ok_netMeta [OF assms] pool_okD(1) [OF assms] by simp
  note all = set_all_states [OF this, of "map snd (np_pool np)" SessionEnded]
  show "pool_ok (handleEndSession np sid addr)"
    "np_netMeta (handleEndSession np sid addr) = AList.update sid \<lparr>nm_Addr = addr, nm_Left = True\<rparr> (np_netMeta np)"
    "np_pool (handleEndSession np sid addr) = np_pool np"
    using all pool_addresses [OF assms] by (auto simp: handleEndSession_def)
  show "nd_state (np_node (handleEndSession np sid addr) a) = SessionEnded" if a: "a \<in> snd ` set (np_pool np)"
  proof -
    have "nd_state (np_node np a) \<noteq> NodeLeft" using pool_okD(5) [OF assms, of a] pool_addresses [OF assms] a by auto
    then have "nd_state (fst (setState (np_node np a) SessionEnded)) = SessionEnded"
      by (auto simp: setState_def split: NodeState.splits)
    then show ?thesis using all pool_addresses [OF assms] a by (auto simp: handleEndSession_def)
  qed
qed

section \<open>Properties\<close>

definition sample_pool :: nodePool where
  "sample_pool =
     (let np = fst (applyReceivedUpdates newNodePool (newJoinNetMeta ''a'' ''x'' @ newJoinNetMeta ''b'' ''y''))
      in fst (set_state_at np 0 Connected))"

lemma sample_pool_eq:
  "sample_pool = \<lparr>np_netMeta = newJoinNetMeta ''a'' ''x'' @ newJoinNetMeta ''b'' ''y'', np_pool = [(''a'', 0), (''b'', 1)],
     np_heap = [\<lparr>nd_state = Connected, nd_id = ''a'', nd_addr = ''x'', nd_outChan = [], nd_conn = None\<rparr>,
       \<lparr>nd_state = Disconnected, nd_id = ''b'', nd_addr = ''y'', nd_outChan = [], nd_conn = None\<rparr>], np_closed = []\<rparr>"
  by code_simp

lemma sample_pool_ok: "pool_ok sample_pool"
  by (simp add: pool_ok_def sample_pool_eq meta_ok_def newJoinNetMeta_def newNetMeta_def np_node_def less_Suc_eq)

text \<open>a broadcast queues one copy of the message for exactly the connected nodes of the pool that have not seen
  it and whose channel has room, changes nothing else, and every copy lists as visited the ids it came with and
  the nodes that got it now, and no node that missed it.\<close>

theorem broadcast_reaches:
  assumes "pool_ok np" "m_Visited msg = Some visited"
  shows "\<exists>final. set final = set visited \<union> {nd_id (np_node np a) | a. receives np visited a} \<and>
    np_netMeta (broadcast np msg) = np_netMeta np \<and> np_pool (broadcast np msg) = np_pool np \<and>
    (\<forall>b. np_node (broadcast np msg) b =
      (if receives np visited b
       then (np_node np b)\<lparr>nd_outChan := nd_outChan (np_node np b) @ [msg\<lparr>m_Visited := Some final\<rparr>]\<rparr>
       else np_node np b))"
  using broadcastRecursive_eq [OF assms(1), of visited msg] assms(2)
  unfolding broadcast_def setcompr_eq_image by auto

theorem broadcast_reaches_witness:
  "\<exists>final. set final = {''s'', ''a''} \<and>
    nd_outChan (np_node (broadcast sample_pool (NewBroadcastMessage ''s'' ''t'' ''m'')) 0) =
      [\<lparr>m_Type = ''t'', m_Visited = Some final, m_Msg = ''m''\<rparr>]"
proof -
  have rec: "receives sample_pool [''s''] a \<longleftrightarrow> a = 0" for a
    by (auto simp: receives_def sample_pool_eq getConnectedNodes_def np_node_def chanBufferSize_def)
  have "m_Visited (NewBroadcastMessage ''s'' ''t'' ''m'') = Some [''s'']" by (simp add: NewBroadcastMessage_def)
  note reach = broadcast_reaches [OF sample_pool_ok this, unfolded rec]
  obtain final where
    final: "set final = set [''s''] \<union> {nd_id (np_node sample_pool a) | a. a = 0}"
      "np_node (broadcast sample_pool (NewBroadcastMessage ''s'' ''t'' ''m'')) 0 =
        (np_node sample_pool 0)\<lparr>nd_outChan := nd_outChan (np_node sample_pool 0) @
          [(NewBroadcastMessage ''s'' ''t'' ''m'')\<lparr>m_Visited := Some final\<rparr>]\<rparr>"
    using reach by (elim exE conjE allE [of _ 0]) (simp only: if_True refl)
  have "set final = {''s'', ''a''}" using final(1) by (auto simp: sample_pool_eq np_node_def)
  moreover have "nd_outChan (np_node (broadcast sample_pool (NewBroadcastMessage ''s'' ''t'' ''m'')) 0) =
      [\<lparr>m_Type = ''t'', m_Visited = Some final, m_Msg = ''m''\<rparr>]"
    unfolding final(2) by (simp add: sample_pool_eq np_node_def NewBroadcastMessage_def)
  ultimately show ?thesis by blast
qed

text \<open>After an update the node knows the join of both tables, a member that is new is in the pool, a
  member that has newly left is not in it any more, everyone else keeps its node, and the pool's invariant holds.\<close>

theorem applyReceivedUpdates_follows:
  assumes "pool_ok np" "meta_ok u" "applyReceivedUpdates np u = (np', l, d, changed)"
  shows "pool_ok np' \<and>
    status (np_netMeta np') nid = max (status (np_netMeta np) nid) (status u nid) \<and>
    (if status u nid \<le> status (np_netMeta np) nid then map_of (np_pool np') nid = map_of (np_pool np) nid
     else if status u nid = 2 then map_of (np_pool np') nid = None
     else \<exists>a\<in>set l. map_of (np_pool np') nid = Some a)"
proof -
  note upd = applyReceivedUpdates_ok [OF assms]
  have "status (np_netMeta np') nid = max (status (np_netMeta np) nid) (status u nid)"
    using status_merge [OF assms(2), of "np_netMeta np" nid] upd(2) by simp
  moreover have "map_of d nid = (if status (np_netMeta np) nid < status u nid then map_of u nid else None)"
    using netMeta_merge_lookup(2) [OF assms(2) upd(2), of nid] by (simp add: overrides_def status_def)
  ultimately show ?thesis
    using upd(1) upd(3) [of nid]
    by (auto simp: pool_after_def status_def split: option.splits if_splits)
qed

theorem applyReceivedUpdates_follows_witness:
  "map_of (np_pool (fst (applyReceivedUpdates sample_pool (newQuitNetMeta ''a'' ''x'')))) ''a'' = None"
proof -
  let ?u = "newQuitNetMeta ''a'' ''x''"
  obtain np l d c where u: "applyReceivedUpdates sample_pool ?u = (np, l, d, c)"
    by (cases "applyReceivedUpdates sample_pool ?u") auto
  have ok: "meta_ok ?u" by (simp add: meta_ok_def newQuitNetMeta_def newNetMeta_def)
  have "status ?u ''a'' = 2" "status (np_netMeta sample_pool) ''a'' = 1"
    by (simp_all add: status_def newQuitNetMeta_def newJoinNetMeta_def newNetMeta_def sample_pool_eq)
  with applyReceivedUpdates_follows [OF sample_pool_ok ok u, of "''a''"] u show ?thesis by simp
qed

end
