(* ===== verification/Session.thy ===== *)
theory Session
  imports NodePool Framing
begin

text \<open>
  A node of the network: \<^verbatim>\<open>network/session.go\<close>, \<^verbatim>\<open>handleconn.go\<close>, \<^verbatim>\<open>nodethread.go\<close>, \<^verbatim>\<open>conn.go\<close> and \<^verbatim>\<open>network.go\<close>. The state
  is the network manager with its pool, its channel of incoming messages, the connections it has opened or accepted,
  and the goroutines it has started and that still run. A connection is what the peer sends (\<open>c_in\<close>) and a writer.
  Handlers, and one round of the loop of each thread, are functions on this state; dialling, the peer and the id of a
  new session are their arguments.

  The JSON encoding and the encoding of the GoVector logger (\<open>PrepareSend\<close>, \<open>UnpackReceive\<close>) are the parameter
  \<open>codec\<close>. Sending to the manager's channel blocks while it is full, which the model leaves out: the message is
  appended. Closing is recorded for the connections that nodes of the pool hold. The session's pool is the manager's pool; the threads of an old session that outlive \<open>CompleteDisconnect\<close>
  are not modelled.
\<close>

section \<open>Connections (\<open>conn.go\<close>)\<close>

record codec =
  enc_meta :: "NetMeta \<Rightarrow> string + byte list"
  dec_meta :: "byte list \<Rightarrow> string + NetMeta"
  enc_check :: "VersionCheckMsgContent \<Rightarrow> string + byte list"
  dec_check :: "byte list \<Rightarrow> string + VersionCheckMsgContent"
  log_string :: "string \<Rightarrow> byte list"
  unlog_string :: "byte list \<Rightarrow> string"
  log_message :: "Message \<Rightarrow> byte list"
  unlog_message :: "byte list \<Rightarrow> Message"
  log_meta :: "NetMeta \<Rightarrow> byte list"
  unlog_meta :: "byte list \<Rightarrow> NetMeta"

record Conn =
  c_in :: stream
  c_out :: Writer

type_synonym 'a io = "Conn \<Rightarrow> Conn \<times> (io_error + 'a)"

definition io_bind :: "'a io \<Rightarrow> ('a \<Rightarrow> 'b io) \<Rightarrow> 'b io" where
  "io_bind m f c = (case m c of (c', Inl e) \<Rightarrow> (c', Inl e) | (c', Inr x) \<Rightarrow> f x c')"

definition io_return :: "'a \<Rightarrow> 'a io" where
  "io_return x c = (c, Inr x)"

definition write_slice :: "byte list \<Rightarrow> unit io" where
  "write_slice bs c =
     (case WriteMessageSlice (c_out c) bs of
        (w, None) \<Rightarrow> (c\<lparr>c_out := w\<rparr>, Inr ())
      | (w, Some e) \<Rightarrow> (c\<lparr>c_out := w\<rparr>, Inl e))"

definition read_slice :: "byte list io" where
  "read_slice c = (case ReadMessageSlice (c_in c) of (r, s) \<Rightarrow> (c\<lparr>c_in := s\<rparr>, r))"

definition writeLog :: "codec \<Rightarrow> NetMeta \<Rightarrow> unit io" where
  "writeLog cd m = write_slice (log_meta cd m)"

definition readLog :: "codec \<Rightarrow> NetMeta io" where
  "readLog cd = io_bind read_slice (\<lambda>bs. io_return (unlog_meta cd bs))"

definition writeMessage :: "codec \<Rightarrow> string \<Rightarrow> unit io" where
  "writeMessage cd msg = write_slice (log_string cd msg)"

definition readMessage :: "codec \<Rightarrow> string io" where
  "readMessage cd = io_bind read_slice (\<lambda>bs. io_return (unlog_string cd bs))"

definition sendMessage :: "codec \<Rightarrow> Message \<Rightarrow> unit io" where
  "sendMessage cd msg = write_slice (log_message cd msg)"

definition receiveMessage :: "codec \<Rightarrow> Message io" where
  "receiveMessage cd = io_bind read_slice (\<lambda>bs. io_return (unlog_message cd bs))"

text \<open>What a new connection is for (\<^verbatim>\<open>const.go\<close>).\<close>

abbreviation dialingTypeRegister :: string where "dialingTypeRegister \<equiv> ''register''"
abbreviation dialingTypePoke :: string where "dialingTypePoke \<equiv> ''poke''"
abbreviation dialingTypeConnect :: string where "dialingTypeConnect \<equiv> ''connect''"

section \<open>State\<close>

record session =
  s_id :: string
  s_done :: bool

record NetworkManager =
  nm_id :: string
  nm_publicAddr :: string
  nm_msgChan :: "Message list"
  nm_nodePool :: nodePool
  nm_session :: "session option"
  nm_conns :: "Conn list"
  nm_threads :: "thread list"

text \<open>The callbacks of the editor; an unset one is the nil function, and calling it panics.\<close>

record handlers =
  h_RemoteOp :: bool
  h_OpsVersion :: "byte list option option"
  h_VersionCheck :: "(byte list \<Rightarrow> byte list \<times> bool) option"

definition post :: "NetworkManager \<Rightarrow> Message \<Rightarrow> NetworkManager" where
  "post nm msg = nm\<lparr>nm_msgChan := nm_msgChan nm @ [msg]\<rparr>"

definition spawn :: "NetworkManager \<Rightarrow> thread list \<Rightarrow> NetworkManager" where
  "spawn nm ts = nm\<lparr>nm_threads := nm_threads nm @ ts\<rparr>"

section \<open>Messages that arrive (\<open>session.go\<close>)\<close>

definition handleNewNodes :: "NetworkManager \<Rightarrow> nat list \<Rightarrow> NetworkManager" where
  "handleNewNodes nm nodes =
     spawn nm (concat (map (initiateNewNode (nm_publicAddr nm) (np_heap (nm_nodePool nm))) nodes))"

definition handleIncomingNetMeta :: "codec \<Rightarrow> NetworkManager \<Rightarrow> Message \<Rightarrow> NetworkManager" where
  "handleIncomingNetMeta cd nm msg =
     (case newNetMetaFromJson (dec_meta cd) (m_Msg msg) of
        Inl err \<Rightarrow> nm
      | Inr updates \<Rightarrow>
          (case applyReceivedUpdates (nm_nodePool nm) updates of
             (np, newNodes, delta, changed) \<Rightarrow>
               let nm = nm\<lparr>nm_nodePool := np\<rparr> in
               if changed then
                 let nm = handleNewNodes nm newNodes;
                     msg = msg\<lparr>m_Msg := netMeta_toJson (enc_meta cd) delta\<rparr>
                 in nm\<lparr>nm_nodePool := broadcast (nm_nodePool nm) msg\<rparr>
               else nm))"

definition handleIncomingRemoteOp :: "handlers \<Rightarrow> NetworkManager \<Rightarrow> Message \<Rightarrow> NetworkManager" where
  "handleIncomingRemoteOp h nm msg =
     (let nm = (if h_RemoteOp h then spawn nm [RemoteOpThread (m_Msg msg)] else nm)
      in if m_Visited msg \<noteq> None then nm\<lparr>nm_nodePool := broadcast (nm_nodePool nm) msg\<rparr> else nm)"

definition handleIncomingVersionCheck ::
  "codec \<Rightarrow> handlers \<Rightarrow> session \<Rightarrow> NetworkManager \<Rightarrow> Message \<Rightarrow> NetworkManager prog" where
  "handleIncomingVersionCheck cd h s nm msg =
     (case newVersionCheckMsgContentFromJson (dec_check cd) (m_Msg msg) of
        Inl err \<Rightarrow> returns nm
      | Inr content \<Rightarrow>
          let nm = handleIncomingNetMeta cd nm (newNetMetaUpdateMsg (enc_meta cd) (s_id s) (vc_NetworkMeta content))
          in case h_VersionCheck h of
               None \<Rightarrow> panics NilDereference
             | Some check \<Rightarrow>
                 (case check (vc_VersionVector content) of
                    (syncInfo, shouldReply) \<Rightarrow>
                      returns (if shouldReply
                        then spawn nm [ReplyThread (NewReplyMessage MSG_TYPE_REMOTE_OP syncInfo) (vc_Source content)]
                        else nm)))"

text \<open>One message taken from the channel by the loop of \<open>serveIncomingMessages\<close>.\<close>

definition serve_message :: "codec \<Rightarrow> handlers \<Rightarrow> session \<Rightarrow> NetworkManager \<Rightarrow> Message \<Rightarrow> NetworkManager prog" where
  "serve_message cd h s nm msg =
     (if m_Type msg = MSG_TYPE_NET_META_UPDATE then returns (handleIncomingNetMeta cd nm msg)
      else if m_Type msg = MSG_TYPE_REMOTE_OP then returns (handleIncomingRemoteOp h nm msg)
      else if m_Type msg = MSG_TYPE_VERSION_CHECK then handleIncomingVersionCheck cd h s nm msg
      else returns nm)"

definition serveIncomingMessages :: "codec \<Rightarrow> handlers \<Rightarrow> session \<Rightarrow> NetworkManager \<Rightarrow> NetworkManager prog" where
  "serveIncomingMessages cd h s nm =
     (case nm_msgChan nm of
        [] \<Rightarrow> returns nm
      | msg # rest \<Rightarrow> serve_message cd h s (nm\<lparr>nm_msgChan := rest\<rparr>) msg)"

definition getLatestVersionCheckMsg ::
  "codec \<Rightarrow> handlers \<Rightarrow> session \<Rightarrow> NetworkManager \<Rightarrow> Message option prog" where
  "getLatestVersionCheckMsg cd h s nm =
     (case h_OpsVersion h of
        None \<Rightarrow> panics NilDereference
      | Some None \<Rightarrow> returns None
      | Some (Some ops) \<Rightarrow>
          let content = \<lparr>vc_Source = s_id s, vc_NetworkMeta = getLatestNetMetaCopy (nm_nodePool nm),
                vc_VersionVector = ops\<rparr>
          in returns (Some (newSyncOrCheckMessage MSG_TYPE_VERSION_CHECK (versionCheck_toJson (enc_check cd) content))))"

text \<open>One round of \<open>periodicallyCheckVersion\<close>.\<close>

definition periodicallyCheckVersion :: "codec \<Rightarrow> handlers \<Rightarrow> session \<Rightarrow> NetworkManager \<Rightarrow> NetworkManager prog" where
  "periodicallyCheckVersion cd h s nm =
     pbind (getLatestVersionCheckMsg cd h s nm) (\<lambda>hasMsg.
     returns (if s_done s then nm
       else case hasMsg of None \<Rightarrow> nm | Some msg \<Rightarrow> nm\<lparr>nm_nodePool := broadcast (nm_nodePool nm) msg\<rparr>))"

section \<open>Connections that arrive (\<open>handleconn.go\<close>)\<close>

definition handleRegister :: "codec \<Rightarrow> session \<Rightarrow> NetworkManager \<Rightarrow> Conn \<Rightarrow> NetworkManager \<times> Conn" where
  "handleRegister cd s nm c =
     (case io_bind (writeLog cd (getLatestNetMeta (nm_nodePool nm))) (\<lambda>_. readLog cd) c of
        (c, Inl e) \<Rightarrow> (nm, c)
      | (c, Inr incoming) \<Rightarrow> (post nm (newNetMetaUpdateMsg (enc_meta cd) (s_id s) incoming), c))"

definition handlePoke :: "codec \<Rightarrow> session \<Rightarrow> NetworkManager \<Rightarrow> Conn \<Rightarrow> NetworkManager \<times> Conn" where
  "handlePoke cd s nm c =
     (case readMessage cd c of
        (c, Inl e) \<Rightarrow> (nm, c)
      | (c, Inr expectedId) \<Rightarrow>
          if s_id s \<noteq> expectedId then (nm, fst (writeMessage cd ''false'' c))
          else case io_bind (writeMessage cd ''true'') (\<lambda>_. io_bind (readMessage cd) (\<lambda>nid.
                 io_bind (readMessage cd) (\<lambda>addr. io_return (nid, addr)))) c of
              (c, Inl e) \<Rightarrow> (nm, c)
            | (c, Inr (nid, addr)) \<Rightarrow>
                (post nm (newNetMetaUpdateMsg (enc_meta cd) (s_id s) (newJoinNetMeta nid addr)),
                 fst (writeMessage cd ''done'' c)))"

definition add_conn :: "NetworkManager \<Rightarrow> Conn \<Rightarrow> NetworkManager \<times> nat" where
  "add_conn nm c = (nm\<lparr>nm_conns := nm_conns nm @ [c]\<rparr>, length (nm_conns nm))"

definition set_conn :: "NetworkManager \<Rightarrow> nat \<Rightarrow> nat \<Rightarrow> NetworkManager" where
  "set_conn nm a k =
     (let np = nm_nodePool nm in nm\<lparr>nm_nodePool := np_set np a ((np_node np a)\<lparr>nd_conn := Some k\<rparr>)\<rparr>)"

text \<open>The end of a successful handshake on both sides.\<close>

definition start_node :: "NetworkManager \<Rightarrow> nat \<Rightarrow> nat \<Rightarrow> NetworkManager" where
  "start_node nm a k =
     (case set_state_at (nm_nodePool nm) a Connected of
        (np, ok) \<Rightarrow> let nm = nm\<lparr>nm_nodePool := np\<rparr> in
          if ok then spawn nm [SendThread a k, ReceiveThread a] else nm)"

definition handleConnect :: "codec \<Rightarrow> handlers \<Rightarrow> session \<Rightarrow> NetworkManager \<Rightarrow> Conn \<Rightarrow> (NetworkManager \<times> Conn) prog" where
  "handleConnect cd h s nm c =
     (case readMessage cd c of
        (c, Inl e) \<Rightarrow> returns (nm, c)
      | (c, Inr expectedId) \<Rightarrow>
          if s_id s \<noteq> expectedId then returns (nm, fst (writeMessage cd ''false'' c))
          else case io_bind (writeMessage cd ''true'') (\<lambda>_. io_bind (readMessage cd) (\<lambda>nid.
                 io_bind (readMessage cd) (\<lambda>addr. io_return (nid, addr)))) c of
              (c, Inl e) \<Rightarrow> returns (nm, c)
            | (c, Inr (nid, addr)) \<Rightarrow>
                pbind (getLatestVersionCheckMsg cd h s nm) (\<lambda>hasMsg.
                case (case hasMsg of None \<Rightarrow> io_return () c | Some msg \<Rightarrow> sendMessage cd msg c) of
                  (c, Inl e) \<Rightarrow> returns (nm, c)
                | (c, Inr _) \<Rightarrow>
                    (case addOrGetNodeFromPool (nm_nodePool nm) nid \<lparr>nm_Addr = addr, nm_Left = False\<rparr> of
                       (np, a) \<Rightarrow>
                         (case add_conn (nm\<lparr>nm_nodePool := np\<rparr>) c of
                            (nm, k) \<Rightarrow> returns (start_node (set_conn nm a k) a k, c)))))"

definition handleNewConn :: "codec \<Rightarrow> handlers \<Rightarrow> session \<Rightarrow> NetworkManager \<Rightarrow> Conn \<Rightarrow> (NetworkManager \<times> Conn) prog" where
  "handleNewConn cd h s nm c =
     (case readMessage cd c of
        (c, Inl e) \<Rightarrow> returns (nm, c)
      | (c, Inr purpose) \<Rightarrow>
          if purpose = dialingTypeRegister then returns (handleRegister cd s nm c)
          else if purpose = dialingTypePoke then returns (handlePoke cd s nm c)
          else if purpose = dialingTypeConnect then handleConnect cd h s nm c
          else returns (nm, c))"

section \<open>Threads of a node (\<open>nodethread.go\<close>)\<close>

definition poke ::
  "codec \<Rightarrow> session \<Rightarrow> NetworkManager \<Rightarrow> string \<Rightarrow> string \<Rightarrow> Conn option \<Rightarrow> NetworkManager \<times> Conn option \<times> bool" where
  "poke cd s nm nid addr dial =
     (case dial of
        None \<Rightarrow> (nm, None, False)
      | Some c \<Rightarrow>
          (case io_bind (writeMessage cd dialingTypePoke) (\<lambda>_. io_bind (writeMessage cd nid) (\<lambda>_. readMessage cd)) c of
             (c, Inl e) \<Rightarrow> (nm, Some c, False)
           | (c, Inr match) \<Rightarrow>
               if match = ''true'' then
                 (case io_bind (writeMessage cd (s_id s)) (\<lambda>_.
                       io_bind (writeMessage cd (nm_publicAddr nm)) (\<lambda>_. readMessage cd)) c of
                    (c, Inl e) \<Rightarrow> (nm, Some c, False)
                  | (c, Inr reply) \<Rightarrow> (nm, Some c, reply = ''done''))
               else (post nm (newNetMetaUpdateMsg (enc_meta cd) (s_id s) (newQuitNetMeta nid addr)), Some c, True)))"

text \<open>
  \<open>connect\<close> puts the connection into the node before the handshake. Its deferred function was meant to close the
  connection after an error, but \<open>defer\<close> evaluates the argument \<open>err\<close> when it is still nil, so nothing is closed.
\<close>

definition close_at :: "NetworkManager \<Rightarrow> nat \<Rightarrow> NetworkManager" where
  "close_at nm a = nm\<lparr>nm_nodePool := close_node (nm_nodePool nm) a\<rparr>"

definition connect ::
  "codec \<Rightarrow> handlers \<Rightarrow> session \<Rightarrow> NetworkManager \<Rightarrow> nat \<Rightarrow> Conn option \<Rightarrow> (NetworkManager \<times> bool) prog" where
  "connect cd h s nm a dial =
     (case dial of
        None \<Rightarrow> returns (nm, False)
      | Some c \<Rightarrow>
          let nid = nd_id (np_node (nm_nodePool nm) a); addr = nd_addr (np_node (nm_nodePool nm) a);
              k = length (nm_conns nm); nm = set_conn nm a k;
              keep = (\<lambda>nm c. nm\<lparr>nm_conns := nm_conns nm @ [c]\<rparr>)
          in case io_bind (writeMessage cd dialingTypeConnect) (\<lambda>_. io_bind (writeMessage cd nid) (\<lambda>_. readMessage cd)) c of
               (c, Inl e) \<Rightarrow> returns (keep nm c, False)
             | (c, Inr match) \<Rightarrow>
                 if match = ''true'' then
                   (case io_bind (writeMessage cd (s_id s)) (\<lambda>_. writeMessage cd (nm_publicAddr nm)) c of
                      (c, Inl e) \<Rightarrow> returns (keep nm c, False)
                    | (c, Inr _) \<Rightarrow>
                        pbind (getLatestVersionCheckMsg cd h s nm) (\<lambda>hasMsg.
                        case (case hasMsg of None \<Rightarrow> io_return () c | Some msg \<Rightarrow> sendMessage cd msg c) of
                          (c, Inl e) \<Rightarrow> returns (keep nm c, False)
                        | (c, Inr _) \<Rightarrow> returns (start_node (keep nm c) a k, True)))
                 else
                   returns (post (close_at (keep nm c) a)
                     (newNetMetaUpdateMsg (enc_meta cd) (s_id s) (newQuitNetMeta nid addr)), True))"

text \<open>One round of each thread: the new state, and whether the thread goes on with another round.\<close>

definition pokeThread ::
  "codec \<Rightarrow> session \<Rightarrow> NetworkManager \<Rightarrow> nat \<Rightarrow> Conn option \<Rightarrow> NetworkManager \<times> bool" where
  "pokeThread cd s nm a dial =
     (let n = np_node (nm_nodePool nm) a in
      if s_done s \<or> nd_state n \<noteq> Disconnected then (nm, False)
      else case poke cd s nm (nd_id n) (nd_addr n) dial of (nm, _, ok) \<Rightarrow> (nm, \<not> ok))"

definition connectThread ::
  "codec \<Rightarrow> handlers \<Rightarrow> session \<Rightarrow> NetworkManager \<Rightarrow> nat \<Rightarrow> Conn option \<Rightarrow> (NetworkManager \<times> bool) prog" where
  "connectThread cd h s nm a dial =
     (if s_done s \<or> nd_state (np_node (nm_nodePool nm) a) \<noteq> Disconnected then returns (nm, False)
      else pbind (connect cd h s nm a dial) (\<lambda>(nm, ok). returns (nm, \<not> ok)))"

definition conn_of :: "NetworkManager \<Rightarrow> nat \<Rightarrow> Conn option" where
  "conn_of nm a = (case nd_conn (np_node (nm_nodePool nm) a) of
     None \<Rightarrow> None | Some k \<Rightarrow> if k < length (nm_conns nm) then Some (nm_conns nm ! k) else None)"

definition put_conn :: "NetworkManager \<Rightarrow> nat \<Rightarrow> Conn \<Rightarrow> NetworkManager" where
  "put_conn nm a c = (case nd_conn (np_node (nm_nodePool nm) a) of
     None \<Rightarrow> nm | Some k \<Rightarrow> nm\<lparr>nm_conns := (nm_conns nm)[k := c]\<rparr>)"

definition receiveThread :: "codec \<Rightarrow> session \<Rightarrow> NetworkManager \<Rightarrow> nat \<Rightarrow> (NetworkManager \<times> bool) prog" where
  "receiveThread cd s nm a =
     (if nd_state (np_node (nm_nodePool nm) a) \<noteq> Connected then
        (if nd_conn (np_node (nm_nodePool nm) a) = None then panics NilDereference else returns (close_at nm a, False))
      else case conn_of nm a of
        None \<Rightarrow> panics NilDereference
      | Some c \<Rightarrow>
          (case receiveMessage cd c of
             (c, Inl e) \<Rightarrow>
               let nm = close_at (put_conn nm a c) a;
                   nm = nm\<lparr>nm_nodePool := fst (set_state_at (nm_nodePool nm) a Disconnected)\<rparr>
               in returns (if shouldConnect (nm_publicAddr nm) (nd_addr (np_node (nm_nodePool nm) a))
                           then spawn nm [ConnectThread a] else nm, False)
           | (c, Inr msg) \<Rightarrow>
               let nm = put_conn nm a c in
               if s_done s then returns (nm, False) else returns (post nm msg, True)))"

text \<open>
  A message that could not be sent goes back into the channel; when the channel is full the thread waits there
  for ever, and the message is not in the channel.
\<close>

definition close_conn :: "NetworkManager \<Rightarrow> nat \<Rightarrow> NetworkManager" where
  "close_conn nm k = (let np = nm_nodePool nm in nm\<lparr>nm_nodePool := np\<lparr>np_closed := k # np_closed np\<rparr>\<rparr>)"

definition set_chan :: "NetworkManager \<Rightarrow> nat \<Rightarrow> Message list \<Rightarrow> NetworkManager" where
  "set_chan nm a ms =
     (let np = nm_nodePool nm in nm\<lparr>nm_nodePool := np_set np a ((np_node np a)\<lparr>nd_outChan := ms\<rparr>)\<rparr>)"

definition sendThread :: "codec \<Rightarrow> session \<Rightarrow> NetworkManager \<Rightarrow> nat \<Rightarrow> nat \<Rightarrow> NetworkManager \<times> bool" where
  "sendThread cd s nm a k =
     (case nd_outChan (np_node (nm_nodePool nm) a) of
        msg # rest \<Rightarrow>
          (case sendMessage cd msg (nm_conns nm ! k) of
             (c, Inl e) \<Rightarrow>
               (set_chan (close_conn (nm\<lparr>nm_conns := (nm_conns nm)[k := c]\<rparr>) k) a
                 (if length rest < chanBufferSize then rest @ [msg] else rest), False)
           | (c, Inr _) \<Rightarrow> (set_chan (nm\<lparr>nm_conns := (nm_conns nm)[k := c]\<rparr>) a rest, True))
      | [] \<Rightarrow>
          if s_done s then
            (case sendMessage cd (newNetMetaUpdateMsg (enc_meta cd) (s_id s)
                   (newQuitNetMeta (s_id s) (nm_publicAddr nm))) (nm_conns nm ! k) of
               (c, _) \<Rightarrow> (close_conn (nm\<lparr>nm_conns := (nm_conns nm)[k := c]\<rparr>) k, False))
          else (nm, True))"

section \<open>The manager (\<open>network.go\<close>)\<close>

definition startNewSessionOnNetworkManager :: "NetworkManager \<Rightarrow> string \<Rightarrow> string option \<Rightarrow> NetworkManager \<times> string option" where
  "startNewSessionOnNetworkManager nm newId err =
     (case err of
        Some e \<Rightarrow> (nm, Some e)
      | None \<Rightarrow>
          (case handleNewSession (nm_nodePool nm) newId (nm_publicAddr nm) of
             (np, ts) \<Rightarrow>
               ((spawn (nm\<lparr>nm_nodePool := np\<rparr>) ts)\<lparr>nm_id := newId, nm_session := Some \<lparr>s_id = newId, s_done = False\<rparr>\<rparr>,
                None)))"

definition NewNetworkManager :: "string \<Rightarrow> string \<Rightarrow> string option \<Rightarrow> string + NetworkManager" where
  "NewNetworkManager publicAddr newId err =
     (let nm = \<lparr>nm_id = [], nm_publicAddr = publicAddr, nm_msgChan = [], nm_nodePool = newNodePool,
            nm_session = None, nm_conns = [], nm_threads = []\<rparr>
      in case startNewSessionOnNetworkManager nm newId err of
           (nm, Some e) \<Rightarrow> Inl e
         | (nm, None) \<Rightarrow> Inr nm)"

definition ErrAlreadyConnected :: string where "ErrAlreadyConnected = ''network: already connected''"
definition ErrAlreadyDisconnected :: string where "ErrAlreadyDisconnected = ''network: already disconnected''"

definition session_end :: "NetworkManager \<Rightarrow> session \<Rightarrow> NetworkManager" where
  "session_end nm s = nm\<lparr>nm_nodePool := handleEndSession (nm_nodePool nm) (s_id s) (nm_publicAddr nm)\<rparr>"

definition Disconnect :: "NetworkManager \<Rightarrow> NetworkManager \<times> string option" where
  "Disconnect nm =
     (case nm_session nm of
        None \<Rightarrow> (nm, Some ErrAlreadyDisconnected)
      | Some s \<Rightarrow> ((session_end nm s)\<lparr>nm_session := None\<rparr>, None))"

definition Reconnect :: "NetworkManager \<Rightarrow> string \<Rightarrow> string option \<Rightarrow> NetworkManager \<times> string option" where
  "Reconnect nm newId err =
     (if nm_session nm \<noteq> None then (nm, Some ErrAlreadyConnected)
      else startNewSessionOnNetworkManager nm newId err)"

definition CompleteDisconnect :: "NetworkManager \<Rightarrow> string \<Rightarrow> string option \<Rightarrow> NetworkManager" where
  "CompleteDisconnect nm newId err =
     (let nm = fst (Disconnect nm); nm = nm\<lparr>nm_nodePool := newNodePool\<rparr>
      in fst (startNewSessionOnNetworkManager nm newId err))"

definition Broadcast :: "NetworkManager \<Rightarrow> Message \<Rightarrow> NetworkManager" where
  "Broadcast nm msg =
     (case nm_session nm of
        None \<Rightarrow> nm
      | Some s \<Rightarrow> if s_done s then nm else nm\<lparr>nm_nodePool := broadcast (nm_nodePool nm) msg\<rparr>)"

definition SendMessageToNodeWithId :: "NetworkManager \<Rightarrow> Message \<Rightarrow> string \<Rightarrow> NetworkManager" where
  "SendMessageToNodeWithId nm msg nid =
     (case nm_session nm of
        None \<Rightarrow> nm
      | Some s \<Rightarrow> if s_done s then nm
          else nm\<lparr>nm_nodePool := fst (sendMessageToNodeWithId (nm_nodePool nm) msg nid)\<rparr>)"

definition ConnectTo ::
  "codec \<Rightarrow> NetworkManager \<Rightarrow> string \<Rightarrow> string option \<Rightarrow> string + Conn \<Rightarrow> NetworkManager \<times> string option" where
  "ConnectTo cd nm newId listenErr dial =
     (case (if nm_session nm = None then startNewSessionOnNetworkManager nm newId listenErr else (nm, None)) of
        (nm, Some e) \<Rightarrow> (nm, Some e)
      | (nm, None) \<Rightarrow>
          (case dial of
             Inl e \<Rightarrow> (nm, Some e)
           | Inr c \<Rightarrow>
               (case io_bind (writeMessage cd dialingTypeRegister) (\<lambda>_. readLog cd) c of
                  (c, Inl e) \<Rightarrow> (nm, Some ''io error'')
                | (c, Inr incoming) \<Rightarrow>
                    let latest = getLatestNetMeta (nm_nodePool nm);
                        nm' = post nm (newNetMetaUpdateMsg (enc_meta cd) (nm_id nm) incoming)
                    in case writeLog cd latest c of
                         (c, Inl e) \<Rightarrow> (nm', Some (''Partially connected: unable to send message to '' @
                            ''requested node, but was able to receive information.''))
                       | (c, Inr _) \<Rightarrow> (nm', None))))"

definition GetNetworkMetadata :: "NetworkManager \<Rightarrow> NetMeta" where
  "GetNetworkMetadata nm = getLatestNetMetaCopy (nm_nodePool nm)"

end
