(* ===== verification/NetInv.thy ===== *)
theory NetInv
  imports Session
begin

text \<open>
  The invariant of a node of the network and what it knows about the members: every handler, every round of a thread
  and every command of the user is a step, and a step keeps the invariant and never forgets a member or that it left.
\<close>

section \<open>Pools grow\<close>

definition np_grows :: "nodePool \<Rightarrow> nodePool \<Rightarrow> bool" where
  "np_grows np np' \<longleftrightarrow> pool_ok np' \<and> length (np_heap np) \<le> length (np_heap np') \<and>
     (\<forall>k. status (np_netMeta np) k \<le> status (np_netMeta np') k)"

lemma np_grows_refl: "pool_ok np \<Longrightarrow> np_grows np np"
  by (simp add: np_grows_def)

lemma np_grows_trans [trans]: "np_grows a b \<Longrightarrow> np_grows b c \<Longrightarrow> np_grows a c"
  unfolding np_grows_def by (meson order_trans)

lemma np_grows_ok: "np_grows np np' \<Longrightarrow> pool_ok np'"
  by (simp add: np_grows_def)

lemma np_grows_set:
  assumes "pool_ok np" "a < length (np_heap np)" "nd_id n = nd_id (np_node np a)"
    "length (nd_outChan n) \<le> chanBufferSize" "nd_state n = NodeLeft \<longleftrightarrow> nd_state (np_node np a) = NodeLeft"
  shows "np_grows np (np_set np a n)"
  using pool_ok_set [OF assms] by (simp add: np_grows_def)

lemma np_grows_set_state:
  assumes "pool_ok np" "a < length (np_heap np)" "st \<noteq> NodeLeft"
  shows "np_grows np (fst (set_state_at np a st))"
  using set_state_at_ok [OF assms] by (simp add: np_grows_def set_state_at_def split: prod.splits)

lemma np_grows_close: "pool_ok np \<Longrightarrow> np_grows np (close_node np a)"
  by (auto simp: close_node_def np_grows_def pool_ok_def split: option.splits)

lemma np_grows_broadcast:
  assumes "pool_ok np"
  shows "np_grows np (broadcast np msg)"
proof -
  have "length (np_heap (broadcastOnce np msg)) = length (np_heap np)"
    using put_all [OF assms connected_facts(2,1) [OF assms]] by (auto simp: broadcastOnce_def)
  moreover have "length (np_heap (broadcastRecursive np msg v)) = length (np_heap np)" for v
    using broadcastRecursive_eq [OF assms, of v msg] by blast
  ultimately show ?thesis
    using broadcast_ok [OF assms, of msg] by (auto simp: np_grows_def broadcast_def split: option.splits)
qed

lemma np_grows_send:
  assumes "pool_ok np"
  shows "np_grows np (fst (sendMessageToNodeWithId np msg nid))"
  using sendMessage_ok [OF assms, of msg nid]
  by (auto simp: np_grows_def sendMessageToNodeWithId_def putMsgOnSendingQueueOfNode_def Let_def split: option.splits)

lemma removeNodeFromPool_length [simp]: "length (np_heap (removeNodeFromPool np nid)) = length (np_heap np)"
  by (auto simp: removeNodeFromPool_def Let_def set_state_at_def close_node_def split: option.splits prod.splits)

lemma np_grows_add:
  assumes "pool_ok np" "addOrGetNodeFromPool np nid n = (np', a)"
  shows "np_grows np np'" "a < length (np_heap np')"
proof -
  note add = addOrGetNodeFromPool_ok [OF assms]
  show "a < length (np_heap np')" using pool_okD(3) [OF add(1) map_of_SomeD [OF add(3)]] by simp
  show "np_grows np np'"
    using add(1,2) assms(2) by (auto simp: np_grows_def addOrGetNodeFromPool_def Let_def split: option.splits)
qed

lemma apply_delta_addresses:
  assumes "pool_ok np" "\<forall>a\<in>set l. a < length (np_heap np)" "apply_delta d np l = (np', l')"
  shows "length (np_heap np) \<le> length (np_heap np') \<and> (\<forall>a\<in>set l'. a < length (np_heap np'))"
  using assms
proof (induction d np l rule: apply_delta.induct)
  case (2 k n d np l)
  show ?case
  proof (cases "nm_Left n")
    case True
    then show ?thesis
      using "2.IH"(1) [OF True removeNodeFromPool_ok(1) [OF "2.prems"(1)]] "2.prems"(2,3) by simp
  next
    case False
    obtain np1 a where add: "addOrGetNodeFromPool np k n = (np1, a)" by force
    note add' = np_grows_add [OF "2.prems"(1) add]
    have "\<forall>b\<in>set (l @ [a]). b < length (np_heap np1)"
      using "2.prems"(2) add' by (auto simp: np_grows_def)
    from "2.IH"(2) [OF False add [symmetric] np_grows_ok [OF add'(1)] this] show ?thesis
      using "2.prems"(3) False add add'(1) by (auto simp: np_grows_def)
  qed
qed simp

lemma np_grows_updates:
  assumes "pool_ok np" "meta_ok u" "applyReceivedUpdates np u = (np', l, d, changed)"
  shows "np_grows np np'" "\<forall>a\<in>set l. a < length (np_heap np')"
proof -
  note upd = applyReceivedUpdates_ok [OF assms]
  obtain m d' c where m: "netMeta_merge (np_netMeta np) u = (m, d', c)" by (cases "netMeta_merge (np_netMeta np) u") auto
  have "meta_ok m" using netMeta_merge_ok [OF pool_okD(1) [OF assms(1)] m] by simp
  then have "pool_ok (np\<lparr>np_netMeta := m\<rparr>)" by (rule pool_ok_netMeta [OF assms(1)])
  moreover have "apply_delta d' (np\<lparr>np_netMeta := m\<rparr>) [] = (np', l)"
    using assms(3) by (auto simp: applyReceivedUpdates_def m split: prod.splits)
  ultimately have adr: "length (np_heap np) \<le> length (np_heap np')" "\<forall>a\<in>set l. a < length (np_heap np')"
    using apply_delta_addresses [of "np\<lparr>np_netMeta := m\<rparr>" "[]" d' np' l] by auto
  have "status (np_netMeta np) k \<le> status (np_netMeta np') k" for k
    using status_merge [OF assms(2), of "np_netMeta np" k] upd(2) by simp
  then show "np_grows np np'" "\<forall>a\<in>set l. a < length (np_heap np')" using upd(1) adr by (simp_all add: np_grows_def)
qed

lemma status_update: "status (AList.update k n m) j = (if j = k then rank (Some n) else status m j)"
  by (simp add: status_def update_conv)

lemma np_grows_new_session:
  assumes "pool_ok np" "handleNewSession np sid addr = (np', ts)" "status (np_netMeta np) sid = 0"
  shows "np_grows np np'"
proof -
  note new = handleNewSession_ok [OF assms(1,2)]
  have "length (np_heap np') = length (np_heap np)"
    using new_session_loop_ok [OF pool_ok_netMeta [OF assms(1)], of
        "AList.update sid \<lparr>nm_Addr = addr, nm_Left = False\<rparr> (np_netMeta np)" "map snd (np_pool np)" addr "[]" np' ts]
      assms(2) pool_okD(1) [OF assms(1)] pool_addresses [OF assms(1)] by (simp add: handleNewSession_def)
  then show ?thesis using new(1,2) assms(3) by (simp add: np_grows_def status_update)
qed

lemma rank_le: "rank x \<le> 2"
  by (simp add: rank_def split: option.splits)

lemma np_grows_end_session:
  assumes "pool_ok np"
  shows "np_grows np (handleEndSession np sid addr)"
proof -
  have "length (np_heap (foldl (\<lambda>np a. fst (set_state_at np a st)) np as)) = length (np_heap np)" for np as st
    by (induction as arbitrary: np) (simp_all add: set_state_at_def split: prod.splits)
  then show ?thesis
    using handleEndSession_ok(1-3) [OF assms] rank_le
    by (simp add: np_grows_def status_update) (simp add: handleEndSession_def status_def)
qed

section \<open>Nodes of the network advance\<close>

definition thread_ok :: "NetworkManager \<Rightarrow> thread \<Rightarrow> bool" where
  "thread_ok nm t \<longleftrightarrow>
     (case t of
        ConnectThread a \<Rightarrow> a < length (np_heap (nm_nodePool nm))
      | PokeThread a \<Rightarrow> a < length (np_heap (nm_nodePool nm))
      | ReceiveThread a \<Rightarrow> a < length (np_heap (nm_nodePool nm))
      | SendThread a k \<Rightarrow> a < length (np_heap (nm_nodePool nm)) \<and> k < length (nm_conns nm)
      | _ \<Rightarrow> True)"

definition net_ok :: "NetworkManager \<Rightarrow> bool" where
  "net_ok nm \<longleftrightarrow> pool_ok (nm_nodePool nm) \<and> (\<forall>t\<in>set (nm_threads nm). thread_ok nm t)"

text \<open>The part of a step that the invariant and the knowledge about members depend on.\<close>

definition advances :: "NetworkManager \<Rightarrow> NetworkManager \<Rightarrow> bool" where
  "advances nm nm' \<longleftrightarrow> net_ok nm' \<and> np_grows (nm_nodePool nm) (nm_nodePool nm') \<and>
     length (nm_conns nm) \<le> length (nm_conns nm')"

lemma advances_refl: "net_ok nm \<Longrightarrow> advances nm nm"
  by (simp add: advances_def net_ok_def np_grows_refl)

lemma advances_trans [trans]: "advances a b \<Longrightarrow> advances b c \<Longrightarrow> advances a c"
  unfolding advances_def by (meson np_grows_trans order_trans)

lemma advances_ok: "advances nm nm' \<Longrightarrow> net_ok nm'"
  by (simp add: advances_def)

lemma thread_ok_mono:
  "thread_ok nm t \<Longrightarrow> length (np_heap (nm_nodePool nm)) \<le> length (np_heap (nm_nodePool nm')) \<Longrightarrow>
    length (nm_conns nm) \<le> length (nm_conns nm') \<Longrightarrow> thread_ok nm' t"
  by (auto simp: thread_ok_def split: thread.splits)

lemma advances_step:
  assumes "net_ok nm" "np_grows (nm_nodePool nm) (nm_nodePool nm')" "length (nm_conns nm) \<le> length (nm_conns nm')"
    "set (nm_threads nm') \<subseteq> set (nm_threads nm) \<union> set ts" "\<forall>t\<in>set ts. thread_ok nm' t"
  shows "advances nm nm'"
proof -
  have "thread_ok nm' t" if t: "t \<in> set (nm_threads nm')" for t
    using t assms thread_ok_mono [of nm t nm'] by (auto simp: net_ok_def np_grows_def)
  then show ?thesis using assms(2,3) by (simp add: advances_def net_ok_def np_grows_def)
qed

lemma advances_pool:
  assumes "net_ok nm" "np_grows (nm_nodePool nm) np"
  shows "advances nm (nm\<lparr>nm_nodePool := np\<rparr>)"
  using assms by (intro advances_step [where ts = "[]"]) simp_all

lemma advances_post: "net_ok nm \<Longrightarrow> advances nm (post nm msg)"
  by (rule advances_step [where ts = "[]"]) (simp_all add: post_def net_ok_def np_grows_refl)

lemma advances_chan: "net_ok nm \<Longrightarrow> advances nm (nm\<lparr>nm_msgChan := c\<rparr>)"
  by (rule advances_step [where ts = "[]"]) (simp_all add: net_ok_def np_grows_refl)

lemma advances_spawn: "net_ok nm \<Longrightarrow> \<forall>t\<in>set ts. thread_ok nm t \<Longrightarrow> advances nm (spawn nm ts)"
proof (rule advances_step [where ts = ts])
  assume "\<forall>t\<in>set ts. thread_ok nm t"
  then show "\<forall>t\<in>set ts. thread_ok (spawn nm ts) t" by (auto simp: thread_ok_def spawn_def split: thread.splits)
qed (simp_all add: spawn_def net_ok_def np_grows_refl)

lemma advances_conns: "net_ok nm \<Longrightarrow> length (nm_conns nm) \<le> length cs \<Longrightarrow> advances nm (nm\<lparr>nm_conns := cs\<rparr>)"
  by (rule advances_step [where ts = "[]"]) (simp_all add: net_ok_def np_grows_refl)

lemma net_ok_pool: "net_ok nm \<Longrightarrow> pool_ok (nm_nodePool nm)"
  by (simp add: net_ok_def)

lemma initiateNewNode_threads:
  "a < length (np_heap (nm_nodePool nm)) \<Longrightarrow> \<forall>t\<in>set (initiateNewNode addr H a). thread_ok nm t"
  by (simp add: initiateNewNode_def thread_ok_def)

section \<open>Handlers\<close>

definition codec_ok :: "codec \<Rightarrow> bool" where
  "codec_ok cd \<longleftrightarrow> (\<forall>bs m. dec_meta cd bs = Inr m \<longrightarrow> meta_ok m)"

lemma advances_broadcast: "net_ok nm \<Longrightarrow> advances nm (nm\<lparr>nm_nodePool := broadcast (nm_nodePool nm) msg\<rparr>)"
  by (rule advances_pool) (simp_all add: net_ok_pool np_grows_broadcast)

lemma handleIncomingNetMeta_advances:
  assumes "net_ok nm" "codec_ok cd"
  shows "advances nm (handleIncomingNetMeta cd nm msg)"
proof (cases "dec_meta cd (m_Msg msg)")
  case (Inl e)
  then show ?thesis using assms(1) by (simp add: handleIncomingNetMeta_def newNetMetaFromJson_def advances_refl)
next
  case (Inr u)
  obtain np l d ch where u: "applyReceivedUpdates (nm_nodePool nm) u = (np, l, d, ch)"
    by (cases "applyReceivedUpdates (nm_nodePool nm) u") auto
  note grow = np_grows_updates [OF net_ok_pool [OF assms(1)] _ u]
  have m: "meta_ok u" using assms(2) Inr by (simp add: codec_ok_def)
  let ?nm = "nm\<lparr>nm_nodePool := np\<rparr>"
  have 1: "advances nm ?nm" by (rule advances_pool [OF assms(1) grow(1) [OF m]])
  have 2: "advances ?nm (handleNewNodes ?nm l)"
    unfolding handleNewNodes_def
    by (rule advances_spawn [OF advances_ok [OF 1]])
      (use grow(2) [OF m] initiateNewNode_threads [of _ ?nm] in auto)
  have 3: "advances (handleNewNodes ?nm l)
      ((handleNewNodes ?nm l)\<lparr>nm_nodePool := broadcast (nm_nodePool (handleNewNodes ?nm l)) msg'\<rparr>)" for msg'
    by (rule advances_broadcast [OF advances_ok [OF 2]])
  show ?thesis
    using 1 advances_trans [OF advances_trans [OF 1 2] 3]
    by (simp add: handleIncomingNetMeta_def newNetMetaFromJson_def Inr u Let_def)
qed

lemma handleIncomingRemoteOp_advances:
  assumes "net_ok nm"
  shows "advances nm (handleIncomingRemoteOp h nm msg)"
proof -
  let ?nm = "if h_RemoteOp h then spawn nm [RemoteOpThread (m_Msg msg)] else nm"
  have 1: "advances nm ?nm" using assms by (simp add: advances_refl advances_spawn thread_ok_def)
  from advances_trans [OF 1 advances_broadcast [OF advances_ok [OF 1]], of msg] 1 show ?thesis
    by (auto simp: handleIncomingRemoteOp_def Let_def)
qed

lemma handleIncomingVersionCheck_advances:
  assumes "net_ok nm" "codec_ok cd" "handleIncomingVersionCheck cd h s nm msg = returns nm'"
  shows "advances nm nm'"
proof -
  have 1: "advances nm (handleIncomingNetMeta cd nm m)" for m
    by (rule handleIncomingNetMeta_advances [OF assms(1,2)])
  have 2: "advances nm (spawn (handleIncomingNetMeta cd nm m) [ReplyThread r x])" for m r x
    by (rule advances_trans [OF 1 [of m]]) (simp add: advances_spawn [OF advances_ok [OF 1]] thread_ok_def)
  show ?thesis
    using assms(3) 1 2 advances_refl [OF assms(1)]
    by (auto simp: handleIncomingVersionCheck_def Let_def split: sum.splits option.splits prod.splits if_splits)
qed

lemma serveIncomingMessages_advances:
  assumes "net_ok nm" "codec_ok cd" "serveIncomingMessages cd h s nm = returns nm'"
  shows "advances nm nm'"
proof (cases "nm_msgChan nm")
  case Nil
  then show ?thesis using assms by (simp add: serveIncomingMessages_def advances_refl)
next
  case (Cons msg rest)
  let ?nm = "nm\<lparr>nm_msgChan := rest\<rparr>"
  have 1: "advances nm ?nm" by (rule advances_chan [OF assms(1)])
  note ok = advances_ok [OF 1]
  have "advances ?nm nm'"
    using assms(3) Cons handleIncomingNetMeta_advances [OF ok assms(2)] handleIncomingRemoteOp_advances [OF ok]
      handleIncomingVersionCheck_advances [OF ok assms(2)] advances_refl [OF ok]
    by (auto simp: serveIncomingMessages_def serve_message_def split: if_splits)
  with 1 show ?thesis by (rule advances_trans)
qed

lemma periodicallyCheckVersion_advances:
  assumes "net_ok nm" "periodicallyCheckVersion cd h s nm = returns nm'"
  shows "advances nm nm'"
  using assms advances_broadcast [OF assms(1)] advances_refl [OF assms(1)]
  by (auto simp: periodicallyCheckVersion_def split: option.splits if_splits)

section \<open>Connections and threads\<close>

abbreviation node_there :: "NetworkManager \<Rightarrow> nat \<Rightarrow> bool" where
  "node_there nm a \<equiv> a < length (np_heap (nm_nodePool nm))"

lemma advances_there: "advances nm nm' \<Longrightarrow> node_there nm a \<Longrightarrow> node_there nm' a"
  by (simp add: advances_def np_grows_def)

lemma advances_set_conn:
  assumes "net_ok nm" "node_there nm a"
  shows "advances nm (set_conn nm a k)"
  unfolding set_conn_def Let_def
  using pool_okD(4) [OF net_ok_pool [OF assms(1)] assms(2)]
  by (intro advances_pool [OF assms(1)] np_grows_set [OF net_ok_pool [OF assms(1)] assms(2)]) simp_all

lemma advances_set_chan:
  assumes "net_ok nm" "node_there nm a" "length ms \<le> chanBufferSize"
  shows "advances nm (set_chan nm a ms)"
  unfolding set_chan_def Let_def
  using assms(3)
  by (intro advances_pool [OF assms(1)] np_grows_set [OF net_ok_pool [OF assms(1)] assms(2)]) simp_all

lemma advances_set_state:
  assumes "net_ok nm" "node_there nm a" "st \<noteq> NodeLeft"
  shows "advances nm (nm\<lparr>nm_nodePool := fst (set_state_at (nm_nodePool nm) a st)\<rparr>)"
  by (rule advances_pool [OF assms(1) np_grows_set_state [OF net_ok_pool [OF assms(1)] assms(2,3)]])

lemma advances_close_at: "net_ok nm \<Longrightarrow> advances nm (close_at nm a)"
  unfolding close_at_def by (intro advances_pool np_grows_close) (simp_all add: net_ok_pool)

lemma advances_close_conn: "net_ok nm \<Longrightarrow> advances nm (close_conn nm k)"
  unfolding close_conn_def Let_def
  by (intro advances_pool) (auto simp: np_grows_def net_ok_def pool_ok_def)

lemma advances_start_node:
  assumes "net_ok nm" "node_there nm a" "k < length (nm_conns nm)"
  shows "advances nm (start_node nm a k)"
proof -
  let ?nm = "nm\<lparr>nm_nodePool := fst (set_state_at (nm_nodePool nm) a Connected)\<rparr>"
  have 1: "advances nm ?nm" by (rule advances_set_state [OF assms(1,2)]) simp
  have "advances ?nm (spawn ?nm [SendThread a k, ReceiveThread a])"
    using advances_there [OF 1 assms(2)] assms(3)
    by (intro advances_spawn [OF advances_ok [OF 1]]) (simp add: thread_ok_def)
  with 1 show ?thesis by (auto simp: start_node_def Let_def split: prod.splits intro: advances_trans)
qed

lemma handleConnect_advances:
  assumes "net_ok nm" "handleConnect cd h s nm c = returns (nm', c')"
  shows "advances nm nm'"
proof -
  have add: "advances nm (start_node (set_conn (np_nm\<lparr>nm_conns := nm_conns np_nm @ [c1]\<rparr>) a (length (nm_conns nm))) a
      (length (nm_conns nm)))"
    if "addOrGetNodeFromPool (nm_nodePool nm) nid n = (np, a)" "np_nm = nm\<lparr>nm_nodePool := np\<rparr>" for nid n np a np_nm c1
  proof -
    note grow = np_grows_add [OF net_ok_pool [OF assms(1)] that(1)]
    have 1: "advances nm np_nm" unfolding that(2) by (rule advances_pool [OF assms(1) grow(1)])
    let ?n2 = "np_nm\<lparr>nm_conns := nm_conns np_nm @ [c1]\<rparr>"
    have 2: "advances np_nm ?n2" by (rule advances_conns [OF advances_ok [OF 1]]) simp
    have there: "node_there ?n2 a" using grow(2) by (simp add: that(2))
    let ?n3 = "set_conn ?n2 a (length (nm_conns nm))"
    have 3: "advances ?n2 ?n3" by (rule advances_set_conn [OF advances_ok [OF 2] there])
    have 4: "advances ?n3 (start_node ?n3 a (length (nm_conns nm)))"
      by (rule advances_start_node [OF advances_ok [OF 3] advances_there [OF 3 there]])
        (simp add: set_conn_def that(2) Let_def)
    show ?thesis by (rule advances_trans [OF 1 advances_trans [OF 2 advances_trans [OF 3 4]]])
  qed
  have "on_return (handleConnect cd h s nm c) (\<lambda>(nm', c'). advances nm nm')"
    using advances_refl [OF assms(1)] add
    by (simp add: handleConnect_def add_conn_def io_return_def on_return_pbind split: prod.split sum.split option.split)
  then show ?thesis using assms(2) by simp
qed

lemma handleNewConn_advances:
  assumes "net_ok nm" "handleNewConn cd h s nm c = returns (nm', c')"
  shows "advances nm nm'"
proof -
  have reg: "advances nm (fst (handleRegister cd s nm c1))" for c1
    using advances_refl [OF assms(1)] advances_post [OF assms(1)]
    by (auto simp: handleRegister_def split: prod.splits sum.splits)
  have pk: "advances nm (fst (handlePoke cd s nm c1))" for c1
    using advances_refl [OF assms(1)] advances_post [OF assms(1)]
    by (auto simp: handlePoke_def split: prod.splits sum.splits)
  show ?thesis
    using assms(2) reg pk handleConnect_advances [OF assms(1)] advances_refl [OF assms(1)]
    by (auto simp: handleNewConn_def split: prod.splits sum.splits if_splits) (metis fst_conv)+
qed

lemma poke_advances:
  assumes "net_ok nm"
  shows "advances nm (fst (poke cd s nm nid addr dial))"
  using advances_refl [OF assms] advances_post [OF assms]
  by (auto simp: poke_def split: prod.splits sum.splits option.splits)

lemma pokeThread_advances:
  assumes "net_ok nm"
  shows "advances nm (fst (pokeThread cd s nm a dial))"
  using advances_refl [OF assms] poke_advances [OF assms]
  by (auto simp: pokeThread_def Let_def split: prod.splits) (metis fst_conv)

lemma connect_advances:
  assumes "net_ok nm" "node_there nm a" "connect cd h s nm a dial = returns (nm', b)"
  shows "advances nm nm'"
proof -
  let ?k = "length (nm_conns nm)"
  let ?n1 = "set_conn nm a ?k"
  have 1: "advances nm ?n1" by (rule advances_set_conn [OF assms(1,2)])
  let ?n2 = "\<lambda>c. ?n1\<lparr>nm_conns := nm_conns ?n1 @ [c]\<rparr>"
  have 2: "advances nm (?n2 c)" for c
    by (rule advances_trans [OF 1 advances_conns [OF advances_ok [OF 1]]]) simp
  have 3: "advances nm (start_node (?n2 c) a ?k)" for c
    by (rule advances_trans [OF 2 [of c] advances_start_node [OF advances_ok [OF 2]]])
      (use advances_there [OF 2 assms(2)] in \<open>auto simp: set_conn_def Let_def\<close>)
  have 4: "advances nm (post (close_at (?n2 c) a) msg)" for c msg
    by (rule advances_trans [OF 2 [of c] advances_trans [OF advances_close_at advances_post]])
      (rule advances_ok [OF 2], rule advances_ok [OF advances_close_at [OF advances_ok [OF 2]]])
  have "on_return (connect cd h s nm a dial) (\<lambda>(nm', b). advances nm nm')"
    using advances_refl [OF assms(1)] 2 3 4
    by (simp add: connect_def Let_def io_return_def on_return_pbind split: prod.split sum.split option.split)
  then show ?thesis using assms(3) by simp
qed

lemma connectThread_advances:
  assumes "net_ok nm" "node_there nm a" "connectThread cd h s nm a dial = returns (nm', b)"
  shows "advances nm nm'"
  using assms(3) connect_advances [OF assms(1,2)] advances_refl [OF assms(1)]
  by (auto simp: connectThread_def split: if_splits)

lemma advances_put_conn: "net_ok nm \<Longrightarrow> advances nm (put_conn nm a c)"
  by (auto simp: put_conn_def intro: advances_conns advances_refl split: option.splits)

lemma receiveThread_advances:
  assumes "net_ok nm" "node_there nm a" "receiveThread cd s nm a = returns (nm', b)"
  shows "advances nm nm'"
proof -
  have 1: "advances nm (put_conn nm a c)" for c by (rule advances_put_conn [OF assms(1)])
  have 2: "advances nm (close_at (put_conn nm a c) a)" for c
    by (rule advances_trans [OF 1 [of c] advances_close_at [OF advances_ok [OF 1]]])
  let ?n3 = "\<lambda>c. (close_at (put_conn nm a c) a)\<lparr>nm_nodePool :=
    fst (set_state_at (nm_nodePool (close_at (put_conn nm a c) a)) a Disconnected)\<rparr>"
  have 3: "advances nm (?n3 c)" for c
    by (rule advances_trans [OF 2 [of c] advances_set_state [OF advances_ok [OF 2] advances_there [OF 2 assms(2)]]]) simp
  have 4: "advances nm (spawn (?n3 c) [ConnectThread a])" for c
    by (rule advances_trans [OF 3 [of c] advances_spawn [OF advances_ok [OF 3]]])
      (use advances_there [OF 3 assms(2)] in \<open>simp add: thread_ok_def\<close>)
  have 5: "advances nm (post (put_conn nm a c) msg)" for c msg
    by (rule advances_trans [OF 1 [of c] advances_post [OF advances_ok [OF 1]]])
  show ?thesis
    using assms(3) advances_close_at [OF assms(1)] 1 3 4 5
    by (auto simp: receiveThread_def Let_def split: prod.splits sum.splits option.splits if_splits)
qed

lemma sendThread_advances:
  assumes "net_ok nm" "node_there nm a"
  shows "advances nm (fst (sendThread cd s nm a k))"
proof -
  let ?n1 = "\<lambda>c. nm\<lparr>nm_conns := (nm_conns nm)[k := c]\<rparr>"
  have 1: "advances nm (?n1 c)" for c by (rule advances_conns [OF assms(1)]) simp
  have 2: "advances nm (close_conn (?n1 c) k)" for c
    by (rule advances_trans [OF 1 [of c] advances_close_conn [OF advances_ok [OF 1]]])
  have set: "advances nm (set_chan nm1 a ms)" if "advances nm nm1" "length ms \<le> chanBufferSize" for nm1 ms
    by (rule advances_trans [OF that(1) advances_set_chan [OF advances_ok [OF that(1)] advances_there [OF that(1) assms(2)] that(2)]])
  have len: "length (nd_outChan (np_node (nm_nodePool nm) a)) \<le> chanBufferSize"
    by (rule pool_okD(4) [OF net_ok_pool [OF assms(1)] assms(2)])
  show ?thesis
    using 1 2 set [OF 1] set [OF 2] len advances_refl [OF assms(1)]
    by (auto simp: sendThread_def split: list.splits prod.splits sum.splits)
qed

section \<open>Commands of the user\<close>

lemma new_session_threads:
  assumes "new_session_loop addr as np ts0 = (np', ts)" "\<forall>a\<in>set as. a < length (np_heap (nm_nodePool nm))"
    "\<forall>t\<in>set ts0. thread_ok nm t"
  shows "\<forall>t\<in>set ts. thread_ok nm t"
  using assms
proof (induction addr as np ts0 rule: new_session_loop.induct)
  case (2 addr a as np ts0)
  let ?np = "if nd_state (np_node np a) = SessionEnded then np_set np a ((np_node np a)\<lparr>nd_state := Disconnected\<rparr>) else np"
  have "\<forall>t\<in>set (ts0 @ initiateNewNode addr (np_heap ?np) a). thread_ok nm t"
    using "2.prems" initiateNewNode_threads [of a nm addr "np_heap ?np"] by auto
  moreover have "new_session_loop addr as ?np (ts0 @ initiateNewNode addr (np_heap ?np) a) = (np', ts)"
    using "2.prems"(1) by (simp only: new_session_loop.simps Let_def)
  ultimately show ?case using "2.IH" [OF refl refl] "2.prems"(2) by simp
qed simp

lemma startNewSession_advances:
  assumes "net_ok nm" "status (np_netMeta (nm_nodePool nm)) newId = 0"
  shows "advances nm (fst (startNewSessionOnNetworkManager nm newId err))"
proof (cases err)
  case None
  obtain np ts where new: "handleNewSession (nm_nodePool nm) newId (nm_publicAddr nm) = (np, ts)" by force
  note grow = np_grows_new_session [OF net_ok_pool [OF assms(1)] new assms(2)]
  have "\<forall>a\<in>set (map snd (np_pool (nm_nodePool nm))). a < length (np_heap np)"
    using pool_addresses [OF net_ok_pool [OF assms(1)]] grow by (fastforce simp: np_grows_def)
  then have "\<forall>t\<in>set ts. thread_ok (nm\<lparr>nm_nodePool := np\<rparr>) t"
    using new_session_threads [OF new [unfolded handleNewSession_def], of "nm\<lparr>nm_nodePool := np\<rparr>"] by simp
  then have "\<forall>t\<in>set ts. thread_ok
      ((spawn (nm\<lparr>nm_nodePool := np\<rparr>) ts)\<lparr>nm_id := newId, nm_session := Some \<lparr>s_id = newId, s_done = False\<rparr>\<rparr>) t"
    by (auto simp: thread_ok_def spawn_def split: thread.splits)
  then show ?thesis
    using assms(1) grow
    by (intro advances_step [where ts = ts])
      (auto simp: startNewSessionOnNetworkManager_def None new spawn_def)
qed (simp add: startNewSessionOnNetworkManager_def advances_refl [OF assms(1)])

lemma advances_session: "net_ok nm \<Longrightarrow> advances nm (nm\<lparr>nm_session := x\<rparr>)"
  by (rule advances_step [where ts = "[]"]) (simp_all add: net_ok_def np_grows_refl)

lemma Disconnect_advances:
  assumes "net_ok nm"
  shows "advances nm (fst (Disconnect nm))"
proof (cases "nm_session nm")
  case (Some s)
  have 1: "advances nm (session_end nm s)"
    unfolding session_end_def by (rule advances_pool [OF assms np_grows_end_session [OF net_ok_pool [OF assms]]])
  from advances_trans [OF 1 advances_session [OF advances_ok [OF 1]]] show ?thesis by (simp add: Disconnect_def Some)
qed (simp add: Disconnect_def advances_refl [OF assms])

lemma Reconnect_advances:
  assumes "net_ok nm" "status (np_netMeta (nm_nodePool nm)) newId = 0"
  shows "advances nm (fst (Reconnect nm newId err))"
  using startNewSession_advances [OF assms] advances_refl [OF assms(1)] by (simp add: Reconnect_def)

lemma Broadcast_advances: "net_ok nm \<Longrightarrow> advances nm (Broadcast nm msg)"
  by (simp add: Broadcast_def advances_refl advances_broadcast split: option.split)

lemma advances_send:
  "net_ok nm \<Longrightarrow> advances nm (nm\<lparr>nm_nodePool := fst (sendMessageToNodeWithId (nm_nodePool nm) msg nid)\<rparr>)"
  by (rule advances_pool [OF _ np_grows_send [OF net_ok_pool]])

lemma SendMessageToNodeWithId_advances: "net_ok nm \<Longrightarrow> advances nm (SendMessageToNodeWithId nm msg nid)"
  using advances_send
  by (simp add: SendMessageToNodeWithId_def advances_refl split: option.split)

lemma ConnectTo_advances:
  assumes "net_ok nm" "status (np_netMeta (nm_nodePool nm)) newId = 0"
  shows "advances nm (fst (ConnectTo cd nm newId listenErr dial))"
proof -
  obtain nm1 e where 1: "(if nm_session nm = None then startNewSessionOnNetworkManager nm newId listenErr else (nm, None)) = (nm1, e)"
    by force
  have adv: "advances nm nm1"
    using 1 startNewSession_advances [OF assms, of listenErr] advances_refl [OF assms(1)] by (auto split: if_splits)
  note post = advances_trans [OF adv advances_post [OF advances_ok [OF adv]]]
  show ?thesis
    unfolding ConnectTo_def 1
    using adv post by (simp add: Let_def split: option.split sum.split prod.split)
qed

section \<open>The node as a transition system\<close>

text \<open>
  A step handles one message, one connection, one round of a running goroutine or one command. The session \<open>s\<close>
  is whichever session the goroutine belongs to, so also one that has ended. Ids of new sessions are UUIDs no node knows.
  A goroutine that ends is removed with \<open>remove1\<close>.
\<close>

definition ends :: "NetworkManager \<Rightarrow> thread \<Rightarrow> bool \<Rightarrow> NetworkManager" where
  "ends nm t again = (if again then nm else nm\<lparr>nm_threads := remove1 t (nm_threads nm)\<rparr>)"

inductive net_step :: "codec \<Rightarrow> handlers \<Rightarrow> NetworkManager \<Rightarrow> NetworkManager \<Rightarrow> bool"
  for cd :: codec and h :: handlers where
  serve: "serveIncomingMessages cd h s nm = returns nm' \<Longrightarrow> net_step cd h nm nm'"
| check: "periodicallyCheckVersion cd h s nm = returns nm' \<Longrightarrow> net_step cd h nm nm'"
| accept: "handleNewConn cd h s nm c = returns (nm', c') \<Longrightarrow> net_step cd h nm nm'"
| poking: "PokeThread a \<in> set (nm_threads nm) \<Longrightarrow> pokeThread cd s nm a dial = (nm', again) \<Longrightarrow>
    net_step cd h nm (ends nm' (PokeThread a) again)"
| connecting: "ConnectThread a \<in> set (nm_threads nm) \<Longrightarrow> connectThread cd h s nm a dial = returns (nm', again) \<Longrightarrow>
    net_step cd h nm (ends nm' (ConnectThread a) again)"
| receiving: "ReceiveThread a \<in> set (nm_threads nm) \<Longrightarrow> receiveThread cd s nm a = returns (nm', again) \<Longrightarrow>
    net_step cd h nm (ends nm' (ReceiveThread a) again)"
| sending: "SendThread a k \<in> set (nm_threads nm) \<Longrightarrow> sendThread cd s nm a k = (nm', again) \<Longrightarrow>
    net_step cd h nm (ends nm' (SendThread a k) again)"
| replying: "ReplyThread msg nid \<in> set (nm_threads nm) \<Longrightarrow>
    net_step cd h nm (ends (nm\<lparr>nm_nodePool := fst (sendMessageToNodeWithId (nm_nodePool nm) msg nid)\<rparr>) (ReplyThread msg nid) False)"
| handed_over: "RemoteOpThread bs \<in> set (nm_threads nm) \<Longrightarrow> net_step cd h nm (ends nm (RemoteOpThread bs) False)"
| disconnect: "net_step cd h nm (fst (Disconnect nm))"
| reconnect: "status (np_netMeta (nm_nodePool nm)) newId = 0 \<Longrightarrow> net_step cd h nm (fst (Reconnect nm newId err))"
| connect_to: "status (np_netMeta (nm_nodePool nm)) newId = 0 \<Longrightarrow> net_step cd h nm (fst (ConnectTo cd nm newId err dial'))"
| broadcasting: "net_step cd h nm (Broadcast nm msg)"
| sending_to: "net_step cd h nm (SendMessageToNodeWithId nm msg nid)"

inductive net_run :: "codec \<Rightarrow> handlers \<Rightarrow> NetworkManager \<Rightarrow> NetworkManager \<Rightarrow> bool"
  for cd :: codec and h :: handlers where
  stop: "net_run cd h nm nm"
| step: "net_run cd h nm nm' \<Longrightarrow> net_step cd h nm' nm'' \<Longrightarrow> net_run cd h nm nm''"

lemma advances_ends: "advances nm nm' \<Longrightarrow> advances nm (ends nm' t again)"
proof (rule advances_trans)
  assume adv: "advances nm nm'"
  then show "advances nm nm'" .
  from advances_ok [OF adv] show "advances nm' (ends nm' t again)"
    by (intro advances_step [where ts = "[]"])
      (use set_remove1_subset [of t "nm_threads nm'"] in \<open>auto simp: ends_def net_ok_def np_grows_refl\<close>)
qed

lemma net_step_advances:
  assumes "net_step cd h nm nm'" "codec_ok cd" "net_ok nm"
  shows "advances nm nm'"
  using assms
proof (induction rule: net_step.induct)
  case (serve s nm nm')
  then show ?case by (blast intro: serveIncomingMessages_advances)
next
  case (check s nm nm')
  then show ?case by (blast intro: periodicallyCheckVersion_advances)
next
  case (accept s nm c nm' c')
  then show ?case by (blast intro: handleNewConn_advances)
next
  case (poking a nm s dial nm' again)
  then show ?case using pokeThread_advances [of nm cd s a dial] by (simp add: advances_ends)
next
  case (connecting a nm s dial nm' again)
  then have "node_there nm a" by (auto simp: net_ok_def thread_ok_def)
  with connecting show ?case by (blast intro: connectThread_advances advances_ends)
next
  case (receiving a nm s nm' again)
  then have "node_there nm a" by (auto simp: net_ok_def thread_ok_def)
  with receiving show ?case by (blast intro: receiveThread_advances advances_ends)
next
  case (sending a k nm s nm' again)
  then have "node_there nm a" by (auto simp: net_ok_def thread_ok_def)
  from sendThread_advances [OF sending(4) this, of cd s k] sending(2) show ?case by (simp add: advances_ends)
qed (simp_all add: advances_ends advances_send SendMessageToNodeWithId_advances Disconnect_advances Reconnect_advances
      ConnectTo_advances Broadcast_advances advances_refl)

lemma net_run_advances:
  assumes "net_run cd h nm nm'" "codec_ok cd" "net_ok nm"
  shows "advances nm nm'"
  using assms
  by (induction rule: net_run.induct) (blast intro: advances_refl advances_trans net_step_advances advances_ok)+

lemma NewNetworkManager_ok:
  assumes "NewNetworkManager addr newId err = Inr nm"
  shows "net_ok nm" "nm_session nm = Some \<lparr>s_id = newId, s_done = False\<rparr>" "status (np_netMeta (nm_nodePool nm)) newId = 1"
proof -
  let ?nm = "\<lparr>nm_id = [], nm_publicAddr = addr, nm_msgChan = [], nm_nodePool = newNodePool,
            nm_session = None, nm_conns = [], nm_threads = []\<rparr>"
  have "net_ok ?nm" by (simp add: net_ok_def pool_ok_def newNodePool_def newNetMeta_def meta_ok_def)
  moreover have "status (np_netMeta newNodePool) newId = 0" by (simp add: newNodePool_def newNetMeta_def status_def rank_def)
  ultimately have "advances ?nm (fst (startNewSessionOnNetworkManager ?nm newId err))"
    by (intro startNewSession_advances) simp_all
  then show "net_ok nm"
    using assms by (auto simp: NewNetworkManager_def Let_def advances_def split: prod.splits option.splits)
  show "nm_session nm = Some \<lparr>s_id = newId, s_done = False\<rparr>" "status (np_netMeta (nm_nodePool nm)) newId = 1"
    using assms
    by (auto simp: NewNetworkManager_def startNewSessionOnNetworkManager_def newNodePool_def handleNewSession_def
        Let_def spawn_def status_update rank_def newNetMeta_def status_def split: prod.splits option.splits)
qed

lemma NewNetworkManager_starts: "\<exists>nm. NewNetworkManager addr newId None = Inr nm"
  by (simp add: NewNetworkManager_def startNewSessionOnNetworkManager_def Let_def split: prod.split)

section \<open>Gossip dies out\<close>

lemma merge_loop_nothing_new:
  assumes "meta_ok u" "\<forall>k. status u k \<le> status m k"
  shows "merge_loop m d u = (m, d)"
  using assms
proof (induction u)
  case (Cons e u)
  obtain k n where e: "e = (k, n)" by force
  have u: "meta_ok u" "map_of u k = None" using Cons.prems(1) by (auto simp: e meta_ok_def map_of_eq_None_iff)
  have "status u j \<le> status m j" for j
  proof (cases "j = k")
    case False
    then have "status u j = status (e # u) j" by (simp add: status_def e)
    then show ?thesis using Cons.prems(2) by simp
  qed (use u(2) in \<open>simp add: status_def\<close>)
  with Cons.IH [OF u(1)] have "merge_loop m d u = (m, d)" by simp
  moreover have "rank (Some n) \<le> status m k" using spec [OF Cons.prems(2), of k] by (simp add: status_def e)
  ultimately show ?case by (simp add: e netMeta_update_eq overrides_def status_def split: if_splits)
qed simp

lemma handleIncomingNetMeta_nothing_new:
  assumes "dec_meta cd (m_Msg msg) = Inr u" "meta_ok u" "\<forall>k. status u k \<le> status (np_netMeta (nm_nodePool nm)) k"
  shows "handleIncomingNetMeta cd nm msg = nm"
  using assms(1) merge_loop_nothing_new [OF assms(2,3)]
  by (simp add: handleIncomingNetMeta_def newNetMetaFromJson_def applyReceivedUpdates_def netMeta_merge_def newNetMeta_def)

lemma handleIncomingNetMeta_knows:
  assumes "net_ok nm" "dec_meta cd (m_Msg msg) = Inr u" "meta_ok u"
  shows "status (np_netMeta (nm_nodePool (handleIncomingNetMeta cd nm msg))) k =
    max (status (np_netMeta (nm_nodePool nm)) k) (status u k)"
proof -
  obtain np l d ch where u: "applyReceivedUpdates (nm_nodePool nm) u = (np, l, d, ch)"
    by (cases "applyReceivedUpdates (nm_nodePool nm) u") auto
  note upd = applyReceivedUpdates_ok [OF net_ok_pool [OF assms(1)] assms(3) u]
  have "status (np_netMeta np) k = max (status (np_netMeta (nm_nodePool nm)) k) (status u k)"
    using status_merge [OF assms(3), of "np_netMeta (nm_nodePool nm)" k] upd(2) by simp
  then show ?thesis
    using broadcast_ok(3) [OF upd(1)] assms(2)
    by (simp add: handleIncomingNetMeta_def newNetMetaFromJson_def u Let_def handleNewNodes_def spawn_def)
qed

section \<open>Properties\<close>


definition plain_codec :: codec where
  "plain_codec = \<lparr>enc_meta = (\<lambda>m. case m of [(k, n)] \<Rightarrow> Inr (k @ '' '' @ nm_Addr n) | _ \<Rightarrow> Inl ''json''),
     dec_meta = (\<lambda>bs. Inr (newQuitNetMeta bs [])), enc_check = (\<lambda>v. Inl ''json''), dec_check = (\<lambda>bs. Inl ''json''),
     log_string = (\<lambda>s. s), unlog_string = (\<lambda>bs. bs), log_message = m_Msg,
     unlog_message = (\<lambda>bs. NewReplyMessage ''remoteOp'' bs), log_meta = (\<lambda>m. []), unlog_meta = (\<lambda>bs. [])\<rparr>"

lemma plain_codec_ok: "codec_ok plain_codec"
  by (simp add: codec_ok_def plain_codec_def newQuitNetMeta_def newNetMeta_def meta_ok_def)


text \<open>C27: an update is news once: after a node has handled it, handling an update with the same content again,
  from whomever, changes nothing, so it is not sent on and no connection is started.\<close>

theorem news_travels_once:
  assumes "net_ok nm" "codec_ok cd" "dec_meta cd (m_Msg msg) = Inr u" "dec_meta cd (m_Msg msg') = Inr u"
  shows "handleIncomingNetMeta cd (handleIncomingNetMeta cd nm msg) msg' = handleIncomingNetMeta cd nm msg"
proof -
  have u: "meta_ok u" using assms(2,3) by (simp add: codec_ok_def)
  show ?thesis
    by (rule handleIncomingNetMeta_nothing_new [OF assms(4) u])
      (simp add: handleIncomingNetMeta_knows [OF assms(1,3) u])
qed

theorem news_travels_once_witness:
  "\<exists>nm. NewNetworkManager ''x'' ''a'' None = Inr nm \<and>
    (let nm1 = handleIncomingNetMeta plain_codec nm (NewReplyMessage ''t'' ''b'')
     in handleIncomingNetMeta plain_codec nm1 (NewBroadcastMessage ''c'' ''t'' ''b'') = nm1)"
proof -
  obtain nm where nm: "NewNetworkManager ''x'' ''a'' None = Inr nm" using NewNetworkManager_starts by blast
  have "dec_meta plain_codec (m_Msg (NewReplyMessage ''t'' ''b'')) = Inr (newQuitNetMeta ''b'' [])"
    "dec_meta plain_codec (m_Msg (NewBroadcastMessage ''c'' ''t'' ''b'')) = Inr (newQuitNetMeta ''b'' [])"
    by (simp_all add: plain_codec_def NewReplyMessage_def NewBroadcastMessage_def)
  from nm news_travels_once [OF NewNetworkManager_ok(1) [OF nm] plain_codec_ok this] show ?thesis
    by (auto simp: Let_def)
qed

end
