(* ===== verification/Handshake.thy ===== *)
theory Handshake
  imports NetInv
begin

text \<open>
  Two nodes talking to each other: the client side of a handshake (\<open>poke\<close>, \<open>connect\<close>) against the server side
  (\<open>handlePoke\<close>, \<open>handleConnect\<close>), and the sender of one node against the receiver of the other. Each side runs on
  its own connection; the two fit together when what one side reads is what the other side writes.
\<close>

section \<open>Reading and writing on a working connection\<close>

text \<open>\<open>c_written\<close> is what the connection has carried away.\<close>

abbreviation c_written :: "Conn \<Rightarrow> byte list" where
  "c_written c \<equiv> w_wire (c_out c)"

definition working :: "Conn \<Rightarrow> nat \<Rightarrow> bool" where
  "working c n \<longleftrightarrow> \<not> w_err (c_out c) \<and> w_buffered (c_out c) = [] \<and> n \<le> w_room (c_out c)"

definition carried :: "Conn \<Rightarrow> byte list \<Rightarrow> Conn" where
  "carried c m = c\<lparr>c_out := (c_out c)\<lparr>w_wire := c_written c @ framed m, w_room := w_room (c_out c) - length (framed m)\<rparr>\<rparr>"

lemma carried_simps [simp]:
  "c_in (carried c m) = c_in c" "c_written (carried c m) = c_written c @ framed m"
  "working c (length (framed m) + n) \<Longrightarrow> working (carried c m) n"
  by (auto simp: carried_def working_def)

lemma working_le [elim]: "working c n \<Longrightarrow> k \<le> n \<Longrightarrow> working c k"
  by (auto simp: working_def)

lemma working_in [simp]: "working (c\<lparr>c_in := s\<rparr>) n \<longleftrightarrow> working c n"
  by (simp add: working_def)

lemma write_slice_works: "working c (length (framed m)) \<Longrightarrow> write_slice m c = (carried c m, Inr ())"
  by (simp add: write_slice_def working_def same_writers writers_frame carried_def)

lemma read_slice_works: "sendable None m \<Longrightarrow> c_in c = framed m @ rest \<Longrightarrow> read_slice c = (c\<lparr>c_in := rest\<rparr>, Inr m)"
  by (simp add: read_slice_def editor_slices.rd_frames)

text \<open>What the handshakes need of the logger: strings survive it, in a form the framing can carry.\<close>

definition logs_strings :: "codec \<Rightarrow> string list \<Rightarrow> bool" where
  "logs_strings cd ss \<longleftrightarrow> (\<forall>s\<in>set ss. unlog_string cd (log_string cd s) = s \<and> sendable None (log_string cd s))"

definition line :: "codec \<Rightarrow> string \<Rightarrow> byte list" where
  "line cd s = framed (log_string cd s)"

abbreviation room_for :: "codec \<Rightarrow> Conn \<Rightarrow> string list \<Rightarrow> bool" where
  "room_for cd c ss \<equiv> working c (length (concat (map (line cd) ss)))"

definition lines_out :: "codec \<Rightarrow> Conn \<Rightarrow> string list \<Rightarrow> Conn" where
  "lines_out cd c ss = foldl (\<lambda>c s. carried c (log_string cd s)) c ss"

lemma lines_out_simps [simp]:
  "c_in (lines_out cd c ss) = c_in c" "c_written (lines_out cd c ss) = c_written c @ concat (map (line cd) ss)"
  by (induction ss arbitrary: c) (simp_all add: lines_out_def line_def)

lemma lines_out_append: "lines_out cd (lines_out cd c ss) ts = lines_out cd c (ss @ ts)"
  by (simp add: lines_out_def)

lemma carried_in: "carried (c\<lparr>c_in := s\<rparr>) m = (carried c m)\<lparr>c_in := s\<rparr>"
  by (simp add: carried_def)

lemma lines_out_in: "lines_out cd (c\<lparr>c_in := s\<rparr>) ss = (lines_out cd c ss)\<lparr>c_in := s\<rparr>"
  by (induction ss arbitrary: c) (simp_all add: lines_out_def carried_in)

lemma lines_out_working:
  "room_for cd c (ss @ ts) \<Longrightarrow> room_for cd (lines_out cd c ss) ts"
  by (induction ss arbitrary: c) (simp_all add: lines_out_def line_def add.assoc)

text \<open>A side of a conversation that began on \<open>c\<close>: the lines it has said, and what it has not heard yet.\<close>

definition chat :: "codec \<Rightarrow> Conn \<Rightarrow> string list \<Rightarrow> stream \<Rightarrow> Conn" where
  "chat cd c said unheard = (lines_out cd c said)\<lparr>c_in := unheard\<rparr>"

lemma chat_start: "c_in c = s \<Longrightarrow> c = chat cd c [] s"
  by (cases c) (simp add: chat_def lines_out_def)

lemma chat_simps [simp]: "c_in (chat cd c ss r) = r" "c_written (chat cd c ss r) = c_written c @ concat (map (line cd) ss)"
  by (simp_all add: chat_def)

lemma chat_say:
  assumes "working c n" "length (concat (map (line cd) (ss @ [s]))) \<le> n"
  shows "writeMessage cd s (chat cd c ss r) = (chat cd c (ss @ [s]) r, Inr ())"
proof -
  have "room_for cd c (ss @ [s])" by (rule working_le [OF assms])
  from lines_out_working [OF this] have "working (chat cd c ss r) (length (framed (log_string cd s)))"
    by (simp add: chat_def line_def)
  then show ?thesis by (simp add: writeMessage_def write_slice_works chat_def carried_in) (simp add: lines_out_def)
qed

lemma chat_hear:
  assumes "logs_strings cd ts" "s \<in> set ts"
  shows "readMessage cd (chat cd c ss (line cd s @ r)) = (chat cd c ss r, Inr s)"
  using assms read_slice_works [of "log_string cd s" "chat cd c ss (line cd s @ r)" r]
  by (simp add: readMessage_def io_bind_def io_return_def line_def logs_strings_def) (simp add: chat_def)

section \<open>Poking\<close>

lemma poke_says:
  assumes "logs_strings cd [''true'', ''done'']" "room_for cd c [''poke'', nid, s_id s, nm_publicAddr nm]"
  shows "poke cd s nm nid addr (Some (chat cd c [] (line cd ''true'' @ line cd ''done'' @ rest))) =
    (nm, Some (chat cd c [''poke'', nid, s_id s, nm_publicAddr nm] rest), True)"
  by (simp add: poke_def io_bind_def chat_say [OF assms(2)] chat_hear [OF assms(1)])

lemma handlePoke_says:
  assumes "logs_strings cd [s_id s, nid, addr]" "room_for cd c [''true'', ''done'']"
  shows "handlePoke cd s nm (chat cd c [] (line cd (s_id s) @ line cd nid @ line cd addr @ rest)) =
    (post nm (newNetMetaUpdateMsg (enc_meta cd) (s_id s) (newJoinNetMeta nid addr)), chat cd c [''true'', ''done''] rest)"
  by (simp add: handlePoke_def io_bind_def io_return_def chat_say [OF assms(2)] chat_hear [OF assms(1)])

lemma poke_refused_says:
  assumes "logs_strings cd [''false'']" "room_for cd c [''poke'', nid]"
  shows "poke cd s nm nid addr (Some (chat cd c [] (line cd ''false'' @ rest))) =
    (post nm (newNetMetaUpdateMsg (enc_meta cd) (s_id s) (newQuitNetMeta nid addr)), Some (chat cd c [''poke'', nid] rest), True)"
  by (simp add: poke_def io_bind_def chat_say [OF assms(2)] chat_hear [OF assms(1)])

lemma handlePoke_refuses:
  assumes "logs_strings cd [nid]" "room_for cd c [''false'']" "nid \<noteq> s_id s"
  shows "handlePoke cd s nm (chat cd c [] (line cd nid @ rest)) = (nm, chat cd c [''false''] rest)"
  using assms(3) by (simp add: handlePoke_def chat_say [OF assms(2)] chat_hear [OF assms(1)])

lemma logs_subset: "logs_strings cd ts \<Longrightarrow> set ss \<subseteq> set ts \<Longrightarrow> logs_strings cd ss"
  by (auto simp: logs_strings_def)

lemma chat_of: "c\<lparr>c_in := r\<rparr> = chat cd c [] r"
  by (simp add: chat_def lines_out_def)

lemma handleNewConn_poke:
  assumes "logs_strings cd [''poke'']"
  shows "handleNewConn cd h s nm (chat cd c [] (line cd ''poke'' @ rest)) = returns (handlePoke cd s nm (chat cd c [] rest))"
  by (simp add: handleNewConn_def chat_hear [OF assms])

lemma handleNewConn_connect:
  assumes "logs_strings cd [''connect'']"
  shows "handleNewConn cd h s nm (chat cd c [] (line cd ''connect'' @ rest)) = handleConnect cd h s nm (chat cd c [] rest)"
  by (simp add: handleNewConn_def chat_hear [OF assms])

section \<open>Connecting\<close>

text \<open>The version check that both sides send at the end of the handshake, when the editor gives one.\<close>

definition greeting :: "codec \<Rightarrow> Message option \<Rightarrow> byte list" where
  "greeting cd m = (case m of None \<Rightarrow> [] | Some msg \<Rightarrow> framed (log_message cd msg))"

definition greeted :: "codec \<Rightarrow> Conn \<Rightarrow> Message option \<Rightarrow> Conn" where
  "greeted cd c m = (case m of None \<Rightarrow> c | Some msg \<Rightarrow> carried c (log_message cd msg))"

lemma greeted_simps [simp]:
  "c_in (greeted cd c m) = c_in c" "c_written (greeted cd c m) = c_written c @ greeting cd m"
  by (simp_all add: greeted_def greeting_def split: option.split)

lemma chat_greet:
  assumes "working c (length (concat (map (line cd) ss)) + length (greeting cd m))"
  shows "(case m of None \<Rightarrow> io_return () (chat cd c ss r) | Some msg \<Rightarrow> sendMessage cd msg (chat cd c ss r)) =
    (greeted cd (chat cd c ss r) m, Inr ())"
proof (cases m)
  case (Some msg)
  have "working (lines_out cd c ss) (length (greeting cd m))" using assms
    by (induction ss arbitrary: c) (simp_all add: lines_out_def line_def add.assoc)
  then show ?thesis by (simp add: Some sendMessage_def write_slice_works chat_def greeted_def greeting_def)
qed (simp add: io_return_def greeted_def)

lemma connect_says:
  assumes "logs_strings cd [''true'']" "getLatestVersionCheckMsg cd h s (set_conn nm a (length (nm_conns nm))) = returns m"
    "nid = nd_id (np_node (nm_nodePool nm) a)" "ss = [''connect'', nid, s_id s, nm_publicAddr nm]"
    "working c (length (concat (map (line cd) ss)) + length (greeting cd m))"
  shows "connect cd h s nm a (Some (chat cd c [] (line cd ''true'' @ rest))) =
    returns (start_node ((set_conn nm a (length (nm_conns nm)))\<lparr>nm_conns := nm_conns nm @
      [greeted cd (chat cd c ss rest) m]\<rparr>) a (length (nm_conns nm)), True)"
proof -
  have w: "working c (length (concat (map (line cd) ss)))" by (rule working_le [OF assms(5)]) simp
  have "nm_publicAddr (set_conn nm a k) = nm_publicAddr nm" "nm_conns (set_conn nm a k) = nm_conns nm" for k
    by (simp_all add: set_conn_def Let_def)
  then show ?thesis
    using assms(2) chat_greet [OF assms(5), of rest, unfolded assms(4) assms(3)]
    by (simp add: connect_def Let_def io_bind_def chat_say [OF w] chat_hear [OF assms(1)] assms(3,4))
qed

lemma handleConnect_says:
  assumes "logs_strings cd [s_id s, nid, addr]" "getLatestVersionCheckMsg cd h s nm = returns m"
    "working c (length (concat (map (line cd) [''true''])) + length (greeting cd m))"
    "addOrGetNodeFromPool (nm_nodePool nm) nid \<lparr>nm_Addr = addr, nm_Left = False\<rparr> = (np, a)"
  shows "handleConnect cd h s nm (chat cd c [] (line cd (s_id s) @ line cd nid @ line cd addr @ rest)) =
    (let c' = greeted cd (chat cd c [''true''] rest) m; k = length (nm_conns nm) in
     returns (start_node (set_conn (nm\<lparr>nm_nodePool := np, nm_conns := nm_conns nm @ [c']\<rparr>) a k) a k, c'))"
proof -
  have w: "working c (length (concat (map (line cd) [''true''])))" by (rule working_le [OF assms(3)]) simp
  show ?thesis
    using assms(2) chat_greet [OF assms(3), of rest]
    by (simp add: handleConnect_def Let_def io_bind_def io_return_def chat_say [OF w] chat_hear [OF assms(1)] assms(4) add_conn_def)
qed

lemma connect_refused_says:
  assumes "logs_strings cd [''false'']" "nid = nd_id (np_node (nm_nodePool nm) a)" "room_for cd c [''connect'', nid]"
  shows "connect cd h s nm a (Some (chat cd c [] (line cd ''false'' @ rest))) =
    returns (post (close_at ((set_conn nm a (length (nm_conns nm)))\<lparr>nm_conns := nm_conns nm @
        [chat cd c [''connect'', nid] rest]\<rparr>) a)
      (newNetMetaUpdateMsg (enc_meta cd) (s_id s) (newQuitNetMeta nid (nd_addr (np_node (nm_nodePool nm) a)))), True)"
proof -
  have "nm_publicAddr (set_conn nm a k) = nm_publicAddr nm" "nm_conns (set_conn nm a k) = nm_conns nm" for k
    by (simp_all add: set_conn_def Let_def)
  then show ?thesis
    by (simp add: connect_def Let_def io_bind_def chat_say [OF assms(3)] chat_hear [OF assms(1)] assms(2) [symmetric])
qed

lemma handleConnect_refuses:
  assumes "logs_strings cd [nid]" "room_for cd c [''false'']" "nid \<noteq> s_id s"
  shows "handleConnect cd h s nm (chat cd c [] (line cd nid @ rest)) = returns (nm, chat cd c [''false''] rest)"
  using assms(3) by (simp add: handleConnect_def chat_say [OF assms(2)] chat_hear [OF assms(1)])

definition linked :: "NetworkManager \<Rightarrow> nat \<Rightarrow> string \<Rightarrow> Conn \<Rightarrow> bool" where
  "linked nm a nid c \<longleftrightarrow> node_there nm a \<and> nd_id (np_node (nm_nodePool nm) a) = nid \<and>
     nd_state (np_node (nm_nodePool nm) a) = Connected \<and>
     (\<exists>k<length (nm_conns nm). nd_conn (np_node (nm_nodePool nm) a) = Some k \<and> nm_conns nm ! k = c \<and>
        {SendThread a k, ReceiveThread a} \<subseteq> set (nm_threads nm))"

lemma start_node_linked:
  assumes "node_there nm a" "nd_state (np_node (nm_nodePool nm) a) \<in> {Disconnected, Connected}"
    "nd_conn (np_node (nm_nodePool nm) a) = Some k" "k < length (nm_conns nm)"
  shows "linked (start_node nm a k) a (nd_id (np_node (nm_nodePool nm) a)) (nm_conns nm ! k)"
    "np_pool (nm_nodePool (start_node nm a k)) = np_pool (nm_nodePool nm)"
proof -
  have "setState (np_node (nm_nodePool nm) a) Connected = ((np_node (nm_nodePool nm) a)\<lparr>nd_state := Connected\<rparr>, True)"
    using assms(2) by (auto simp: setState_def)
  then show "linked (start_node nm a k) a (nd_id (np_node (nm_nodePool nm) a)) (nm_conns nm ! k)"
    "np_pool (nm_nodePool (start_node nm a k)) = np_pool (nm_nodePool nm)"
    using assms by (simp_all add: linked_def start_node_def set_state_at_def spawn_def)
qed

lemma addOrGetNodeFromPool_node:
  assumes "pool_ok np" "addOrGetNodeFromPool np nid n = (np', b)"
  shows "b < length (np_heap np')" "nd_id (np_node np' b) = nid" "map_of (np_pool np') nid = Some b"
    "nd_state (np_node np' b) =
      (case map_of (np_pool np) nid of None \<Rightarrow> Disconnected | Some a \<Rightarrow> nd_state (np_node np a))"
proof -
  note add = addOrGetNodeFromPool_ok [OF assms]
  show "b < length (np_heap np')" "nd_id (np_node np' b) = nid" "map_of (np_pool np') nid = Some b"
    using pool_okD(3) [OF add(1) map_of_SomeD [OF add(3)]] add(3) by simp_all
  show "nd_state (np_node np' b) =
      (case map_of (np_pool np) nid of None \<Rightarrow> Disconnected | Some a \<Rightarrow> nd_state (np_node np a))"
    using assms(2) by (auto simp: addOrGetNodeFromPool_def Let_def np_node_def split: option.splits)
qed

section \<open>From the queue of one node to the channel of the other\<close>

text \<open>What the logger has to promise for messages.\<close>

definition logs_messages :: "codec \<Rightarrow> Message list \<Rightarrow> bool" where
  "logs_messages cd ms \<longleftrightarrow> (\<forall>m\<in>set ms. unlog_message cd (log_message cd m) = m \<and> sendable None (log_message cd m))"

fun send_rounds :: "codec \<Rightarrow> session \<Rightarrow> nat \<Rightarrow> nat \<Rightarrow> nat \<Rightarrow> NetworkManager \<Rightarrow> NetworkManager \<times> bool" where
  "send_rounds cd s a k 0 nm = (nm, True)"
| "send_rounds cd s a k (Suc n) nm =
     (case sendThread cd s nm a k of (nm, again) \<Rightarrow> if again then send_rounds cd s a k n nm else (nm, False))"

fun receive_rounds :: "codec \<Rightarrow> session \<Rightarrow> nat \<Rightarrow> nat \<Rightarrow> NetworkManager \<Rightarrow> (NetworkManager \<times> bool) prog" where
  "receive_rounds cd s a 0 nm = returns (nm, True)"
| "receive_rounds cd s a (Suc n) nm =
     pbind (receiveThread cd s nm a) (\<lambda>(nm, again). if again then receive_rounds cd s a n nm else returns (nm, False))"

abbreviation out_chan :: "NetworkManager \<Rightarrow> nat \<Rightarrow> Message list" where
  "out_chan nm a \<equiv> nd_outChan (np_node (nm_nodePool nm) a)"

lemma set_chan_facts:
  assumes "node_there nm a"
  shows "node_there (set_chan nm a ms) a" "out_chan (set_chan nm a ms) a = ms" "nm_conns (set_chan nm a ms) = nm_conns nm"
    "nm_msgChan (set_chan nm a ms) = nm_msgChan nm"
  using assms by (simp_all add: set_chan_def Let_def)

lemma sendThread_sends:
  assumes "out_chan nm a = msg # ms" "working (nm_conns nm ! k) (length (framed (log_message cd msg)))"
  shows "sendThread cd s nm a k =
    (set_chan (nm\<lparr>nm_conns := (nm_conns nm)[k := carried (nm_conns nm ! k) (log_message cd msg)]\<rparr>) a ms, True)"
  using assms by (simp add: sendThread_def sendMessage_def write_slice_works)

lemma send_rounds_drain:
  assumes "node_there nm a" "k < length (nm_conns nm)" "out_chan nm a = ms @ later"
    "working (nm_conns nm ! k) (length (concat (map (\<lambda>m. framed (log_message cd m)) ms)))"
  shows "\<exists>nm'. send_rounds cd s a k (length ms) nm = (nm', True) \<and> out_chan nm' a = later \<and>
    c_written (nm_conns nm' ! k) = c_written (nm_conns nm ! k) @ concat (map (\<lambda>m. framed (log_message cd m)) ms)"
  using assms
proof (induction ms arbitrary: nm)
  case (Cons msg ms)
  let ?nm = "set_chan (nm\<lparr>nm_conns := (nm_conns nm)[k := carried (nm_conns nm ! k) (log_message cd msg)]\<rparr>) a (ms @ later)"
  have there: "node_there (nm\<lparr>nm_conns := cs\<rparr>) a" for cs using Cons.prems(1) by simp
  note facts = set_chan_facts [OF there]
  have "working (nm_conns nm ! k) (length (framed (log_message cd msg)))"
    by (rule working_le [OF Cons.prems(4)]) simp
  then have send: "sendThread cd s nm a k = (?nm, True)" using Cons.prems(3) by (intro sendThread_sends) simp_all
  have "\<exists>nm'. send_rounds cd s a k (length ms) ?nm = (nm', True) \<and> out_chan nm' a = later \<and>
    c_written (nm_conns nm' ! k) = c_written (nm_conns ?nm ! k) @ concat (map (\<lambda>m. framed (log_message cd m)) ms)"
  proof (rule Cons.IH)
    show "node_there ?nm a" by (rule facts(1))
    show "k < length (nm_conns ?nm)" using Cons.prems(2) by (simp add: facts)
    show "out_chan ?nm a = ms @ later" by (rule facts(2))
    show "working (nm_conns ?nm ! k) (length (concat (map (\<lambda>m. framed (log_message cd m)) ms)))"
      using Cons.prems(2,4) by (simp add: facts)
  qed
  then show ?case using Cons.prems(2) by (auto simp: send facts)
qed auto

lemma receiveThread_receives:
  assumes "logs_messages cd [msg]" "\<not> s_done s" "nd_state (np_node (nm_nodePool nm) a) = Connected"
    "nd_conn (np_node (nm_nodePool nm) a) = Some k" "k < length (nm_conns nm)"
    "c_in (nm_conns nm ! k) = framed (log_message cd msg) @ rest"
  shows "receiveThread cd s nm a =
    returns (post (nm\<lparr>nm_conns := (nm_conns nm)[k := (nm_conns nm ! k)\<lparr>c_in := rest\<rparr>]\<rparr>) msg, True)"
  using assms read_slice_works [of "log_message cd msg" "nm_conns nm ! k" rest]
  by (simp add: receiveThread_def conn_of_def receiveMessage_def io_bind_def io_return_def logs_messages_def put_conn_def Let_def)

lemma receive_rounds_deliver:
  assumes "logs_messages cd ms" "\<not> s_done s" "nd_state (np_node (nm_nodePool nm) a) = Connected"
    "nd_conn (np_node (nm_nodePool nm) a) = Some k" "k < length (nm_conns nm)"
    "c_in (nm_conns nm ! k) = concat (map (\<lambda>m. framed (log_message cd m)) ms) @ rest"
  shows "\<exists>nm'. receive_rounds cd s a (length ms) nm = returns (nm', True) \<and>
    nm_msgChan nm' = nm_msgChan nm @ ms \<and> c_in (nm_conns nm' ! k) = rest"
  using assms(1,3-)
proof (induction ms arbitrary: nm)
  case (Cons msg ms)
  let ?rest = "concat (map (\<lambda>m. framed (log_message cd m)) ms) @ rest"
  let ?nm = "post (nm\<lparr>nm_conns := (nm_conns nm)[k := (nm_conns nm ! k)\<lparr>c_in := ?rest\<rparr>]\<rparr>) msg"
  have "receiveThread cd s nm a = returns (?nm, True)"
    using Cons.prems(1,5)
    by (intro receiveThread_receives [OF _ assms(2) Cons.prems(2-4)]) (simp_all add: logs_messages_def)
  moreover have "\<exists>nm'. receive_rounds cd s a (length ms) ?nm = returns (nm', True) \<and>
    nm_msgChan nm' = nm_msgChan ?nm @ ms \<and> c_in (nm_conns nm' ! k) = rest"
    using Cons.prems(1-4) by (intro Cons.IH) (simp_all add: post_def logs_messages_def)
  ultimately show ?case by (auto simp: post_def)
qed simp

section \<open>Properties\<close>

text \<open>a node that pokes another is told the truth, with both sides reading exactly what the other wrote: when
  the other still has the expected id both finish, and the poked node will learn that the first one has joined; when
  it has another id it changes nothing, and the poking node will learn that the expected one is gone.\<close>

theorem poke_handshake:
  assumes "logs_strings cd [''poke'', nid, s_id sA, nm_publicAddr nmA, ''true'', ''done'', ''false'']"
    "room_for cd cA [''poke'', nid, s_id sA, nm_publicAddr nmA]" "room_for cd cB [''true'', ''done'']"
    "room_for cd cB [''false'']" "c_written cA = []" "c_written cB = []"
  shows "\<exists>cA' cB'. c_in cA' = [] \<and> c_in cB' = [] \<and>
    (if nid = s_id sB then
       poke cd sA nmA nid addr (Some (cA\<lparr>c_in := c_written cB'\<rparr>)) = (nmA, Some cA', True) \<and>
       handleNewConn cd h sB nmB (cB\<lparr>c_in := c_written cA'\<rparr>) =
         returns (post nmB (newNetMetaUpdateMsg (enc_meta cd) (s_id sB) (newJoinNetMeta (s_id sA) (nm_publicAddr nmA))), cB')
     else
       poke cd sA nmA nid addr (Some (cA\<lparr>c_in := c_written cB'\<rparr>)) =
         (post nmA (newNetMetaUpdateMsg (enc_meta cd) (s_id sA) (newQuitNetMeta nid addr)), Some cA', True) \<and>
       handleNewConn cd h sB nmB (cB\<lparr>c_in := c_written cA'\<rparr>) = returns (nmB, cB'))"
proof -
  note logs = logs_subset [OF assms(1)]
  note disp = handleNewConn_poke [OF logs [of "[''poke'']"], simplified]
  show ?thesis
  proof (cases "nid = s_id sB")
    case True
    let ?A = "chat cd cA [''poke'', nid, s_id sA, nm_publicAddr nmA] []" and ?B = "chat cd cB [''true'', ''done''] []"
    have "poke cd sA nmA nid addr (Some (cA\<lparr>c_in := c_written ?B\<rparr>)) = (nmA, Some ?A, True)"
      using poke_says [OF logs assms(2), of addr "[]"] assms(6) by (simp add: chat_of [where cd = cd])
    moreover have "handleNewConn cd h sB nmB (cB\<lparr>c_in := c_written ?A\<rparr>) =
        returns (post nmB (newNetMetaUpdateMsg (enc_meta cd) (s_id sB) (newJoinNetMeta (s_id sA) (nm_publicAddr nmA))), ?B)"
      using handlePoke_says [OF logs assms(3), of sB "s_id sA" "nm_publicAddr nmA" nmB "[]"] assms(5) True
      by (simp add: chat_of [where cd = cd] disp)
    ultimately show ?thesis using True by (intro exI [of _ ?A] exI [of _ ?B]) simp
  next
    case False
    let ?A = "chat cd cA [''poke'', nid] []" and ?B = "chat cd cB [''false''] []"
    have "room_for cd cA [''poke'', nid]" by (rule working_le [OF assms(2)]) simp
    from poke_refused_says [OF logs this, of sA nmA addr "[]"]
    have "poke cd sA nmA nid addr (Some (cA\<lparr>c_in := c_written ?B\<rparr>)) =
         (post nmA (newNetMetaUpdateMsg (enc_meta cd) (s_id sA) (newQuitNetMeta nid addr)), Some ?A, True)"
      using assms(6) by (simp add: chat_of [where cd = cd])
    moreover have "handleNewConn cd h sB nmB (cB\<lparr>c_in := c_written ?A\<rparr>) = returns (nmB, ?B)"
      using handlePoke_refuses [OF logs assms(4) False, of nmB "[]"] assms(5) by (simp add: chat_of [where cd = cd] disp)
    ultimately show ?thesis using False by (intro exI [of _ ?A] exI [of _ ?B]) simp
  qed
qed

definition new_conn :: Conn where
  "new_conn = \<lparr>c_in = [], c_out = \<lparr>w_buffered = [], w_wire = [], w_room = 1000, w_err = False\<rparr>\<rparr>"

definition no_handlers :: handlers where
  "no_handlers = \<lparr>h_RemoteOp = True, h_OpsVersion = Some None, h_VersionCheck = None\<rparr>"

definition sample_net :: NetworkManager where
  "sample_net = \<lparr>nm_id = ''s'', nm_publicAddr = ''w'', nm_msgChan = [], nm_nodePool = sample_pool,
     nm_session = Some \<lparr>s_id = ''s'', s_done = False\<rparr>, nm_conns = [], nm_threads = []\<rparr>"

lemma line_plain: "line plain_codec s = framed s"
  by (simp add: line_def plain_codec_def)

lemma logs_plain: "\<forall>s\<in>set ss. s \<noteq> [] \<and> last s \<noteq> CHR 0x0A \<and> length s < 2 ^ 63 \<Longrightarrow> logs_strings plain_codec ss"
  by (simp add: logs_strings_def plain_codec_def sendable_def fits_def)

lemma working_new: "n \<le> 1000 \<Longrightarrow> working new_conn n"
  by (simp add: working_def new_conn_def)

theorem poke_handshake_witness:
  "\<exists>cA' cB'. poke plain_codec \<lparr>s_id = ''s'', s_done = False\<rparr> sample_net ''a'' ''x'' (Some (new_conn\<lparr>c_in := c_written cB'\<rparr>)) =
      (sample_net, Some cA', True) \<and>
    handleNewConn plain_codec no_handlers \<lparr>s_id = ''a'', s_done = False\<rparr> sample_net (new_conn\<lparr>c_in := c_written cA'\<rparr>) =
      returns (post sample_net (newNetMetaUpdateMsg (enc_meta plain_codec) ''a'' (newJoinNetMeta ''s'' ''w'')), cB')"
proof -
  let ?s = "\<lparr>s_id = ''s'', s_done = False\<rparr>"
  have "logs_strings plain_codec [''poke'', ''a'', s_id ?s, nm_publicAddr sample_net, ''true'', ''done'', ''false'']"
    by (rule logs_plain) (simp add: sample_net_def)
  note logs = this
  have room: "room_for plain_codec new_conn [''poke'', ''a'', s_id ?s, nm_publicAddr sample_net]"
    "room_for plain_codec new_conn [''true'', ''done'']" "room_for plain_codec new_conn [''false'']"
    by (auto simp: line_plain framed_def itoa.simps sample_net_def intro!: working_new)
  have "c_written new_conn = []" by (simp add: new_conn_def)
  from poke_handshake [OF logs room this this, of "\<lparr>s_id = ''a'', s_done = False\<rparr>" "''x''" no_handlers sample_net]
  show ?thesis by (auto simp: sample_net_def [THEN arg_cong [where f = nm_publicAddr]])
qed

text \<open>C24: \<open>connect\<close> against \<open>handleConnect\<close>: when the ids match, both nodes end up connected to each other over this
  connection, with a sender and a receiver running on each side; the only bytes still to be read on
  each side are the other one's version check.\<close>

theorem connect_handshake:
  assumes "logs_strings cd [''connect'', s_id sB, s_id sA, nm_publicAddr nmA, ''true'']"
    "node_there nmA a" "nd_id (np_node (nm_nodePool nmA) a) = s_id sB"
    "nd_state (np_node (nm_nodePool nmA) a) = Disconnected" "pool_ok (nm_nodePool nmB)"
    "\<forall>b. map_of (np_pool (nm_nodePool nmB)) (s_id sA) = Some b \<longrightarrow> nd_state (np_node (nm_nodePool nmB) b) \<in> {Disconnected, Connected}"
    "getLatestVersionCheckMsg cd hA sA (set_conn nmA a (length (nm_conns nmA))) = returns mA"
    "getLatestVersionCheckMsg cd hB sB nmB = returns mB"
    "working cA (length (concat (map (line cd) [''connect'', s_id sB, s_id sA, nm_publicAddr nmA])) + length (greeting cd mA))"
    "working cB (length (concat (map (line cd) [''true''])) + length (greeting cd mB))"
    "c_written cA = []" "c_written cB = []"
  shows "\<exists>nmA' cA' nmB' cB' b.
    connect cd hA sA nmA a (Some (cA\<lparr>c_in := c_written cB'\<rparr>)) = returns (nmA', True) \<and>
    handleNewConn cd hB sB nmB (cB\<lparr>c_in := c_written cA'\<rparr>) = returns (nmB', cB') \<and>
    linked nmA' a (s_id sB) cA' \<and> linked nmB' b (s_id sA) cB' \<and> map_of (np_pool (nm_nodePool nmB')) (s_id sA) = Some b \<and>
    c_in cA' = greeting cd mB \<and> c_in cB' = greeting cd mA"
proof -
  note logs = logs_subset [OF assms(1)]
  let ?ss = "[''connect'', s_id sB, s_id sA, nm_publicAddr nmA]"
  let ?A = "greeted cd (chat cd cA ?ss (greeting cd mB)) mA" and ?B = "greeted cd (chat cd cB [''true''] (greeting cd mA)) mB"
  let ?k = "length (nm_conns nmA)" and ?j = "length (nm_conns nmB)"
  let ?nA = "(set_conn nmA a ?k)\<lparr>nm_conns := nm_conns nmA @ [?A]\<rparr>"
  obtain np b where add: "addOrGetNodeFromPool (nm_nodePool nmB) (s_id sA) \<lparr>nm_Addr = nm_publicAddr nmA, nm_Left = False\<rparr> = (np, b)"
    by force
  note b = addOrGetNodeFromPool_node [OF assms(5) add]
  let ?nB = "set_conn (nmB\<lparr>nm_nodePool := np, nm_conns := nm_conns nmB @ [?B]\<rparr>) b ?j"
  have "connect cd hA sA nmA a (Some (cA\<lparr>c_in := c_written ?B\<rparr>)) = returns (start_node ?nA a ?k, True)"
    using connect_says [OF logs assms(7) assms(3) [symmetric] refl assms(9), of "greeting cd mB"] assms(12)
    by (simp add: chat_of [where cd = cd])
  moreover have "handleNewConn cd hB sB nmB (cB\<lparr>c_in := c_written ?A\<rparr>) = returns (start_node ?nB b ?j, ?B)"
    using handleConnect_says [OF logs assms(8,10) add, of "greeting cd mA"] assms(11)
      handleNewConn_connect [OF logs [of "[''connect'']"]]
    by (simp add: chat_of [where cd = cd] Let_def)
  moreover have "linked (start_node ?nA a ?k) a (s_id sB) ?A"
    using start_node_linked(1) [of a ?nA ?k] assms(2-4) by (simp add: set_conn_def Let_def)
  moreover have "linked (start_node ?nB b ?j) b (s_id sA) ?B"
    "map_of (np_pool (nm_nodePool (start_node ?nB b ?j))) (s_id sA) = Some b"
    using start_node_linked [of b ?nB ?j] b assms(6) by (auto simp: set_conn_def Let_def split: option.splits)
  ultimately show ?thesis
    by (intro exI [of _ "start_node ?nA a ?k"] exI [of _ ?A] exI [of _ "start_node ?nB b ?j"] exI [of _ ?B] exI [of _ b]) simp
qed

theorem connect_handshake_witness:
  "\<exists>nmA' cA' nmB' cB' b.
    connect plain_codec no_handlers \<lparr>s_id = ''s'', s_done = False\<rparr> sample_net 1 (Some (new_conn\<lparr>c_in := c_written cB'\<rparr>)) = returns (nmA', True) \<and>
    handleNewConn plain_codec no_handlers \<lparr>s_id = ''b'', s_done = False\<rparr> sample_net (new_conn\<lparr>c_in := c_written cA'\<rparr>) = returns (nmB', cB') \<and>
    linked nmA' 1 ''b'' cA' \<and> linked nmB' b ''s'' cB'"
proof -
  let ?A = "\<lparr>s_id = ''s'', s_done = False\<rparr>" and ?B = "\<lparr>s_id = ''b'', s_done = False\<rparr>"
  have logs: "logs_strings plain_codec [''connect'', s_id ?B, s_id ?A, nm_publicAddr sample_net, ''true'']"
    by (rule logs_plain) (simp add: sample_net_def)
  have pool: "node_there sample_net 1" "nd_id (np_node (nm_nodePool sample_net) 1) = s_id ?B"
    "nd_state (np_node (nm_nodePool sample_net) 1) = Disconnected" "pool_ok (nm_nodePool sample_net)"
    "\<forall>b. map_of (np_pool (nm_nodePool sample_net)) (s_id ?A) = Some b \<longrightarrow>
      nd_state (np_node (nm_nodePool sample_net) b) \<in> {Disconnected, Connected}"
    using sample_pool_ok by (simp_all add: sample_net_def sample_pool_eq np_node_def)
  have msg: "getLatestVersionCheckMsg plain_codec no_handlers s nm = returns None" for s nm
    by (simp add: getLatestVersionCheckMsg_def no_handlers_def)
  have room: "working new_conn (length (concat (map (line plain_codec) [''connect'', s_id ?B, s_id ?A, nm_publicAddr sample_net])) +
      length (greeting plain_codec None))"
    "working new_conn (length (concat (map (line plain_codec) [''true''])) + length (greeting plain_codec None))"
    by (auto simp: line_plain framed_def itoa.simps sample_net_def greeting_def intro!: working_new)
  have "c_written new_conn = []" by (simp add: new_conn_def)
  from connect_handshake [OF logs pool msg msg room this this] show ?thesis by (simp del: One_nat_def) blast
qed

text \<open>C25: once linked, messages travel in order: after as many rounds of the sender as there are messages in the node's
  queue, as many rounds of the receiver on the other side append exactly these messages, in this order, to its channel.\<close>

theorem messages_arrive_in_order:
  assumes "node_there nmA a" "k < length (nm_conns nmA)" "out_chan nmA a = ms" "logs_messages cd ms"
    "working (nm_conns nmA ! k) (length (concat (map (\<lambda>m. framed (log_message cd m)) ms)))" "c_written (nm_conns nmA ! k) = []"
    "linked nmB b nid cB" "\<not> s_done sB"
  shows "\<exists>nmA' j. send_rounds cd sA a k (length ms) nmA = (nmA', True) \<and> out_chan nmA' a = [] \<and>
    nm_conns nmB ! j = cB \<and>
    (\<exists>nmB'. receive_rounds cd sB b (length ms)
        (nmB\<lparr>nm_conns := (nm_conns nmB)[j := cB\<lparr>c_in := c_written (nm_conns nmA' ! k)\<rparr>]\<rparr>) = returns (nmB', True) \<and>
      nm_msgChan nmB' = nm_msgChan nmB @ ms)"
proof -
  from send_rounds_drain [OF assms(1,2), of ms "[]"] assms(3,5,6) obtain nmA' where
    A: "send_rounds cd sA a k (length ms) nmA = (nmA', True)" "out_chan nmA' a = []"
      "c_written (nm_conns nmA' ! k) = concat (map (\<lambda>m. framed (log_message cd m)) ms)" by auto
  from assms(7) obtain j where j: "j < length (nm_conns nmB)" "nd_conn (np_node (nm_nodePool nmB) b) = Some j"
    "nm_conns nmB ! j = cB" "nd_state (np_node (nm_nodePool nmB) b) = Connected" by (auto simp: linked_def)
  let ?nB = "nmB\<lparr>nm_conns := (nm_conns nmB)[j := cB\<lparr>c_in := c_written (nm_conns nmA' ! k)\<rparr>]\<rparr>"
  have "\<exists>nmB'. receive_rounds cd sB b (length ms) ?nB = returns (nmB', True) \<and>
      nm_msgChan nmB' = nm_msgChan ?nB @ ms \<and> c_in (nm_conns nmB' ! j) = []"
    using j A(3) by (intro receive_rounds_deliver [OF assms(4,8)]) simp_all
  with A j(3) show ?thesis by auto
qed

theorem messages_arrive_in_order_witness:
  "\<exists>nmA'. send_rounds plain_codec \<lparr>s_id = ''s'', s_done = False\<rparr> 1 0 1
      (set_chan (sample_net\<lparr>nm_conns := [new_conn]\<rparr>) 1 [NewReplyMessage ''remoteOp'' ''op'']) = (nmA', True) \<and>
    out_chan nmA' 1 = []"
proof -
  let ?ms = "[NewReplyMessage ''remoteOp'' ''op'']"
  let ?A = "set_chan (sample_net\<lparr>nm_conns := [new_conn]\<rparr>) 1 ?ms"
  let ?B0 = "set_conn (sample_net\<lparr>nm_conns := [new_conn]\<rparr>) 1 0"
  have there: "node_there (sample_net\<lparr>nm_conns := [new_conn]\<rparr>) 1" by (simp add: sample_net_def sample_pool_eq)
  note A = set_chan_facts [OF there]
  have logs: "logs_messages plain_codec ?ms"
    by (simp add: logs_messages_def plain_codec_def NewReplyMessage_def sendable_def fits_def)
  have conn: "working (nm_conns ?A ! 0) (length (concat (map (\<lambda>m. framed (log_message plain_codec m)) ?ms)))"
    "c_written (nm_conns ?A ! 0) = []" "0 < length (nm_conns ?A)"
    unfolding A
    by (auto simp: plain_codec_def NewReplyMessage_def framed_def itoa.simps intro!: working_new) (simp add: new_conn_def)
  have link: "linked (start_node ?B0 1 0) 1 (nd_id (np_node (nm_nodePool ?B0) 1)) (nm_conns ?B0 ! 0)"
    using there by (intro start_node_linked) (simp_all add: set_conn_def sample_net_def sample_pool_eq np_node_def np_set_def)
  have "\<not> s_done \<lparr>s_id = ''b'', s_done = False\<rparr>" by simp
  from messages_arrive_in_order [OF A(1) conn(3) A(2) logs conn(1,2) link this, of "\<lparr>s_id = ''s'', s_done = False\<rparr>"]
  show ?thesis by auto
qed

end
