(* ===== verification/Md5.thy ===== *)
theory Md5
  imports Prelude
begin

text \<open>
  What the fortune programs use of the Go library to answer a challenge: \<open>binary.PutVarint\<close> (zig-zag and base 128),
  \<open>md5.Sum\<close> (RFC 1321) and \<open>hex.EncodeToString\<close>. The round trip of \<open>PutVarint\<close> shows that different sums are
  hashed as different byte strings.
\<close>

unbundle bit_operations_syntax

type_synonym int64 = "64 word"

section \<open>Varints\<close>

function PutUvarint :: "uint64 \<Rightarrow> byte list" where
  "PutUvarint x = (if x < 128 then [char_of (unat x)]
     else char_of (unat (x AND 127) + 128) # PutUvarint (drop_bit 7 x))"
  by pat_completeness auto
termination
proof (relation "measure unat", goal_cases)
  case (2 x)
  then have "0 < unat x" by (simp add: word_less_nat_alt not_less)
  then have "unat x div 128 < unat x" by simp
  then show ?case by (simp add: drop_bit_eq_div unat_div)
qed simp

declare PutUvarint.simps [simp del]

definition PutVarint :: "int64 \<Rightarrow> byte list" where
  "PutVarint x = (let ux = push_bit 1 x in PutUvarint (if x <s 0 then NOT ux else ux))"

section \<open>Hexadecimal\<close>

definition hex_digit :: "nat \<Rightarrow> char" where
  "hex_digit n = ''0123456789abcdef'' ! n"

definition EncodeToString :: "byte list \<Rightarrow> string" where
  "EncodeToString bytes = concat (map (\<lambda>b. [hex_digit (of_char b div 16), hex_digit (of_char b mod 16)]) bytes)"

section \<open>MD5\<close>

definition md5_K :: "uint32 list" where
  "md5_K = [
     0xd76aa478, 0xe8c7b756, 0x242070db, 0xc1bdceee, 0xf57c0faf, 0x4787c62a, 0xa8304613, 0xfd469501,
     0x698098d8, 0x8b44f7af, 0xffff5bb1, 0x895cd7be, 0x6b901122, 0xfd987193, 0xa679438e, 0x49b40821,
     0xf61e2562, 0xc040b340, 0x265e5a51, 0xe9b6c7aa, 0xd62f105d, 0x02441453, 0xd8a1e681, 0xe7d3fbc8,
     0x21e1cde6, 0xc33707d6, 0xf4d50d87, 0x455a14ed, 0xa9e3e905, 0xfcefa3f8, 0x676f02d9, 0x8d2a4c8a,
     0xfffa3942, 0x8771f681, 0x6d9d6122, 0xfde5380c, 0xa4beea44, 0x4bdecfa9, 0xf6bb4b60, 0xbebfbc70,
     0x289b7ec6, 0xeaa127fa, 0xd4ef3085, 0x04881d05, 0xd9d4d039, 0xe6db99e5, 0x1fa27cf8, 0xc4ac5665,
     0xf4292244, 0x432aff97, 0xab9423a7, 0xfc93a039, 0x655b59c3, 0x8f0ccc92, 0xffeff47d, 0x85845dd1,
     0x6fa87e4f, 0xfe2ce6e0, 0xa3014314, 0x4e0811a1, 0xf7537e82, 0xbd3af235, 0x2ad7d2bb, 0xeb86d391]"

definition md5_shift :: "nat \<Rightarrow> nat" where
  "md5_shift i = [7, 12, 17, 22, 5, 9, 14, 20, 4, 11, 16, 23, 6, 10, 15, 21] ! (4 * (i div 16) + i mod 4)"

definition rotl32 :: "nat \<Rightarrow> uint32 \<Rightarrow> uint32" where
  "rotl32 n x = push_bit n x OR drop_bit (32 - n) x"

definition md5_round :: "uint32 list \<Rightarrow> nat \<Rightarrow> uint32 \<times> uint32 \<times> uint32 \<times> uint32 \<Rightarrow> uint32 \<times> uint32 \<times> uint32 \<times> uint32" where
  "md5_round m i abcd =
     (case abcd of (a, b, c, d) \<Rightarrow>
        let (f, g) =
          (if i < 16 then ((b AND c) OR (NOT b AND d), i)
           else if i < 32 then ((d AND b) OR (NOT d AND c), (5 * i + 1) mod 16)
           else if i < 48 then (b XOR c XOR d, (3 * i + 5) mod 16)
           else (c XOR (b OR NOT d), (7 * i) mod 16))
        in (d, b + rotl32 (md5_shift i) (a + f + md5_K ! i + m ! g), b, c))"

fun le_word :: "byte list \<Rightarrow> uint32" where
  "le_word [] = 0"
| "le_word (b # bs) = of_char b + 256 * le_word bs"

fun le_bytes :: "nat \<Rightarrow> nat \<Rightarrow> byte list" where
  "le_bytes 0 n = []"
| "le_bytes (Suc k) n = char_of (n mod 256) # le_bytes k (n div 256)"

fun chunks :: "nat \<Rightarrow> nat \<Rightarrow> byte list \<Rightarrow> byte list list" where
  "chunks 0 w bs = []"
| "chunks (Suc k) w bs = take w bs # chunks k w (drop w bs)"

definition md5_block :: "uint32 \<times> uint32 \<times> uint32 \<times> uint32 \<Rightarrow> byte list \<Rightarrow> uint32 \<times> uint32 \<times> uint32 \<times> uint32" where
  "md5_block h block =
     (let m = map le_word (chunks 16 4 block); (a, b, c, d) = h;
          (a', b', c', d') = fold (md5_round m) [0..<64] h
      in (a + a', b + b', c + c', d + d'))"

definition md5_pad :: "byte list \<Rightarrow> byte list" where
  "md5_pad bs = (let n = length bs in
     bs @ [CHR 0x80] @ replicate ((119 - n mod 64) mod 64) (CHR 0x00) @ le_bytes 8 (8 * n))"

definition md5_Sum :: "byte list \<Rightarrow> byte list" where
  "md5_Sum bs =
     (let p = md5_pad bs;
          (a, b, c, d) = foldl md5_block (0x67452301, 0xefcdab89, 0x98badcfe, 0x10325476) (chunks (length p div 64) 64 p)
      in concat (map (\<lambda>w. le_bytes 4 (unat w)) [a, b, c, d]))"

section \<open>Varints are unambiguous\<close>

fun uvarint_value :: "byte list \<Rightarrow> nat" where
  "uvarint_value [] = 0"
| "uvarint_value (b # bs) = of_char b mod 128 + 128 * uvarint_value bs"

lemma uvarint_value_PutUvarint: "uvarint_value (PutUvarint x) = unat x"
proof (induction x rule: PutUvarint.induct)
  case (1 x)
  show ?case
  proof (cases "x < 128")
    case True
    then have "unat x < 128" by (simp add: word_less_nat_alt)
    with True show ?thesis by (subst PutUvarint.simps) simp
  next
    case False
    have m: "unat (x AND 127) = unat x mod 128"
    proof -
      have "x AND 127 = take_bit 7 x" by (simp add: take_bit_eq_mask mask_eq_exp_minus_1)
      then show ?thesis by (simp add: take_bit_eq_mod unat_mod)
    qed
    then have "unat (x AND 127) < 128" by simp
    with m False 1 show ?thesis by (subst PutUvarint.simps) (simp add: drop_bit_eq_div unat_div)
  qed
qed

lemma PutUvarint_inject: "PutUvarint x = PutUvarint y \<longleftrightarrow> x = y"
  by (metis uvarint_value_PutUvarint unsigned_word_eqI)

text \<open>The sign goes into the lowest bit, and the others tell where the number differs from its sign.\<close>

lemma bit_zigzag:
  fixes x :: int64
  shows "bit (if x <s 0 then NOT (push_bit 1 x) else push_bit 1 x) n \<longleftrightarrow>
    n < 64 \<and> (if n = 0 then bit x 63 else bit x 63 \<noteq> bit x (n - 1))"
proof -
  have sign: "x <s 0 \<longleftrightarrow> bit x 63" by (simp add: word_sless_alt bit_last_iff [of x, simplified])
  have shifted: "bit (push_bit 1 x) n \<longleftrightarrow> n < 64 \<and> 1 \<le> n \<and> bit x (n - 1)"
    by (simp only: bit_push_bit_iff possible_bit_word) auto
  have flipped: "bit (NOT (push_bit 1 x)) n \<longleftrightarrow> n < 64 \<and> \<not> bit (push_bit 1 x) n"
    by (simp only: bit_not_iff possible_bit_word) simp
  show ?thesis
  proof (cases "bit x 63")
    case True
    then show ?thesis unfolding sign if_P [OF True] flipped shifted by auto
  next
    case False
    then show ?thesis unfolding sign if_not_P [OF False] shifted by auto
  qed
qed

lemma PutVarint_inject: "PutVarint x = PutVarint y \<longleftrightarrow> x = y"
proof
  assume "PutVarint x = PutVarint y"
  then have bits: "bit (if x <s 0 then NOT (push_bit 1 x) else push_bit 1 x) n \<longleftrightarrow>
      bit (if y <s 0 then NOT (push_bit 1 y) else push_bit 1 y) n" for n
    by (simp only: PutVarint_def Let_def PutUvarint_inject)
  have "bit x 63 \<longleftrightarrow> bit y 63" using bits [of 0] unfolding bit_zigzag by simp
  moreover have "bit x n \<longleftrightarrow> bit y n" if "n < 63" for n
    using bits [of "Suc n"] calculation that unfolding bit_zigzag by auto
  ultimately have "bit x n \<longleftrightarrow> bit y n" if "n < 64" for n using that by (cases "n = 63") auto
  then show "x = y" by (intro bit_word_eqI) simp
qed simp

end
