(* ===== verification/Fortune.thy ===== *)
theory Fortune
  imports Md5
begin

text \<open>
  The fortune service: \<^verbatim>\<open>assignment1_u4o8/client.go\<close>, \<^verbatim>\<open>assignment2_u4o8/auth-server.go\<close> and
  \<^verbatim>\<open>assignment2_u4o8/fortune-server.go\<close>. A client asks the authentication server for a nonce, returns the hash of nonce plus
  secret, learns the address of the fortune server and a second nonce from it, and trades that nonce for the fortune.

  \<open>encoding/json\<close> is the parameter \<open>json_codec\<close>: an encoder per message type, and a decoder that gives the
  pointer it leaves behind (\<open>None\<close> is nil, as for the text \<open>null\<close>) and whether it reports no error. Numbers drawn
  by \<open>rand.Int63\<close>, the outcome of a write and the RPC between the servers are arguments. The handler of a datagram is
  one step: it holds the lock of the nonce table only while it reads or writes one entry.
\<close>

section \<open>Messages\<close>

record ErrMessage = Error :: string
record NonceMessage = Nonce :: int64
record HashMessage = Hash :: string
record FortuneInfoMessage = FortuneServer :: string  FortuneNonce :: int64
record FortuneReqMessage = req_FortuneNonce :: int64
record FortuneMessage = Fortune :: string

type_synonym 'a decoded = "'a option \<times> bool"

record json_codec =
  put_Err :: "ErrMessage \<Rightarrow> byte list"
  put_Nonce :: "NonceMessage \<Rightarrow> byte list"
  put_Hash :: "HashMessage \<Rightarrow> byte list"
  put_Info :: "FortuneInfoMessage \<Rightarrow> byte list"
  put_Req :: "FortuneReqMessage \<Rightarrow> byte list"
  put_Fortune :: "FortuneMessage \<Rightarrow> byte list"
  get_Err :: "byte list \<Rightarrow> ErrMessage decoded"
  get_Nonce :: "byte list \<Rightarrow> NonceMessage decoded"
  get_Hash :: "byte list \<Rightarrow> HashMessage decoded"
  get_Info :: "byte list \<Rightarrow> FortuneInfoMessage decoded"
  get_Req :: "byte list \<Rightarrow> FortuneReqMessage decoded"
  get_Fortune :: "byte list \<Rightarrow> FortuneMessage decoded"

text \<open>\<open>sendUdpMessage\<close> of both servers: what goes out, and the error of \<open>WriteTo\<close>.\<close>

type_synonym sending = "(string \<times> byte list) list \<times> string option"

definition sendUdpMessage :: "string option \<Rightarrow> string \<Rightarrow> byte list \<Rightarrow> sending" where
  "sendUdpMessage werr addr tmpBuf = (case werr of None \<Rightarrow> ([(addr, tmpBuf)], None) | Some e \<Rightarrow> ([], Some e))"

section \<open>Authentication server\<close>

type_synonym nonce_map = "string \<rightharpoonup> int64"

definition computeNonceSecretHash :: "int64 \<Rightarrow> int64 \<Rightarrow> string" where
  "computeNonceSecretHash nonce secret = EncodeToString (md5_Sum (PutVarint (nonce + secret)))"

definition checkHash :: "nonce_map \<Rightarrow> string \<Rightarrow> HashMessage option \<Rightarrow> int64 \<Rightarrow> ErrMessage option prog" where
  "checkHash m addr hashMessage secret =
     (case m addr of
        None \<Rightarrow> returns (Some \<lparr>Error = ''unknown remote client address''\<rparr>)
      | Some nonce \<Rightarrow>
          (case hashMessage of
             None \<Rightarrow> panics NilDereference
           | Some hm \<Rightarrow>
               if computeNonceSecretHash nonce secret \<noteq> Hash hm
               then returns (Some \<lparr>Error = ''unexpected hash value''\<rparr>)
               else returns None))"

text \<open>\<open>rpc\<close> is the call \<open>FortuneServerRPC.GetFortuneInfo\<close> on the state \<open>f\<close> of the fortune server.\<close>

definition handleAuthRequestHelper ::
  "json_codec \<Rightarrow> int64 \<Rightarrow> ('f \<Rightarrow> string \<Rightarrow> 'f \<times> (string + FortuneInfoMessage)) \<Rightarrow> int64 \<Rightarrow> string option \<Rightarrow>
   nonce_map \<times> 'f \<Rightarrow> string \<Rightarrow> byte list \<Rightarrow> ((nonce_map \<times> 'f) \<times> sending) prog" where
  "handleAuthRequestHelper J secret rpc nonce werr s addr request =
     (case s of (m, f) \<Rightarrow>
      case get_Hash J request of (hashMessage, ok) \<Rightarrow>
      if ok then
        pbind (checkHash m addr hashMessage secret) (\<lambda>errMessage.
        case errMessage of
          Some e \<Rightarrow> returns ((m, f), sendUdpMessage werr addr (put_Err J e))
        | None \<Rightarrow>
            (case rpc f addr of
               (f, Inl err) \<Rightarrow> returns ((m, f), ([], Some err))
             | (f, Inr fortuneInfo) \<Rightarrow> returns ((m, f), sendUdpMessage werr addr (put_Info J fortuneInfo))))
      else returns ((m(addr \<mapsto> nonce), f), sendUdpMessage werr addr (put_Nonce J \<lparr>Nonce = nonce\<rparr>)))"

text \<open>\<open>err\<close> is the error of \<open>ReadFrom\<close>; an error at the end is printed and forgotten. The buffer of \<open>main\<close> takes
  1024 bytes of a datagram.\<close>

definition handleAuthRequest ::
  "json_codec \<Rightarrow> int64 \<Rightarrow> ('f \<Rightarrow> string \<Rightarrow> 'f \<times> (string + FortuneInfoMessage)) \<Rightarrow> int64 \<Rightarrow> string option \<Rightarrow>
   nonce_map \<times> 'f \<Rightarrow> string \<Rightarrow> byte list \<Rightarrow> string option \<Rightarrow> ((nonce_map \<times> 'f) \<times> (string \<times> byte list) list) prog" where
  "handleAuthRequest J secret rpc nonce werr s addr datagram err =
     (if err = None then
        pbind (handleAuthRequestHelper J secret rpc nonce werr s addr (take 1024 datagram)) (\<lambda>(s, sent, err).
          returns (s, sent))
      else returns (s, []))"

section \<open>Fortune server\<close>

definition GetFortuneInfo :: "string \<Rightarrow> int64 \<Rightarrow> nonce_map \<Rightarrow> string \<Rightarrow> nonce_map \<times> (string + FortuneInfoMessage)" where
  "GetFortuneInfo udpIp nonce m clientAddr =
     (m(clientAddr \<mapsto> nonce), Inr \<lparr>FortuneServer = udpIp, FortuneNonce = nonce\<rparr>)"

definition handleFortuneRequestHelper ::
  "json_codec \<Rightarrow> string \<Rightarrow> string option \<Rightarrow> nonce_map \<Rightarrow> byte list \<Rightarrow> string \<Rightarrow> sending prog" where
  "handleFortuneRequestHelper J fortune werr m request addr =
     (case get_Req J request of (fortuneReq, ok) \<Rightarrow>
      if \<not> ok then returns (sendUdpMessage werr addr (put_Err J \<lparr>Error = ''could not interpret message''\<rparr>))
      else case m addr of
          None \<Rightarrow> returns (sendUdpMessage werr addr (put_Err J \<lparr>Error = ''unknown remote client address''\<rparr>))
        | Some nonce \<Rightarrow>
            (case fortuneReq of
               None \<Rightarrow> panics NilDereference
             | Some r \<Rightarrow>
                 if nonce \<noteq> req_FortuneNonce r
                 then returns (sendUdpMessage werr addr (put_Err J \<lparr>Error = ''incorrect fortune nonce''\<rparr>))
                 else returns (sendUdpMessage werr addr (put_Fortune J \<lparr>Fortune = fortune\<rparr>))))"

definition handleFortuneRequest ::
  "json_codec \<Rightarrow> string \<Rightarrow> string option \<Rightarrow> nonce_map \<Rightarrow> byte list \<Rightarrow> string \<Rightarrow> string option \<Rightarrow>
   (string \<times> byte list) list prog" where
  "handleFortuneRequest J fortune werr m datagram addr err =
     (if err = None then
        pbind (handleFortuneRequestHelper J fortune werr m (take 1024 datagram) addr) (\<lambda>(sent, err). returns sent)
      else returns [])"

section \<open>Client\<close>

datatype client_end = Exits string | Prints string

datatype conn_error = DialFailed | IoFailed

definition errExit :: "bool \<Rightarrow> string \<Rightarrow> client_end prog \<Rightarrow> client_end prog" where
  "errExit ok message k = (if ok then k else returns (Exits message))"

text \<open>The error of \<open>json.Unmarshal\<close> is ignored here, so a text that is not JSON leaves \<open>errMessage\<close> nil.\<close>

definition checkForErrMessage :: "json_codec \<Rightarrow> byte list \<Rightarrow> client_end prog \<Rightarrow> client_end prog" where
  "checkForErrMessage J bytes k =
     (case fst (get_Err J bytes) of
        None \<Rightarrow> panics NilDereference
      | Some e \<Rightarrow> if Error e \<noteq> [] then returns (Exits (''Error from server: '' @ Error e)) else k)"

text \<open>Dereferencing the pointer a decoder has left.\<close>

definition deref :: "'a option \<Rightarrow> ('a \<Rightarrow> 'b prog) \<Rightarrow> 'b prog" where
  "deref p k = (case p of None \<Rightarrow> panics NilDereference | Some x \<Rightarrow> k x)"

text \<open>
  \<open>main\<close> of the client. \<open>exchange ip bytes w\<close> writes a datagram to \<open>ip\<close> and reads the answer (the first one also dials); it
  never returns when there is no answer.
\<close>

definition client_main ::
  "json_codec \<Rightarrow> (string \<Rightarrow> byte list \<Rightarrow> 'w \<Rightarrow> ('w \<times> (conn_error + byte list)) prog) \<Rightarrow> string \<Rightarrow> int64 \<Rightarrow> 'w \<Rightarrow>
   client_end prog" where
  "client_main J exchange aServerIp secret w =
     pbind (exchange aServerIp (replicate 1024 (CHR 0x00)) w) (\<lambda>(w, reply).
     case reply of
       Inl e \<Rightarrow> returns (Exits (if e = DialFailed then ''Cannot connect to aserver'' else ''Error communicating with aserver''))
     | Inr bytes \<Rightarrow>
       let buf = take 1024 bytes in
       checkForErrMessage J buf
       (errExit (snd (get_Nonce J buf)) ''Cannot parse NonceMessage''
       (deref (fst (get_Nonce J buf)) (\<lambda>nonce.
       let md5 = md5_Sum (PutVarint (Nonce nonce + secret)) in
       pbind (exchange aServerIp (put_Hash J \<lparr>Hash = EncodeToString md5\<rparr>) w) (\<lambda>(w, reply).
       case reply of
         Inl e \<Rightarrow> returns (Exits ''Error communicating with aserver'')
       | Inr bytes \<Rightarrow>
         let buf = take 1024 bytes in
         checkForErrMessage J buf
         (errExit (snd (get_Info J buf)) ''Cannot parse FortuneInfoMessage''
         (deref (fst (get_Info J buf)) (\<lambda>fortuneInfo.
         pbind (exchange (FortuneServer fortuneInfo) (put_Req J \<lparr>req_FortuneNonce = FortuneNonce fortuneInfo\<rparr>) w) (\<lambda>(w, reply).
         case reply of
           Inl e \<Rightarrow> returns (Exits (if e = DialFailed then ''Cannot connect to fserver'' else ''Error communicating with fserver''))
         | Inr bytes \<Rightarrow>
           let buf = take 1024 bytes in
           checkForErrMessage J buf
           (errExit (snd (get_Fortune J buf)) ''Cannot parse FortuneMessage''
           (deref (fst (get_Fortune J buf)) (\<lambda>fortuneMessage.
           returns (Prints (Fortune fortuneMessage))))))))))))))"

end
