(* ===== verification/FortuneSystem.thy ===== *)
theory FortuneSystem
  imports Fortune
begin

text \<open>
  The client and the two servers of \<^verbatim>\<open>Fortune\<close> together. \<open>fortune_run\<close> lets anybody send anything to the servers and
  records what they do; \<open>serve\<close> lets a client talk to them while others do the same. The theorems: a fortune goes only to
  an address that has answered a challenge, a client that knows the secret gets the fortune and one that does not gets
  an error, and \<open>null\<close> brings both servers down.
\<close>

section \<open>What is assumed of the JSON library\<close>

definition plain :: "string \<Rightarrow> bool" where
  "plain s \<longleftrightarrow> (\<forall>c\<in>set s. 32 \<le> (of_char c :: nat) \<and> of_char c < (127 :: nat))"

text \<open>
  Encoding then decoding gives the value back when its strings are printable ASCII, an object without the field
  \<open>Error\<close> leaves it empty, a character takes at most six bytes, and 1024 zero bytes are not JSON.
\<close>

definition json_ok :: "json_codec \<Rightarrow> bool" where
  "json_ok J \<longleftrightarrow>
     (\<forall>e. plain (Error e) \<longrightarrow> get_Err J (put_Err J e) = (Some e, True) \<and> length (put_Err J e) \<le> 6 * length (Error e) + 40) \<and>
     (\<forall>n. get_Nonce J (put_Nonce J n) = (Some n, True) \<and> length (put_Nonce J n) \<le> 40) \<and>
     (\<forall>h. plain (Hash h) \<longrightarrow> get_Hash J (put_Hash J h) = (Some h, True) \<and> length (put_Hash J h) \<le> 6 * length (Hash h) + 40) \<and>
     (\<forall>i. plain (FortuneServer i) \<longrightarrow>
        get_Info J (put_Info J i) = (Some i, True) \<and> length (put_Info J i) \<le> 6 * length (FortuneServer i) + 80) \<and>
     (\<forall>r. get_Req J (put_Req J r) = (Some r, True) \<and> length (put_Req J r) \<le> 40) \<and>
     (\<forall>m. plain (Fortune m) \<longrightarrow>
        get_Fortune J (put_Fortune J m) = (Some m, True) \<and> length (put_Fortune J m) \<le> 6 * length (Fortune m) + 40) \<and>
     (\<forall>n. get_Err J (put_Nonce J n) = (Some \<lparr>Error = []\<rparr>, True)) \<and>
     (\<forall>i. get_Err J (put_Info J i) = (Some \<lparr>Error = []\<rparr>, True)) \<and>
     (\<forall>m. get_Err J (put_Fortune J m) = (Some \<lparr>Error = []\<rparr>, True)) \<and>
     \<not> snd (get_Hash J (replicate 1024 (CHR 0x00)))"

section \<open>The servers and whoever talks to them\<close>

text \<open>A datagram at a server: the sender, the bytes, the nonce drawn (authentication server only), the answers.\<close>

datatype fortune_event =
    AuthGot string "byte list" int64 "(string \<times> byte list) list"
  | FortuneGot string "byte list" "(string \<times> byte list) list"

inductive fortune_run ::
  "json_codec \<Rightarrow> int64 \<Rightarrow> string \<Rightarrow> string \<Rightarrow> nonce_map \<Rightarrow> nonce_map \<Rightarrow> fortune_event list \<Rightarrow> bool"
  for J secret udpIp fortune where
  start: "fortune_run J secret udpIp fortune Map.empty Map.empty []"
| auth: "fortune_run J secret udpIp fortune a f evs \<Longrightarrow>
    handleAuthRequest J secret (GetFortuneInfo udpIp n') n werr (a, f) addr datagram None = returns ((a', f'), sent) \<Longrightarrow>
    fortune_run J secret udpIp fortune a' f' (evs @ [AuthGot addr datagram n sent])"
| fortune: "fortune_run J secret udpIp fortune a f evs \<Longrightarrow>
    handleFortuneRequest J fortune werr f datagram addr None = returns sent \<Longrightarrow>
    fortune_run J secret udpIp fortune a f (evs @ [FortuneGot addr datagram sent])"

text \<open>The address got the nonce \<open>n\<close> as a challenge; later it sent the hash of \<open>n\<close> and the secret.\<close>

definition challenged :: "json_codec \<Rightarrow> fortune_event list \<Rightarrow> string \<Rightarrow> int64 \<Rightarrow> bool" where
  "challenged J evs addr n \<longleftrightarrow> (\<exists>d sent. AuthGot addr d n sent \<in> set evs \<and> \<not> snd (get_Hash J (take 1024 d)))"

definition authenticated :: "json_codec \<Rightarrow> int64 \<Rightarrow> fortune_event list \<Rightarrow> string \<Rightarrow> bool" where
  "authenticated J secret evs addr \<longleftrightarrow>
     (\<exists>before d n' sent rest n hm. evs = before @ AuthGot addr d n' sent # rest \<and> challenged J before addr n \<and>
        get_Hash J (take 1024 d) = (Some hm, True) \<and> Hash hm = computeNonceSecretHash n secret)"

lemma authenticated_append: "authenticated J secret evs addr \<Longrightarrow> authenticated J secret (evs @ more_evs) addr"
  unfolding authenticated_def by fastforce

lemma challenged_append: "challenged J evs addr n \<Longrightarrow> challenged J (evs @ more_evs) addr n"
  by (auto simp: challenged_def)

lemma authenticatedI:
  "challenged J evs addr n \<Longrightarrow> get_Hash J (take 1024 d) = (Some hm, True) \<Longrightarrow>
   Hash hm = computeNonceSecretHash n secret \<Longrightarrow> authenticated J secret (evs @ [AuthGot addr d n' sent]) addr"
  unfolding authenticated_def by blast

text \<open>The three outcomes of a datagram at the authentication server.\<close>

lemma handleAuthRequest_cases:
  assumes "handleAuthRequest J secret (GetFortuneInfo udpIp n') n werr (a, f) addr d None = returns ((a', f'), sent)"
  shows "(\<not> snd (get_Hash J (take 1024 d)) \<and> a' = a(addr \<mapsto> n) \<and> f' = f) \<or> (a' = a \<and> f' = f) \<or>
    (a' = a \<and> f' = f(addr \<mapsto> n') \<and> (\<exists>hm k. get_Hash J (take 1024 d) = (Some hm, True) \<and> a addr = Some k \<and>
       Hash hm = computeNonceSecretHash k secret))"
  using assms
  by (auto simp: handleAuthRequest_def handleAuthRequestHelper_def checkHash_def GetFortuneInfo_def
      split: prod.splits if_splits option.splits)

lemma fortune_run_tables:
  assumes "fortune_run J secret udpIp fortune a f evs"
  shows "(\<forall>addr n. a addr = Some n \<longrightarrow> challenged J evs addr n) \<and> (\<forall>addr. f addr \<noteq> None \<longrightarrow> authenticated J secret evs addr)"
  using assms
proof (induction rule: fortune_run.induct)
  case (auth a f evs n' n werr addr d a' f' sent)
  let ?evs = "evs @ [AuthGot addr d n sent]"
  have old: "\<forall>addr n. a addr = Some n \<longrightarrow> challenged J ?evs addr n" "\<forall>addr. f addr \<noteq> None \<longrightarrow> authenticated J secret ?evs addr"
    using auth.IH challenged_append authenticated_append by blast+
  have "challenged J ?evs addr n" if "\<not> snd (get_Hash J (take 1024 d))"
    using that by (auto simp: challenged_def)
  moreover have "authenticated J secret ?evs addr"
    if "get_Hash J (take 1024 d) = (Some hm, True)" "a addr = Some i" "Hash hm = computeNonceSecretHash i secret" for hm i
    using auth.IH that authenticatedI by blast
  ultimately show ?case using handleAuthRequest_cases [OF auth.hyps(2)] old by (auto split: if_splits)
next
  case (fortune a f evs werr d addr sent)
  then show ?case using challenged_append authenticated_append by blast
qed simp

section \<open>Only to authenticated addresses\<close>

lemma handleFortuneRequest_cases:
  assumes "handleFortuneRequest J fortune werr f d addr None = returns sent" "sent \<noteq> []"
  shows "(\<exists>e. sent = [(addr, put_Err J e)] \<and> plain (Error e) \<and> Error e \<noteq> []) \<or>
    (sent = [(addr, put_Fortune J \<lparr>Fortune = fortune\<rparr>)] \<and> f addr \<noteq> None)"
proof -
  have "plain ''could not interpret message''" "plain ''unknown remote client address''" "plain ''incorrect fortune nonce''"
    by code_simp+
  with assms show ?thesis
    by (auto simp: handleFortuneRequest_def handleFortuneRequestHelper_def sendUdpMessage_def
        split: prod.splits if_splits option.splits)
qed

lemma err_not_fortune:
  assumes "json_ok J" "plain (Error e)" "Error e \<noteq> []"
  shows "put_Err J e \<noteq> put_Fortune J m"
proof
  assume "put_Err J e = put_Fortune J m"
  moreover have "get_Err J (put_Err J e) = (Some e, True)" "get_Err J (put_Fortune J m) = (Some \<lparr>Error = []\<rparr>, True)"
    using assms(1,2) unfolding json_ok_def by blast+
  ultimately show False using assms(3) by auto
qed


section \<open>A client among others\<close>

text \<open>
  The state is the two nonce tables and the number of random numbers drawn. Before a datagram of \<open>me\<close> is handled, other
  traffic changes the tables by \<open>noise\<close>, which does not touch the entries of \<open>me\<close>: see \<open>others_keep_entry\<close>.
\<close>

type_synonym servers = "nonce_map \<times> nonce_map \<times> nat"

definition serve ::
  "json_codec \<Rightarrow> int64 \<Rightarrow> string \<Rightarrow> string \<Rightarrow> string \<Rightarrow> (nat \<Rightarrow> int64) \<Rightarrow>
   (nat \<Rightarrow> nonce_map \<times> nonce_map \<Rightarrow> nonce_map \<times> nonce_map) \<Rightarrow> string \<Rightarrow>
   string \<Rightarrow> byte list \<Rightarrow> servers \<Rightarrow> (servers \<times> (conn_error + byte list)) prog" where
  "serve J secret authIp udpIp fortune rand noise me ip datagram w =
     (case w of (a, f, k) \<Rightarrow>
      let s = noise k (a, f) in
      if ip = authIp then
        (case handleAuthRequest J secret (GetFortuneInfo udpIp (rand (k + 1))) (rand k) None s me datagram None of
           Some (Inr ((a, f), (_, reply) # _)) \<Rightarrow> returns ((a, f, k + 2), Inr reply)
         | _ \<Rightarrow> never_returns)
      else if ip = udpIp then
        (case handleFortuneRequest J fortune None (snd s) datagram me None of
           Some (Inr ((_, reply) # _)) \<Rightarrow> returns ((fst s, snd s, k), Inr reply)
         | _ \<Rightarrow> never_returns)
      else returns ((a, f, k), Inl DialFailed))"

lemma others_keep_entry:
  assumes "handleAuthRequest J secret (GetFortuneInfo udpIp n') n werr (a, f) addr d None = returns ((a', f'), sent)"
    "addr \<noteq> me"
  shows "a' me = a me" "f' me = f me"
  using handleAuthRequest_cases [OF assms(1)] assms(2) by auto

lemma length_le_bytes [simp]: "length (le_bytes k n) = k"
  by (induction k arbitrary: n) auto

lemma length_md5_Sum: "length (md5_Sum bs) = 16"
  by (simp add: md5_Sum_def Let_def split: prod.split)

lemma hex_digit_plain: "n < 16 \<Longrightarrow> plain [hex_digit n]"
proof -
  have "\<forall>n\<in>{..<16}. plain [hex_digit n]" by code_simp
  then show "n < 16 \<Longrightarrow> plain [hex_digit n]" by blast
qed

lemma EncodeToString_facts: "plain (EncodeToString bs)" "length (EncodeToString bs) = 2 * length bs"
proof -
  have "(of_char b :: nat) div 16 < 16" for b :: char
    using nat_of_char_less_256 [of b] by linarith
  then show "plain (EncodeToString bs)"
    using hex_digit_plain by (auto simp: EncodeToString_def plain_def)
  show "length (EncodeToString bs) = 2 * length bs"
    by (induction bs) (auto simp: EncodeToString_def)
qed

lemma hash_facts: "plain (computeNonceSecretHash n secret)" "length (computeNonceSecretHash n secret) = 32"
  unfolding computeNonceSecretHash_def by (simp_all add: EncodeToString_facts length_md5_Sum)

text \<open>The three exchanges of a client.\<close>

lemma serve_nonce:
  assumes "json_ok J" "noise k (a, f) = (a', f')"
  shows "serve J secret authIp udpIp fortune rand noise me authIp (replicate 1024 (CHR 0x00)) (a, f, k) =
    returns ((a'(me \<mapsto> rand k), f', k + 2), Inr (put_Nonce J \<lparr>Nonce = rand k\<rparr>))"
proof -
  obtain p where "get_Hash J (replicate 1024 (CHR 0x00)) = (p, False)"
    using assms(1) by (cases "get_Hash J (replicate 1024 (CHR 0x00))") (auto simp: json_ok_def)
  then show ?thesis
    using assms(2) by (simp add: serve_def handleAuthRequest_def handleAuthRequestHelper_def sendUdpMessage_def)
qed

lemma serve_hash:
  assumes "json_ok J" "noise k (a, f) = (a', f')" "a' me = Some n" "plain h" "length h = 32"
  shows "serve J secret authIp udpIp fortune rand noise me authIp (put_Hash J \<lparr>Hash = h\<rparr>) (a, f, k) =
    (if computeNonceSecretHash n secret = h
     then returns ((a', f'(me \<mapsto> rand (k + 1)), k + 2), Inr (put_Info J \<lparr>FortuneServer = udpIp, FortuneNonce = rand (k + 1)\<rparr>))
     else returns ((a', f', k + 2), Inr (put_Err J \<lparr>Error = ''unexpected hash value''\<rparr>)))"
proof -
  have "get_Hash J (put_Hash J \<lparr>Hash = h\<rparr>) = (Some \<lparr>Hash = h\<rparr>, True)" "length (put_Hash J \<lparr>Hash = h\<rparr>) \<le> 6 * 32 + 40"
    using assms(1,4,5) unfolding json_ok_def by (metis HashMessage.select_convs(1))+
  then show ?thesis
    using assms(2,3)
    by (simp add: serve_def handleAuthRequest_def handleAuthRequestHelper_def sendUdpMessage_def checkHash_def GetFortuneInfo_def)
qed

lemma serve_fortune:
  assumes "json_ok J" "noise k (a, f) = (a', f')" "f' me = Some n" "authIp \<noteq> udpIp"
  shows "serve J secret authIp udpIp fortune rand noise me udpIp (put_Req J \<lparr>req_FortuneNonce = n\<rparr>) (a, f, k) =
    returns ((a', f', k), Inr (put_Fortune J \<lparr>Fortune = fortune\<rparr>))"
proof -
  have "get_Req J (put_Req J \<lparr>req_FortuneNonce = n\<rparr>) = (Some \<lparr>req_FortuneNonce = n\<rparr>, True)"
    "length (put_Req J \<lparr>req_FortuneNonce = n\<rparr>) \<le> 40"
    using assms(1) unfolding json_ok_def by blast+
  then show ?thesis
    using assms(2-4) by (simp add: serve_def handleFortuneRequest_def handleFortuneRequestHelper_def sendUdpMessage_def)
qed

text \<open>How the client reads what it gets.\<close>

lemma client_reads:
  assumes "json_ok J"
  shows "take 1024 (put_Nonce J n) = put_Nonce J n"
    and "checkForErrMessage J (put_Nonce J n) c = c"
    and "get_Nonce J (put_Nonce J n) = (Some n, True)"
    and "plain (FortuneServer i) \<Longrightarrow> 6 * length (FortuneServer i) + 80 \<le> 1024 \<Longrightarrow> take 1024 (put_Info J i) = put_Info J i"
    and "checkForErrMessage J (put_Info J i) c = c"
    and "plain (FortuneServer i) \<Longrightarrow> get_Info J (put_Info J i) = (Some i, True)"
    and "plain (Fortune m) \<Longrightarrow> 6 * length (Fortune m) + 40 \<le> 1024 \<Longrightarrow> take 1024 (put_Fortune J m) = put_Fortune J m"
    and "checkForErrMessage J (put_Fortune J m) c = c"
    and "plain (Fortune m) \<Longrightarrow> get_Fortune J (put_Fortune J m) = (Some m, True)"
    and "plain (Error e) \<Longrightarrow> Error e \<noteq> [] \<Longrightarrow> 6 * length (Error e) + 40 \<le> 1024 \<Longrightarrow>
      checkForErrMessage J (take 1024 (put_Err J e)) c = returns (Exits (''Error from server: '' @ Error e))"
proof -
  have J: "length (put_Nonce J n) \<le> 40" "get_Err J (put_Nonce J n) = (Some \<lparr>Error = []\<rparr>, True)"
      "get_Nonce J (put_Nonce J n) = (Some n, True)" "get_Err J (put_Info J i) = (Some \<lparr>Error = []\<rparr>, True)"
      "get_Err J (put_Fortune J m) = (Some \<lparr>Error = []\<rparr>, True)"
    using assms unfolding json_ok_def by blast+
  then show "take 1024 (put_Nonce J n) = put_Nonce J n" "checkForErrMessage J (put_Nonce J n) c = c"
      "get_Nonce J (put_Nonce J n) = (Some n, True)"
      "checkForErrMessage J (put_Info J i) c = c" "checkForErrMessage J (put_Fortune J m) c = c"
    by (simp_all add: checkForErrMessage_def)
  show "plain (FortuneServer i) \<Longrightarrow> 6 * length (FortuneServer i) + 80 \<le> 1024 \<Longrightarrow> take 1024 (put_Info J i) = put_Info J i"
    "plain (Fortune m) \<Longrightarrow> 6 * length (Fortune m) + 40 \<le> 1024 \<Longrightarrow> take 1024 (put_Fortune J m) = put_Fortune J m"
    using assms unfolding json_ok_def by (metis le_trans take_all)+
  show "plain (FortuneServer i) \<Longrightarrow> get_Info J (put_Info J i) = (Some i, True)"
    "plain (Fortune m) \<Longrightarrow> get_Fortune J (put_Fortune J m) = (Some m, True)"
    using assms unfolding json_ok_def by blast+
  show "checkForErrMessage J (take 1024 (put_Err J e)) c = returns (Exits (''Error from server: '' @ Error e))"
    if "plain (Error e)" "Error e \<noteq> []" "6 * length (Error e) + 40 \<le> 1024"
  proof -
    have "take 1024 (put_Err J e) = put_Err J e" "get_Err J (put_Err J e) = (Some e, True)"
      using assms that(1,3) unfolding json_ok_def by (metis le_trans take_all, blast)
    then show ?thesis using that(2) by (simp add: checkForErrMessage_def)
  qed
qed


text \<open>C39: The JSON text \<open>null\<close> decodes without an error to a nil pointer: sent by an address that has a nonce, it
  makes the authentication server panic, and likewise the fortune server. Any client can so end the service.\<close>

theorem null_request_panics:
  assumes "take 1024 d = d" "get_Hash J d = (None, True)" "get_Req J d = (None, True)" "\<not> snd (get_Hash J (take 1024 d0))"
  shows "(\<exists>s sent. handleAuthRequest J secret rpc n None (a, f) addr d0 None = returns (s, sent) \<and>
      handleAuthRequest J secret rpc n' werr s addr d None = panics NilDereference) \<and>
    handleFortuneRequest J fortune werr (fst (GetFortuneInfo udpIp fn m addr)) d addr None = panics NilDereference"
  using assms
  by (auto simp: handleAuthRequest_def handleAuthRequestHelper_def checkHash_def GetFortuneInfo_def
      handleFortuneRequest_def handleFortuneRequestHelper_def sendUdpMessage_def split: prod.splits)

section \<open>An instance\<close>

text \<open>A codec that satisfies \<open>json_ok\<close>: a letter for the type, numbers in eight bytes, strings as they are.\<close>

fun le_value :: "byte list \<Rightarrow> nat" where
  "le_value [] = 0"
| "le_value (b # bs) = of_char b + 256 * le_value bs"

lemma le_value_le_bytes: "le_value (le_bytes k n) = n mod 256 ^ k"
proof (induction k arbitrary: n)
  case (Suc k)
  then show ?case using mod_mult2_eq [of n 256 "256 ^ k"] by simp
qed simp

lemma int64_le_bytes: "word_of_nat (le_value (le_bytes 8 (unat (x :: int64)))) = x"
proof -
  have "unat x < 256 ^ 8" using unsigned_less [of x] by simp
  then show ?thesis by (simp add: le_value_le_bytes)
qed

definition sample_get :: "char \<Rightarrow> (byte list \<Rightarrow> 'a) \<Rightarrow> byte list \<Rightarrow> 'a decoded" where
  "sample_get tag get bytes = (if bytes = ''null'' then (None, True)
     else case bytes of c # bs \<Rightarrow> if c = tag then (Some (get bs), True) else (None, False) | [] \<Rightarrow> (None, False))"

definition sample_json :: json_codec where
  "sample_json = \<lparr>
     put_Err = \<lambda>m. CHR ''E'' # Error m,
     put_Nonce = \<lambda>m. CHR ''N'' # le_bytes 8 (unat (Nonce m)),
     put_Hash = \<lambda>m. CHR ''H'' # Hash m,
     put_Info = \<lambda>m. CHR ''I'' # le_bytes 8 (unat (FortuneNonce m)) @ FortuneServer m,
     put_Req = \<lambda>m. CHR ''R'' # le_bytes 8 (unat (req_FortuneNonce m)),
     put_Fortune = \<lambda>m. CHR ''F'' # Fortune m,
     get_Err = \<lambda>bs. if bs \<noteq> [] \<and> hd bs \<in> set ''NIF'' then (Some \<lparr>Error = []\<rparr>, True)
                     else sample_get (CHR ''E'') (\<lambda>bs. \<lparr>Error = bs\<rparr>) bs,
     get_Nonce = sample_get (CHR ''N'') (\<lambda>bs. \<lparr>Nonce = word_of_nat (le_value bs)\<rparr>),
     get_Hash = sample_get (CHR ''H'') (\<lambda>bs. \<lparr>Hash = bs\<rparr>),
     get_Info = sample_get (CHR ''I'')
       (\<lambda>bs. \<lparr>FortuneServer = drop 8 bs, FortuneNonce = word_of_nat (le_value (take 8 bs))\<rparr>),
     get_Req = sample_get (CHR ''R'') (\<lambda>bs. \<lparr>req_FortuneNonce = word_of_nat (le_value bs)\<rparr>),
     get_Fortune = sample_get (CHR ''F'') (\<lambda>bs. \<lparr>Fortune = bs\<rparr>)\<rparr>"

lemma sample_get_simps [simp]:
  "tag \<noteq> CHR ''n'' \<Longrightarrow> sample_get tag get (tag # bs) = (Some (get bs), True)"
  by (simp add: sample_get_def)

lemma sample_get_zeros:
  assumes "tag \<noteq> CHR 0x00"
  shows "\<not> snd (sample_get tag get (replicate 1024 (CHR 0x00)))"
proof -
  obtain bs where "replicate 1024 (CHR 0x00) = CHR 0x00 # bs"
    by (cases "replicate 1024 (CHR 0x00)") (auto dest: arg_cong [of _ _ hd])
  then show ?thesis using assms by (simp add: sample_get_def)
qed

lemma sample_json_ok: "json_ok sample_json"
  unfolding json_ok_def
  by (intro conjI allI impI) (simp_all add: sample_json_def int64_le_bytes sample_get_zeros)

text \<open>An honest client in \<open>fortune_run\<close>.\<close>

lemma honest_run:
  fixes n secret fn :: int64 and udpIp :: string
  assumes "json_ok J"
  defines "h \<equiv> put_Hash J \<lparr>Hash = computeNonceSecretHash n secret\<rparr>"
    and "info \<equiv> put_Info J \<lparr>FortuneServer = udpIp, FortuneNonce = fn\<rparr>"
  shows "fortune_run J secret udpIp fortune [me \<mapsto> n] [me \<mapsto> fn]
    ([AuthGot me (replicate 1024 (CHR 0x00)) n [(me, put_Nonce J \<lparr>Nonce = n\<rparr>)], AuthGot me h n' [(me, info)]] @
     [FortuneGot me (put_Req J \<lparr>req_FortuneNonce = fn\<rparr>) [(me, put_Fortune J \<lparr>Fortune = fortune\<rparr>)]])"
proof -
  have "\<not> snd (get_Hash J (replicate 1024 (CHR 0x00)))" using assms(1) by (simp add: json_ok_def)
  then have 1: "handleAuthRequest J secret (GetFortuneInfo udpIp fn) n None (Map.empty, Map.empty) me (replicate 1024 (CHR 0x00)) None =
      returns (([me \<mapsto> n], Map.empty), [(me, put_Nonce J \<lparr>Nonce = n\<rparr>)])"
    by (auto simp: handleAuthRequest_def handleAuthRequestHelper_def sendUdpMessage_def split: prod.split)
  have "get_Hash J h = (Some \<lparr>Hash = computeNonceSecretHash n secret\<rparr>, True)" "length h \<le> 6 * 32 + 40"
    using assms(1) hash_facts unfolding json_ok_def h_def by (metis HashMessage.select_convs(1))+
  then have 2: "handleAuthRequest J secret (GetFortuneInfo udpIp fn) n' None ([me \<mapsto> n], Map.empty) me h None =
      returns (([me \<mapsto> n], [me \<mapsto> fn]), [(me, info)])"
    by (simp add: handleAuthRequest_def handleAuthRequestHelper_def sendUdpMessage_def checkHash_def GetFortuneInfo_def info_def)
  have "get_Req J (put_Req J \<lparr>req_FortuneNonce = fn\<rparr>) = (Some \<lparr>req_FortuneNonce = fn\<rparr>, True)"
    "length (put_Req J \<lparr>req_FortuneNonce = fn\<rparr>) \<le> 40"
    using assms(1) unfolding json_ok_def by blast+
  then have 3: "handleFortuneRequest J fortune None [me \<mapsto> fn] (put_Req J \<lparr>req_FortuneNonce = fn\<rparr>) me None =
      returns [(me, put_Fortune J \<lparr>Fortune = fortune\<rparr>)]"
    by (simp add: handleFortuneRequest_def handleFortuneRequestHelper_def sendUdpMessage_def)
  from fortune_run.fortune [OF fortune_run.auth [OF fortune_run.auth [OF fortune_run.start 1] 2] 3] show ?thesis by simp
qed



theorem null_request_panics_witness:
  "\<exists>s sent. handleAuthRequest sample_json 1984 (GetFortuneInfo ''f:2'' 5) 4 None (Map.empty, Map.empty) ''c:3'' ''x'' None =
      returns (s, sent) \<and>
    handleAuthRequest sample_json 1984 (GetFortuneInfo ''f:2'' 5) 4 None s ''c:3'' ''null'' None = panics NilDereference"
proof -
  have "take 1024 ''null'' = ''null''" "get_Hash sample_json ''null'' = (None, True)" "get_Req sample_json ''null'' = (None, True)"
    "\<not> snd (get_Hash sample_json (take 1024 ''x''))"
    by (simp_all add: sample_json_def sample_get_def)
  from null_request_panics [OF this, of 1984 "GetFortuneInfo ''f:2'' 5" 4] show ?thesis by blast
qed

end
