(* ===== verification/Interact.thy ===== *)
theory Interact
  imports Prelude
begin

text \<open>
  Programs that talk to their surroundings. A program is a function of the replies it gets: it yields the requests it
  has made with their replies, and either the request it now waits for or its result. Every prefix of a run is covered,
  so statements about requests also hold for loops that never end.

  \<open>upholds\<close> is a logic in the style of rely and guarantee: as long as every reply satisfies \<open>R\<close>, every request satisfies
  \<open>G\<close>, and the result satisfies \<open>Q\<close>. Its rules follow the program text.
\<close>

section \<open>Programs\<close>

datatype stop = Exited | Panicked go_panic | Spins

datatype ('q, 'a) status = Waiting 'q | Ended "stop + 'a"

type_synonym ('q, 'r, 'a) io = "'r list \<Rightarrow> ('q \<times> 'r) list \<times> ('q, 'a) status \<times> 'r list"

definition io_return :: "'a \<Rightarrow> ('q, 'r, 'a) io" where
  "io_return x rs = ([], Ended (Inr x), rs)"

definition io_stop :: "stop \<Rightarrow> ('q, 'r, 'a) io" where
  "io_stop e rs = ([], Ended (Inl e), rs)"

fun request :: "'q \<Rightarrow> ('q, 'r, 'r) io" where
  "request q [] = ([], Waiting q, [])"
| "request q (r # rs) = ([(q, r)], Ended (Inr r), rs)"

definition io_bind :: "('q, 'r, 'a) io \<Rightarrow> ('a \<Rightarrow> ('q, 'r, 'b) io) \<Rightarrow> ('q, 'r, 'b) io" where
  "io_bind m f rs =
     (case m rs of
        (tr, Waiting q, rs) \<Rightarrow> (tr, Waiting q, rs)
      | (tr, Ended (Inl e), rs) \<Rightarrow> (tr, Ended (Inl e), rs)
      | (tr, Ended (Inr x), rs) \<Rightarrow> (case f x rs of (tr', st, rs) \<Rightarrow> (tr @ tr', st, rs)))"

definition io_prog :: "'a prog \<Rightarrow> ('q, 'r, 'a) io" where
  "io_prog m = (case m of Some (Inr x) \<Rightarrow> io_return x | Some (Inl p) \<Rightarrow> io_stop (Panicked p) | None \<Rightarrow> io_stop Spins)"

text \<open>
  \<open>for\<close> loops: the body says whether to go round again with a new state or to leave with a result. A round that
  makes no request and goes on spins for ever.
\<close>

function io_loop :: "('s \<Rightarrow> ('q, 'r, 's + 'a) io) \<Rightarrow> 's \<Rightarrow> ('q, 'r, 'a) io" where
  "io_loop body s rs =
     (case body s rs of
        (tr, Waiting q, rs') \<Rightarrow> (tr, Waiting q, rs')
      | (tr, Ended (Inl e), rs') \<Rightarrow> (tr, Ended (Inl e), rs')
      | (tr, Ended (Inr (Inr x)), rs') \<Rightarrow> (tr, Ended (Inr x), rs')
      | (tr, Ended (Inr (Inl s')), rs') \<Rightarrow>
          if length rs' < length rs then (case io_loop body s' rs' of (tr', st, rs'') \<Rightarrow> (tr @ tr', st, rs''))
          else (tr, Ended (Inl Spins), rs'))"
  by pat_completeness auto
termination
  by (relation "measure (\<lambda>(body, s, rs). length rs)") auto

declare io_loop.simps [simp del]

text \<open>\<open>for _, x := range xs\<close>\<close>

fun io_fold :: "('s \<Rightarrow> 'x \<Rightarrow> ('q, 'r, 's) io) \<Rightarrow> 'x list \<Rightarrow> 's \<Rightarrow> ('q, 'r, 's) io" where
  "io_fold f [] s = io_return s"
| "io_fold f (x # xs) s = io_bind (f s x) (io_fold f xs)"

section \<open>What a program upholds\<close>

definition upholds ::
  "('q \<Rightarrow> 'r \<Rightarrow> bool) \<Rightarrow> ('q \<Rightarrow> bool) \<Rightarrow> ('q, 'r, 'a) io \<Rightarrow> ('a \<Rightarrow> bool) \<Rightarrow> bool" where
  "upholds R G m Q \<longleftrightarrow>
     (\<forall>rs. case m rs of (tr, st, rs') \<Rightarrow>
        (\<forall>(q, r)\<in>set tr. R q r) \<longrightarrow>
          (\<forall>(q, r)\<in>set tr. G q) \<and> (case st of Waiting q \<Rightarrow> G q | Ended (Inl e) \<Rightarrow> True | Ended (Inr x) \<Rightarrow> Q x))"

lemma upholds_return [intro]: "Q x \<Longrightarrow> upholds R G (io_return x) Q"
  by (simp add: upholds_def io_return_def)

lemma upholds_stop [intro, simp]: "upholds R G (io_stop e) Q"
  by (simp add: upholds_def io_stop_def)

lemma upholds_request [intro]:
  assumes "G q" "\<And>r. R q r \<Longrightarrow> Q r"
  shows "upholds R G (request q) Q"
  unfolding upholds_def
proof
  fix rs
  show "case request q rs of (tr, st, rs') \<Rightarrow>
        (\<forall>(q, r)\<in>set tr. R q r) \<longrightarrow>
          (\<forall>(q, r)\<in>set tr. G q) \<and> (case st of Waiting q \<Rightarrow> G q | Ended (Inl e) \<Rightarrow> True | Ended (Inr x) \<Rightarrow> Q x)"
    using assms by (cases rs) auto
qed

lemma upholds_bind:
  assumes "upholds R G m P" "\<And>x. P x \<Longrightarrow> upholds R G (f x) Q"
  shows "upholds R G (io_bind m f) Q"
  unfolding upholds_def
proof
  fix rs
  obtain tr st rs1 where m: "m rs = (tr, st, rs1)" by (cases "m rs")
  note P = assms(1) [unfolded upholds_def, rule_format, of rs, unfolded m, simplified]
  show "case io_bind m f rs of (tr, st, rs') \<Rightarrow>
        (\<forall>(q, r)\<in>set tr. R q r) \<longrightarrow>
          (\<forall>(q, r)\<in>set tr. G q) \<and> (case st of Waiting q \<Rightarrow> G q | Ended (Inl e) \<Rightarrow> True | Ended (Inr x) \<Rightarrow> Q x)"
  proof (cases st)
    case (Ended y)
    show ?thesis
    proof (cases y)
      case (Inr x)
      obtain tr' st' rs2 where f: "f x rs1 = (tr', st', rs2)" by (cases "f x rs1")
      have run: "io_bind m f rs = (tr @ tr', st', rs2)" using m Ended Inr f by (simp add: io_bind_def)
      show ?thesis
      proof (clarsimp simp: run)
        assume R: "\<forall>x\<in>set tr \<union> set tr'. case x of (q, r) \<Rightarrow> R q r"
        then have "P x" "\<forall>(q, r)\<in>set tr. G q" using P Ended Inr by auto
        then show "(\<forall>x\<in>set tr \<union> set tr'. case x of (q, r) \<Rightarrow> G q) \<and>
            (case st' of Waiting q \<Rightarrow> G q | Ended (Inl e) \<Rightarrow> True | Ended (Inr x) \<Rightarrow> Q x)"
          using assms(2) [of x, unfolded upholds_def, rule_format, of rs1, unfolded f] R by auto
      qed
    qed (use P m Ended in \<open>auto simp: io_bind_def\<close>)
  qed (use P m in \<open>auto simp: io_bind_def\<close>)
qed

lemma upholds_weaken: "upholds R G m P \<Longrightarrow> (\<And>x. P x \<Longrightarrow> Q x) \<Longrightarrow> upholds R G m Q"
  unfolding upholds_def
proof (rule allI)
  fix rs
  assume P: "\<forall>rs. case m rs of (tr, st, rs') \<Rightarrow> (\<forall>(q, r)\<in>set tr. R q r) \<longrightarrow>
      (\<forall>(q, r)\<in>set tr. G q) \<and> (case st of Waiting q \<Rightarrow> G q | Ended (Inl e) \<Rightarrow> True | Ended (Inr x) \<Rightarrow> P x)"
    and Q: "\<And>x. P x \<Longrightarrow> Q x"
  obtain tr st rs' where m: "m rs = (tr, st, rs')" by (cases "m rs")
  show "case m rs of (tr, st, rs') \<Rightarrow> (\<forall>(q, r)\<in>set tr. R q r) \<longrightarrow>
      (\<forall>(q, r)\<in>set tr. G q) \<and> (case st of Waiting q \<Rightarrow> G q | Ended (Inl e) \<Rightarrow> True | Ended (Inr x) \<Rightarrow> Q x)"
    using P [rule_format, of rs] Q unfolding m by (cases st) (auto split: sum.split)
qed

lemma upholds_prog [intro]: "(\<And>x. m = returns x \<Longrightarrow> Q x) \<Longrightarrow> upholds R G (io_prog m) Q"
  by (auto simp: io_prog_def split: option.split sum.split)

lemma upholds_loop:
  assumes "I s" "\<And>s. I s \<Longrightarrow> upholds R G (body s) (\<lambda>x. case x of Inl s' \<Rightarrow> I s' | Inr y \<Rightarrow> Q y)"
  shows "upholds R G (io_loop body s) Q"
  unfolding upholds_def
proof
  fix rs
  show "case io_loop body s rs of (tr, st, rs') \<Rightarrow>
        (\<forall>(q, r)\<in>set tr. R q r) \<longrightarrow>
          (\<forall>(q, r)\<in>set tr. G q) \<and> (case st of Waiting q \<Rightarrow> G q | Ended (Inl e) \<Rightarrow> True | Ended (Inr x) \<Rightarrow> Q x)"
    using assms(1)
  proof (induction "length rs" arbitrary: rs s rule: less_induct)
    case less
    obtain tr st rs1 where b: "body s rs = (tr, st, rs1)" by (cases "body s rs")
    note P = assms(2) [OF less.prems, unfolded upholds_def, rule_format, of rs, unfolded b, simplified]
    show ?case
    proof (cases "\<exists>s'. st = Ended (Inr (Inl s')) \<and> length rs1 < length rs")
      case True
      then obtain s' where st: "st = Ended (Inr (Inl s'))" "length rs1 < length rs" by blast
      obtain tr' st' rs2 where l: "io_loop body s' rs1 = (tr', st', rs2)" by (cases "io_loop body s' rs1")
      have run: "io_loop body s rs = (tr @ tr', st', rs2)" using b st l by (subst io_loop.simps) simp
      show ?thesis
      proof (clarsimp simp: run)
        assume R: "\<forall>x\<in>set tr \<union> set tr'. case x of (q, r) \<Rightarrow> R q r"
        then have "I s'" "\<forall>(q, r)\<in>set tr. G q" using P st by auto
        then show "(\<forall>x\<in>set tr \<union> set tr'. case x of (q, r) \<Rightarrow> G q) \<and>
            (case st' of Waiting q \<Rightarrow> G q | Ended (Inl e) \<Rightarrow> True | Ended (Inr x) \<Rightarrow> Q x)"
          using less.hyps [OF st(2), of s', unfolded l] R by auto
      qed
    next
      case False
      then show ?thesis
        using P b by (subst io_loop.simps) (auto split: status.splits sum.splits)
    qed
  qed
qed

lemma upholds_fold:
  assumes "I s" "\<And>s x. I s \<Longrightarrow> x \<in> set xs \<Longrightarrow> upholds R G (f s x) I"
  shows "upholds R G (io_fold f xs s) I"
  using assms
proof (induction xs arbitrary: s)
  case (Cons x xs)
  show ?case
    by (simp, rule upholds_bind [where P = I]) (use Cons in auto)
qed auto

text \<open>Reading the statement off a run.\<close>

lemma upholdsD:
  assumes "upholds R G m Q" "m rs = (tr, st, rs')" "\<forall>(q, r)\<in>set tr. R q r"
  shows "(q, r) \<in> set tr \<Longrightarrow> G q" "st = Waiting q \<Longrightarrow> G q" "st = Ended (Inr x) \<Longrightarrow> Q x"
  using assms(1) [unfolded upholds_def, rule_format, of rs] assms(2,3) by auto

section \<open>Going on with a run\<close>

text \<open>
  A program that waits goes on from there when the reply comes, and one that has ended stays as it is. Every program
  built from the combinators does so.
\<close>

named_theorems resumable_intros

definition resumable :: "('q, 'r, 'a) io \<Rightarrow> bool" where
  "resumable m \<longleftrightarrow> (\<forall>rs tr st rs'. m rs = (tr, st, rs') \<longrightarrow> rs = map snd tr @ rs' \<and>
     (case st of
        Waiting q \<Rightarrow> rs' = [] \<and> (\<forall>u us. \<exists>tr' st' rs''. m (rs @ u # us) = (tr @ (q, u) # tr', st', rs''))
      | Ended x \<Rightarrow> (\<forall>us. m (rs @ us) = (tr, Ended x, rs' @ us))))"

lemma resumableD:
  assumes "resumable m"
  shows "m rs = (tr, Waiting q, rs') \<Longrightarrow> rs' = [] \<and> (\<exists>tr' st' rs''. m (rs @ u # us) = (tr @ (q, u) # tr', st', rs''))"
    and "m rs = (tr, Ended x, rs') \<Longrightarrow> m (rs @ us) = (tr, Ended x, rs' @ us)"
    and "m rs = (tr, st, rs') \<Longrightarrow> rs = map snd tr @ rs'"
  using assms unfolding resumable_def by fastforce+

lemma resumableI:
  assumes "\<And>rs tr q rs' u us. m rs = (tr, Waiting q, rs') \<Longrightarrow>
      rs' = [] \<and> (\<exists>tr' st' rs''. m (rs @ u # us) = (tr @ (q, u) # tr', st', rs''))"
    "\<And>rs tr x rs' us. m rs = (tr, Ended x, rs') \<Longrightarrow> m (rs @ us) = (tr, Ended x, rs' @ us)"
    "\<And>rs tr st rs'. m rs = (tr, st, rs') \<Longrightarrow> rs = map snd tr @ rs'"
  shows "resumable m"
  unfolding resumable_def
proof (intro allI impI)
  fix rs tr st rs'
  assume run: "m rs = (tr, st, rs')"
  show "rs = map snd tr @ rs' \<and> (case st of
        Waiting q \<Rightarrow> rs' = [] \<and> (\<forall>u us. \<exists>tr' st' rs''. m (rs @ u # us) = (tr @ (q, u) # tr', st', rs''))
      | Ended x \<Rightarrow> (\<forall>us. m (rs @ us) = (tr, Ended x, rs' @ us)))"
  proof (cases st)
    case (Waiting q)
    then show ?thesis using assms(3) [OF run] assms(1) [OF run [unfolded Waiting]] by auto
  next
    case (Ended x)
    then show ?thesis using assms(3) [OF run] assms(2) [OF run [unfolded Ended]] by auto
  qed
qed

text \<open>The next reply goes to the request that is waited for.\<close>

lemma resumable_next:
  assumes "resumable m" "m rs = (tr, Waiting q, rs')"
  shows "\<exists>st' rs''. m (rs @ [r]) = (tr @ [(q, r)], st', rs'')"
proof -
  obtain tr' st' rs'' where m: "rs' = []" "m (rs @ [r]) = (tr @ (q, r) # tr', st', rs'')"
    using resumableD(1) [OF assms, of r "[]"] by auto
  have "rs = map snd tr" using resumableD(3) [OF assms] m(1) by simp
  then have "tr' = []" using resumableD(3) [OF assms(1) m(2)] by simp
  with m show ?thesis by simp
qed

lemma resumable_basic [resumable_intros]: "resumable (io_return x)" "resumable (io_stop e)"
  by (simp_all add: resumable_def io_return_def io_stop_def)

lemma resumable_request [resumable_intros]:
  fixes q :: 'q
  shows "resumable (request q :: ('q, 'r, 'r) io)"
proof (rule resumableI)
  fix rs us :: "'r list" and tr q' rs' u
  assume "request q rs = (tr, Waiting q', rs')"
  then show "rs' = [] \<and> (\<exists>tr' st' rs''. request q (rs @ u # us) = (tr @ (q', u) # tr', st', rs''))" by (cases rs) auto
next
  fix rs us :: "'r list" and tr x rs'
  assume "request q rs = (tr, Ended x, rs')"
  then show "request q (rs @ us) = (tr, Ended x, rs' @ us)" by (cases rs) auto
next
  fix rs :: "'r list" and tr st rs'
  assume "request q rs = (tr, st, rs')"
  then show "rs = map snd tr @ rs'" by (cases rs) auto
qed

lemma resumable_prog [resumable_intros]: "resumable (io_prog m)"
  by (auto simp: io_prog_def resumable_basic split: option.split sum.split)

lemma resumable_bind [resumable_intros]:
  assumes m: "resumable m" and f: "\<And>x. resumable (f x)"
  shows "resumable (io_bind m f)"
proof (rule resumableI)
  fix rs tr q rs' u us
  assume run: "io_bind m f rs = (tr, Waiting q, rs')"
  obtain tr0 st0 rs0 where m0: "m rs = (tr0, st0, rs0)" by (cases "m rs")
  show "rs' = [] \<and> (\<exists>tr' st' rs''. io_bind m f (rs @ u # us) = (tr @ (q, u) # tr', st', rs''))"
  proof (cases st0)
    case (Waiting q0)
    then have eq: "tr0 = tr" "q0 = q" "rs0 = rs'" using run m0 by (auto simp: io_bind_def)
    from resumableD(1) [OF m, OF m0 [unfolded Waiting eq], of u us] obtain tr' st' rs'' where
      "rs' = []" "m (rs @ u # us) = (tr @ (q, u) # tr', st', rs'')" by blast
    then show ?thesis by (cases st') (auto simp: io_bind_def split: sum.split prod.split)
  next
    case (Ended y)
    then obtain x tr1 where x: "y = Inr x" "f x rs0 = (tr1, Waiting q, rs')" "tr = tr0 @ tr1"
      using run m0 by (auto simp: io_bind_def split: sum.splits prod.splits)
    from resumableD(1) [OF f x(2), of u us] resumableD(2) [OF m m0 [unfolded Ended], of "u # us"] x
    show ?thesis by (auto simp: io_bind_def)
  qed
next
  fix rs tr x rs' us
  assume run: "io_bind m f rs = (tr, Ended x, rs')"
  obtain tr0 st0 rs0 where m0: "m rs = (tr0, st0, rs0)" by (cases "m rs")
  with run obtain y where Ended: "st0 = Ended y" by (cases st0) (auto simp: io_bind_def)
  note m1 = resumableD(2) [OF m m0 [unfolded Ended], of us]
  show "io_bind m f (rs @ us) = (tr, Ended x, rs' @ us)"
  proof (cases y)
    case (Inl e)
    then show ?thesis using run m0 Ended m1 by (simp add: io_bind_def)
  next
    case (Inr z)
    then obtain tr1 where z: "f z rs0 = (tr1, Ended x, rs')" "tr = tr0 @ tr1"
      using run m0 Ended by (auto simp: io_bind_def split: prod.splits)
    from resumableD(2) [OF f z(1), of us] show ?thesis using m1 Inr z(2) by (simp add: io_bind_def)
  qed
next
  fix rs tr st rs'
  assume run: "io_bind m f rs = (tr, st, rs')"
  obtain tr0 st0 rs0 where m0: "m rs = (tr0, st0, rs0)" by (cases "m rs")
  note used = resumableD(3) [OF m m0]
  show "rs = map snd tr @ rs'"
  proof (cases "\<exists>z. st0 = Ended (Inr z)")
    case True
    then obtain z tr1 where z: "f z rs0 = (tr1, st, rs')" "tr = tr0 @ tr1"
      using run m0 by (auto simp: io_bind_def split: prod.splits)
    then show ?thesis using used resumableD(3) [OF f z(1)] by simp
  next
    case False
    then show ?thesis using run m0 used by (auto simp: io_bind_def split: status.splits sum.splits)
  qed
qed

lemma resumable_loop [resumable_intros]:
  assumes body: "\<And>s. resumable (body s)"
  shows "resumable (io_loop body s)"
proof (rule resumableI)
  fix rs tr q rs' u us
  assume "io_loop body s rs = (tr, Waiting q, rs')"
  then show "rs' = [] \<and> (\<exists>tr' st' rs''. io_loop body s (rs @ u # us) = (tr @ (q, u) # tr', st', rs''))"
  proof (induction "length rs" arbitrary: rs s tr rule: less_induct)
    case less
    obtain tr0 st0 rs0 where b: "body s rs = (tr0, st0, rs0)" by (cases "body s rs")
    show ?case
    proof (cases st0)
      case (Waiting q0)
      then have eq: "tr0 = tr" "q0 = q" "rs0 = rs'" using less.prems b by (auto simp: io_loop.simps [of body s rs])
      from resumableD(1) [OF body, OF b [unfolded Waiting eq], of u us] obtain tr' st' rs'' where
        "rs' = []" "body s (rs @ u # us) = (tr @ (q, u) # tr', st', rs'')" by blast
      then show ?thesis
        by (cases st') (auto simp: io_loop.simps [of body s "rs @ u # us"] split: sum.split prod.split)
    next
      case (Ended y)
      then obtain s' tr1 where s': "y = Inr (Inl s')" "length rs0 < length rs" "io_loop body s' rs0 = (tr1, Waiting q, rs')"
          "tr = tr0 @ tr1"
        using less.prems b by (auto simp: io_loop.simps [of body s rs] split: sum.splits prod.splits if_splits)
      from resumableD(2) [OF body b [unfolded Ended], of "u # us"] less.hyps [OF s'(2,3)] s'(1,2,4)
      show ?thesis by (auto simp: io_loop.simps [of body s "rs @ u # us"])
    qed
  qed
next
  fix rs tr x rs' us
  assume "io_loop body s rs = (tr, Ended x, rs')"
  then show "io_loop body s (rs @ us) = (tr, Ended x, rs' @ us)"
  proof (induction "length rs" arbitrary: rs s tr rule: less_induct)
    case less
    obtain tr0 st0 rs0 where b: "body s rs = (tr0, st0, rs0)" by (cases "body s rs")
    with less.prems obtain y where Ended: "st0 = Ended y" by (cases st0) (auto simp: io_loop.simps [of body s rs])
    note b1 = resumableD(2) [OF body b [unfolded Ended], of us]
    show ?case
    proof (cases "\<exists>s'. y = Inr (Inl s') \<and> length rs0 < length rs")
      case True
      then obtain s' tr1 where s': "y = Inr (Inl s')" "length rs0 < length rs" "io_loop body s' rs0 = (tr1, Ended x, rs')"
          "tr = tr0 @ tr1"
        using less.prems b Ended by (auto simp: io_loop.simps [of body s rs] split: prod.splits)
      with b1 less.hyps [OF s'(2,3)] show ?thesis by (simp add: io_loop.simps [of body s "rs @ us"])
    next
      case False
      then show ?thesis
        using less.prems b b1 Ended
        by (auto simp: io_loop.simps [of body s rs] io_loop.simps [of body s "rs @ us"] split: sum.splits)
    qed
  qed
next
  fix rs tr st rs'
  assume "io_loop body s rs = (tr, st, rs')"
  then show "rs = map snd tr @ rs'"
  proof (induction "length rs" arbitrary: rs s tr rule: less_induct)
    case less
    obtain tr0 st0 rs0 where b: "body s rs = (tr0, st0, rs0)" by (cases "body s rs")
    note used = resumableD(3) [OF body b]
    show ?case
    proof (cases "\<exists>s'. st0 = Ended (Inr (Inl s')) \<and> length rs0 < length rs")
      case True
      then obtain s' tr1 where s': "length rs0 < length rs" "io_loop body s' rs0 = (tr1, st, rs')" "tr = tr0 @ tr1"
        using less.prems b by (auto simp: io_loop.simps [of body s rs] split: prod.splits)
      with used less.hyps [OF s'(1,2)] show ?thesis by simp
    next
      case False
      then have "tr = tr0" "rs' = rs0"
        using less.prems b by (auto simp: io_loop.simps [of body s rs] split: status.splits sum.splits if_splits)
      with used show ?thesis by simp
    qed
  qed
qed

lemma resumable_fold [resumable_intros]: "(\<And>s x. resumable (f s x)) \<Longrightarrow> resumable (io_fold f xs s)"
  by (induction xs arbitrary: s) (auto intro: resumable_intros)

end
