(* ===== verification/Election.thy ===== *)
theory Election
  imports Interact KvFront
begin

text \<open>
  Leader election over a key-value service: \<^verbatim>\<open>assignment3_u4o8_v6q8/node.go\<close>. Nodes elect a leader by test-and-set on one key,
  join it over a second key and exchange pings and pongs over a key per node. A key that has become unavailable is
  replaced by the key with the next nonce.

  Every function that talks to the service is a program of \<^verbatim>\<open>Interact\<close>. Its requests are the RPC calls, and what the
  goroutines of a node share: the locked nonces, the channels, the leader as the other goroutines read it, \<open>go\<close> and
  \<open>Sleep\<close>. \<open>currentLeader\<close> and \<open>idToChannel\<close> are written by the main goroutine only, and it keeps them in \<open>node_state\<close>. An error
  of a call is a boolean; \<open>checkError\<close> ends the process. Printing is left out.
\<close>

section \<open>Requests\<close>

record LeaderVal =
  Era :: uint64
  leader_Nonce :: uint64
  Version :: uint64
  Id :: string
  Nodes :: "string list"

datatype goroutine =
    GoPong string string nat
  | GoJoin string nat
  | GoPing nat

datatype node_request =
    KvGet string
  | KvPut string string
  | KvTestSet string string string
  | LockNonce string
  | UnlockNonce string uint64
  | LoadLeader
  | StoreLeader LeaderVal
  | Spawn goroutine
  | TryReceive nat
  | Send nat string
  | Sleep int

datatype node_reply =
    Value string bool
  | NonceIs uint64
  | LeaderIs LeaderVal
  | Received "string option"
  | Done

type_synonym 'a node_io = "(node_request, node_reply, 'a) io"

text \<open>A request is answered by a reply of its kind; another reply ends the run.\<close>

definition ask_value :: "node_request \<Rightarrow> (string \<times> bool) node_io" where
  "ask_value q = io_bind (request q) (\<lambda>r. case r of Value v err \<Rightarrow> io_return (v, err) | _ \<Rightarrow> io_stop Exited)"

definition ask_done :: "node_request \<Rightarrow> unit node_io" where
  "ask_done q = io_bind (request q) (\<lambda>r. case r of Done \<Rightarrow> io_return () | _ \<Rightarrow> io_stop Exited)"

definition ask_leader :: "LeaderVal node_io" where
  "ask_leader = io_bind (request LoadLeader) (\<lambda>r. case r of LeaderIs l \<Rightarrow> io_return l | _ \<Rightarrow> io_stop Exited)"

definition ask_received :: "nat \<Rightarrow> string option node_io" where
  "ask_received ch = io_bind (request (TryReceive ch)) (\<lambda>r. case r of Received m \<Rightarrow> io_return m | _ \<Rightarrow> io_stop Exited)"

section \<open>Key-value calls\<close>

definition getVal :: "string \<Rightarrow> (string \<times> bool) node_io" where
  "getVal key = ask_value (KvGet key)"

definition putVal :: "string \<Rightarrow> string \<Rightarrow> (string \<times> bool) node_io" where
  "putVal key val = ask_value (KvPut key val)"

definition testPutVal :: "string \<Rightarrow> string \<Rightarrow> string \<Rightarrow> (string \<times> bool) node_io" where
  "testPutVal key test val = ask_value (KvTestSet key test val)"

text \<open>An entry of \<open>nonceMap\<close> is made when it is first locked.\<close>

definition getNonceAndLock :: "string \<Rightarrow> uint64 node_io" where
  "getNonceAndLock key =
     io_bind (request (LockNonce key)) (\<lambda>r. case r of NonceIs n \<Rightarrow> io_return n | _ \<Rightarrow> io_stop Exited)"

definition setNonceAndUnlock :: "string \<Rightarrow> uint64 \<Rightarrow> unit node_io" where
  "setNonceAndUnlock key val = ask_done (UnlockNonce key val)"

definition uInt64ToStr :: "uint64 \<Rightarrow> string" where
  "uInt64ToStr n = itoa (unat n)"

definition checkError :: "bool \<Rightarrow> unit node_io" where
  "checkError err = (if err then io_stop Exited else io_return ())"

text \<open>The loop that the three calls below share: \<open>call\<close> at one nonce after the other while the key is unavailable.\<close>

definition retry_loop ::
  "(uint64 \<Rightarrow> (string \<times> bool) node_io) \<Rightarrow> uint64 \<times> string \<times> bool \<Rightarrow> (uint64 \<times> string \<times> bool) node_io" where
  "retry_loop call =
     io_loop (\<lambda>(currentNonce, result, err).
       if result = UNAVAILABLE \<and> \<not> err then
         io_bind (call (currentNonce + 1)) (\<lambda>(result, err). io_return (Inl (currentNonce + 1, result, err)))
       else io_return (Inr (currentNonce, result, err)))"

definition retryU :: "string \<Rightarrow> (string \<Rightarrow> (string \<times> bool) node_io) \<Rightarrow> (string \<times> bool) node_io" where
  "retryU key call =
     io_bind (getNonceAndLock key) (\<lambda>currentNonce.
     io_bind (call (key @ uInt64ToStr currentNonce)) (\<lambda>(result, err).
     io_bind (retry_loop (\<lambda>n. call (key @ uInt64ToStr n)) (currentNonce, result, err)) (\<lambda>(currentNonce, result, err).
     io_bind (setNonceAndUnlock key currentNonce) (\<lambda>_. io_return (result, err)))))"

definition getValU :: "string \<Rightarrow> (string \<times> bool) node_io" where
  "getValU key = retryU (key @ '' '') getVal"

definition putValU :: "string \<Rightarrow> string \<Rightarrow> (string \<times> bool) node_io" where
  "putValU key val = retryU (key @ '' '') (\<lambda>k. putVal k val)"

definition testPutValU :: "string \<Rightarrow> string \<Rightarrow> string \<Rightarrow> (string \<times> bool) node_io" where
  "testPutValU key test val = retryU (key @ '' '') (\<lambda>k. testPutVal k test val)"

section \<open>Utility\<close>

fun removeId :: "string list \<Rightarrow> string \<Rightarrow> string list" where
  "removeId [] nid = []"
| "removeId (v # ids) nid = (if v = nid then ids else v # removeId ids nid)"

fun hasId :: "string list \<Rightarrow> string \<Rightarrow> bool" where
  "hasId [] nid = False"
| "hasId (v # ids) nid = (v = nid \<or> hasId ids nid)"

text \<open>
  \<open>append\<close> works in place. A slice \<open>ids\<close> and a slice \<open>other\<close> that starts at the same array element and is at least as long
  see the same memory: removing from \<open>ids\<close> moves the elements of \<open>other\<close> too, and appending overwrites one.
\<close>

definition removeId_shared :: "string list \<Rightarrow> string list \<Rightarrow> string \<Rightarrow> string list" where
  "removeId_shared other ids nid =
     (if hasId ids nid then removeId ids nid @ [last ids] @ drop (length ids) other else other)"

definition append_shared :: "string list \<Rightarrow> string list \<Rightarrow> string \<Rightarrow> string list" where
  "append_shared other ids nid = (if length ids < length other then other[length ids := nid] else other)"

section \<open>Leader values\<close>

definition LEADER :: string where "LEADER = ''leader key''"
definition LEADER_KEY :: string where "LEADER_KEY = ''leader key ''"
definition JOIN :: string where "JOIN = ''join key''"
definition PING :: string where "PING = ''ping''"
definition PONG :: string where "PONG = ''pong''"

text \<open>\<open>strings.Split\<close> at single spaces, and \<open>strconv.ParseUint\<close> with its error ignored.\<close>

fun split_spaces :: "string \<Rightarrow> string list" where
  "split_spaces [] = [[]]"
| "split_spaces (c # s) =
     (if c = CHR '' '' then [] # split_spaces s
      else case split_spaces s of w # ws \<Rightarrow> (c # w) # ws | [] \<Rightarrow> [[c]])"

definition ParseUint64 :: "string \<Rightarrow> uint64" where
  "ParseUint64 s = (case parse_nat s of None \<Rightarrow> 0 | Some n \<Rightarrow> word_of_nat (min n (2 ^ 64 - 1)))"

definition LeaderValToString :: "LeaderVal \<Rightarrow> string" where
  "LeaderValToString leader =
     uInt64ToStr (Era leader) @ '' '' @ uInt64ToStr (leader_Nonce leader) @ '' '' @ uInt64ToStr (Version leader) @ '' '' @
     Id leader @ '' '' @ join_with (Nodes leader) '' ''"

definition StringToLeaderVal :: "string \<Rightarrow> LeaderVal prog" where
  "StringToLeaderVal str =
     (let result = split_spaces str in
      guard_else (4 < length result) IndexOutOfRange
       (returns \<lparr>Era = ParseUint64 (result ! 0), leader_Nonce = ParseUint64 (result ! 1), Version = ParseUint64 (result ! 2),
          Id = result ! 3, Nodes = (if result ! 4 = [] then [] else drop 4 result)\<rparr>))"

definition compareLeaders :: "LeaderVal \<Rightarrow> LeaderVal \<Rightarrow> int" where
  "compareLeaders a b =
     (if Era a < Era b then -1
      else if Era a > Era b then 1
      else if leader_Nonce a < leader_Nonce b then 1
      else if leader_Nonce a > leader_Nonce b then -1
      else if Version a < Version b then -1
      else if Version a > Version b then 1
      else 0)"

section \<open>Leader\<close>

record node_state =
  currentLeader :: LeaderVal
  idToChannel :: "(string \<times> nat) list"
  next_chan :: nat

definition set_leader :: "node_state \<Rightarrow> LeaderVal \<Rightarrow> node_state node_io" where
  "set_leader st leader = io_bind (ask_done (StoreLeader leader)) (\<lambda>_. io_return (st\<lparr>currentLeader := leader\<rparr>))"

text \<open>\<open>idToChannel[id] = make(chan string); go pongRoutine(id, leaderId, idToChannel[id])\<close>\<close>

definition start_pong :: "string \<Rightarrow> node_state \<Rightarrow> string \<Rightarrow> node_state node_io" where
  "start_pong leaderId st nid =
     (let ch = next_chan st in
      io_bind (ask_done (Spawn (GoPong nid leaderId ch))) (\<lambda>_.
      io_return (st\<lparr>idToChannel := AList.update nid ch (idToChannel st), next_chan := ch + 1\<rparr>)))"

definition init_loop ::
  "uint64 \<times> LeaderVal \<times> string \<Rightarrow> (uint64 \<times> LeaderVal \<times> string) node_io" where
  "init_loop =
     io_loop (\<lambda>(currentLeaderNonce, leaderRequest, result).
       if result = UNAVAILABLE then
         let currentLeaderNonce = currentLeaderNonce + 1;
             leaderRequest = leaderRequest\<lparr>leader_Nonce := currentLeaderNonce\<rparr> in
         io_bind (testPutVal (LEADER_KEY @ uInt64ToStr currentLeaderNonce) [] (LeaderValToString leaderRequest)) (\<lambda>(result, err).
         io_bind (checkError err) (\<lambda>_. io_return (Inl (currentLeaderNonce, leaderRequest, result))))
       else io_return (Inr (currentLeaderNonce, leaderRequest, result)))"

definition initLeader :: "string \<Rightarrow> node_state \<Rightarrow> node_state node_io" where
  "initLeader ID st =
     io_bind (getNonceAndLock LEADER_KEY) (\<lambda>currentLeaderNonce.
     let leaderRequest = \<lparr>Era = 0, leader_Nonce = currentLeaderNonce, Version = 0, Id = ID, Nodes = []\<rparr> in
     io_bind (testPutVal (LEADER_KEY @ uInt64ToStr currentLeaderNonce) [] (LeaderValToString leaderRequest)) (\<lambda>(result, err).
     io_bind (checkError err) (\<lambda>_.
     io_bind (init_loop (currentLeaderNonce, leaderRequest, result)) (\<lambda>(currentLeaderNonce, leaderRequest, result).
     io_bind (setNonceAndUnlock LEADER_KEY currentLeaderNonce) (\<lambda>_.
     io_bind (io_prog (StringToLeaderVal result)) (\<lambda>leader.
     io_bind (set_leader st leader) (\<lambda>st.
     if Id leader = ID then io_fold (start_pong (Id leaderRequest)) (Nodes leader) st else io_return st)))))))"

definition become_loop ::
  "string \<Rightarrow> LeaderVal \<Rightarrow> string list \<Rightarrow> node_state \<times> uint64 \<times> LeaderVal \<times> string \<Rightarrow> (node_state \<times> uint64 \<times> string) node_io" where
  "become_loop ID lastLeader newNodes =
     io_loop (\<lambda>(st, currentLeaderNonce, leaderRequest, result).
       let req = LeaderValToString leaderRequest in
       io_bind (testPutVal (LEADER_KEY @ uInt64ToStr currentLeaderNonce) result req) (\<lambda>(result, err).
       io_bind (checkError err) (\<lambda>_.
       if result = req then
         io_bind (io_fold (start_pong (Id leaderRequest)) newNodes st) (\<lambda>st. io_return (Inr (st, currentLeaderNonce, result)))
       else if result = UNAVAILABLE then
         io_return (Inl (st, currentLeaderNonce + 1, leaderRequest\<lparr>leader_Nonce := currentLeaderNonce + 1\<rparr>, result))
       else if result \<noteq> [] then
         io_bind (io_prog (StringToLeaderVal result)) (\<lambda>leader.
         if compareLeaders leader lastLeader > 0 then io_return (Inr (st, currentLeaderNonce, result))
         else io_return (Inl (st, currentLeaderNonce, leaderRequest, result)))
       else io_return (Inl (st, currentLeaderNonce, leaderRequest, result)))))"

text \<open>The argument is a copy of \<open>currentLeader\<close>, with the same array of nodes.\<close>

definition becomeOrUpdateLeader :: "string \<Rightarrow> node_state \<Rightarrow> LeaderVal \<Rightarrow> node_state node_io" where
  "becomeOrUpdateLeader ID st lastLeader =
     io_bind (getNonceAndLock LEADER_KEY) (\<lambda>currentLeaderNonce.
     let newNodes = removeId (Nodes lastLeader) ID;
         cur = currentLeader st;
         st = st\<lparr>currentLeader := cur\<lparr>Nodes := removeId_shared (Nodes cur) (Nodes lastLeader) ID\<rparr>\<rparr>;
         leaderRequest = \<lparr>Era = Era lastLeader + 1, leader_Nonce = currentLeaderNonce, Version = 0, Id = ID, Nodes = newNodes\<rparr> in
     io_bind (become_loop ID lastLeader newNodes (st, currentLeaderNonce, leaderRequest, [])) (\<lambda>(st, currentLeaderNonce, result).
     io_bind (setNonceAndUnlock LEADER_KEY currentLeaderNonce) (\<lambda>_.
     io_bind (io_prog (StringToLeaderVal result)) (\<lambda>leader. set_leader st leader))))"

definition updateLeader :: "node_state \<Rightarrow> node_state node_io" where
  "updateLeader st =
     io_bind (getValU LEADER) (\<lambda>(leaderVal, err).
     io_bind (checkError err) (\<lambda>_.
     if leaderVal \<noteq> [] then
       io_bind (io_prog (StringToLeaderVal leaderVal)) (\<lambda>leader.
       if compareLeaders leader (currentLeader st) \<ge> 0 then set_leader st leader else io_return st)
     else io_return st))"

definition updateLeaderValue :: "node_state \<Rightarrow> LeaderVal \<Rightarrow> LeaderVal node_io" where
  "updateLeaderValue st leader =
     (let target = LeaderValToString leader in
      io_loop (\<lambda>result.
        io_bind (testPutValU LEADER result target) (\<lambda>(result, err).
        io_bind (checkError err) (\<lambda>_.
        if result = target then io_return (Inr leader)
        else if result \<noteq> [] then
          io_bind (io_prog (StringToLeaderVal result)) (\<lambda>resultLeader.
          if compareLeaders resultLeader (currentLeader st) > 0 then io_return (Inr resultLeader)
          else io_return (Inl result))
        else io_return (Inl result))))
      (LeaderValToString (currentLeader st)))"

text \<open>Taking the whole list of joining nodes off the join key.\<close>

definition take_joins :: "string \<Rightarrow> string node_io" where
  "take_joins =
     io_loop (\<lambda>joinValue.
       io_bind (testPutValU JOIN joinValue []) (\<lambda>(result, err).
       io_bind (checkError err) (\<lambda>_.
       if result = [] then io_return (Inr joinValue) else io_return (Inl result))))"

definition JOIN_INTERVAL :: int where "JOIN_INTERVAL = 500"
definition PING_INTERVAL :: int where "PING_INTERVAL = 400"
definition PONG_INTERVAL :: int where "PONG_INTERVAL = 400"
definition LEADER_UPDATE_INTERVAL :: int where "LEADER_UPDATE_INTERVAL = 800"
definition FOLLOWER_UPDATE_INTERVAL :: int where "FOLLOWER_UPDATE_INTERVAL = 800"

definition joinRoutine :: "string \<Rightarrow> nat \<Rightarrow> unit node_io" where
  "joinRoutine currentId msg =
     io_loop (\<lambda>_.
       io_bind ask_leader (\<lambda>leader.
       if Id leader \<noteq> currentId then io_return (Inr ())
       else
         io_bind (take_joins []) (\<lambda>joinValue.
         io_bind (ask_done (if joinValue \<noteq> [] then Send msg joinValue else Sleep JOIN_INTERVAL)) (\<lambda>_. io_return (Inl ())))))
     ()"

text \<open>The two parts of a round of \<open>leaderRoutine\<close>: nodes that disconnected, nodes that join. The list is the slice of the
  local copy \<open>leader\<close>; \<open>currentLeader\<close> shares its array.\<close>

definition drop_disconnected :: "node_state \<times> string list \<Rightarrow> string \<times> nat \<Rightarrow> (node_state \<times> string list) node_io" where
  "drop_disconnected s entry =
     (case (s, entry) of ((st, nodes), (nid, msgs)) \<Rightarrow>
      io_bind (ask_received msgs) (\<lambda>m.
      case m of
        None \<Rightarrow> io_return (st, nodes)
      | Some _ \<Rightarrow>
          let cur = currentLeader st in
          io_return (st\<lparr>currentLeader := cur\<lparr>Nodes := removeId_shared (Nodes cur) nodes nid\<rparr>,
                          idToChannel := AList.delete nid (idToChannel st)\<rparr>,
                     removeId nodes nid)))"

definition add_joining :: "string \<Rightarrow> node_state \<times> string list \<Rightarrow> string \<Rightarrow> (node_state \<times> string list) node_io" where
  "add_joining leaderId s nid =
     (case s of (st, nodes) \<Rightarrow>
      if hasId nodes nid then io_return (st, nodes)
      else
        io_bind (start_pong leaderId st nid) (\<lambda>st.
        let cur = currentLeader st in
        io_return (st\<lparr>currentLeader := cur\<lparr>Nodes := append_shared (Nodes cur) nodes nid\<rparr>\<rparr>, nodes @ [nid])))"

definition leader_round :: "string \<Rightarrow> nat \<Rightarrow> node_state \<Rightarrow> (node_state + node_state) node_io" where
  "leader_round currentId joinChan st =
     (let leader = currentLeader st in
      if Id leader \<noteq> currentId then io_return (Inr st)
      else
        io_bind (io_fold drop_disconnected (idToChannel st) (st, Nodes leader)) (\<lambda>(st, nodes).
        io_bind (ask_received joinChan) (\<lambda>m.
        io_bind (case m of
            None \<Rightarrow> io_return (st, nodes)
          | Some joinAddr \<Rightarrow>
              if joinAddr \<noteq> [] \<and> joinAddr \<noteq> UNAVAILABLE
              then io_fold (add_joining (Id leader)) (split_spaces joinAddr) (st, nodes)
              else io_return (st, nodes)) (\<lambda>(st, nodes).
        io_bind (updateLeaderValue st (leader\<lparr>Nodes := nodes, Version := Version leader + 1\<rparr>)) (\<lambda>updatedLeader.
        io_bind (set_leader st updatedLeader) (\<lambda>st.
        io_bind (ask_done (Sleep LEADER_UPDATE_INTERVAL)) (\<lambda>_. io_return (Inl st))))))))"

definition leaderRoutine :: "string \<Rightarrow> nat \<Rightarrow> node_state \<Rightarrow> node_state node_io" where
  "leaderRoutine currentId joinChan = io_loop (leader_round currentId joinChan)"

section \<open>Pings and pongs\<close>

text \<open>The inner loops count retries; they end with whether the other side is still there.\<close>

definition pong_loop :: "string \<Rightarrow> nat \<Rightarrow> bool node_io" where
  "pong_loop nid =
     io_loop (\<lambda>retry.
       io_bind (getValU nid) (\<lambda>(str, err).
       io_bind (checkError err) (\<lambda>_.
       if str \<noteq> PING \<and> retry \<ge> 5 then io_return (Inr False)
       else if str = PING \<or> str = [] then
         io_bind (putValU nid PONG) (\<lambda>(_, err). io_bind (checkError err) (\<lambda>_. io_return (Inr True)))
       else io_bind (ask_done (Sleep PONG_INTERVAL)) (\<lambda>_. io_return (Inl (retry + 1))))))"

definition pongRoutine :: "string \<Rightarrow> string \<Rightarrow> nat \<Rightarrow> unit node_io" where
  "pongRoutine nid currentId msg =
     io_loop (\<lambda>_.
       io_bind ask_leader (\<lambda>leader.
       if Id leader \<noteq> currentId then io_return (Inr ())
       else
         io_bind (pong_loop nid 0) (\<lambda>alive.
         if alive then io_bind (ask_done (Sleep PONG_INTERVAL)) (\<lambda>_. io_return (Inl ()))
         else io_bind (ask_done (Send msg ''DISCONNECTED'')) (\<lambda>_. io_return (Inr ())))))
     ()"

definition ping_loop :: "string \<Rightarrow> nat \<Rightarrow> nat \<Rightarrow> unit node_io" where
  "ping_loop ID msg =
     io_loop (\<lambda>retry.
       io_bind (getValU ID) (\<lambda>(str, err).
       io_bind (checkError err) (\<lambda>_.
       if str \<noteq> PONG \<and> retry \<ge> 5 then io_bind (ask_done (Send msg ''DISCONNECTED'')) (\<lambda>_. io_return (Inr ()))
       else if str = PONG \<or> str = [] then
         io_bind (putValU ID PING) (\<lambda>(_, err). io_bind (checkError err) (\<lambda>_. io_return (Inr ())))
       else
         io_bind (ask_done (Sleep PING_INTERVAL)) (\<lambda>_.
         io_bind (ask_done (Sleep PING_INTERVAL)) (\<lambda>_. io_return (Inl (retry + 1)))))))"

definition pingRoutine :: "string \<Rightarrow> nat \<Rightarrow> unit node_io" where
  "pingRoutine ID msg =
     io_loop (\<lambda>_.
       io_bind ask_leader (\<lambda>leader.
       if Id leader = ID then io_return (Inr ())
       else io_bind (ping_loop ID msg 0) (\<lambda>_. io_return (Inl ()))))
     ()"

section \<open>Follower\<close>

text \<open>Appending the own id to the list on the join key.\<close>

definition join_loop :: "string \<Rightarrow> string \<times> string \<Rightarrow> unit node_io" where
  "join_loop ID =
     io_loop (\<lambda>(newJoinAddr, result).
       if result \<noteq> newJoinAddr then
         let newJoinAddr = (if result = [] then ID else result @ '' '' @ ID) in
         io_bind (testPutValU JOIN result newJoinAddr) (\<lambda>(result, err).
         io_bind (checkError err) (\<lambda>_. io_return (Inl (newJoinAddr, result))))
       else io_return (Inr ()))"

definition ask_to_join :: "string \<Rightarrow> unit node_io" where
  "ask_to_join ID =
     io_bind (testPutValU JOIN [] ID) (\<lambda>(result, err).
     io_bind (checkError err) (\<lambda>_. join_loop ID (ID, result)))"

definition follower_round :: "string \<Rightarrow> nat \<Rightarrow> node_state \<Rightarrow> (node_state + node_state) node_io" where
  "follower_round ID msg st =
     (if Id (currentLeader st) = ID then io_return (Inr st)
      else
        io_bind (ask_received msg) (\<lambda>m.
        io_bind (case m of
            Some _ \<Rightarrow> becomeOrUpdateLeader ID st (currentLeader st)
          | None \<Rightarrow>
              io_bind (updateLeader st) (\<lambda>st.
              if \<not> hasId (Nodes (currentLeader st)) ID then io_bind (ask_to_join ID) (\<lambda>_. io_return st)
              else io_return st)) (\<lambda>st.
        io_bind (ask_done (Sleep FOLLOWER_UPDATE_INTERVAL)) (\<lambda>_. io_return (Inl st)))))"

definition followerRoutine :: "string \<Rightarrow> nat \<Rightarrow> node_state \<Rightarrow> node_state node_io" where
  "followerRoutine ID msg = io_loop (follower_round ID msg)"

section \<open>A node\<close>

definition zero_LeaderVal :: LeaderVal where
  "zero_LeaderVal = \<lparr>Era = 0, leader_Nonce = 0, Version = 0, Id = [], Nodes = []\<rparr>"

definition zero_node :: node_state where
  "zero_node = \<lparr>currentLeader = zero_LeaderVal, idToChannel = [], next_chan = 0\<rparr>"

definition main_loop :: "string \<Rightarrow> node_state \<Rightarrow> unit node_io" where
  "main_loop ID =
     io_loop (\<lambda>st.
       let ch = next_chan st; st = st\<lparr>next_chan := ch + 1\<rparr> in
       if Id (currentLeader st) = ID then
         io_bind (ask_done (Spawn (GoJoin (Id (currentLeader st)) ch))) (\<lambda>_.
         io_bind (leaderRoutine (Id (currentLeader st)) ch st) (\<lambda>st. io_return (Inl st)))
       else
         io_bind (ask_done (Spawn (GoPing ch))) (\<lambda>_.
         io_bind (followerRoutine ID ch st) (\<lambda>st. io_return (Inl st))))"

definition node_main :: "string \<Rightarrow> unit node_io" where
  "node_main ID = io_bind (initLeader ID zero_node) (main_loop ID)"

fun goroutine_io :: "string \<Rightarrow> goroutine \<Rightarrow> unit node_io" where
  "goroutine_io ID (GoPong nid currentId msg) = pongRoutine nid currentId msg"
| "goroutine_io ID (GoJoin currentId msg) = joinRoutine currentId msg"
| "goroutine_io ID (GoPing msg) = pingRoutine ID msg"

end
