(* ===== verification/ElectionLeader.thy ===== *)
theory ElectionLeader
  imports Election "HOL-Library.Product_Lexorder"
begin

text \<open>
  Leader values and keys of \<^verbatim>\<open>node.go\<close>: their text form, their order, and which keys are distinct.
\<close>

section \<open>Text form\<close>

definition space_free :: "string \<Rightarrow> bool" where
  "space_free s \<longleftrightarrow> CHR '' '' \<notin> set s"

definition leader_ok :: "LeaderVal \<Rightarrow> bool" where
  "leader_ok l \<longleftrightarrow> space_free (Id l) \<and> (\<forall>n\<in>set (Nodes l). space_free n \<and> n \<noteq> [])"

lemma split_spaces_nonempty [simp]: "split_spaces s \<noteq> []"
  by (induction s) (auto split: list.split)

lemma split_spaces_word: "space_free w \<Longrightarrow> split_spaces w = [w]"
  by (induction w) (auto simp: space_free_def)

lemma split_spaces_append: "space_free w \<Longrightarrow> split_spaces (w @ CHR '' '' # s) = w # split_spaces s"
  by (induction w) (auto simp: space_free_def)

lemma split_spaces_snoc: "split_spaces (s @ CHR '' '' # t) = split_spaces s @ split_spaces t"
proof (induction s)
  case (Cons c s)
  then show ?case by (cases "split_spaces s") auto
qed simp

lemma split_spaces_free: "w \<in> set (split_spaces s) \<Longrightarrow> space_free w"
  by (induction s arbitrary: w) (auto simp: space_free_def split: list.splits if_splits)

lemma split_join: "(\<forall>w\<in>set ws. space_free w) \<Longrightarrow> split_spaces (join_with ws '' '') = (if ws = [] then [[]] else ws)"
  by (induction ws "'' ''" rule: join_with.induct) (auto simp: split_spaces_word split_spaces_append)

lemma uInt64ToStr_facts: "space_free (uInt64ToStr n)" "ParseUint64 (uInt64ToStr n) = n"
proof -
  have "list_all is_digit (itoa (unat n))" using itoa_facts by blast
  then show "space_free (uInt64ToStr n)" by (auto simp: space_free_def uInt64ToStr_def list_all_iff is_digit_def)
  have "unat n < 2 ^ 64" using unsigned_less [of n, where 'a = nat] by simp
  then have "unat n \<le> 2 ^ 64 - 1" by simp
  then show "ParseUint64 (uInt64ToStr n) = n" by (simp add: ParseUint64_def uInt64ToStr_def min_absorb1)
qed

lemma split_LeaderVal:
  assumes "leader_ok l"
  shows "split_spaces (LeaderValToString l) =
    [uInt64ToStr (Era l), uInt64ToStr (leader_Nonce l), uInt64ToStr (Version l), Id l] @ (if Nodes l = [] then [[]] else Nodes l)"
  using assms split_join [of "Nodes l"]
  by (simp add: LeaderValToString_def leader_ok_def split_spaces_append uInt64ToStr_facts)

lemma StringToLeaderVal_ok: "leader_ok l \<Longrightarrow> StringToLeaderVal (LeaderValToString l) = returns l"
  using hd_in_set [of "Nodes l"]
  by (cases "Nodes l") (auto simp: StringToLeaderVal_def split_LeaderVal guard_else_def uInt64ToStr_facts leader_ok_def)

lemma LeaderValToString_inject: "leader_ok a \<Longrightarrow> leader_ok b \<Longrightarrow> LeaderValToString a = LeaderValToString b \<longleftrightarrow> a = b"
  by (metis StringToLeaderVal_ok option.inject sum.inject(2))

lemma LeaderValToString_not: "leader_ok l \<Longrightarrow> LeaderValToString l \<noteq> []" "leader_ok l \<Longrightarrow> LeaderValToString l \<noteq> UNAVAILABLE"
proof -
  show "LeaderValToString l \<noteq> []" by (simp add: LeaderValToString_def)
  show "LeaderValToString l \<noteq> UNAVAILABLE" if "leader_ok l"
  proof
    assume "LeaderValToString l = UNAVAILABLE"
    then have "length (split_spaces (LeaderValToString l)) = 1"
      by (simp add: UNAVAILABLE_def)
    then show False using split_LeaderVal [OF that] by simp
  qed
qed

section \<open>Order\<close>

definition rank :: "LeaderVal \<Rightarrow> int \<times> int \<times> int" where
  "rank l = (uint (Era l), - uint (leader_Nonce l), uint (Version l))"

lemma compareLeaders_rank:
  "compareLeaders a b = (if rank a < rank b then -1 else if rank b < rank a then 1 else 0)"
  by (auto simp: compareLeaders_def rank_def word_less_def less_prod_def')

section \<open>Keys\<close>

definition leader_key :: "string \<Rightarrow> bool" where
  "leader_key k \<longleftrightarrow> (\<exists>n. k = LEADER_KEY @ uInt64ToStr n)"

definition join_key :: "string \<Rightarrow> bool" where
  "join_key k \<longleftrightarrow> (\<exists>n. k = JOIN @ '' '' @ uInt64ToStr n)"

lemma keyspace_words:
  "split_spaces (LEADER_KEY @ uInt64ToStr n) = [''leader'', ''key'', uInt64ToStr n]"
  "split_spaces (JOIN @ '' '' @ uInt64ToStr n) = [''join'', ''key'', uInt64ToStr n]"
  "space_free nid \<Longrightarrow> split_spaces (nid @ '' '' @ uInt64ToStr n) = [nid, uInt64ToStr n]"
  using uInt64ToStr_facts(1) [of n]
  by (simp_all add: LEADER_KEY_def JOIN_def split_spaces_append split_spaces_word)

lemma keys_distinct:
  "leader_key (LEADER_KEY @ uInt64ToStr n)" "join_key (JOIN @ '' '' @ uInt64ToStr n)"
  "\<not> leader_key (JOIN @ '' '' @ uInt64ToStr n)" "\<not> join_key (LEADER_KEY @ uInt64ToStr n)"
  "space_free nid \<Longrightarrow> \<not> leader_key (nid @ '' '' @ uInt64ToStr n)"
  "space_free nid \<Longrightarrow> \<not> join_key (nid @ '' '' @ uInt64ToStr n)"
  unfolding leader_key_def join_key_def
  by (fastforce dest: arg_cong [of _ _ split_spaces] simp: keyspace_words simp del: append_assoc append.simps)+

lemma keys_distinct_simps [simp]:
  "leader_key (LEADER_KEY @ uInt64ToStr n)" "join_key (JOIN @ CHR '' '' # uInt64ToStr n)"
  "\<not> leader_key (JOIN @ CHR '' '' # uInt64ToStr n)" "\<not> join_key (LEADER_KEY @ uInt64ToStr n)"
  "space_free nid \<Longrightarrow> \<not> leader_key (nid @ CHR '' '' # uInt64ToStr n)"
  "space_free nid \<Longrightarrow> \<not> join_key (nid @ CHR '' '' # uInt64ToStr n)"
  using keys_distinct by simp_all

lemma leader_key_inject: "LEADER_KEY @ uInt64ToStr n = LEADER_KEY @ uInt64ToStr m \<longleftrightarrow> n = m"
  by (metis same_append_eq uInt64ToStr_facts(2))

end
