(* ===== verification/ElectionGuard.thy ===== *)
theory ElectionGuard
  imports ElectionLeader
begin

text \<open>
  What the routines of \<^verbatim>\<open>node.go\<close> ask for, whatever they are answered. A write to the leader key replaces only values
  that are older, and it either renews a term (a pair of era and nonce) that is known already or begins a new one on the
  key with its own nonce. Nothing else writes to the leader key, and the join key holds a list of ids.

  \<open>K\<close> is the set of terms known so far with their leaders: the replies mention only those.
\<close>

section \<open>Rely and guarantee\<close>

type_synonym terms = "(uint64 \<times> uint64 \<times> string) set"

definition leader_term :: "LeaderVal \<Rightarrow> uint64 \<times> uint64 \<times> string" where
  "leader_term l = (Era l, leader_Nonce l, Id l)"

text \<open>The counters of a leader value have not run out.\<close>

definition roomy :: "LeaderVal \<Rightarrow> bool" where
  "roomy l \<longleftrightarrow> Era l \<noteq> - 1 \<and> Version l \<noteq> - 1"

definition known :: "terms \<Rightarrow> LeaderVal \<Rightarrow> bool" where
  "known K l \<longleftrightarrow> leader_ok l \<and> roomy l \<and> leader_term l \<in> K"

definition ids_ok :: "string \<Rightarrow> bool" where
  "ids_ok v \<longleftrightarrow> v = [] \<or> [] \<notin> set (split_spaces v)"

definition leader_reply :: "terms \<Rightarrow> string \<Rightarrow> bool" where
  "leader_reply K v \<longleftrightarrow> v = [] \<or> (\<exists>l. known K l \<and> v = LeaderValToString l)"

definition kv_reply :: "terms \<Rightarrow> string \<Rightarrow> node_reply \<Rightarrow> bool" where
  "kv_reply K k r \<longleftrightarrow> (\<forall>v. r = Value v False \<longrightarrow> v \<noteq> UNAVAILABLE \<longrightarrow>
     (leader_key k \<longrightarrow> leader_reply K v) \<and> (join_key k \<longrightarrow> ids_ok v))"

fun good_reply :: "terms \<Rightarrow> node_request \<Rightarrow> node_reply \<Rightarrow> bool" where
  "good_reply K (KvGet k) r = kv_reply K k r"
| "good_reply K (KvTestSet k t v) r = kv_reply K k r"
| "good_reply K (TryReceive ch) r = (\<forall>m. r = Received (Some m) \<longrightarrow> ids_ok m)"
| "good_reply K q r = True"

definition overtakes :: "string \<Rightarrow> LeaderVal \<Rightarrow> bool" where
  "overtakes t b \<longleftrightarrow> (\<forall>a. leader_ok a \<longrightarrow> t = LeaderValToString a \<longrightarrow> rank a < rank b)"

definition new_term :: "string \<Rightarrow> string \<Rightarrow> LeaderVal \<Rightarrow> bool" where
  "new_term k t b \<longleftrightarrow> k = LEADER_KEY @ uInt64ToStr (leader_Nonce b) \<and>
     (\<forall>a. leader_ok a \<longrightarrow> t = LeaderValToString a \<longrightarrow> Era a < Era b)"

definition leader_write :: "terms \<Rightarrow> string \<Rightarrow> string \<Rightarrow> string \<Rightarrow> bool" where
  "leader_write K k t v \<longleftrightarrow>
     (\<exists>b. leader_ok b \<and> v = LeaderValToString b \<and> overtakes t b \<and> (leader_term b \<in> K \<or> new_term k t b))"

fun good_request :: "terms \<Rightarrow> node_request \<Rightarrow> bool" where
  "good_request K (KvTestSet k t v) \<longleftrightarrow> (leader_key k \<longrightarrow> leader_write K k t v) \<and> (join_key k \<longrightarrow> ids_ok v)"
| "good_request K (KvPut k v) \<longleftrightarrow> \<not> leader_key k \<and> \<not> join_key k"
| "good_request K (Send ch m) \<longleftrightarrow> ids_ok m"
| "good_request K (Spawn g) \<longleftrightarrow> (case g of GoPong nid _ _ \<Rightarrow> space_free nid | _ \<Rightarrow> True)"
| "good_request K q \<longleftrightarrow> True"

abbreviation node_upholds :: "terms \<Rightarrow> 'a node_io \<Rightarrow> ('a \<Rightarrow> bool) \<Rightarrow> bool" where
  "node_upholds K \<equiv> upholds (good_reply K) (good_request K)"

section \<open>The calls\<close>

text \<open>The rules for a request followed by the rest of the program.\<close>

named_theorems uph

lemma ask_done_upholds [uph]: "good_request K q \<Longrightarrow> node_upholds K (f ()) Q \<Longrightarrow> node_upholds K (io_bind (ask_done q) f) Q"
  unfolding ask_done_def
  by (rule upholds_bind [where P = "\<lambda>_. True"], rule upholds_bind [where P = "\<lambda>_. True"]) (auto split: node_reply.split)

lemma ask_leader_upholds [uph]: "(\<And>x. node_upholds K (f x) Q) \<Longrightarrow> node_upholds K (io_bind ask_leader f) Q"
  unfolding ask_leader_def
  by (rule upholds_bind [where P = "\<lambda>_. True"], rule upholds_bind [where P = "\<lambda>_. True"]) (auto split: node_reply.split)

lemma ask_received_upholds [uph]:
  assumes "node_upholds K (f None) Q" "\<And>m. ids_ok m \<Longrightarrow> node_upholds K (f (Some m)) Q"
  shows "node_upholds K (io_bind (ask_received ch) f) Q"
proof (rule upholds_bind)
  show "node_upholds K (ask_received ch) (\<lambda>x. \<forall>m. x = Some m \<longrightarrow> ids_ok m)"
    unfolding ask_received_def
    by (rule upholds_bind [where P = "good_reply K (TryReceive ch)"]) (auto split: node_reply.split)
  show "node_upholds K (f x) Q" if "\<forall>m. x = Some m \<longrightarrow> ids_ok m" for x
    using assms that by (cases x) auto
qed

lemma checkError_upholds [uph]: "(\<not> err \<Longrightarrow> node_upholds K (f ()) Q) \<Longrightarrow> node_upholds K (io_bind (checkError err) f) Q"
  by (rule upholds_bind [where P = "\<lambda>_. \<not> err"]) (auto simp: checkError_def)

lemma getNonceAndLock_upholds [uph]:
  "(\<And>n. node_upholds K (f n) Q) \<Longrightarrow> node_upholds K (io_bind (getNonceAndLock key) f) Q"
  unfolding getNonceAndLock_def
  by (rule upholds_bind [where P = "\<lambda>_. True"], rule upholds_bind [where P = "\<lambda>_. True"]) (auto split: node_reply.split)

lemma setNonceAndUnlock_upholds [uph]:
  "node_upholds K (f ()) Q \<Longrightarrow> node_upholds K (io_bind (setNonceAndUnlock key n) f) Q"
  unfolding setNonceAndUnlock_def by (rule ask_done_upholds) auto

lemma prog_upholds [uph]:
  "(\<And>x. m = returns x \<Longrightarrow> node_upholds K (f x) Q) \<Longrightarrow> node_upholds K (io_bind (io_prog m) f) Q"
  by (rule upholds_bind [where P = "\<lambda>x. m = returns x"]) auto

declare upholds_return [uph]

text \<open>What a call on a key may answer when there was no error.\<close>

definition answer_ok :: "terms \<Rightarrow> string \<Rightarrow> string \<times> bool \<Rightarrow> bool" where
  "answer_ok K k = (\<lambda>(v, err). \<not> err \<longrightarrow> v \<noteq> UNAVAILABLE \<longrightarrow> (leader_key k \<longrightarrow> leader_reply K v) \<and> (join_key k \<longrightarrow> ids_ok v))"

lemma ask_value_upholds:
  assumes "good_request K q" "\<And>r. good_reply K q r \<Longrightarrow> kv_reply K k r"
  shows "node_upholds K (ask_value q) (answer_ok K k)"
  unfolding ask_value_def
proof (rule upholds_bind [where P = "kv_reply K k"])
  show "node_upholds K (case r of Value v err \<Rightarrow> io_return (v, err) | _ \<Rightarrow> io_stop Exited) (answer_ok K k)" if "kv_reply K k r" for r
    using that by (auto simp: kv_reply_def answer_ok_def split: node_reply.split)
qed (use assms in auto)

lemma getVal_upholds: "node_upholds K (getVal k) (answer_ok K k)"
  unfolding getVal_def by (rule ask_value_upholds) auto

lemma testPutVal_upholds: "good_request K (KvTestSet k t v) \<Longrightarrow> node_upholds K (testPutVal k t v) (answer_ok K k)"
  unfolding testPutVal_def by (rule ask_value_upholds) auto

lemma putVal_upholds: "\<not> leader_key k \<Longrightarrow> \<not> join_key k \<Longrightarrow> node_upholds K (putVal k v) (answer_ok K k)"
  unfolding putVal_def by (rule ask_value_upholds) (auto simp: kv_reply_def)

text \<open>The retried call answers with something other than \<open>UNAVAILABLE\<close>, at some nonce of the key.\<close>

lemma retryU_upholds:
  assumes call: "\<And>n. node_upholds K (call (key @ uInt64ToStr n)) (answer_ok K (key @ uInt64ToStr n))"
  shows "node_upholds K (retryU key call)
    (\<lambda>(v, err). \<not> err \<longrightarrow> v \<noteq> UNAVAILABLE \<and> (\<exists>n. answer_ok K (key @ uInt64ToStr n) (v, err)))"
proof -
  let ?I = "\<lambda>(n, v, err). answer_ok K (key @ uInt64ToStr n) (v, err)"
  let ?D = "\<lambda>(n, v, err). (\<not> err \<longrightarrow> v \<noteq> UNAVAILABLE) \<and> answer_ok K (key @ uInt64ToStr n) (v, err)"
  have loop: "node_upholds K (retry_loop (\<lambda>n. call (key @ uInt64ToStr n)) s) ?D" if "?I s" for s
    unfolding retry_loop_def
  proof (rule upholds_loop [where I = ?I])
    show "node_upholds K (case s of (currentNonce, result, err) \<Rightarrow>
         if result = UNAVAILABLE \<and> \<not> err then
           io_bind (call (key @ uInt64ToStr (currentNonce + 1))) (\<lambda>(result, err). io_return (Inl (currentNonce + 1, result, err)))
         else io_return (Inr (currentNonce, result, err))) (\<lambda>x. case x of Inl s' \<Rightarrow> ?I s' | Inr y \<Rightarrow> ?D y)" if "?I s" for s
      using that by (auto split: prod.split intro!: upholds_return upholds_bind [OF call])
  qed (fact that)
  show ?thesis
    unfolding retryU_def
    by (intro uph upholds_bind [OF call]) (auto intro!: uph upholds_bind [OF loop] split: prod.splits)
qed

section \<open>Calls on the three kinds of keys\<close>

lemma LEADER_space: "LEADER @ '' '' = LEADER_KEY"
  by (simp add: LEADER_def LEADER_KEY_def)

definition leader_answer :: "terms \<Rightarrow> string \<times> bool \<Rightarrow> bool" where
  "leader_answer K = (\<lambda>(v, err). \<not> err \<longrightarrow> leader_reply K v)"

definition join_answer :: "string \<times> bool \<Rightarrow> bool" where
  "join_answer = (\<lambda>(v, err). \<not> err \<longrightarrow> ids_ok v)"

lemma getValU_leader: "node_upholds K (getValU LEADER) (leader_answer K)"
  unfolding getValU_def LEADER_space
  by (rule upholds_weaken [OF retryU_upholds [OF getVal_upholds]]) (auto simp: leader_answer_def answer_ok_def)

lemma testPutValU_leader:
  assumes "\<And>n. leader_write K (LEADER_KEY @ uInt64ToStr n) t v"
  shows "node_upholds K (testPutValU LEADER t v) (leader_answer K)"
  unfolding testPutValU_def LEADER_space
  by (rule upholds_weaken [OF retryU_upholds [OF testPutVal_upholds]])
     (use assms in \<open>auto simp: leader_answer_def answer_ok_def\<close>)

lemma testPutValU_join:
  assumes "ids_ok v"
  shows "node_upholds K (testPutValU JOIN t v) join_answer"
  unfolding testPutValU_def
  by (rule upholds_weaken [OF retryU_upholds [OF testPutVal_upholds]])
     (use assms in \<open>auto simp: join_answer_def answer_ok_def\<close>)

lemma getValU_other: "node_upholds K (getValU nid) (\<lambda>_. True)"
  unfolding getValU_def by (rule upholds_weaken [OF retryU_upholds [OF getVal_upholds]]) auto

lemma putValU_other: "space_free nid \<Longrightarrow> node_upholds K (putValU nid v) (\<lambda>_. True)"
  unfolding putValU_def
  by (rule upholds_weaken [OF retryU_upholds [OF putVal_upholds]]) auto

section \<open>The other goroutines\<close>

lemma take_joins_upholds: "node_upholds K (take_joins []) ids_ok"
  unfolding take_joins_def
proof (rule upholds_loop [where I = ids_ok])
  show "node_upholds K (io_bind (testPutValU JOIN joinValue []) (\<lambda>(result, err).
      io_bind (checkError err) (\<lambda>_. if result = [] then io_return (Inr joinValue) else io_return (Inl result))))
      (\<lambda>x. case x of Inl s \<Rightarrow> ids_ok s | Inr y \<Rightarrow> ids_ok y)" if "ids_ok joinValue" for joinValue
    using that by (auto intro!: uph upholds_bind [OF testPutValU_join] simp: ids_ok_def join_answer_def)
qed (simp add: ids_ok_def)

lemma joinRoutine_upholds: "node_upholds K (joinRoutine currentId msg) (\<lambda>_. True)"
  unfolding joinRoutine_def
proof (rule upholds_loop [where I = "\<lambda>_. True"])
  show "node_upholds K (io_bind ask_leader (\<lambda>leader. if Id leader \<noteq> currentId then io_return (Inr ())
      else io_bind (take_joins []) (\<lambda>joinValue.
        io_bind (ask_done (if joinValue \<noteq> [] then Send msg joinValue else Sleep JOIN_INTERVAL)) (\<lambda>_. io_return (Inl ())))))
      (\<lambda>x. case x of Inl s \<Rightarrow> True | Inr y \<Rightarrow> True)"
    by (auto intro!: uph upholds_bind [OF take_joins_upholds])
qed simp

lemma pong_loop_upholds: "space_free nid \<Longrightarrow> node_upholds K (pong_loop nid n) (\<lambda>_. True)"
  unfolding pong_loop_def
  by (rule upholds_loop [where I = "\<lambda>_. True"])
     (auto intro!: uph upholds_bind [OF getValU_other] upholds_bind [OF putValU_other])

lemma ids_ok_disconnected: "ids_ok ''DISCONNECTED''"
  by (simp add: ids_ok_def)

lemma pongRoutine_upholds: "space_free nid \<Longrightarrow> node_upholds K (pongRoutine nid currentId msg) (\<lambda>_. True)"
  unfolding pongRoutine_def
  by (rule upholds_loop [where I = "\<lambda>_. True"])
     (auto intro!: uph upholds_bind [OF pong_loop_upholds] simp: ids_ok_disconnected)

lemma ping_loop_upholds: "space_free ID \<Longrightarrow> node_upholds K (ping_loop ID msg n) (\<lambda>_. True)"
  unfolding ping_loop_def
  by (rule upholds_loop [where I = "\<lambda>_. True"])
     (auto intro!: uph upholds_bind [OF getValU_other] upholds_bind [OF putValU_other] simp: ids_ok_disconnected)

lemma pingRoutine_upholds: "space_free ID \<Longrightarrow> node_upholds K (pingRoutine ID msg) (\<lambda>_. True)"
  unfolding pingRoutine_def
  by (rule upholds_loop [where I = "\<lambda>_. True"])
     (auto intro!: uph upholds_bind [OF ping_loop_upholds])

lemma goroutine_upholds:
  "space_free ID \<Longrightarrow> good_request K (Spawn g) \<Longrightarrow> node_upholds K (goroutine_io ID g) (\<lambda>_. True)"
  by (cases g) (auto simp: pongRoutine_upholds joinRoutine_upholds pingRoutine_upholds)

end
