(* ===== verification/ElectionMain.thy ===== *)
theory ElectionMain
  imports ElectionGuard
begin

text \<open>
  The main goroutine of \<^verbatim>\<open>node.go\<close> keeps to \<open>good_request\<close>: it starts from a leader value it has read, writes only what
  overtakes the value it replaces, and its own copy of the leader is always of a known term.
\<close>

section \<open>Helpers\<close>

definition node_ok :: "terms \<Rightarrow> node_state \<Rightarrow> bool" where
  "node_ok K st \<longleftrightarrow> known K (currentLeader st)"

definition ids_list :: "string list \<Rightarrow> bool" where
  "ids_list ns \<longleftrightarrow> (\<forall>n\<in>set ns. space_free n \<and> n \<noteq> [])"

lemma set_removeId: "set (removeId ids nid) \<subseteq> set ids"
  by (induction ids) auto

lemma hasId_iff: "hasId ids nid \<longleftrightarrow> nid \<in> set ids"
  by (induction ids) auto

lemma ids_list_ops:
  assumes "ids_list ids"
  shows "ids_list (removeId ids nid)"
    and "ids_list other \<Longrightarrow> ids_list (removeId_shared other ids nid)"
    and "space_free nid \<Longrightarrow> nid \<noteq> [] \<Longrightarrow> ids_list other \<Longrightarrow> ids_list (append_shared other ids nid)"
    and "space_free nid \<Longrightarrow> nid \<noteq> [] \<Longrightarrow> ids_list (ids @ [nid])"
proof -
  show "ids_list (removeId ids nid)" using assms set_removeId [of ids nid] by (auto simp: ids_list_def)
  moreover have "last ids \<in> set ids" if "hasId ids nid" using that by (cases ids rule: rev_cases) auto
  ultimately show "ids_list (removeId_shared other ids nid)" if "ids_list other"
    using assms that in_set_dropD [of _ "length ids" other] by (auto simp: ids_list_def removeId_shared_def)
  show "ids_list (append_shared other ids nid)" if "space_free nid" "nid \<noteq> []" "ids_list other"
    using that set_update_subset_insert [of other "length ids" nid] by (auto simp: ids_list_def append_shared_def)
  show "ids_list (ids @ [nid])" if "space_free nid" "nid \<noteq> []" using assms that by (auto simp: ids_list_def)
qed

lemma parse_reply:
  assumes "leader_reply K v" "StringToLeaderVal v = returns l"
  shows "known K l" "v = LeaderValToString l"
proof -
  have "v \<noteq> []"
  proof
    assume "v = []"
    then show False using assms(2) by (simp add: StringToLeaderVal_def guard_else_def)
  qed
  then obtain l' where "known K l'" "v = LeaderValToString l'" using assms(1) by (auto simp: leader_reply_def)
  moreover from this have "l' = l" using assms(2) StringToLeaderVal_ok [of l'] by (simp add: known_def)
  ultimately show "known K l" "v = LeaderValToString l" by auto
qed

lemma start_pong_upholds:
  assumes "space_free nid"
  shows "node_upholds K (start_pong lid st nid) (\<lambda>st'. currentLeader st' = currentLeader st)"
  unfolding start_pong_def Let_def using assms by (auto intro!: uph)

lemma start_pongs_upholds:
  assumes "ids_list ns"
  shows "node_upholds K (io_fold (start_pong lid) ns st) (\<lambda>st'. currentLeader st' = currentLeader st)"
  by (rule upholds_fold [where I = "\<lambda>s. currentLeader s = currentLeader st"])
     (use assms in \<open>auto intro!: upholds_weaken [OF start_pong_upholds] simp: ids_list_def\<close>)

lemma set_leader_upholds: "known K leader \<Longrightarrow> node_upholds K (set_leader st leader) (node_ok K)"
  unfolding set_leader_def by (auto intro!: uph simp: node_ok_def)

lemma known_nodes: "known K l \<Longrightarrow> ids_list (Nodes l)"
  by (simp add: known_def leader_ok_def ids_list_def)

lemma answer_at_leader_key:
  "answer_ok K (LEADER_KEY @ uInt64ToStr n) (v, False) \<Longrightarrow> v \<noteq> UNAVAILABLE \<Longrightarrow> leader_reply K v"
  by (simp add: answer_ok_def)

section \<open>Becoming leader\<close>

lemma no_leader_text: "leader_ok a \<Longrightarrow> [] \<noteq> LeaderValToString a" "leader_ok a \<Longrightarrow> UNAVAILABLE \<noteq> LeaderValToString a"
  using LeaderValToString_not by (metis)+

lemma init_write:
  assumes "space_free ID"
  shows "leader_write K (LEADER_KEY @ uInt64ToStr n) []
    (LeaderValToString \<lparr>Era = 0, leader_Nonce = n, Version = 0, Id = ID, Nodes = []\<rparr>)"
  unfolding leader_write_def overtakes_def new_term_def
  using assms no_leader_text(1) by (intro exI [of _ "\<lparr>Era = 0, leader_Nonce = n, Version = 0, Id = ID, Nodes = []\<rparr>"])
    (auto simp: leader_ok_def)

lemma init_loop_upholds:
  assumes "space_free ID" "answer_ok K (LEADER_KEY @ uInt64ToStr n) (result, False)"
  shows "node_upholds K (init_loop (n, \<lparr>Era = 0, leader_Nonce = n, Version = 0, Id = ID, Nodes = []\<rparr>, result))
    (\<lambda>(n, req, result). leader_reply K result)"
proof -
  let ?req = "\<lambda>n. \<lparr>Era = 0, leader_Nonce = n, Version = 0, Id = ID, Nodes = []\<rparr>"
  let ?I = "\<lambda>(n, req, result). req = ?req n \<and> (result \<noteq> UNAVAILABLE \<longrightarrow> leader_reply K result)"
  have call: "node_upholds K (testPutVal (LEADER_KEY @ uInt64ToStr m) [] (LeaderValToString (?req m)))
      (answer_ok K (LEADER_KEY @ uInt64ToStr m))" for m
    using assms(1) by (auto intro!: testPutVal_upholds init_write)
  show ?thesis
    unfolding init_loop_def
  proof (rule upholds_loop [where I = ?I], goal_cases)
    case (2 s)
    then obtain m v where s: "s = (m, ?req m, v)" "v \<noteq> UNAVAILABLE \<longrightarrow> leader_reply K v" by auto
    show ?case
      unfolding s(1) Let_def
      by (cases "v = UNAVAILABLE")
         (use s(2) in \<open>auto intro!: uph upholds_bind [OF call] dest: answer_at_leader_key\<close>)
  qed (use assms(2) answer_at_leader_key in auto)
qed

lemma initLeader_upholds:
  assumes "space_free ID"
  shows "node_upholds K (initLeader ID st) (node_ok K)"
proof -
  have "node_upholds K (if Id leader = ID then io_fold (start_pong lid) (Nodes leader) st' else io_return st') (node_ok K)"
    if "known K leader" "node_ok K st'" for leader st' lid
    using that by (auto intro!: uph upholds_weaken [OF start_pongs_upholds] known_nodes simp: node_ok_def)
  then show ?thesis
    unfolding initLeader_def Let_def
    using assms
    by (auto intro!: uph upholds_bind [OF testPutVal_upholds] upholds_bind [OF init_loop_upholds] init_write
        upholds_bind [OF set_leader_upholds] dest: parse_reply)
qed

text \<open>A request for the next era overtakes everything that is not newer than the last leader.\<close>

definition not_newer :: "LeaderVal \<Rightarrow> string \<Rightarrow> bool" where
  "not_newer l t \<longleftrightarrow> (\<forall>a. leader_ok a \<longrightarrow> t = LeaderValToString a \<longrightarrow> rank a \<le> rank l)"

lemma not_newer_trivial: "not_newer l []" "not_newer l UNAVAILABLE"
  using no_leader_text by (auto simp: not_newer_def)

lemma not_newer_reply:
  assumes "StringToLeaderVal t = returns a" "\<not> compareLeaders a l > 0"
  shows "not_newer l t"
  unfolding not_newer_def
proof (intro allI impI)
  fix b
  assume "leader_ok b" "t = LeaderValToString b"
  then have "a = b" using assms(1) StringToLeaderVal_ok by auto
  then show "rank b \<le> rank l" using assms(2) by (auto simp: compareLeaders_rank split: if_splits)
qed

lemma word64_succ: "x \<noteq> - 1 \<Longrightarrow> uint (x + 1) = uint x + 1" for x :: uint64
  using uint_plus_simple_iff [of x 1] inc_less_eq_self_iff_eq linorder_linear by auto

lemma become_write:
  assumes "known K l" "not_newer l t" "space_free ID" "ids_list ns"
  shows "leader_write K (LEADER_KEY @ uInt64ToStr n) t
    (LeaderValToString \<lparr>Era = Era l + 1, leader_Nonce = n, Version = 0, Id = ID, Nodes = ns\<rparr>)"
proof -
  let ?b = "\<lparr>Era = Era l + 1, leader_Nonce = n, Version = 0, Id = ID, Nodes = ns\<rparr>"
  have next_era: "uint (Era l + 1) = uint (Era l) + 1" using assms(1) by (intro word64_succ) (simp add: known_def roomy_def)
  have "uint (Era a) \<le> uint (Era l)" if "leader_ok a" "t = LeaderValToString a" for a
    using assms(2) that by (fastforce simp: not_newer_def rank_def less_eq_prod_def)
  then have old: "Era a < Era ?b" "rank a < rank ?b" if "leader_ok a" "t = LeaderValToString a" for a
    using that next_era by (fastforce simp: word_less_def rank_def less_prod_def)+
  show ?thesis
    unfolding leader_write_def overtakes_def new_term_def
    by (rule exI [of _ ?b]) (use assms(3,4) old in \<open>auto simp: leader_ok_def ids_list_def\<close>)
qed

lemma become_loop_upholds:
  assumes last: "known K l" and "space_free ID" "ids_list ns" "node_ok K st"
  shows "node_upholds K (become_loop ID l ns
      (st, n, \<lparr>Era = Era l + 1, leader_Nonce = n, Version = 0, Id = ID, Nodes = ns\<rparr>, []))
    (\<lambda>(st, n, result). node_ok K st \<and> leader_reply K result)"
proof -
  let ?req = "\<lambda>n. \<lparr>Era = Era l + 1, leader_Nonce = n, Version = 0, Id = ID, Nodes = ns\<rparr>"
  let ?I = "\<lambda>(st, n, req, t). node_ok K st \<and> req = ?req n \<and> not_newer l t"
  have call: "node_upholds K (testPutVal (LEADER_KEY @ uInt64ToStr m) t (LeaderValToString (?req m)))
      (answer_ok K (LEADER_KEY @ uInt64ToStr m))" if "not_newer l t" for m t
    using assms that by (auto intro!: testPutVal_upholds become_write)
  have req: "LeaderValToString (?req m) \<noteq> UNAVAILABLE" for m
    using assms(2,3) by (intro LeaderValToString_not) (auto simp: leader_ok_def ids_list_def)
  have pongs: "node_upholds K (io_fold (start_pong lid) ns st) (node_ok K)" if "node_ok K st" for lid st
    using that by (intro upholds_weaken [OF start_pongs_upholds [OF assms(3)]]) (simp add: node_ok_def)
  show ?thesis
    unfolding become_loop_def
  proof (rule upholds_loop [where I = ?I], goal_cases)
    case (2 s)
    then obtain st m t where s: "s = (st, m, ?req m, t)" "node_ok K st" "not_newer l t" by auto
    show ?case
      unfolding s(1) Let_def prod.case
    proof (rule upholds_bind [OF call [OF s(3)]], goal_cases)
      case (1 x)
      obtain v err where x: "x = (v, err)" by (cases x)
      show ?case
        unfolding x prod.case
      proof (rule checkError_upholds, goal_cases)
        case 1
        then have v: "v \<noteq> UNAVAILABLE \<Longrightarrow> leader_reply K v"
          using \<open>answer_ok K (LEADER_KEY @ uInt64ToStr m) x\<close> x answer_at_leader_key by auto
        show ?case
          using s(2) v req [of m]
          by (auto intro!: uph upholds_bind [OF pongs] not_newer_trivial) (blast intro: not_newer_reply)+
      qed
    qed
  qed (use assms not_newer_trivial in auto)
qed

lemma becomeOrUpdateLeader_upholds:
  assumes "node_ok K st" "space_free ID"
  shows "node_upholds K (becomeOrUpdateLeader ID st (currentLeader st)) (node_ok K)"
proof -
  let ?l = "currentLeader st"
  have ns: "ids_list (Nodes ?l)" using assms(1) known_nodes by (simp add: node_ok_def)
  have "node_ok K (st\<lparr>currentLeader := ?l\<lparr>Nodes := removeId_shared (Nodes ?l) (Nodes ?l) ID\<rparr>\<rparr>)"
    using assms(1) ids_list_ops(2) [OF ns ns]
    by (auto simp: node_ok_def known_def leader_ok_def roomy_def leader_term_def ids_list_def)
  then show ?thesis
    unfolding becomeOrUpdateLeader_def Let_def
    using assms ids_list_ops(1) [OF ns]
    by (auto intro!: uph upholds_bind [OF become_loop_upholds] set_leader_upholds dest: parse_reply simp: node_ok_def)
qed

section \<open>Updating the leader\<close>

lemma updateLeader_upholds:
  assumes "node_ok K st"
  shows "node_upholds K (updateLeader st) (node_ok K)"
  unfolding updateLeader_def
  using assms
  by (auto intro!: uph upholds_bind [OF getValU_leader] set_leader_upholds simp: leader_answer_def) (blast dest: parse_reply)+

lemma update_write:
  assumes "leader_ok b" "leader_term b \<in> K" "not_newer l t" "rank l < rank b"
  shows "leader_write K k t (LeaderValToString b)"
  using assms unfolding leader_write_def overtakes_def not_newer_def
  by (intro exI [of _ b]) (auto dest: order.strict_trans1)

lemma updateLeaderValue_upholds:
  assumes cur: "node_ok K st" and b: "leader_ok b" "leader_term b \<in> K" "rank (currentLeader st) < rank b"
  shows "node_upholds K (updateLeaderValue st b) (known K)"
proof -
  let ?l = "currentLeader st"
  have call: "node_upholds K (testPutValU LEADER t (LeaderValToString b)) (leader_answer K)" if "not_newer ?l t" for t
    using update_write [OF b(1,2) that b(3)] by (rule testPutValU_leader)
  have own: "not_newer ?l (LeaderValToString ?l)"
    using cur LeaderValToString_inject by (auto simp: not_newer_def node_ok_def known_def)
  have target: "known K b" if "leader_reply K (LeaderValToString b)"
    using parse_reply(1) [OF that StringToLeaderVal_ok [OF b(1)]] .
  show ?thesis
    unfolding updateLeaderValue_def Let_def
  proof (rule upholds_loop [where I = "not_newer ?l"], rule own, goal_cases)
    case (1 t)
    show ?case
    proof (rule upholds_bind [OF call [OF 1]], goal_cases)
      case (1 x)
      obtain v err where x: "x = (v, err)" by (cases x)
      show ?case
        unfolding x prod.case
      proof (rule checkError_upholds, goal_cases)
        case 1
        then have v: "leader_reply K v" using \<open>leader_answer K x\<close> x by (simp add: leader_answer_def)
        show ?case
        proof (cases "v = LeaderValToString b")
          case True
          then show ?thesis using target v by (auto intro!: uph)
        next
          case False
          have "node_upholds K (if compareLeaders a ?l > 0 then io_return (Inr a) else io_return (Inl v))
              (\<lambda>x. case x of Inl t \<Rightarrow> not_newer ?l t | Inr y \<Rightarrow> known K y)" if "StringToLeaderVal v = returns a" for a
            using parse_reply(1) [OF v that] not_newer_reply [OF that] by (auto intro!: uph)
          with False show ?thesis by (auto intro!: uph not_newer_trivial)
        qed
      qed
    qed
  qed
qed

section \<open>A round of the leader\<close>

text \<open>While a round is under way, \<open>currentLeader\<close> differs from the leader read at its start only in the shared nodes.\<close>

definition sharing :: "LeaderVal \<Rightarrow> node_state \<times> string list \<Rightarrow> bool" where
  "sharing l = (\<lambda>(st, nodes). ids_list nodes \<and> (\<exists>ns. ids_list ns \<and> currentLeader st = l\<lparr>Nodes := ns\<rparr>))"

lemma drop_disconnected_upholds:
  assumes "sharing l s"
  shows "node_upholds K (drop_disconnected s entry) (sharing l)"
proof -
  obtain st nodes nid msgs where s: "s = (st, nodes)" "entry = (nid, msgs)" by (metis surj_pair)
  obtain ns where ns: "ids_list nodes" "ids_list ns" "currentLeader st = l\<lparr>Nodes := ns\<rparr>"
    using assms s by (auto simp: sharing_def)
  have "sharing l (st\<lparr>currentLeader := currentLeader st\<lparr>Nodes := removeId_shared (Nodes (currentLeader st)) nodes nid\<rparr>,
      idToChannel := AList.delete nid (idToChannel st)\<rparr>, removeId nodes nid)"
    unfolding sharing_def prod.case ns(3)
    using ids_list_ops(1,2) [OF ns(1)] ns(2) by (auto intro!: exI [of _ "removeId_shared ns nodes nid"])
  then show ?thesis
    unfolding drop_disconnected_def s prod.case Let_def using assms s by (auto intro!: uph)
qed

lemma add_joining_upholds:
  assumes "sharing l s" "space_free nid" "nid \<noteq> []"
  shows "node_upholds K (add_joining lid s nid) (sharing l)"
proof -
  obtain st nodes where s: "s = (st, nodes)" by (metis surj_pair)
  obtain ns where ns: "ids_list nodes" "ids_list ns" "currentLeader st = l\<lparr>Nodes := ns\<rparr>"
    using assms s by (auto simp: sharing_def)
  have "sharing l (st'\<lparr>currentLeader := currentLeader st'\<lparr>Nodes := append_shared (Nodes (currentLeader st')) nodes nid\<rparr>\<rparr>, nodes @ [nid])"
    if "currentLeader st' = currentLeader st" for st'
    unfolding sharing_def prod.case that ns(3)
    using ids_list_ops(3,4) [OF ns(1) assms(2,3)] ns(2) by (auto intro!: exI [of _ "append_shared ns nodes nid"])
  then show ?thesis
    unfolding add_joining_def s prod.case Let_def
    using assms s by (auto intro!: uph upholds_bind [OF start_pong_upholds])
qed

lemma join_ids:
  assumes "ids_ok m" "m \<noteq> []" "w \<in> set (split_spaces m)"
  shows "space_free w" "w \<noteq> []"
  using assms split_spaces_free by (auto simp: ids_ok_def)

lemma leader_step:
  assumes "known K l" "sharing l (st, nodes)"
  shows "node_ok K st" "leader_ok (l\<lparr>Nodes := nodes, Version := Version l + 1\<rparr>)"
    "leader_term (l\<lparr>Nodes := nodes, Version := Version l + 1\<rparr>) \<in> K"
    "rank (currentLeader st) < rank (l\<lparr>Nodes := nodes, Version := Version l + 1\<rparr>)"
proof -
  obtain ns where ns: "ids_list nodes" "ids_list ns" "currentLeader st = l\<lparr>Nodes := ns\<rparr>"
    using assms(2) by (auto simp: sharing_def)
  have "uint (Version l + 1) = uint (Version l) + 1"
    using assms(1) by (intro word64_succ) (simp add: known_def roomy_def)
  with ns(3) show "rank (currentLeader st) < rank (l\<lparr>Nodes := nodes, Version := Version l + 1\<rparr>)"
    by (simp add: rank_def)
  show "node_ok K st" "leader_ok (l\<lparr>Nodes := nodes, Version := Version l + 1\<rparr>)"
    "leader_term (l\<lparr>Nodes := nodes, Version := Version l + 1\<rparr>) \<in> K"
    using assms(1) ns by (simp_all add: node_ok_def known_def leader_ok_def roomy_def leader_term_def ids_list_def)
qed

lemma leader_round_upholds:
  assumes "node_ok K st"
  shows "node_upholds K (leader_round currentId ch st) (\<lambda>x. case x of Inl st \<Rightarrow> node_ok K st | Inr st \<Rightarrow> node_ok K st)"
proof -
  let ?l = "currentLeader st"
  have known: "known K ?l" using assms by (simp add: node_ok_def)
  have start: "sharing ?l (st, Nodes ?l)"
    using known_nodes [OF known] unfolding sharing_def by (auto intro!: exI [of _ "Nodes ?l"])
  have drops: "node_upholds K (io_fold drop_disconnected es (st, Nodes ?l)) (sharing ?l)" for es
    by (rule upholds_fold [where I = "sharing ?l"]) (use start drop_disconnected_upholds in auto)
  have adds: "node_upholds K (io_fold (add_joining lid) (split_spaces m) s) (sharing ?l)"
    if "ids_ok m" "m \<noteq> []" "sharing ?l s" for lid m s
    by (rule upholds_fold [where I = "sharing ?l"]) (use that add_joining_upholds join_ids [OF that(1,2)] in auto)
  have rest: "node_upholds K (io_bind (updateLeaderValue st' (?l\<lparr>Nodes := nodes, Version := Version ?l + 1\<rparr>)) (\<lambda>updatedLeader.
        io_bind (set_leader st' updatedLeader) (\<lambda>st.
        io_bind (ask_done (Sleep LEADER_UPDATE_INTERVAL)) (\<lambda>_. io_return (Inl st)))))
      (\<lambda>x. case x of Inl st \<Rightarrow> node_ok K st | Inr st \<Rightarrow> node_ok K st)" if "sharing ?l (st', nodes)" for st' nodes
    by (rule upholds_bind [OF updateLeaderValue_upholds [OF leader_step [OF known that]]])
       (auto intro!: uph upholds_bind [OF set_leader_upholds])
  have joins: "node_upholds K (case m of None \<Rightarrow> io_return (st', nodes)
          | Some joinAddr \<Rightarrow> if joinAddr \<noteq> [] \<and> joinAddr \<noteq> UNAVAILABLE
              then io_fold (add_joining lid) (split_spaces joinAddr) (st', nodes) else io_return (st', nodes)) (sharing ?l)"
    if "sharing ?l (st', nodes)" "\<And>x. m = Some x \<Longrightarrow> ids_ok x" for m st' nodes lid
    using that adds by (cases m) (auto intro!: uph)
  show ?thesis
    unfolding leader_round_def Let_def
    using assms
    by (auto intro!: uph upholds_bind [OF drops] rest upholds_bind [OF joins, unfolded option.case] split: prod.split)
qed

section \<open>A node\<close>

lemma ids_ok_join:
  assumes "ids_ok v" "space_free ID" "ID \<noteq> []"
  shows "ids_ok (if v = [] then ID else v @ '' '' @ ID)"
  using assms by (auto simp: ids_ok_def split_spaces_snoc split_spaces_word)

lemma ask_to_join_upholds:
  assumes "space_free ID" "ID \<noteq> []"
  shows "node_upholds K (ask_to_join ID) (\<lambda>_. True)"
proof -
  have loop: "node_upholds K (join_loop ID s) (\<lambda>_. True)" if "ids_ok (snd s)" for s
    unfolding join_loop_def
  proof (rule upholds_loop [where I = "\<lambda>s. ids_ok (snd s)"], rule that, goal_cases)
    case (1 s)
    then show ?case
      using ids_ok_join [OF _ assms, of "snd s"]
      by (cases s) (auto intro!: uph upholds_bind [OF testPutValU_join] simp: join_answer_def Let_def split: if_splits)
  qed
  have "ids_ok ID" using assms by (simp add: ids_ok_def split_spaces_word)
  then show ?thesis
    unfolding ask_to_join_def by (auto intro!: uph upholds_bind [OF testPutValU_join] loop simp: join_answer_def)
qed

lemma follower_round_upholds:
  assumes "node_ok K st" "space_free ID" "ID \<noteq> []"
  shows "node_upholds K (follower_round ID ch st) (\<lambda>x. case x of Inl st \<Rightarrow> node_ok K st | Inr st \<Rightarrow> node_ok K st)"
proof -
  have choice: "node_upholds K (case m of Some _ \<Rightarrow> becomeOrUpdateLeader ID st (currentLeader st)
      | None \<Rightarrow> io_bind (updateLeader st) (\<lambda>st.
          if \<not> hasId (Nodes (currentLeader st)) ID then io_bind (ask_to_join ID) (\<lambda>_. io_return st) else io_return st)) (node_ok K)"
    for m :: "string option"
    using assms becomeOrUpdateLeader_upholds
    by (cases m) (auto intro!: uph upholds_bind [OF updateLeader_upholds] upholds_bind [OF ask_to_join_upholds])
  show ?thesis
    unfolding follower_round_def
    using assms by (auto intro!: uph upholds_bind [OF choice, unfolded option.case])
qed

lemma main_loop_upholds:
  assumes "node_ok K st" "space_free ID" "ID \<noteq> []"
  shows "node_upholds K (main_loop ID st) (\<lambda>_. False)"
  unfolding main_loop_def
proof (rule upholds_loop [where I = "node_ok K"], rule assms(1), goal_cases)
  case (1 st)
  have "node_upholds K (leaderRoutine currentId ch st) (node_ok K)" if "node_ok K st" for currentId ch st
    unfolding leaderRoutine_def by (rule upholds_loop [where I = "node_ok K"]) (use that leader_round_upholds in auto)
  moreover have "node_upholds K (followerRoutine ID ch st) (node_ok K)" if "node_ok K st" for ch st
    unfolding followerRoutine_def
    by (rule upholds_loop [where I = "node_ok K"]) (use that follower_round_upholds assms(2,3) in auto)
  ultimately show ?case
    using 1 by (auto intro!: uph upholds_bind [where P = "node_ok K"] simp: Let_def node_ok_def)
qed

lemma node_main_upholds: "space_free ID \<Longrightarrow> ID \<noteq> [] \<Longrightarrow> node_upholds K (node_main ID) (\<lambda>_. False)"
  unfolding node_main_def by (rule upholds_bind [OF initLeader_upholds]) (auto intro: main_loop_upholds)

end
