(* ===== verification/ElectionSystem.thy ===== *)
theory ElectionSystem
  imports ElectionMain
begin

text \<open>
  Nodes of \<^verbatim>\<open>node.go\<close> running together on a key-value service. A thread is a goroutine with the replies it has got so
  far; a step answers the request one thread waits for. The service is known through the laws of the locale
  \<open>test_and_set\<close>, and the node of the key-value store of \<^verbatim>\<open>KvNode\<close> is an instance.
\<close>

section \<open>Every routine can go on\<close>

lemma resumable_calls [resumable_intros]:
  "resumable (ask_value q)" "resumable (ask_done q)" "resumable ask_leader" "resumable (ask_received ch)"
  "resumable (getNonceAndLock key)" "resumable (checkError err)"
  unfolding ask_value_def ask_done_def ask_leader_def ask_received_def getNonceAndLock_def checkError_def
  by (auto intro!: resumable_intros split: node_reply.split)

lemma resumable_retryU [resumable_intros]:
  assumes "\<And>k. resumable (call k)"
  shows "resumable (retryU key call)"
  unfolding retryU_def retry_loop_def setNonceAndUnlock_def
  by (auto intro!: resumable_intros assms split: prod.split)

lemma resumable_kv [resumable_intros]:
  "resumable (testPutVal k t v)" "resumable (getValU k)" "resumable (putValU k v)" "resumable (testPutValU k t v)"
  unfolding testPutVal_def getValU_def putValU_def testPutValU_def getVal_def putVal_def testPutVal_def
  by (auto intro!: resumable_intros)

lemma resumable_leader [resumable_intros]:
  "resumable (set_leader st l)" "resumable (start_pong lid st nid)" "resumable (updateLeader st)" "resumable (updateLeaderValue st l)"
  unfolding set_leader_def start_pong_def updateLeader_def updateLeaderValue_def Let_def
  by (auto intro!: resumable_intros split: prod.split)

lemma resumable_become [resumable_intros]: "resumable (initLeader ID st)" "resumable (becomeOrUpdateLeader ID st l)"
  unfolding initLeader_def init_loop_def becomeOrUpdateLeader_def become_loop_def setNonceAndUnlock_def Let_def
  by (auto intro!: resumable_intros split: prod.split)

lemma resumable_leader_round [resumable_intros]: "resumable (leader_round currentId ch st)"
  unfolding leader_round_def drop_disconnected_def add_joining_def Let_def
  by (auto intro!: resumable_intros split: prod.split option.split)

lemma resumable_follower_round [resumable_intros]: "resumable (follower_round ID ch st)"
  unfolding follower_round_def ask_to_join_def join_loop_def Let_def
  by (auto intro!: resumable_intros split: prod.split option.split)

lemma resumable_node_main: "resumable (node_main ID)"
  unfolding node_main_def main_loop_def leaderRoutine_def followerRoutine_def Let_def
  by (auto intro!: resumable_intros)

lemma resumable_goroutine: "resumable (goroutine_io ID g)"
  by (cases g) (auto intro!: resumable_intros
    simp: pongRoutine_def pong_loop_def joinRoutine_def take_joins_def pingRoutine_def ping_loop_def split: prod.split)

section \<open>Nodes and their goroutines\<close>

record elect_thread =
  th_node :: nat
  th_io :: "unit node_io"
  th_hist :: "node_reply list"

definition waits_for :: "elect_thread \<Rightarrow> node_request option" where
  "waits_for th = (case th_io th (th_hist th) of (_, Waiting q, _) \<Rightarrow> Some q | _ \<Rightarrow> None)"

definition feed :: "elect_thread \<Rightarrow> node_reply \<Rightarrow> elect_thread" where
  "feed th r = th\<lparr>th_hist := th_hist th @ [r]\<rparr>"

text \<open>What the goroutines of a node share, apart from channels: \<open>nonceMap\<close> with its locks, and \<open>currentLeader\<close>.\<close>

record node_shared =
  sh_nonce :: "string \<Rightarrow> uint64"
  sh_locked :: "string \<Rightarrow> bool"
  sh_leader :: LeaderVal

definition fresh_shared :: node_shared where
  "fresh_shared = \<lparr>sh_nonce = \<lambda>_. 0, sh_locked = \<lambda>_. False, sh_leader = zero_LeaderVal\<rparr>"

fun local_answer :: "node_shared \<Rightarrow> node_request \<Rightarrow> (node_shared \<times> node_reply) option" where
  "local_answer m (LockNonce k) =
     (if sh_locked m k then None else Some (m\<lparr>sh_locked := (sh_locked m)(k := True)\<rparr>, NonceIs (sh_nonce m k)))"
| "local_answer m (UnlockNonce k n) =
     Some (m\<lparr>sh_nonce := (sh_nonce m)(k := n), sh_locked := (sh_locked m)(k := False)\<rparr>, Done)"
| "local_answer m LoadLeader = Some (m, LeaderIs (sh_leader m))"
| "local_answer m (StoreLeader l) = Some (m\<lparr>sh_leader := l\<rparr>, Done)"
| "local_answer m (Sleep t) = Some (m, Done)"
| "local_answer m q = None"

fun is_kv :: "node_request \<Rightarrow> bool" where
  "is_kv (KvGet k) = True"
| "is_kv (KvPut k v) = True"
| "is_kv (KvTestSet k t v) = True"
| "is_kv q = False"

record 's elect =
  el_svc :: 's
  el_shared :: "nat \<Rightarrow> node_shared"
  el_threads :: "elect_thread list"

text \<open>
  A node starts with its main goroutine; a thread gets the answer to its request from the service, from the memory of
  its node, or over a channel (a send and a receive meet; a receive with \<open>default\<close> may also find nobody). The service may
  change by itself without changing values: a key becomes unavailable. A node that stops is one whose threads make no more
  steps.
\<close>

inductive elect_step ::
  "('s \<Rightarrow> node_request \<Rightarrow> 's \<times> node_reply) \<Rightarrow> ('s \<Rightarrow> string \<Rightarrow> string) \<Rightarrow> string list \<Rightarrow> 's elect \<Rightarrow> 's elect \<Rightarrow> bool"
  for call val ids where
  boot: "n < length ids \<Longrightarrow> \<forall>th\<in>set (el_threads e). th_node th \<noteq> n \<Longrightarrow>
    elect_step call val ids e
      (e\<lparr>el_shared := (el_shared e)(n := fresh_shared),
         el_threads := el_threads e @ [\<lparr>th_node = n, th_io = node_main (ids ! n), th_hist = []\<rparr>]\<rparr>)"
| kv: "i < length (el_threads e) \<Longrightarrow> waits_for (el_threads e ! i) = Some q \<Longrightarrow> is_kv q \<Longrightarrow> call (el_svc e) q = (s', r) \<Longrightarrow>
    elect_step call val ids e (e\<lparr>el_svc := s', el_threads := (el_threads e)[i := feed (el_threads e ! i) r]\<rparr>)"
| local: "i < length (el_threads e) \<Longrightarrow> waits_for (el_threads e ! i) = Some q \<Longrightarrow> n = th_node (el_threads e ! i) \<Longrightarrow>
    local_answer (el_shared e n) q = Some (m, r) \<Longrightarrow>
    elect_step call val ids e
      (e\<lparr>el_shared := (el_shared e)(n := m), el_threads := (el_threads e)[i := feed (el_threads e ! i) r]\<rparr>)"
| spawn: "i < length (el_threads e) \<Longrightarrow> waits_for (el_threads e ! i) = Some (Spawn g) \<Longrightarrow> n = th_node (el_threads e ! i) \<Longrightarrow>
    n < length ids \<Longrightarrow>
    elect_step call val ids e
      (e\<lparr>el_threads := (el_threads e)[i := feed (el_threads e ! i) Done] @
          [\<lparr>th_node = n, th_io = goroutine_io (ids ! n) g, th_hist = []\<rparr>]\<rparr>)"
| receive: "i < length (el_threads e) \<Longrightarrow> j < length (el_threads e) \<Longrightarrow> i \<noteq> j \<Longrightarrow>
    th_node (el_threads e ! i) = th_node (el_threads e ! j) \<Longrightarrow>
    waits_for (el_threads e ! i) = Some (TryReceive ch) \<Longrightarrow> waits_for (el_threads e ! j) = Some (Send ch m) \<Longrightarrow>
    elect_step call val ids e
      (e\<lparr>el_threads := (el_threads e)[i := feed (el_threads e ! i) (Received (Some m)), j := feed (el_threads e ! j) Done]\<rparr>)"
| nobody: "i < length (el_threads e) \<Longrightarrow> waits_for (el_threads e ! i) = Some (TryReceive ch) \<Longrightarrow>
    elect_step call val ids e (e\<lparr>el_threads := (el_threads e)[i := feed (el_threads e ! i) (Received None)]\<rparr>)"
| service: "val s' = val (el_svc e) \<Longrightarrow> elect_step call val ids e (e\<lparr>el_svc := s'\<rparr>)"

text \<open>The counters of the leader values on the service have not run out.\<close>

definition in_range :: "(string \<Rightarrow> string) \<Rightarrow> bool" where
  "in_range v \<longleftrightarrow> (\<forall>k l. leader_key k \<longrightarrow> leader_ok l \<longrightarrow> v k = LeaderValToString l \<longrightarrow> roomy l)"

text \<open>A run from an empty service, with the values that the keys have held.\<close>

inductive elect_run ::
  "('s \<Rightarrow> node_request \<Rightarrow> 's \<times> node_reply) \<Rightarrow> ('s \<Rightarrow> string \<Rightarrow> string) \<Rightarrow> string list \<Rightarrow> 's elect \<Rightarrow> (string \<times> string) set \<Rightarrow> bool"
  for call val ids where
  init: "\<forall>k. val (el_svc e) k = [] \<Longrightarrow> el_threads e = [] \<Longrightarrow> elect_run call val ids e {}"
| step: "elect_run call val ids e held \<Longrightarrow> elect_step call val ids e e' \<Longrightarrow> in_range (val (el_svc e')) \<Longrightarrow>
    elect_run call val ids e' (held \<union> {(k, val (el_svc e') k) | k. True})"

section \<open>The service\<close>

text \<open>
  What the nodes rely on: a call changes at most the key it names, test-and-set writes only over the tested value, and
  an answer without an error is \<open>unavailable\<close> or the value of the key after the call.
\<close>

locale test_and_set =
  fixes call :: "'s \<Rightarrow> node_request \<Rightarrow> 's \<times> node_reply" and val :: "'s \<Rightarrow> string \<Rightarrow> string"
  assumes get: "call s (KvGet k) = (s', r) \<Longrightarrow>
      val s' = val s \<and> (\<forall>v. r = Value v False \<longrightarrow> v = UNAVAILABLE \<or> v = val s' k)"
    and put: "call s (KvPut k v) = (s', r) \<Longrightarrow> val s' = val s \<or> val s' = (val s)(k := v)"
    and test_set: "call s (KvTestSet k t v) = (s', r) \<Longrightarrow>
      (val s' = val s \<or> val s k = t \<and> val s' = (val s)(k := v)) \<and>
      (\<forall>v. r = Value v False \<longrightarrow> v = UNAVAILABLE \<or> v = val s' k)"

text \<open>The node of \<^verbatim>\<open>kv-node.go\<close>, asked as the front end asks it, with the next version of the key.\<close>

definition kv_ask :: "kvmap \<Rightarrow> string \<Rightarrow> int \<Rightarrow> string \<Rightarrow> string \<Rightarrow> kvmap \<times> node_reply" where
  "kv_ask m k ty t v =
     (case handle_key (m, []) (k, \<lparr>ka_Type = ty, ka_Version = kv_Version (kv_lookup m k) + 1, ka_TestVal = t, ka_NewVal = v\<rparr>) of
        (m', resp) \<Rightarrow> (m', Value (kv_Value (kv_lookup resp k)) False))"

fun kv_call :: "kvmap \<Rightarrow> node_request \<Rightarrow> kvmap \<times> node_reply" where
  "kv_call m (KvGet k) = kv_ask m k GET [] []"
| "kv_call m (KvPut k v) = kv_ask m k PUT [] v"
| "kv_call m (KvTestSet k t v) = kv_ask m k TEST_PUT t v"
| "kv_call m q = (m, Done)"

definition kv_val :: "kvmap \<Rightarrow> string \<Rightarrow> string" where
  "kv_val m k = kv_Value (kv_lookup m k)"

lemma kv_ask_effect:
  assumes "kv_ask m k ty t v = (m', r)" "ty \<in> {GET, PUT, TEST_PUT}"
  shows "kv_val m' = kv_val m \<or> (ty = PUT \<or> ty = TEST_PUT \<and> kv_val m k = t) \<and> kv_val m' = (kv_val m)(k := v)"
    "ty \<noteq> PUT \<Longrightarrow> r = Value (kv_val m' k) False"
proof -
  let ?a = "\<lparr>ka_Type = ty, ka_Version = kv_Version (kv_lookup m k) + 1, ka_TestVal = t, ka_NewVal = v\<rparr>"
  obtain resp where run: "handle_key (m, []) (k, ?a) = (m', resp)" "r = Value (kv_Value (kv_lookup resp k)) False"
    using assms(1) by (auto simp: kv_ask_def split: prod.splits)
  have eff: "kv_lookup m' j = (if j = k then next_value ?a (kv_lookup m k) else kv_lookup m j)"
    "map_of resp j = (if j = k \<and> asks ?a then Some (answer ?a (next_value ?a (kv_lookup m k))) else None)" for j
    using handle_key_effect [of m "[]" k ?a j] run(1) by simp_all
  show "kv_val m' = kv_val m \<or> (ty = PUT \<or> ty = TEST_PUT \<and> kv_val m k = t) \<and> kv_val m' = (kv_val m)(k := v)"
    using assms(2) by (auto simp: kv_val_def fun_eq_iff eff(1) next_value_def request_types)
  have "asks ?a" using assms(2) by (auto simp: asks_def)
  then show "r = Value (kv_val m' k) False" if "ty \<noteq> PUT"
    using that run(2) eff by (simp add: kv_val_def kv_lookup_def answer_def)
qed

interpretation kv_node_service: test_and_set kv_call kv_val
proof
  show "kv_val s' = kv_val s \<and> (\<forall>v. r = Value v False \<longrightarrow> v = UNAVAILABLE \<or> v = kv_val s' k)"
    if "kv_call s (KvGet k) = (s', r)" for s k s' r
    using kv_ask_effect [of s k GET "[]" "[]" s' r] that by (simp add: request_types)
  show "kv_val s' = kv_val s \<or> kv_val s' = (kv_val s)(k := v)"
    if "kv_call s (KvPut k v) = (s', r)" for s k v s' r
    using kv_ask_effect(1) [of s k PUT "[]" v s' r] that by auto
  show "(kv_val s' = kv_val s \<or> kv_val s k = t \<and> kv_val s' = (kv_val s)(k := v)) \<and>
      (\<forall>v. r = Value v False \<longrightarrow> v = UNAVAILABLE \<or> v = kv_val s' k)"
    if "kv_call s (KvTestSet k t v) = (s', r)" for s k t v s' r
    using kv_ask_effect [of s k TEST_PUT t v s' r] that by (auto simp: request_types)
qed

end
