(* ===== verification/ElectionSafety.thy ===== *)
theory ElectionSafety
  imports ElectionSystem
begin

text \<open>
  Safety of the election: the value of the leader key only advances, and a term (era and nonce) has one leader, whatever
  nodes start or stop, however their goroutines interleave, and whichever calls fail.
\<close>

section \<open>The invariant\<close>

definition elect_thread_ok :: "terms \<Rightarrow> elect_thread \<Rightarrow> bool" where
  "elect_thread_ok K th \<longleftrightarrow> resumable (th_io th) \<and> (\<forall>K. node_upholds K (th_io th) (\<lambda>_. True)) \<and>
     (\<forall>tr st rs. th_io th (th_hist th) = (tr, st, rs) \<longrightarrow> (\<forall>(q, r)\<in>set tr. good_reply K q r))"

definition one_leader :: "terms \<Rightarrow> bool" where
  "one_leader K \<longleftrightarrow> (\<forall>e n i j. (e, n, i) \<in> K \<longrightarrow> (e, n, j) \<in> K \<longrightarrow> i = j)"

text \<open>A term was begun on the key with its nonce, which has since held its era or a later one.\<close>

definition terms_begun :: "terms \<Rightarrow> (string \<Rightarrow> string) \<Rightarrow> bool" where
  "terms_begun K v \<longleftrightarrow> (\<forall>e n i. (e, n, i) \<in> K \<longrightarrow>
     (\<exists>l. leader_ok l \<and> v (LEADER_KEY @ uInt64ToStr n) = LeaderValToString l \<and> e \<le> Era l))"

definition values_ok :: "terms \<Rightarrow> (string \<Rightarrow> string) \<Rightarrow> bool" where
  "values_ok K v \<longleftrightarrow> (\<forall>k. (leader_key k \<longrightarrow> leader_reply K (v k)) \<and> (join_key k \<longrightarrow> ids_ok (v k)))"

definition elect_inv :: "('s \<Rightarrow> string \<Rightarrow> string) \<Rightarrow> terms \<Rightarrow> 's elect \<Rightarrow> (string \<times> string) set \<Rightarrow> bool" where
  "elect_inv val K e held \<longleftrightarrow> one_leader K \<and> terms_begun K (val (el_svc e)) \<and> values_ok K (val (el_svc e)) \<and>
     (\<forall>th\<in>set (el_threads e). elect_thread_ok K th) \<and> (\<forall>(k, v)\<in>held. leader_key k \<longrightarrow> leader_reply K v)"

lemma leader_reply_mono: "leader_reply K v \<Longrightarrow> K \<subseteq> K' \<Longrightarrow> leader_reply K' v"
  by (auto simp: leader_reply_def known_def)

lemma good_reply_mono: "good_reply K q r \<Longrightarrow> K \<subseteq> K' \<Longrightarrow> good_reply K' q r"
  by (induction K q r rule: good_reply.induct) (auto simp: kv_reply_def dest: leader_reply_mono)

lemma elect_thread_ok_mono: "elect_thread_ok K th \<Longrightarrow> K \<subseteq> K' \<Longrightarrow> elect_thread_ok K' th"
  unfolding elect_thread_ok_def using good_reply_mono by blast

lemma waits_for_run: "waits_for th = Some q \<longleftrightarrow> (\<exists>tr rs. th_io th (th_hist th) = (tr, Waiting q, rs))"
  by (cases "th_io th (th_hist th)") (auto simp: waits_for_def split: status.splits)

lemma waits_for_good:
  assumes "elect_thread_ok K th" "waits_for th = Some q"
  shows "good_request K q"
proof -
  obtain tr rs where run: "th_io th (th_hist th) = (tr, Waiting q, rs)" using assms(2) by (auto simp: waits_for_run)
  then have tr: "\<forall>(q, r)\<in>set tr. good_reply K q r" and up: "node_upholds K (th_io th) (\<lambda>_. True)"
    using assms(1) by (auto simp: elect_thread_ok_def)
  show ?thesis by (rule upholdsD(2) [where m = "th_io th" and rs = "th_hist th", OF up run tr]) simp
qed

lemma feed_ok:
  assumes "elect_thread_ok K th" "waits_for th = Some q" "good_reply K q r"
  shows "elect_thread_ok K (feed th r)"
proof -
  obtain tr rs where run: "th_io th (th_hist th) = (tr, Waiting q, rs)" using assms(2) by (auto simp: waits_for_run)
  have "resumable (th_io th)" using assms(1) by (simp add: elect_thread_ok_def)
  from resumable_next [OF this run, of r] obtain st' rs' where
    "th_io th (th_hist th @ [r]) = (tr @ [(q, r)], st', rs')" by blast
  with assms(1,3) run show ?thesis by (auto simp: elect_thread_ok_def feed_def)
qed

lemma new_elect_thread_ok:
  assumes "resumable m" "\<And>K. node_upholds K m (\<lambda>_. True)"
  shows "elect_thread_ok K \<lparr>th_node = n, th_io = m, th_hist = []\<rparr>"
proof -
  have "tr = []" if "m [] = (tr, st, rs)" for tr st rs
    using resumableD(3) [OF assms(1) that] by simp
  with assms show ?thesis by (auto simp: elect_thread_ok_def)
qed

section \<open>Writing to the service\<close>

lemma leader_not_join: "leader_key k \<Longrightarrow> \<not> join_key k"
  by (auto simp: leader_key_def)

text \<open>A write that keeps to \<open>leader_write\<close> extends the known terms by at most its own and keeps what is known of them.\<close>

lemma leader_write_inv:
  assumes inv: "one_leader K" "terms_begun K v" "values_ok K v" and k: "leader_key k"
    and w: "leader_write K k (v k) x" and range: "in_range (v(k := x))"
  shows "\<exists>K'. K \<subseteq> K' \<and> one_leader K' \<and> terms_begun K' (v(k := x)) \<and> values_ok K' (v(k := x)) \<and>
    (v k = [] \<or> (\<exists>a b. known K' a \<and> known K' b \<and> v k = LeaderValToString a \<and> x = LeaderValToString b \<and> rank a < rank b))"
proof -
  obtain b where b: "leader_ok b" "x = LeaderValToString b" "overtakes (v k) b" "leader_term b \<in> K \<or> new_term k (v k) b"
    using w by (auto simp: leader_write_def)
  let ?K = "insert (leader_term b) K"
  have "roomy b" using range k b(1,2) by (auto simp: in_range_def)
  then have kb: "known ?K b" using b(1) by (simp add: known_def)
  have era: "Era l \<le> Era b" if "leader_ok l" "v k = LeaderValToString l" for l
    using b(3) that by (fastforce simp: overtakes_def rank_def less_prod_def word_le_def)
  have "j = Id b" if "(Era b, leader_Nonce b, j) \<in> K" for j
  proof (cases "leader_term b \<in> K")
    case True
    then show ?thesis using inv(1) that by (auto simp: one_leader_def leader_term_def)
  next
    case False
    then have new: "k = LEADER_KEY @ uInt64ToStr (leader_Nonce b)" "\<And>a. leader_ok a \<Longrightarrow> v k = LeaderValToString a \<Longrightarrow> Era a < Era b"
      using b(4) by (auto simp: new_term_def)
    then show ?thesis using inv(2) that by (fastforce simp: terms_begun_def)
  qed
  then have "one_leader ?K" using inv(1) by (auto simp: one_leader_def leader_term_def)
  moreover have "terms_begun ?K (v(k := x))"
    unfolding terms_begun_def
  proof (intro allI impI)
    fix e n i
    assume mem: "(e, n, i) \<in> ?K"
    show "\<exists>l. leader_ok l \<and> (v(k := x)) (LEADER_KEY @ uInt64ToStr n) = LeaderValToString l \<and> e \<le> Era l"
    proof (cases "(e, n, i) \<in> K")
      case True
      then obtain l where l: "leader_ok l" "v (LEADER_KEY @ uInt64ToStr n) = LeaderValToString l" "e \<le> Era l"
        using inv(2) by (auto simp: terms_begun_def)
      then show ?thesis using b(1,2) era by (cases "LEADER_KEY @ uInt64ToStr n = k") (auto intro: order_trans)
    next
      case False
      then have "leader_term b \<notin> K" "e = Era b" "n = leader_Nonce b" using mem by (auto simp: leader_term_def)
      then show ?thesis using b by (auto simp: new_term_def)
    qed
  qed
  moreover have "values_ok ?K (v(k := x))"
    using inv(3) b(2) kb leader_not_join [OF k] leader_reply_mono [of K _ ?K]
    by (auto simp: values_ok_def leader_reply_def known_def)
  moreover have "v k = [] \<or> (\<exists>a b. known ?K a \<and> known ?K b \<and> v k = LeaderValToString a \<and> x = LeaderValToString b \<and> rank a < rank b)"
  proof -
    have "v k = [] \<or> (\<exists>a. known K a \<and> v k = LeaderValToString a)" using inv(3) k by (auto simp: values_ok_def leader_reply_def)
    moreover have "rank a < rank b" if "known K a" "v k = LeaderValToString a" for a
      using b(3) that by (auto simp: overtakes_def known_def)
    ultimately show ?thesis using kb b(2) by (auto simp: known_def)
  qed
  ultimately show ?thesis by blast
qed

lemma terms_begun_cong:
  assumes "terms_begun K v" "\<forall>k. leader_key k \<longrightarrow> v' k = v k"
  shows "terms_begun K v'"
  using assms(1) unfolding terms_begun_def by (simp add: assms(2))

text \<open>How a key may change in one step.\<close>

definition advances :: "string \<Rightarrow> string \<Rightarrow> bool" where
  "advances x y \<longleftrightarrow> y = x \<or> x = [] \<or> (\<exists>a b. leader_ok a \<and> leader_ok b \<and> x = LeaderValToString a \<and> y = LeaderValToString b \<and> rank a < rank b)"

context test_and_set
begin

lemma kv_call_inv:
  assumes inv: "one_leader K" "terms_begun K (val s)" "values_ok K (val s)"
    and q: "is_kv q" "good_request K q" "call s q = (s', r)" and range: "in_range (val s')"
  shows "\<exists>K'. K \<subseteq> K' \<and> one_leader K' \<and> terms_begun K' (val s') \<and> values_ok K' (val s') \<and> good_reply K' q r \<and>
    (\<forall>k. leader_key k \<longrightarrow> advances (val s k) (val s' k))"
proof (cases q)
  case (KvGet k)
  then show ?thesis
    using get [of s k s' r] q(3) inv by (intro exI [of _ K]) (auto simp: values_ok_def kv_reply_def advances_def)
next
  case (KvPut k v)
  then have "values_ok K (val s')" and same: "\<forall>k. leader_key k \<longrightarrow> val s' k = val s k"
    using put [of s k v s' r] q inv(3) by (auto simp: values_ok_def)
  then show ?thesis
    using inv(1) terms_begun_cong [OF inv(2) same] KvPut by (intro exI [of _ K]) (auto simp: advances_def)
next
  case (KvTestSet k t v)
  have reply: "good_reply K' q r" if "values_ok K' (val s')" for K'
    using test_set [of s k t v s' r] q(3) that KvTestSet by (auto simp: values_ok_def kv_reply_def)
  have cases: "val s' = val s \<or> val s k = t \<and> val s' = (val s)(k := v)"
    using test_set [of s k t v s' r] q(3) KvTestSet by simp
  show ?thesis
  proof (cases "val s' = val s")
    case True
    then show ?thesis using inv reply by (intro exI [of _ K]) (auto simp: advances_def)
  next
    case False
    then have w: "val s k = t" "val s' = (val s)(k := v)" using cases by auto
    show ?thesis
    proof (cases "leader_key k")
      case True
      then have "leader_write K k (val s k) v" using q(2) KvTestSet w(1) by simp
      from leader_write_inv [OF inv True this] range [unfolded w(2)] obtain K' where
        K': "K \<subseteq> K'" "one_leader K'" "terms_begun K' (val s')" "values_ok K' (val s')"
          "val s k = [] \<or> (\<exists>a b. known K' a \<and> known K' b \<and> val s k = LeaderValToString a \<and> v = LeaderValToString b \<and> rank a < rank b)"
        unfolding w(2) by blast
      then have "advances (val s k) (val s' k)" using w(2) by (auto simp: advances_def known_def)
      then have "\<forall>j. leader_key j \<longrightarrow> advances (val s j) (val s' j)" using w(2) by (auto simp: advances_def)
      with K' reply show ?thesis by blast
    next
      case False
      then have "values_ok K (val s')" and same: "\<forall>j. leader_key j \<longrightarrow> val s' j = val s j"
        using w(2) q(2) KvTestSet inv(3) by (auto simp: values_ok_def)
      then show ?thesis
        using inv(1) terms_begun_cong [OF inv(2) same] reply by (intro exI [of _ K]) (auto simp: advances_def)
    qed
  qed
qed (use q(1) in auto)

text \<open>A step that leaves the values alone keeps the invariant when it keeps the threads in order.\<close>

lemma quiet_inv:
  assumes "elect_inv val K e held" "val (el_svc e') = val (el_svc e)" "\<forall>th\<in>set (el_threads e'). elect_thread_ok K th"
  shows "elect_inv val K e' (held \<union> {(k, val (el_svc e') k) | k. True})"
  using assms by (auto simp: elect_inv_def values_ok_def)

lemma update_threads:
  assumes "\<forall>th\<in>set ths. elect_thread_ok K th" "elect_thread_ok K x"
  shows "\<forall>th\<in>set (ths[i := x]). elect_thread_ok K th"
  using assms set_update_subset_insert [of ths i x] by blast

lemma elect_step_inv:
  assumes ids: "\<forall>nid\<in>set ids. space_free nid \<and> nid \<noteq> []" and inv: "elect_inv val K e held"
    and step: "elect_step call val ids e e'" and range: "in_range (val (el_svc e'))"
  shows "\<exists>K'. elect_inv val K' e' (held \<union> {(k, val (el_svc e') k) | k. True}) \<and>
    (\<forall>k. leader_key k \<longrightarrow> advances (val (el_svc e) k) (val (el_svc e') k))"
proof -
  have ths: "\<forall>th\<in>set (el_threads e). elect_thread_ok K th" using inv by (simp add: elect_inv_def)
  have quiet: ?thesis if "val (el_svc e') = val (el_svc e)" "\<forall>th\<in>set (el_threads e'). elect_thread_ok K th"
    using quiet_inv [OF inv that] that(1) by (auto simp: advances_def)
  have fed: "elect_thread_ok K (feed (el_threads e ! i) r)"
    if "i < length (el_threads e)" "waits_for (el_threads e ! i) = Some q" "good_reply K q r" for i q r
    using that ths feed_ok nth_mem by blast
  show ?thesis
    using step
  proof cases
    case (boot n)
    have "elect_thread_ok K \<lparr>th_node = n, th_io = node_main (ids ! n), th_hist = []\<rparr>"
      using boot(2) ids
      by (intro new_elect_thread_ok resumable_node_main upholds_weaken [OF node_main_upholds]) (auto simp: nth_mem)
    then show ?thesis using boot(1) ths by (intro quiet) auto
  next
    case (kv i q s' r)
    have "good_request K q" using kv(2,3) ths waits_for_good nth_mem by blast
    from kv_call_inv [OF _ _ _ kv(4) this kv(5)] inv range kv(1) obtain K' where
      K': "K \<subseteq> K'" "one_leader K'" "terms_begun K' (val s')" "values_ok K' (val s')" "good_reply K' q r"
        "\<forall>k. leader_key k \<longrightarrow> advances (val (el_svc e) k) (val s' k)"
      by (auto simp: elect_inv_def)
    have ths': "\<forall>th\<in>set (el_threads e). elect_thread_ok K' th" using ths K'(1) elect_thread_ok_mono by blast
    then have "elect_thread_ok K' (feed (el_threads e ! i) r)" using kv(2,3) K'(5) feed_ok nth_mem by blast
    from update_threads [OF ths' this] have "elect_inv val K' e' (held \<union> {(k, val (el_svc e') k) | k. True})"
      using inv K' kv(1) leader_reply_mono [OF _ K'(1)] by (auto simp: elect_inv_def values_ok_def)
    with K'(6) kv(1) show ?thesis by auto
  next
    case (local i q n m r)
    have "good_reply K q r" using local(5) by (cases q) (auto split: if_splits)
    from update_threads [OF ths fed [OF local(2,3) this]] show ?thesis using local(1) by (intro quiet) auto
  next
    case (spawn i g n)
    have "good_request K (Spawn g)" using spawn(2,3) ths waits_for_good nth_mem by blast
    then have "good_request K' (Spawn g)" for K' by simp
    then have new: "elect_thread_ok K \<lparr>th_node = n, th_io = goroutine_io (ids ! n) g, th_hist = []\<rparr>"
      using spawn(5) ids by (intro new_elect_thread_ok resumable_goroutine goroutine_upholds) (auto simp: nth_mem)
    have "elect_thread_ok K (feed (el_threads e ! i) Done)" by (rule fed [OF spawn(2,3)]) simp
    from update_threads [OF ths this] new show ?thesis using spawn(1) by (intro quiet) auto
  next
    case (receive i j ch m)
    have "good_request K (Send ch m)" using receive(3,7) ths waits_for_good nth_mem by blast
    then have "elect_thread_ok K (feed (el_threads e ! i) (Received (Some m)))" "elect_thread_ok K (feed (el_threads e ! j) Done)"
      using fed [OF receive(2,6)] fed [OF receive(3,7)] by auto
    from update_threads [OF update_threads [OF ths this(1)] this(2)] show ?thesis using receive(1) by (intro quiet) auto
  next
    case (nobody i ch)
    have "elect_thread_ok K (feed (el_threads e ! i) (Received None))" by (rule fed [OF nobody(2,3)]) simp
    from update_threads [OF ths this] show ?thesis using nobody(1) by (intro quiet) auto
  next
    case (service s')
    then show ?thesis using ths by (intro quiet) auto
  qed
qed

lemma elect_run_inv:
  assumes ids: "\<forall>nid\<in>set ids. space_free nid \<and> nid \<noteq> []" and run: "elect_run call val ids e held"
  shows "\<exists>K. elect_inv val K e held"
  using run
proof induction
  case (init e)
  then show ?case
    by (intro exI [of _ "{}"])
       (auto simp: elect_inv_def one_leader_def terms_begun_def values_ok_def leader_reply_def ids_ok_def)
next
  case (step e held e')
  then obtain K where "elect_inv val K e held" by blast
  from elect_step_inv [OF ids this step.hyps(2,3)] show ?case by blast
qed

end

section \<open>Properties\<close>

text \<open>A leader value survives the way to the service and back, when ids are words.\<close>

theorem LeaderVal_roundtrip:
  assumes "leader_ok l"
  shows "StringToLeaderVal (LeaderValToString l) = returns l"
  by (rule StringToLeaderVal_ok [OF assms])

theorem LeaderVal_roundtrip_witness:
  "StringToLeaderVal (LeaderValToString \<lparr>Era = 3, leader_Nonce = 1, Version = 20, Id = ''a'', Nodes = [''b'', ''c'']\<rparr>) =
    returns \<lparr>Era = 3, leader_Nonce = 1, Version = 20, Id = ''a'', Nodes = [''b'', ''c'']\<rparr>"
  by (rule LeaderVal_roundtrip) (simp add: leader_ok_def space_free_def)

text \<open>C35: One leader per term. Whatever nodes start and stop, however their goroutines interleave and whichever calls fail,
  two leader values of the same era and nonce that a leader key has ever held name the same leader.\<close>

theorem one_leader_per_term:
  assumes "test_and_set call val" "\<forall>nid\<in>set ids. space_free nid \<and> nid \<noteq> []" "elect_run call val ids e held"
    "(LEADER_KEY @ uInt64ToStr n, v) \<in> held" "StringToLeaderVal v = returns a"
    "(LEADER_KEY @ uInt64ToStr m, w) \<in> held" "StringToLeaderVal w = returns b"
    "Era a = Era b" "leader_Nonce a = leader_Nonce b"
  shows "Id a = Id b"
proof -
  obtain K where inv: "elect_inv val K e held"
    using test_and_set.elect_run_inv [OF assms(1-3)] by blast
  then have "leader_reply K v" "leader_reply K w"
    using assms(4,6) by (auto simp: elect_inv_def)
  then have "known K a" "known K b" using parse_reply(1) assms(5,7) by blast+
  with inv assms(8,9) show ?thesis by (auto simp: elect_inv_def one_leader_def known_def leader_term_def)
qed

text \<open>C36: In every step of every run, a leader key keeps its value, gets its first value, or gets one that
  \<open>compareLeaders\<close> puts after the old one: no old leader ever comes back.\<close>

theorem leader_key_advances:
  assumes "test_and_set call val" "\<forall>nid\<in>set ids. space_free nid \<and> nid \<noteq> []" "elect_run call val ids e held"
    "elect_step call val ids e e'" "in_range (val (el_svc e'))" "x = val (el_svc e) (LEADER_KEY @ uInt64ToStr n)"
    "y = val (el_svc e') (LEADER_KEY @ uInt64ToStr n)"
  shows "y = x \<or> x = [] \<or>
    (\<exists>a b. StringToLeaderVal x = returns a \<and> StringToLeaderVal y = returns b \<and> compareLeaders b a = 1)"
proof -
  obtain K where inv: "elect_inv val K e held"
    using test_and_set.elect_run_inv [OF assms(1-3)] by blast
  have "advances x y"
    using test_and_set.elect_step_inv [OF assms(1,2) inv assms(4,5)] assms(6,7) by auto
  then consider "y = x" | "x = []"
    | a b where "leader_ok a" "leader_ok b" "x = LeaderValToString a" "y = LeaderValToString b" "rank a < rank b"
    unfolding advances_def by blast
  then show ?thesis
  proof cases
    case 3
    then have "compareLeaders b a = 1" by (auto simp: compareLeaders_rank)
    with 3 show ?thesis using StringToLeaderVal_ok by metis
  qed auto
qed

section \<open>Unavailable keys\<close>

lemma ask_value_run: "ask_value q (Value v err # rs) = ([(q, Value v err)], Ended (Inr (v, err)), rs)"
  by (simp add: ask_value_def io_bind_def io_return_def)

lemma retry_loop_stops:
  "v \<noteq> UNAVAILABLE \<Longrightarrow> retry_loop call (n, v, err) rs = ([], Ended (Inr (n, v, err)), rs)"
  by (simp add: retry_loop_def io_loop.simps io_return_def)

lemma retry_loop_step:
  "retry_loop (\<lambda>n. ask_value (q n)) (n, UNAVAILABLE, False) (Value v err # rs) =
    (case retry_loop (\<lambda>n. ask_value (q n)) (n + 1, v, err) rs of (tr, st, rs') \<Rightarrow> ((q (n + 1), Value v err) # tr, st, rs'))"
  by (simp add: retry_loop_def io_loop.simps [of _ "(n, UNAVAILABLE, False)"] io_bind_def io_return_def ask_value_run)

lemma retry_loop_run:
  assumes "v \<noteq> UNAVAILABLE"
  shows "retry_loop (\<lambda>n. ask_value (q n)) (n, UNAVAILABLE, False) (replicate j (Value UNAVAILABLE False) @ Value v err # rs) =
    (map (\<lambda>i. (q (n + word_of_nat (Suc i)), if i < j then Value UNAVAILABLE False else Value v err)) [0..<Suc j],
     Ended (Inr (n + word_of_nat (Suc j), v, err)), rs)"
proof (induction j arbitrary: n)
  case 0
  then show ?case using assms by (simp add: retry_loop_step retry_loop_stops)
next
  case (Suc j)
  have "[0..<Suc (Suc j)] = 0 # map Suc [0..<Suc j]" by (simp add: map_Suc_upt upt_conv_Cons del: upt_Suc)
  then show ?case using Suc [of "n + 1"] by (simp add: retry_loop_step add.assoc del: upt_Suc) 
qed

text \<open>The calls of a retried request: one at each nonce from \<open>n\<close> on, the last one available.\<close>

definition retry_trace :: "string \<Rightarrow> (string \<Rightarrow> node_request) \<Rightarrow> uint64 \<Rightarrow> nat \<Rightarrow> node_reply \<Rightarrow> (node_request \<times> node_reply) list" where
  "retry_trace key q n j r =
     (LockNonce key, NonceIs n) #
     map (\<lambda>i. (q (key @ uInt64ToStr (n + word_of_nat i)), if i < j then Value UNAVAILABLE False else r)) [0..<Suc j] @
     [(UnlockNonce key (n + word_of_nat j), Done)]"

lemma retryU_run:
  assumes "v \<noteq> UNAVAILABLE"
  shows "retryU key (\<lambda>k. ask_value (q k)) (NonceIs n # replicate j (Value UNAVAILABLE False) @ [Value v err, Done]) =
    (retry_trace key q n j (Value v err), Ended (Inr (v, err)), [])"
proof (cases j)
  case 0
  then show ?thesis
    using assms
    by (simp add: retryU_def retry_trace_def io_bind_def getNonceAndLock_def setNonceAndUnlock_def ask_done_def io_return_def
        ask_value_run retry_loop_stops)
next
  case (Suc i)
  have "[0..<Suc (Suc i)] = 0 # map Suc [0..<Suc i]" by (simp add: map_Suc_upt upt_conv_Cons del: upt_Suc)
  then show ?thesis
    using assms Suc retry_loop_run [OF assms, of "\<lambda>n. q (key @ uInt64ToStr n)" n i err "[Done]"]
    by (simp add: retryU_def retry_trace_def io_bind_def getNonceAndLock_def setNonceAndUnlock_def ask_done_def io_return_def
        ask_value_run del: upt_Suc)
qed

text \<open>While a key is unavailable, a call goes on to the next nonce; it ends at the first available one, returns what
  that key answered, and leaves its nonce behind for the next call. All three kinds of call do so.\<close>

theorem calls_skip_unavailable:
  assumes "v \<noteq> UNAVAILABLE" "rs = NonceIs n # replicate j (Value UNAVAILABLE False) @ [Value v err, Done]"
  shows "getValU key rs = (retry_trace (key @ '' '') KvGet n j (Value v err), Ended (Inr (v, err)), []) \<and>
    putValU key x rs = (retry_trace (key @ '' '') (\<lambda>k. KvPut k x) n j (Value v err), Ended (Inr (v, err)), []) \<and>
    testPutValU key t x rs = (retry_trace (key @ '' '') (\<lambda>k. KvTestSet k t x) n j (Value v err), Ended (Inr (v, err)), [])"
  using retryU_run [OF assms(1)]
  by (simp add: assms(2) getValU_def putValU_def testPutValU_def getVal_def [abs_def] putVal_def testPutVal_def)

theorem calls_skip_unavailable_witness:
  "getValU ''leader key'' [NonceIs 4, Value UNAVAILABLE False, Value ''x'' False, Done] =
    (retry_trace ''leader key '' KvGet 4 1 (Value ''x'' False), Ended (Inr (''x'', False)), [])"
  using calls_skip_unavailable [of "''x''" _ 4 1 False "''leader key''"] by (simp add: UNAVAILABLE_def)

section \<open>A run\<close>

text \<open>A single node on the store of \<^verbatim>\<open>kv-node.go\<close> starts and makes itself leader.\<close>

definition sample_thread :: "node_reply list \<Rightarrow> elect_thread" where
  "sample_thread rs = \<lparr>th_node = 0, th_io = node_main ''a'', th_hist = rs\<rparr>"

definition sample_leader :: LeaderVal where
  "sample_leader = \<lparr>Era = 0, leader_Nonce = 0, Version = 0, Id = ''a'', Nodes = []\<rparr>"

definition sample_shared :: node_shared where
  "sample_shared = fresh_shared\<lparr>sh_locked := (\<lambda>_. False)(LEADER_KEY := True)\<rparr>"

definition sample_state :: "nat \<Rightarrow> kvmap elect" where
  "sample_state i =
     (if i = 0 then \<lparr>el_svc = [], el_shared = \<lambda>_. fresh_shared, el_threads = []\<rparr>
      else if i = 1 then \<lparr>el_svc = [], el_shared = \<lambda>_. fresh_shared, el_threads = [sample_thread []]\<rparr>
      else if i = 2 then \<lparr>el_svc = [], el_shared = (\<lambda>_. fresh_shared)(0 := sample_shared), el_threads = [sample_thread [NonceIs 0]]\<rparr>
      else \<lparr>el_svc = [(''leader key 0'', \<lparr>kv_Version = 1, kv_Value = ''0 0 0 a ''\<rparr>)],
             el_shared = (\<lambda>_. fresh_shared)(0 := sample_shared),
             el_threads = [sample_thread [NonceIs 0, Value ''0 0 0 a '' False]]\<rparr>)"

lemma sample_waits:
  "waits_for (sample_thread []) = Some (LockNonce LEADER_KEY)"
  "waits_for (sample_thread [NonceIs 0]) = Some (KvTestSet ''leader key 0'' [] ''0 0 0 a '')"
  by code_simp+

lemma sample_in_range:
  assumes "\<forall>k. leader_key k \<longrightarrow> v k = [] \<or> v k = LeaderValToString sample_leader"
  shows "in_range v"
proof -
  have "leader_ok sample_leader" "roomy sample_leader"
    by (simp_all add: sample_leader_def leader_ok_def space_free_def roomy_def)
  then show ?thesis
    using assms no_leader_text(1) LeaderValToString_inject unfolding in_range_def by metis
qed

lemma sample_steps:
  "elect_step kv_call kv_val [''a''] (sample_state 0) (sample_state 1)"
  "elect_step kv_call kv_val [''a''] (sample_state 1) (sample_state 2)"
  "elect_step kv_call kv_val [''a''] (sample_state 2) (sample_state 3)"
proof -
  have "(\<lambda>_. fresh_shared)(0 :: nat := fresh_shared) = (\<lambda>_. fresh_shared)" by (rule ext) simp
  then show "elect_step kv_call kv_val [''a''] (sample_state 0) (sample_state 1)"
    using elect_step.boot [of 0 "[''a'']" "sample_state 0" kv_call kv_val] by (simp add: sample_state_def sample_thread_def)
  show "elect_step kv_call kv_val [''a''] (sample_state 1) (sample_state 2)"
    using elect_step.local [of 0 "sample_state 1" "LockNonce LEADER_KEY" 0 sample_shared "NonceIs 0" kv_call kv_val "[''a'']"] sample_waits(1)
    by (simp add: sample_state_def sample_thread_def feed_def fresh_shared_def sample_shared_def)
  have "kv_call [] (KvTestSet ''leader key 0'' [] ''0 0 0 a '') =
      ([(''leader key 0'', \<lparr>kv_Version = 1, kv_Value = ''0 0 0 a ''\<rparr>)], Value ''0 0 0 a '' False)"
    by code_simp
  then show "elect_step kv_call kv_val [''a''] (sample_state 2) (sample_state 3)"
    using elect_step.kv [of 0 "sample_state 2" "KvTestSet ''leader key 0'' [] ''0 0 0 a ''" kv_call] sample_waits(2)
    by (simp add: sample_state_def sample_thread_def feed_def)
qed

lemma sample_values:
  "i < 3 \<Longrightarrow> kv_val (el_svc (sample_state i)) k = []"
  "kv_val (el_svc (sample_state 3)) k = (if k = ''leader key 0'' then LeaderValToString sample_leader else [])"
proof -
  have "LeaderValToString sample_leader = ''0 0 0 a ''" by code_simp
  then show "i < 3 \<Longrightarrow> kv_val (el_svc (sample_state i)) k = []"
    "kv_val (el_svc (sample_state 3)) k = (if k = ''leader key 0'' then LeaderValToString sample_leader else [])"
    by (auto simp: sample_state_def kv_val_def kv_lookup_def no_value_def)
qed

lemma sample_run:
  "\<exists>held. elect_run kv_call kv_val [''a''] (sample_state 2) held"
  "\<exists>held. elect_run kv_call kv_val [''a''] (sample_state 3) held \<and>
    (LEADER_KEY @ uInt64ToStr 0, LeaderValToString sample_leader) \<in> held"
proof -
  have "elect_run kv_call kv_val [''a''] (sample_state 0) {}"
    by (rule elect_run.init) (simp add: sample_values(1), simp add: sample_state_def)
  from elect_run.step [OF this sample_steps(1)] sample_values(1) [of 1]
  obtain h1 where "elect_run kv_call kv_val [''a''] (sample_state 1) h1" using sample_in_range by auto
  from elect_run.step [OF this sample_steps(2)] sample_values(1) [of 2]
  obtain h2 where run2: "elect_run kv_call kv_val [''a''] (sample_state 2) h2" using sample_in_range by auto
  then show "\<exists>held. elect_run kv_call kv_val [''a''] (sample_state 2) held" by blast
  have "LEADER_KEY @ uInt64ToStr 0 = ''leader key 0''" by code_simp
  then show "\<exists>held. elect_run kv_call kv_val [''a''] (sample_state 3) held \<and>
    (LEADER_KEY @ uInt64ToStr 0, LeaderValToString sample_leader) \<in> held"
    using elect_run.step [OF run2 sample_steps(3)] sample_in_range by (auto simp: sample_values(2))
qed

theorem one_leader_per_term_witness:
  "\<exists>held. (LEADER_KEY @ uInt64ToStr 0, LeaderValToString sample_leader) \<in> held \<and>
    (\<forall>v b. (LEADER_KEY @ uInt64ToStr 0, v) \<in> held \<and> StringToLeaderVal v = returns b \<and> Era b = 0 \<and> leader_Nonce b = 0 \<longrightarrow>
      Id b = ''a'')"
proof -
  obtain held where held: "elect_run kv_call kv_val [''a''] (sample_state 3) held"
      "(LEADER_KEY @ uInt64ToStr 0, LeaderValToString sample_leader) \<in> held"
    using sample_run(2) by blast
  have ids: "\<forall>nid\<in>set [''a'']. space_free nid \<and> nid \<noteq> []" by (simp add: space_free_def)
  have "leader_ok sample_leader" by (simp add: sample_leader_def leader_ok_def space_free_def)
  note same = one_leader_per_term [OF kv_node_service.test_and_set_axioms ids held(1,2) StringToLeaderVal_ok [OF this]]
  show ?thesis
    using held(2) same by (intro exI [of _ held]) (auto simp: sample_leader_def)
qed

theorem leader_key_advances_witness:
  "elect_step kv_call kv_val [''a''] (sample_state 2) (sample_state 3) \<and>
    kv_val (el_svc (sample_state 2)) (LEADER_KEY @ uInt64ToStr 0) = []"
proof -
  obtain held where run: "elect_run kv_call kv_val [''a''] (sample_state 2) held" using sample_run(1) by blast
  have ids: "\<forall>nid\<in>set [''a'']. space_free nid \<and> nid \<noteq> []" by (simp add: space_free_def)
  have key: "LEADER_KEY @ uInt64ToStr 0 = ''leader key 0''" by code_simp
  have range: "in_range (kv_val (el_svc (sample_state 3)))" using sample_in_range by (auto simp: sample_values(2))
  from leader_key_advances [OF kv_node_service.test_and_set_axioms ids run sample_steps(3) range refl refl, of 0]
  show ?thesis using sample_steps(3) sample_values(1) [of 2] by auto
qed

end
