(* ===== verification/Ids.thy ===== *)
theory Ids
  imports Prelude
begin

text \<open>
  Identifiers: \<^verbatim>\<open>common/def.go\<close> (\<open>SiteId\<close>, the big-endian bytes of a \<open>uint32\<close>) and
  \<^verbatim>\<open>treedoc/nodeid.go\<close> (\<open>NodeId\<close>: the 16 bytes of a site followed by the 4 bytes of its clock).
  A Go array \<open>[n]byte\<close> is a list of \<open>n\<close> bytes; \<open>SiteId_ok\<close> and \<open>NodeId_ok\<close> state the lengths.
\<close>

unbundle bit_operations_syntax

section \<open>Built-in \<open>copy\<close> and \<open>bytes.Compare\<close>\<close>

definition go_copy :: "'a list \<Rightarrow> 'a list \<Rightarrow> 'a list" where
  "go_copy dst src = take (length dst) src @ drop (length src) dst"

fun bytes_Compare :: "byte list \<Rightarrow> byte list \<Rightarrow> int" where
  "bytes_Compare [] [] = 0"
| "bytes_Compare [] (y # ys) = -1"
| "bytes_Compare (x # xs) [] = 1"
| "bytes_Compare (x # xs) (y # ys) =
     (if x < y then -1 else if y < x then 1 else bytes_Compare xs ys)"

section \<open>Site identifiers\<close>

type_synonym SiteId = "byte list"

definition SiteId_ok :: "SiteId \<Rightarrow> bool" where
  "SiteId_ok sid \<longleftrightarrow> length sid = 16"

definition zero_bytes :: "nat \<Rightarrow> byte list" where
  "zero_bytes n = replicate n (CHR 0x00)"

definition SiteId_ToString :: "SiteId \<Rightarrow> string" where
  "SiteId_ToString sid = sid"

definition StringToSiteId :: "string \<Rightarrow> SiteId" where
  "StringToSiteId str = go_copy (zero_bytes 16) str"

definition EqualSiteId :: "SiteId \<Rightarrow> SiteId \<Rightarrow> bool" where
  "EqualSiteId sid sid2 \<longleftrightarrow> sid = sid2"

definition byte_of_uint32 :: "uint32 \<Rightarrow> byte" where
  "byte_of_uint32 w = char_of (unat w)"

definition uint32_of_byte :: "byte \<Rightarrow> uint32" where
  "uint32_of_byte b = word_of_nat (of_char b)"

definition Uint32ToBytes :: "uint32 \<Rightarrow> byte list" where
  "Uint32ToBytes num =
     [byte_of_uint32 (drop_bit 24 num), byte_of_uint32 (drop_bit 16 num),
      byte_of_uint32 (drop_bit 8 num), byte_of_uint32 num]"

definition BytesToUint32 :: "byte list \<Rightarrow> uint32 prog" where
  "BytesToUint32 bytes = guard_else (4 \<le> length bytes) IndexOutOfRange
     (returns (uint32_of_byte (bytes ! 3) OR push_bit 8 (uint32_of_byte (bytes ! 2))
        OR push_bit 16 (uint32_of_byte (bytes ! 1)) OR push_bit 24 (uint32_of_byte (bytes ! 0))))"

text \<open>\<open>uuid.FromString(id).Bytes()\<close> is code of another package: the parameter \<open>uuid_bytes\<close>.\<close>

definition NewSiteId :: "(string \<Rightarrow> byte list) \<Rightarrow> string \<Rightarrow> SiteId" where
  "NewSiteId uuid_bytes str = go_copy (zero_bytes 16) (uuid_bytes str)"

section \<open>Node identifiers\<close>

type_synonym NodeId = "byte list"

definition NodeId_ok :: "NodeId \<Rightarrow> bool" where
  "NodeId_ok nid \<longleftrightarrow> length nid = 20"

definition NewNodeId :: "SiteId \<Rightarrow> uint32 \<Rightarrow> NodeId" where
  "NewNodeId siteId clock =
     (let clockByte = Uint32ToBytes clock;
          ID = go_copy (zero_bytes 20) siteId
      in take 16 ID @ go_copy (drop 16 ID) clockByte)"

definition StringToNodeId :: "string \<Rightarrow> NodeId" where
  "StringToNodeId str = go_copy (zero_bytes 20) str"

definition SeparateNodeID :: "NodeId \<Rightarrow> (SiteId \<times> uint32) prog" where
  "SeparateNodeID nid =
     (let siteId = go_copy (zero_bytes 16) (take 16 nid)
      in pbind (BytesToUint32 (drop 16 nid)) (\<lambda>version. returns (siteId, version)))"

definition EqualNodeId :: "NodeId \<Rightarrow> NodeId \<Rightarrow> bool" where
  "EqualNodeId a b \<longleftrightarrow> list_all (\<lambda>i. a ! i = b ! i) [0..<20]"

definition EqualSiteIdInNodeId :: "NodeId \<Rightarrow> NodeId \<Rightarrow> bool" where
  "EqualSiteIdInNodeId a b \<longleftrightarrow> list_all (\<lambda>i. a ! i = b ! i) [0..<16]"

section \<open>Facts\<close>

lemma length_go_copy [simp]: "length (go_copy dst src) = length dst"
  by (simp add: go_copy_def)

lemma go_copy_same_length [simp]: "length dst = length src \<Longrightarrow> go_copy dst src = src"
  by (simp add: go_copy_def)

lemma length_zero_bytes [simp]: "length (zero_bytes n) = n"
  by (simp add: zero_bytes_def)

lemma length_Uint32ToBytes [simp]: "length (Uint32ToBytes n) = 4"
  by (simp add: Uint32ToBytes_def)

lemma bytes_Compare_pos: "0 < bytes_Compare a b \<longleftrightarrow> b < a"
  by (induction a b rule: bytes_Compare.induct) (auto simp: less_le)

lemma bytes_Compare_zero: "bytes_Compare a b = 0 \<longleftrightarrow> a = b"
  by (induction a b rule: bytes_Compare.induct) auto

lemma uint32_of_byte_of: "uint32_of_byte (byte_of_uint32 w) = take_bit 8 w"
proof -
  have "unat w mod 256 = take_bit 8 (unat w)" by (simp add: take_bit_eq_mod)
  also have "\<dots> = unat (take_bit 8 w)" by (rule unsigned_take_bit_eq [symmetric])
  finally show ?thesis by (simp add: uint32_of_byte_def byte_of_uint32_def)
qed

lemma big_endian_join:
  fixes n :: uint32
  shows "take_bit 8 n OR push_bit 8 (take_bit 8 (drop_bit 8 n))
     OR push_bit 16 (take_bit 8 (drop_bit 16 n)) OR push_bit 24 (take_bit 8 (drop_bit 24 n)) = n"
proof (rule bit_word_eqI)
  fix k assume "k < LENGTH(32)"
  then consider "k < 8" | "8 \<le> k \<and> k < 16" | "16 \<le> k \<and> k < 24" | "24 \<le> k \<and> k < 32"
    by force
  then show "bit (take_bit 8 n OR push_bit 8 (take_bit 8 (drop_bit 8 n))
     OR push_bit 16 (take_bit 8 (drop_bit 16 n)) OR push_bit 24 (take_bit 8 (drop_bit 24 n))) k
     = bit n k"
    by cases (auto simp: bit_simps)
qed

lemma Uint32ToBytes_inverse [simp]: "BytesToUint32 (Uint32ToBytes n) = returns n"
  by (simp add: BytesToUint32_def Uint32ToBytes_def guard_else_def uint32_of_byte_of big_endian_join)

lemma Uint32ToBytes_inject [simp]: "Uint32ToBytes a = Uint32ToBytes b \<longleftrightarrow> a = b"
proof
  assume "Uint32ToBytes a = Uint32ToBytes b"
  then have "BytesToUint32 (Uint32ToBytes a) = BytesToUint32 (Uint32ToBytes b)" by simp
  then show "a = b" by simp
qed simp

lemma NewNodeId_eq: "SiteId_ok s \<Longrightarrow> NewNodeId s c = s @ Uint32ToBytes c"
  by (simp add: NewNodeId_def SiteId_ok_def go_copy_def zero_bytes_def Let_def)

lemma NewNodeId_ok [simp]: "NodeId_ok (NewNodeId s c)"
  by (simp add: NodeId_ok_def NewNodeId_def Let_def)

lemma NewNodeId_inject:
  "SiteId_ok s \<Longrightarrow> SiteId_ok s' \<Longrightarrow> NewNodeId s c = NewNodeId s' c' \<longleftrightarrow> s = s' \<and> c = c'"
  by (auto simp: NewNodeId_eq SiteId_ok_def)

lemma EqualNodeId_iff: "NodeId_ok a \<Longrightarrow> NodeId_ok b \<Longrightarrow> EqualNodeId a b \<longleftrightarrow> a = b"
  by (auto simp: EqualNodeId_def NodeId_ok_def list_all_iff intro: nth_equalityI)

lemma EqualSiteIdInNodeId_iff:
  "NodeId_ok a \<Longrightarrow> NodeId_ok b \<Longrightarrow> EqualSiteIdInNodeId a b \<longleftrightarrow> take 16 a = take 16 b"
  by (auto simp: EqualSiteIdInNodeId_def NodeId_ok_def list_all_iff list_eq_iff_nth_eq)

lemma EqualSiteIdInNodeId_NewNodeId:
  "SiteId_ok s \<Longrightarrow> SiteId_ok s' \<Longrightarrow>
   EqualSiteIdInNodeId (NewNodeId s c) (NewNodeId s' c') \<longleftrightarrow> EqualSiteId s s'"
  by (simp add: EqualSiteIdInNodeId_iff EqualSiteId_def) (simp add: NewNodeId_eq SiteId_ok_def)

lemma SeparateNodeID_NewNodeId: "SiteId_ok s \<Longrightarrow> SeparateNodeID (NewNodeId s c) = returns (s, c)"
  by (simp add: SeparateNodeID_def NewNodeId_eq SiteId_ok_def Let_def)

lemma StringToSiteId_ToString: "SiteId_ok s \<Longrightarrow> StringToSiteId (SiteId_ToString s) = s"
  by (simp add: StringToSiteId_def SiteId_ToString_def SiteId_ok_def)

section \<open>Properties\<close>

text \<open>a node id made from a site id and a clock gives both back, so two different pairs never
  make the same node id.\<close>

theorem NodeId_roundtrip:
  assumes "SiteId_ok s"
  shows "SeparateNodeID (NewNodeId s c) = returns (s, c) \<and> NodeId_ok (NewNodeId s c)"
  using SeparateNodeID_NewNodeId [OF assms] by simp

theorem NodeId_roundtrip_witness:
  "SeparateNodeID (NewNodeId ''aaaaaaaaaaaaaaaa'' 4294967295) = returns (''aaaaaaaaaaaaaaaa'', 4294967295)"
  using NodeId_roundtrip [of "''aaaaaaaaaaaaaaaa''" 4294967295] by (simp add: SiteId_ok_def)

end
