(* ===== verification/Words.thy ===== *)
theory Words
  imports Prelude
begin

text \<open>
  Word sequences of the text buffer: \<^verbatim>\<open>buffer/helpers.go\<close>. The interface \<open>WordSequence\<close> of the
  source has one method, \<open>NextWord\<close>; the locale \<open>word_sequence\<close> states what the layout code relies
  on (the words come out in order and make up the remaining text), and it is interpreted for both
  implementations, \<open>StringSequence\<close> and \<open>LineSequence\<close>.

  The doubly linked chain of \<open>Line\<close>s that starts at a pointer is the list of the lines' bytes; the
  nil pointer is \<open>[]\<close>.
\<close>

section \<open>Character classes and display widths\<close>

definition is_break :: "byte \<Rightarrow> bool" where
  "is_break ch \<longleftrightarrow> ch = CHR '' '' \<or> ch = CHR 0x09 \<or> ch = CHR 0x0A"

definition wordLength :: "byte list \<Rightarrow> int prog" where
  "wordLength word =
     (case word of [] \<Rightarrow> panics IndexOutOfRange
      | c # _ \<Rightarrow> returns (if c = CHR 0x09 then 4 else int (length word)))"

definition charLength :: "byte \<Rightarrow> int" where
  "charLength ch = (if ch = CHR 0x09 then 4 else if ch = CHR 0x0A then 0 else 1)"

fun sliceLength_loop :: "byte list \<Rightarrow> int \<Rightarrow> int" where
  "sliceLength_loop [] s = s"
| "sliceLength_loop (ch # bytes) s = sliceLength_loop bytes (s + charLength ch)"

definition sliceLength :: "byte list \<Rightarrow> int" where
  "sliceLength bytes = sliceLength_loop bytes 0"

text \<open>The scan shared by both sequences: \<open>for end < len(bytes)\<close> until a break character.\<close>

function scan_end :: "byte list \<Rightarrow> nat \<Rightarrow> nat" where
  "scan_end bytes e =
     (if e < length bytes then (if is_break (bytes ! e) then e else scan_end bytes (Suc e)) else e)"
  by pat_completeness auto
termination
  by (relation "measure (\<lambda>(bytes, e). length bytes - e)") auto

declare scan_end.simps [simp del]

section \<open>\<open>StringSequence\<close>\<close>

record StringSequence =
  ss_str :: "byte list"
  ss_pos :: nat

definition NewStringSequence :: "byte list \<Rightarrow> StringSequence" where
  "NewStringSequence str = \<lparr>ss_str = str, ss_pos = 0\<rparr>"

definition StringSequence_NextWord ::
  "StringSequence \<Rightarrow> (byte list option \<times> StringSequence) prog" where
  "StringSequence_NextWord seq =
     (if ss_pos seq \<ge> length (ss_str seq) then returns (None, seq)
      else
        let ch = ss_str seq ! ss_pos seq in
        if ch = CHR '' '' then returns (Some [CHR '' ''], seq\<lparr>ss_pos := ss_pos seq + 1\<rparr>)
        else if ch = CHR 0x09 then returns (Some [CHR 0x09], seq\<lparr>ss_pos := ss_pos seq + 1\<rparr>)
        else if ch = CHR 0x0A then returns (Some [CHR 0x0A], seq\<lparr>ss_pos := ss_pos seq + 1\<rparr>)
        else
          let start = ss_pos seq; e = scan_end (ss_str seq) (ss_pos seq + 1)
          in returns (Some (take (e - start) (drop start (ss_str seq))), seq\<lparr>ss_pos := e\<rparr>))"

section \<open>\<open>LineSequence\<close>\<close>

record LineSequence =
  ls_lines :: "byte list list"
  ls_currentX :: nat

definition NewLineSequence :: "byte list list \<Rightarrow> LineSequence" where
  "NewLineSequence lines = \<lparr>ls_lines = lines, ls_currentX = 0\<rparr>"

fun skip_read_lines :: "byte list list \<Rightarrow> nat \<Rightarrow> byte list list \<times> nat" where
  "skip_read_lines [] x = ([], x)"
| "skip_read_lines (l # ls) x = (if x = length l then skip_read_lines ls 0 else (l # ls, x))"

text \<open>
  The loop that goes on with a word over the following lines: it reads byte 0 of the next line
  before it checks that there is one.
\<close>

fun continue_word ::
  "byte list list \<Rightarrow> nat \<Rightarrow> byte list \<Rightarrow> (byte list \<times> byte list list \<times> nat) prog" where
  "continue_word [] e chs = panics NilDereference"
| "continue_word [l] e chs = returns (chs, [l], e)"
| "continue_word (l # nl # ns) e chs =
     (if nl = [] then panics IndexOutOfRange
      else if is_break (nl ! 0) then returns (chs, l # nl # ns, e)
      else
        let e' = scan_end nl 1; chs' = chs @ take e' nl
        in if e' \<noteq> length nl then returns (chs', nl # ns, e')
           else continue_word (nl # ns) e' chs')"

definition LineSequence_NextWord ::
  "LineSequence \<Rightarrow> (byte list option \<times> LineSequence) prog" where
  "LineSequence_NextWord seq =
     (case skip_read_lines (ls_lines seq) (ls_currentX seq) of
        ([], x) \<Rightarrow> panics NilDereference
      | (l # ls, x) \<Rightarrow>
          let at = (\<lambda>lines x. \<lparr>ls_lines = lines, ls_currentX = x\<rparr>) in
          if ls = [] \<and> x + 1 = length l then returns (None, at (l # ls) (x + 1))
          else if x \<ge> length l then panics IndexOutOfRange
          else
            let ch = l ! x in
            if ch = CHR '' '' then returns (Some [CHR '' ''], at (l # ls) (x + 1))
            else if ch = CHR 0x09 then returns (Some [CHR 0x09], at (l # ls) (x + 1))
            else if ch = CHR 0x0A then returns (Some [CHR 0x0A], at (l # ls) (x + 1))
            else
              let e = scan_end l (x + 1) in
              if e < length l
              then returns (Some (take (e - x) (drop x l)), at (l # ls) e)
              else pbind (continue_word (l # ls) e (take (e - x) (drop x l)))
                     (\<lambda>(chs, lines, e'). returns (Some chs, at lines e')))"

section \<open>The words of a text\<close>

definition first_word :: "byte list \<Rightarrow> byte list" where
  "first_word t = (if is_break (hd t) then [hd t] else takeWhile (\<lambda>c. \<not> is_break c) t)"

lemma first_word_nonempty [simp]: "t \<noteq> [] \<Longrightarrow> first_word t \<noteq> []"
  by (cases t) (auto simp: first_word_def)

lemma first_word_0 [simp]: "t \<noteq> [] \<Longrightarrow> first_word t ! 0 = hd t"
  by (cases t) (auto simp: first_word_def)

lemma first_word_prefix: "t \<noteq> [] \<Longrightarrow> first_word t @ drop (length (first_word t)) t = t"
proof (cases "is_break (hd t)")
  case True
  assume "t \<noteq> []"
  with True show ?thesis by (cases t) (auto simp: first_word_def)
next
  case False
  have "drop (length (takeWhile P t)) t = dropWhile P t" for P :: "byte \<Rightarrow> bool"
    by (metis dropWhile_eq_drop)
  with False show ?thesis by (simp add: first_word_def)
qed

lemma length_first_word_le: "t \<noteq> [] \<Longrightarrow> length (first_word t) \<le> length t"
  by (metis first_word_prefix length_append le_add1)

lemma scan_end_eq: "scan_end bs e = e + length (takeWhile (\<lambda>c. \<not> is_break c) (drop e bs))"
proof (induction bs e rule: scan_end.induct)
  case (1 bs e)
  show ?case
  proof (cases "e < length bs")
    case True
    then have "drop e bs = bs ! e # drop (Suc e) bs" by (rule Cons_nth_drop_Suc [symmetric])
    with 1 True show ?thesis by (simp add: scan_end.simps [of bs e])
  next
    case False
    then show ?thesis by (simp add: scan_end.simps [of bs e])
  qed
qed

lemma is_break_simps [simp]:
  "is_break (CHR '' '')" "is_break (CHR 0x09)" "is_break (CHR 0x0A)"
  by (simp_all add: is_break_def)

lemma is_breakD:
  "\<not> is_break c \<Longrightarrow> c \<noteq> CHR '' '' \<and> c \<noteq> CHR 0x09 \<and> c \<noteq> CHR 0x0A"
  by (auto simp: is_break_def)

section \<open>The interface\<close>

locale word_sequence =
  fixes NextWord :: "'s \<Rightarrow> (byte list option \<times> 's) prog"
    and rest :: "'s \<Rightarrow> byte list"
    and ok :: "'s \<Rightarrow> bool"
  assumes NextWord_end: "ok s \<Longrightarrow> rest s = [] \<Longrightarrow> \<exists>s'. NextWord s = returns (None, s')"
    and NextWord_word: "ok s \<Longrightarrow> rest s \<noteq> [] \<Longrightarrow>
      \<exists>s'. NextWord s = returns (Some (first_word (rest s)), s') \<and> ok s' \<and>
        rest s' = drop (length (first_word (rest s))) (rest s)"

subsection \<open>\<open>StringSequence\<close> implements it\<close>

definition string_rest :: "StringSequence \<Rightarrow> byte list" where
  "string_rest seq = drop (ss_pos seq) (ss_str seq)"

interpretation string_seq: word_sequence StringSequence_NextWord string_rest "\<lambda>_. True"
proof
  fix s :: StringSequence
  assume "string_rest s = []"
  then show "\<exists>s'. StringSequence_NextWord s = returns (None, s')"
    by (simp add: string_rest_def StringSequence_NextWord_def)
next
  fix s :: StringSequence
  assume ne: "string_rest s \<noteq> []"
  then have lt: "ss_pos s < length (ss_str s)" by (simp add: string_rest_def)
  then have rest: "string_rest s = ss_str s ! ss_pos s # drop (Suc (ss_pos s)) (ss_str s)"
    by (simp add: string_rest_def Cons_nth_drop_Suc)
  let ?c = "ss_str s ! ss_pos s" and ?tw = "takeWhile (\<lambda>c. \<not> is_break c)"
  show "\<exists>s'. StringSequence_NextWord s = returns (Some (first_word (string_rest s)), s') \<and> True \<and>
        string_rest s' = drop (length (first_word (string_rest s))) (string_rest s)"
  proof (cases "is_break ?c")
    case True
    then show ?thesis
      using lt by (auto simp: StringSequence_NextWord_def rest first_word_def is_break_def)
        (auto simp: string_rest_def)
  next
    case False
    have "take (length (?tw xs)) xs = ?tw xs" for xs :: "byte list"
      by (metis takeWhile_eq_take)
    with False lt show ?thesis
      by (auto simp: StringSequence_NextWord_def rest first_word_def scan_end_eq Let_def
          Cons_nth_drop_Suc [symmetric] dest!: is_breakD) (auto simp: string_rest_def add.commute)
  qed
qed

subsection \<open>\<open>LineSequence\<close> implements it\<close>

text \<open>
  The chains it works on: the last line ends with the sentinel newline, and no line that ends
  inside a word is followed by an empty line (\<open>continue_word\<close> would read byte 0 of it).
\<close>

fun lines_ok :: "byte list list \<Rightarrow> bool" where
  "lines_ok [] \<longleftrightarrow> False"
| "lines_ok [l] \<longleftrightarrow> l \<noteq> [] \<and> last l = CHR 0x0A"
| "lines_ok (l # l' # ls) \<longleftrightarrow> (l = [] \<or> is_break (last l) \<or> l' \<noteq> []) \<and> lines_ok (l' # ls)"

definition lines_text :: "byte list list \<Rightarrow> byte list" where
  "lines_text ls = butlast (concat ls)"

definition line_seq_ok :: "LineSequence \<Rightarrow> bool" where
  "line_seq_ok s \<longleftrightarrow> lines_ok (ls_lines s) \<and> ls_currentX s \<le> length (hd (ls_lines s)) \<and>
     (tl (ls_lines s) = [] \<longrightarrow> ls_currentX s < length (hd (ls_lines s)))"

definition line_rest :: "LineSequence \<Rightarrow> byte list" where
  "line_rest s = butlast (drop (ls_currentX s) (concat (ls_lines s)))"

lemma lines_ok_last: "lines_ok ls \<Longrightarrow> concat ls \<noteq> [] \<and> last (concat ls) = CHR 0x0A"
  by (induction ls rule: lines_ok.induct) auto

lemma lines_ok_tl: "lines_ok (l # ls) \<Longrightarrow> ls \<noteq> [] \<Longrightarrow> lines_ok ls"
  by (cases ls) auto

lemma skip_read_lines_ok:
  assumes "lines_ok ls" and "x \<le> length (hd ls)" and "tl ls = [] \<longrightarrow> x < length (hd ls)"
  obtains l ls' x' where "skip_read_lines ls x = (l # ls', x')" and "lines_ok (l # ls')"
    and "x' < length l" and "drop x (concat ls) = drop x' (concat (l # ls'))"
proof -
  have "\<exists>l ls' x'. skip_read_lines ls x = (l # ls', x') \<and> lines_ok (l # ls') \<and> x' < length l \<and>
      drop x (concat ls) = drop x' (concat (l # ls'))"
    using assms
  proof (induction ls x rule: skip_read_lines.induct)
    case (2 l ls x)
    show ?case
    proof (cases "x = length l")
      case True
      with "2.prems" have ls: "ls \<noteq> []" by auto
      then have ok: "lines_ok ls" using "2.prems"(1) by (rule lines_ok_tl [rotated])
      have "tl ls = [] \<longrightarrow> 0 < length (hd ls)" using ok by (cases ls rule: lines_ok.cases) auto
      with "2.IH" [OF True ok] True show ?thesis by simp
    qed (use "2.prems" in auto)
  qed simp
  then show ?thesis using that by blast
qed

lemma continue_word_ok:
  assumes "lines_ok (l # ls)" and "l \<noteq> []" and "\<not> is_break (last l)"
  shows "\<exists>l' ls' e'. continue_word (l # ls) (length l) chs =
      returns (chs @ takeWhile (\<lambda>c. \<not> is_break c) (concat ls), l' # ls', e') \<and>
      lines_ok (l' # ls') \<and> e' \<le> length l' \<and> (ls' = [] \<longrightarrow> e' < length l') \<and>
      drop e' (concat (l' # ls')) = dropWhile (\<lambda>c. \<not> is_break c) (concat ls)"
  using assms
proof (induction ls arbitrary: l chs)
  case Nil
  then show ?case by (auto simp: is_break_def)
next
  case (Cons nl ns)
  let ?tw = "takeWhile (\<lambda>c. \<not> is_break c)"
  have ne: "nl \<noteq> []" and ok: "lines_ok (nl # ns)" using Cons.prems by auto
  from ne obtain c nl' where nl: "nl = c # nl'" by (cases nl) auto
  show ?case
  proof (cases "is_break c")
    case True
    with Cons.prems ne show ?thesis by (intro exI [of _ l] exI [of _ "nl # ns"]) (simp add: nl)
  next
    case False
    then have e: "scan_end nl 1 = length (?tw nl)" by (simp add: nl scan_end_eq)
    have tk: "take (length (?tw nl)) nl = ?tw nl" by (metis takeWhile_eq_take)
    show ?thesis
    proof (cases "\<forall>x\<in>set nl. \<not> is_break x")
      case True
      then have all: "?tw nl = nl" by simp
      with True ne have "\<not> is_break (last nl)" by simp
      moreover have "scan_end nl 1 = length nl" using e all by simp
      ultimately show ?thesis
        using Cons.IH [OF ok ne, of "chs @ nl"] True False
        by (simp add: nl Let_def takeWhile_append2 dropWhile_append2)
    next
      case part: False
      then have lt: "length (?tw nl) < length nl"
        by (metis length_takeWhile_le nat_less_le takeWhile_eq_all_conv takeWhile_eq_take
            take_all_iff linorder_not_le)
      from part False obtain x where x: "x \<in> set nl'" "is_break x" by (auto simp: nl)
      have dr: "drop (length (?tw nl)) nl = dropWhile (\<lambda>c. \<not> is_break c) nl"
        by (metis dropWhile_eq_drop)
      from lt tk dr e ok False x show ?thesis
        by (intro exI [of _ nl] exI [of _ ns] exI [of _ "length (?tw nl)"])
           (simp add: nl Let_def takeWhile_append1 [OF x(1)] dropWhile_append1 [OF x(1)])
    qed
  qed
qed

lemma line_seq_ok_skip:
  assumes "line_seq_ok s"
  obtains l ls x where "skip_read_lines (ls_lines s) (ls_currentX s) = (l # ls, x)"
    and "lines_ok (l # ls)" and "x < length l"
    and "line_rest s = butlast (drop x l @ concat ls)"
proof -
  obtain l ls x where "skip_read_lines (ls_lines s) (ls_currentX s) = (l # ls, x)"
    and "lines_ok (l # ls)" and x: "x < length l"
    and dr: "drop (ls_currentX s) (concat (ls_lines s)) = drop x (concat (l # ls))"
    using assms unfolding line_seq_ok_def by (metis skip_read_lines_ok)
  with that show ?thesis by (simp add: line_rest_def)
qed

lemma takeWhile_break_butlast:
  assumes "t \<noteq> []" and "is_break (last t)"
  shows "takeWhile (\<lambda>c. \<not> is_break c) (butlast t) = takeWhile (\<lambda>c. \<not> is_break c) t"
    and "dropWhile (\<lambda>c. \<not> is_break c) (butlast t) = butlast (dropWhile (\<lambda>c. \<not> is_break c) t)"
proof -
  from assms obtain u z where t: "t = u @ [z]" and z: "is_break z"
    by (metis append_butlast_last_id)
  from z show "takeWhile (\<lambda>c. \<not> is_break c) (butlast t) = takeWhile (\<lambda>c. \<not> is_break c) t"
    unfolding t by (induction u) auto
  from z show "dropWhile (\<lambda>c. \<not> is_break c) (butlast t) = butlast (dropWhile (\<lambda>c. \<not> is_break c) t)"
    unfolding t by (induction u) auto
qed

lemma LineSequence_NextWord_inside:
  assumes sk: "skip_read_lines (ls_lines s) (ls_currentX s) = (l # ls, x)"
    and lok: "lines_ok (l # ls)" and x: "x < length l" and nb: "\<not> is_break (l ! x)"
  defines "t \<equiv> drop x l @ concat ls"
  shows "\<exists>l' ls' e'. LineSequence_NextWord s =
      returns (Some (takeWhile (\<lambda>c. \<not> is_break c) t), \<lparr>ls_lines = l' # ls', ls_currentX = e'\<rparr>) \<and>
      lines_ok (l' # ls') \<and> e' \<le> length l' \<and> (ls' = [] \<longrightarrow> e' < length l') \<and>
      drop e' (concat (l' # ls')) = dropWhile (\<lambda>c. \<not> is_break c) t"
proof -
  let ?tw = "takeWhile (\<lambda>c. \<not> is_break c)"
  have dx: "drop x l = l ! x # drop (Suc x) l" using x by (rule Cons_nth_drop_Suc [symmetric])
  have e: "scan_end l (x + 1) = x + length (?tw (drop x l))"
    using nb by (simp add: scan_end_eq dx)
  have tk: "take (length (?tw (drop x l))) (drop x l) = ?tw (drop x l)"
    by (metis takeWhile_eq_take)
  have notlast: "\<not> (ls = [] \<and> x + 1 = length l)"
  proof
    assume "ls = [] \<and> x + 1 = length l"
    with lok have "l ! x = CHR 0x0A" by (metis add_diff_cancel_right' last_conv_nth lines_ok.simps(2))
    with nb show False by simp
  qed
  show ?thesis
  proof (cases "\<forall>c\<in>set (drop x l). \<not> is_break c")
    case True
    then have all: "?tw (drop x l) = drop x l" by simp
    have "last l = last (drop x l)" using x by simp
    with True x have "\<not> is_break (last l)" by (metis drop_eq_Nil last_in_set linorder_not_le)
    moreover have "l \<noteq> []" using x by auto
    ultimately obtain l' ls' e' where cw: "continue_word (l # ls) (length l) (drop x l) =
        returns (drop x l @ ?tw (concat ls), l' # ls', e')" and "lines_ok (l' # ls')"
        "e' \<le> length l'" "ls' = [] \<longrightarrow> e' < length l'"
        "drop e' (concat (l' # ls')) = dropWhile (\<lambda>c. \<not> is_break c) (concat ls)"
      using continue_word_ok [OF lok, of "drop x l"] by blast
    moreover have "scan_end l (x + 1) = length l" using e all x by simp
    ultimately show ?thesis
      using sk x nb notlast True
      by (intro exI [of _ l'] exI [of _ ls'] exI [of _ e'])
         (auto simp: LineSequence_NextWord_def Let_def t_def takeWhile_append2 dropWhile_append2
           dest!: is_breakD)
  next
    case False
    then obtain c where c: "c \<in> set (drop x l)" "\<not> \<not> is_break c" by blast
    have "length (?tw (drop x l)) < length (drop x l)"
      using False by (metis length_takeWhile_le nat_less_le takeWhile_eq_all_conv takeWhile_eq_take
          take_all_iff linorder_not_le)
    then have lt: "scan_end l (x + 1) < length l" using e by simp
    have dr: "drop (length (?tw (drop x l))) (drop x l) = dropWhile (\<lambda>c. \<not> is_break c) (drop x l)"
      by (metis dropWhile_eq_drop)
    then have "drop (scan_end l (x + 1)) l = dropWhile (\<lambda>c. \<not> is_break c) (drop x l)"
      using e by (simp add: add.commute)
    moreover have "take (scan_end l (x + 1) - x) (drop x l) = ?tw (drop x l)" using e tk by simp
    ultimately show ?thesis
      using sk x nb notlast lok lt c
      by (intro exI [of _ l] exI [of _ ls] exI [of _ "scan_end l (x + 1)"])
         (auto simp: LineSequence_NextWord_def Let_def t_def takeWhile_append1 [OF c(1)]
           dropWhile_append1 [OF c(1)] dest!: is_breakD)
  qed
qed

interpretation line_seq: word_sequence LineSequence_NextWord line_rest line_seq_ok
proof
  fix s assume ok: "line_seq_ok s" and nil: "line_rest s = []"
  from ok obtain l ls x where sk: "skip_read_lines (ls_lines s) (ls_currentX s) = (l # ls, x)"
    and lok: "lines_ok (l # ls)" and x: "x < length l"
    and rest: "line_rest s = butlast (drop x l @ concat ls)"
    by (rule line_seq_ok_skip)
  have len: "length (drop x l) + length (concat ls) \<le> 1"
    using nil unfolding rest by (metis One_nat_def diff_is_0_eq length_append length_butlast list.size(3))
  have "ls = []"
  proof (rule ccontr)
    assume "ls \<noteq> []"
    then have "0 < length (concat ls)" using lok lines_ok_tl lines_ok_last by blast
    moreover have "0 < length (drop x l)" using x by simp
    ultimately show False using len by linarith
  qed
  with len x have "ls = [] \<and> x + 1 = length l" by auto
  then show "\<exists>s'. LineSequence_NextWord s = returns (None, s')"
    by (simp add: LineSequence_NextWord_def sk)
next
  fix s assume ok: "line_seq_ok s" and ne: "line_rest s \<noteq> []"
  from ok obtain l ls x where sk: "skip_read_lines (ls_lines s) (ls_currentX s) = (l # ls, x)"
    and lok: "lines_ok (l # ls)" and x: "x < length l"
    and rest: "line_rest s = butlast (drop x l @ concat ls)"
    by (rule line_seq_ok_skip)
  define t where "t = drop x l @ concat ls"
  have dx: "drop x l = l ! x # drop (Suc x) l" using x by (rule Cons_nth_drop_Suc [symmetric])
  have "last t = last (concat (l # ls))" using x by (auto simp: t_def last_append)
  then have t: "t \<noteq> []" "is_break (last t)"
    using lines_ok_last [OF lok] x by (simp_all add: t_def)
  have hd: "hd (butlast t) = l ! x"
    using ne unfolding rest t_def [symmetric] by (auto simp: t_def dx split: if_splits)
  show "\<exists>s'. LineSequence_NextWord s = returns (Some (first_word (line_rest s)), s') \<and>
      line_seq_ok s' \<and> line_rest s' = drop (length (first_word (line_rest s))) (line_rest s)"
  proof (cases "is_break (l ! x)")
    case True
    have more: "x + 1 < length l" if "ls = []"
    proof -
      have "butlast (drop x l) \<noteq> []" using ne that by (simp add: rest)
      then have "length (butlast (drop x l)) \<noteq> 0" by (metis length_0_conv)
      then show ?thesis unfolding length_butlast length_drop by linarith
    qed
    have "LineSequence_NextWord s =
        returns (Some [l ! x], \<lparr>ls_lines = l # ls, ls_currentX = x + 1\<rparr>)"
      using True sk x more by (auto simp: LineSequence_NextWord_def is_break_def)
    moreover have "first_word (line_rest s) = [l ! x]"
      using True hd by (simp add: first_word_def rest t_def)
    moreover have "line_rest \<lparr>ls_lines = l # ls, ls_currentX = x + 1\<rparr> = drop 1 (line_rest s)"
      using x unfolding rest
      by (auto simp: line_rest_def dx) (metis butlast.simps(1) concat_eq_Nil_conv)
    ultimately show ?thesis
      using lok x more by (simp add: line_seq_ok_def)
  next
    case False
    from LineSequence_NextWord_inside [OF sk lok x False, folded t_def]
    obtain l' ls' e' where nw: "LineSequence_NextWord s =
        returns (Some (takeWhile (\<lambda>c. \<not> is_break c) t), \<lparr>ls_lines = l' # ls', ls_currentX = e'\<rparr>)"
      and "lines_ok (l' # ls')" "e' \<le> length l'" "ls' = [] \<longrightarrow> e' < length l'"
        "drop e' (concat (l' # ls')) = dropWhile (\<lambda>c. \<not> is_break c) t"
      by blast
    moreover have fw: "first_word (line_rest s) = takeWhile (\<lambda>c. \<not> is_break c) t"
      using False by (simp add: first_word_def rest t_def [symmetric] hd takeWhile_break_butlast [OF t])
    moreover have "butlast (dropWhile (\<lambda>c. \<not> is_break c) t) =
        drop (length (first_word (line_rest s))) (line_rest s)"
      unfolding fw unfolding rest t_def [symmetric] takeWhile_break_butlast(1) [OF t, symmetric]
        takeWhile_break_butlast(2) [OF t, symmetric]
      by (rule dropWhile_eq_drop)
    ultimately show ?thesis
      by (intro exI [of _ "\<lparr>ls_lines = l' # ls', ls_currentX = e'\<rparr>"])
         (simp add: line_seq_ok_def, simp add: line_rest_def [of "\<lparr>ls_lines = l' # ls', ls_currentX = e'\<rparr>"])
  qed
qed

end
