(* ===== verification/Layout.thy ===== *)
theory Layout
  imports Words
begin

text \<open>
  Line breaking: \<open>SeqToLines\<close> of \<^verbatim>\<open>buffer/buffer.go\<close>, for any \<open>WordSequence\<close>. The outer loop runs
  until the sequence is exhausted and the inner one until a long word is used up, so both are
  partial functions: \<open>None\<close> is the loop that does not end (width 0 and a non-empty word).

  A slice expression \<open>b[lo:hi]\<close> may in Go reach beyond the length up to the capacity, which the
  runtime chooses; the only place where the source could do that is a tab in a window narrower
  than 4 columns, and the model returns \<open>SliceOutOfRange\<close> there. The theorems ask for width 4.
\<close>

section \<open>Definitions\<close>

definition go_slice :: "'a list \<Rightarrow> int \<Rightarrow> int \<Rightarrow> 'a list prog" where
  "go_slice xs lo hi = guard_else (0 \<le> lo \<and> lo \<le> hi \<and> hi \<le> int (length xs)) SliceOutOfRange
     (returns (take (nat (hi - lo)) (drop (nat lo) xs)))"

partial_function (option) split_long_word ::
  "byte list \<Rightarrow> int \<Rightarrow> int \<Rightarrow> int \<Rightarrow> int \<Rightarrow> byte list list \<Rightarrow> byte list \<Rightarrow> int \<Rightarrow>
   (int \<times> byte list list \<times> byte list \<times> int) prog" where
  "split_long_word word width wordLen k i ls line n =
     (if k < wordLen then
        let i' = (if wordLen - k < width then wordLen - k else width)
        in pbind (go_slice word k (k + i'))
             (\<lambda>piece. split_long_word word width wordLen (k + i') i' (ls @ [line]) piece (n + 1))
      else returns (i, ls, line, n))"

partial_function (option) seq_to_lines_loop ::
  "('s \<Rightarrow> (byte list option \<times> 's) prog) \<Rightarrow> int \<Rightarrow> 's \<Rightarrow> byte list list \<Rightarrow> byte list \<Rightarrow>
   int \<Rightarrow> int \<Rightarrow> int \<Rightarrow> (byte list list \<times> int \<times> int) prog" where
  "seq_to_lines_loop NextWord width seq ls line i numberOfLines numberOfChars =
     pbind (NextWord seq) (\<lambda>(next, seq').
       case next of
         None \<Rightarrow> returns (ls @ [line @ [CHR 0x0A]], numberOfLines, numberOfChars)
       | Some word \<Rightarrow>
           let nc = numberOfChars + int (length word) in
           if word = [] then panics IndexOutOfRange
           else if word ! 0 = CHR 0x0A then
             (if width < 0 then panics MakeSliceRange
              else seq_to_lines_loop NextWord width seq' (ls @ [line @ [CHR 0x0A]]) [] 0
                (numberOfLines + 1) nc)
           else pbind (wordLength word) (\<lambda>wordLen.
             if i + wordLen \<le> width then
               seq_to_lines_loop NextWord width seq' ls (line @ word) (i + wordLen) numberOfLines nc
             else if wordLen \<le> width then
               seq_to_lines_loop NextWord width seq' (ls @ [line]) word wordLen
                 (numberOfLines + 1) nc
             else
               pbind (go_slice word 0 (width - i)) (\<lambda>front.
               pbind (split_long_word word width wordLen (width - i) i ls (line @ front)
                 numberOfLines) (\<lambda>(i', ls', line', n').
               seq_to_lines_loop NextWord width seq' ls' line' i' n' nc))))"

declare split_long_word.simps [code] seq_to_lines_loop.simps [code]

definition SeqToLines ::
  "('s \<Rightarrow> (byte list option \<times> 's) prog) \<Rightarrow> 's \<Rightarrow> int \<Rightarrow> (byte list list \<times> int \<times> int) prog" where
  "SeqToLines NextWord seq width =
     guard_else (0 \<le> width + 2) MakeSliceRange (seq_to_lines_loop NextWord width seq [] [] 0 1 0)"

section \<open>Display widths\<close>

lemma sliceLength_loop_eq: "sliceLength_loop bs s = s + sum_list (map charLength bs)"
  by (induction bs arbitrary: s) simp_all

lemma sliceLength_eq: "sliceLength bs = sum_list (map charLength bs)"
  by (simp add: sliceLength_def sliceLength_loop_eq)

lemma charLength_bounds: "0 \<le> charLength c" "charLength c \<le> 4"
  by (simp_all add: charLength_def)

lemma sliceLength_simps [simp]:
  "sliceLength [] = 0"
  "sliceLength (c # bs) = charLength c + sliceLength bs"
  "sliceLength (bs @ cs) = sliceLength bs + sliceLength cs"
  by (simp_all add: sliceLength_eq)

lemma sliceLength_nonneg [simp]: "0 \<le> sliceLength bs"
  by (induction bs) (use charLength_bounds in \<open>auto simp: add_nonneg_nonneg\<close>)

lemma charLength_word: "\<not> is_break c \<Longrightarrow> charLength c = 1"
  by (simp add: is_break_def charLength_def)

lemma sliceLength_word: "\<forall>c\<in>set w. \<not> is_break c \<Longrightarrow> sliceLength w = int (length w)"
  by (induction w) (auto simp: charLength_word)

lemma wordLength_first_word:
  assumes "t \<noteq> []" and "hd t \<noteq> CHR 0x0A"
  shows "wordLength (first_word t) = returns (sliceLength (first_word t))"
proof (cases "is_break (hd t)")
  case True
  with assms show ?thesis by (auto simp: first_word_def wordLength_def charLength_def)
next
  case False
  then obtain c t' where t: "t = c # t'" using assms by (cases t) auto
  have "\<forall>x\<in>set (first_word t). \<not> is_break x"
    using False by (auto simp: first_word_def dest: set_takeWhileD)
  then have "sliceLength (first_word t) = int (length (first_word t))" by (rule sliceLength_word)
  with False show ?thesis by (auto simp: first_word_def wordLength_def t dest: is_breakD)
qed

section \<open>The inner loop\<close>

lemma split_long_word_ok:
  assumes "\<forall>c\<in>set word. \<not> is_break c" and "0 < width" and "0 \<le> k" and "k \<le> int (length word)"
    and "line \<noteq> []" and "\<forall>l\<in>set ls. l \<noteq> [] \<and> sliceLength l \<le> width"
    and "sliceLength line \<le> width" and "k = int (length word) \<longrightarrow> i = sliceLength line"
    and "n = int (length ls) + 1"
  shows "\<exists>ls' line'. split_long_word word width (int (length word)) k i ls line n =
      returns (sliceLength line', ls', line', int (length ls') + 1) \<and> line' \<noteq> [] \<and>
      (\<forall>l\<in>set ls'. l \<noteq> [] \<and> sliceLength l \<le> width) \<and> sliceLength line' \<le> width \<and>
      concat ls' @ line' = concat ls @ line @ drop (nat k) word"
  using assms
proof (induction "nat (int (length word) - k)" arbitrary: k i ls line n rule: less_induct)
  case less
  show ?case
  proof (cases "k < int (length word)")
    case False
    with less.prems show ?thesis by (simp add: split_long_word.simps)
  next
    case True
    define j where "j = (if int (length word) - k < width then int (length word) - k else width)"
    define piece where "piece = take (nat j) (drop (nat k) word)"
    have j: "0 < j" "j \<le> width" "k + j \<le> int (length word)"
      using True less.prems(2) by (auto simp: j_def)
    have sl: "go_slice word k (k + j) = returns piece"
      using j less.prems(3) by (simp add: go_slice_def guard_else_def piece_def)
    have len: "int (length piece) = j" using j less.prems(3) by (simp add: piece_def)
    then have ne: "piece \<noteq> []" using j by auto
    have "\<forall>c\<in>set piece. \<not> is_break c"
      using less.prems(1) by (auto simp: piece_def dest: in_set_takeD in_set_dropD)
    then have w: "sliceLength piece = j" using len by (simp add: sliceLength_word)
    have "drop (nat k) word = piece @ drop (nat (k + j)) word"
      using j less.prems(3)
      by (simp add: piece_def nat_add_distrib add.commute flip: drop_drop append_take_drop_id)
    moreover have "split_long_word word width (int (length word)) k i ls line n =
        split_long_word word width (int (length word)) (k + j) j (ls @ [line]) piece (n + 1)"
      using True sl by (subst split_long_word.simps) (simp add: j_def Let_def)
    moreover note less.hyps [of "k + j" piece "ls @ [line]" j "n + 1"]
    ultimately show ?thesis
      using less.prems True j ne w by simp
  qed
qed

section \<open>The outer loop, for every word sequence\<close>

definition lines_fit :: "int \<Rightarrow> byte list list \<Rightarrow> bool" where
  "lines_fit width ls \<longleftrightarrow> (\<forall>l\<in>set ls. l \<noteq> [] \<and> sliceLength l \<le> width)"

lemma lines_fit_simps [simp]:
  "lines_fit width []"
  "lines_fit width (ls @ [l]) \<longleftrightarrow> lines_fit width ls \<and> l \<noteq> [] \<and> sliceLength l \<le> width"
  by (auto simp: lines_fit_def)

lemma long_word_step:
  assumes nb: "\<forall>c\<in>set w. \<not> is_break c" and width: "4 \<le> width" and fit: "lines_fit width ls"
    and i: "i = sliceLength line" "i \<le> width" and n: "n = int (length ls) + 1"
    and long: "width < sliceLength w"
  shows "\<exists>front ls' line'. go_slice w 0 (width - i) = returns front \<and>
      split_long_word w width (sliceLength w) (width - i) i ls (line @ front) n =
        returns (sliceLength line', ls', line', int (length ls') + 1) \<and>
      lines_fit width ls' \<and> sliceLength line' \<le> width \<and>
      concat ls' @ line' = concat ls @ line @ w"
proof -
  have wl: "sliceLength w = int (length w)" by (rule sliceLength_word [OF nb])
  define front where "front = take (nat (width - i)) w"
  have i0: "0 \<le> i" using i by simp
  have room: "0 \<le> width - i" "width - i < int (length w)" using i(2) i0 long wl by linarith+
  then have fr: "go_slice w 0 (width - i) = returns front"
    by (simp add: go_slice_def guard_else_def front_def)
  have "\<forall>c\<in>set front. \<not> is_break c" using nb by (auto simp: front_def dest: in_set_takeD)
  then have wf: "sliceLength front = width - i"
    using room by (simp add: sliceLength_word front_def)
  have lne: "line @ front \<noteq> []" using wf width i by auto
  obtain ls' line' where "split_long_word w width (sliceLength w) (width - i) i ls (line @ front) n =
      returns (sliceLength line', ls', line', int (length ls') + 1)"
    and "\<forall>l\<in>set ls'. l \<noteq> [] \<and> sliceLength l \<le> width" "sliceLength line' \<le> width"
    and cat: "concat ls' @ line' = concat ls @ (line @ front) @ drop (nat (width - i)) w"
    using split_long_word_ok [OF nb, of width "width - i" "line @ front" ls i n]
      assms wl lne wf room by (auto simp: lines_fit_def)
  moreover have "concat ls' @ line' = concat ls @ line @ w"
    using cat by (simp add: front_def)
  ultimately show ?thesis using fr by (auto simp: lines_fit_def)
qed

context word_sequence
begin

lemma loop_end:
  assumes "ok s" and "rest s = []"
  shows "seq_to_lines_loop NextWord width s ls line i n nc =
    returns (ls @ [line @ [CHR 0x0A]], n, nc)"
proof -
  from NextWord_end [OF assms] obtain s' where "NextWord s = returns (None, s')" by blast
  then show ?thesis by (subst seq_to_lines_loop.simps) simp
qed

lemma loop_ok:
  assumes "ok s" and "4 \<le> width" and "lines_fit width ls" and "i = sliceLength line" and "i \<le> width"
    and "n = int (length ls) + 1"
  shows "\<exists>L. seq_to_lines_loop NextWord width s ls line i n nc =
      returns (L, int (length L), nc + int (length (rest s))) \<and> L \<noteq> [] \<and> lines_fit width L \<and>
      concat L = concat ls @ line @ rest s @ [CHR 0x0A]"
  using assms
proof (induction "length (rest s)" arbitrary: s ls line i n nc rule: less_induct)
  case less
  show ?case
  proof (cases "rest s = []")
    case True
    with less.prems show ?thesis by (simp add: loop_end charLength_def)
  next
    case False
    define w where "w = first_word (rest s)"
    from NextWord_word [OF less.prems(1) False] obtain s' where
      nw: "NextWord s = returns (Some w, s')" and ok': "ok s'"
      and rest': "rest s' = drop (length w) (rest s)" unfolding w_def by blast
    have split: "rest s = w @ rest s'"
      using first_word_prefix [OF False] by (simp add: rest' w_def)
    have wne: "w \<noteq> []" using False by (simp add: w_def)
    have shorter: "length (rest s') < length (rest s)" using wne by (simp add: split)
    note IH = less.hyps [OF shorter ok' less.prems(2)]
    have w0: "w ! 0 = hd (rest s)" using False by (simp add: w_def)
    let ?loop = "seq_to_lines_loop NextWord width" and ?nc = "nc + int (length w)"
    show ?thesis
    proof (cases "hd (rest s) = CHR 0x0A")
      case True
      then have w: "w = [CHR 0x0A]" by (simp add: w_def first_word_def)
      have step: "?loop s ls line i n nc = ?loop s' (ls @ [line @ [CHR 0x0A]]) [] 0 (n + 1) ?nc"
        using less.prems(2) by (subst seq_to_lines_loop.simps) (simp add: nw w)
      show ?thesis
        unfolding step split
        using IH [of "ls @ [line @ [CHR 0x0A]]" 0 "[]" "n + 1" ?nc] less.prems
        by (simp add: w charLength_def add.assoc)
    next
      case notnl: False
      let ?wl = "sliceLength w"
      have wl: "wordLength w = returns ?wl"
        unfolding w_def by (rule wordLength_first_word [OF False notnl])
      note facts = nw wne w0 notnl wl Let_def
      consider (fits) "i + ?wl \<le> width" | (wraps) "width < i + ?wl" "?wl \<le> width"
        | (long) "width < i + ?wl" "width < ?wl" by linarith
      then show ?thesis
      proof cases
        case fits
        then have step: "?loop s ls line i n nc = ?loop s' ls (line @ w) (i + ?wl) n ?nc"
          by (subst seq_to_lines_loop.simps) (simp add: facts)
        show ?thesis
          unfolding step split
          using IH [of ls "i + ?wl" "line @ w" n ?nc] less.prems fits by (simp add: add.assoc)
      next
        case wraps
        then have step: "?loop s ls line i n nc = ?loop s' (ls @ [line]) w ?wl (n + 1) ?nc"
          by (subst seq_to_lines_loop.simps) (simp add: facts)
        have "line \<noteq> []" using wraps less.prems(4) by auto
        then show ?thesis
          unfolding step split
          using IH [of "ls @ [line]" ?wl w "n + 1" ?nc] less.prems wraps by (simp add: add.assoc)
      next
        case long
        have nb: "\<forall>c\<in>set w. \<not> is_break c"
        proof (cases "is_break (hd (rest s))")
          case True
          then have "?wl \<le> 4" by (simp add: w_def first_word_def charLength_bounds)
          with long less.prems(2) show ?thesis by linarith
        qed (auto simp: w_def first_word_def dest: set_takeWhileD)
        from long_word_step [OF nb less.prems(2-6)] long obtain front ls' line' where
          fr: "go_slice w 0 (width - i) = returns front"
          and sp: "split_long_word w width ?wl (width - i) i ls (line @ front) n =
            returns (sliceLength line', ls', line', int (length ls') + 1)"
          and fit: "lines_fit width ls'" "sliceLength line' \<le> width"
          and cat: "concat ls' @ line' = concat ls @ line @ w" by blast
        have step: "?loop s ls line i n nc =
            ?loop s' ls' line' (sliceLength line') (int (length ls') + 1) ?nc"
          using long by (subst seq_to_lines_loop.simps) (simp add: facts fr sp)
        have cat': "concat ls' @ line' @ u = concat ls @ line @ w @ u" for u
          using cat by (simp flip: append_assoc)
        show ?thesis
          unfolding step split
          using IH [of ls' "sliceLength line'" line' "int (length ls') + 1" ?nc] fit
            cat' [of "rest s' @ [CHR 0x0A]"] by (simp add: add.assoc)
      qed
    qed
  qed
qed

lemma SeqToLines_ok:
  assumes "ok s" and "4 \<le> width"
  shows "\<exists>L. SeqToLines NextWord s width = returns (L, int (length L), int (length (rest s))) \<and>
      L \<noteq> [] \<and> lines_fit width L \<and> concat L = rest s @ [CHR 0x0A]"
  using loop_ok [OF assms, of "[]" 0 "[]" 1 0] assms by (simp add: SeqToLines_def guard_else_def)

lemma loop_same_rest:
  assumes "ok s" and "string_rest t = rest s"
  shows "seq_to_lines_loop NextWord width s ls line i n nc =
    seq_to_lines_loop StringSequence_NextWord width t ls line i n nc"
  using assms
proof (induction "length (rest s)" arbitrary: s t ls line i n nc rule: less_induct)
  case less
  show ?case
  proof (cases "rest s = []")
    case True
    with less.prems show ?thesis by (simp add: loop_end string_seq.loop_end)
  next
    case False
    from NextWord_word [OF less.prems(1) False] obtain s' where
      s': "NextWord s = returns (Some (first_word (rest s)), s')" "ok s'"
      "rest s' = drop (length (first_word (rest s))) (rest s)" by blast
    from string_seq.NextWord_word [of t] False less.prems(2) obtain t' where
      t': "StringSequence_NextWord t = returns (Some (first_word (rest s)), t')"
      "string_rest t' = rest s'" by (auto simp: s')
    have "length (rest s') < length (rest s)"
      using False by (simp add: s')
    note IH = less.hyps [OF this s'(2) t'(2)]
    show ?thesis
      unfolding seq_to_lines_loop.simps [of NextWord width s ls line i n nc]
        seq_to_lines_loop.simps [of StringSequence_NextWord width t ls line i n nc]
      by (simp add: s'(1) t'(1) IH Let_def cong: if_cong)
  qed
qed

lemma SeqToLines_same_rest:
  "ok s \<Longrightarrow> SeqToLines NextWord s width =
    SeqToLines StringSequence_NextWord (NewStringSequence (rest s)) width"
  using loop_same_rest [of s "NewStringSequence (rest s)"]
  by (simp add: SeqToLines_def string_rest_def NewStringSequence_def)

end

section \<open>Properties\<close>

text \<open>C21: laying a text out on lines terminates, loses and adds nothing but the final newline, counts
  lines and bytes rightly and keeps every line within the width, when the width is at least a tab.\<close>

theorem SeqToLines_layout:
  assumes "4 \<le> width"
  shows "\<exists>L. SeqToLines StringSequence_NextWord (NewStringSequence str) width =
      returns (L, int (length L), int (length str)) \<and>
    L \<noteq> [] \<and> lines_fit width L \<and> concat L = str @ [CHR 0x0A]"
  using string_seq.SeqToLines_ok [OF _ assms, of "NewStringSequence str"]
  by (simp add: string_rest_def NewStringSequence_def)

theorem SeqToLines_layout_witness:
  "SeqToLines StringSequence_NextWord (NewStringSequence ''ab cdefgh'') 5 =
    returns ([''ab cd'', ''efgh'' @ [CHR 0x0A]], 2, 9) \<and>
   lines_fit 5 [''ab cd'', ''efgh'' @ [CHR 0x0A]]"
proof -
  have "SeqToLines StringSequence_NextWord (NewStringSequence ''ab cdefgh'') 5 =
    returns ([''ab cd'', ''efgh'' @ [CHR 0x0A]], 2, 9)" by code_simp
  then show ?thesis using SeqToLines_layout [of 5 "''ab cdefgh''"] by auto
qed

end
