(* ===== verification/Buffer.thy ===== *)
theory Buffer
  imports Layout
begin

text \<open>
  The text buffer: \<^verbatim>\<open>buffer/buffer.go\<close>. The chain of lines is a list; the pointer
  \<open>currentLine\<close> is the index of the line it designates, kept apart from the field \<open>currentY\<close>
  that the source keeps beside it. Positions are \<open>int\<close>, as in the source.
\<close>

section \<open>Data\<close>

datatype BufferOpType = BUF_NO_OPERATION | BUF_INSERT | BUF_REMOTE_INSERT | BUF_DELETE

record BufferOperation =
  bo_Type :: BufferOpType
  bo_Pos :: int
  bo_Atom :: byte

record Buffer =
  b_width :: int
  numberOfChars :: int
  numberOfLines :: int
  b_lines :: "byte list list"
  currentLine :: nat
  currentPosition :: int
  currentX :: int
  currentY :: int

section \<open>Operations\<close>

definition StringToBuffer :: "byte list \<Rightarrow> int \<Rightarrow> Buffer prog" where
  "StringToBuffer str width =
     pbind (SeqToLines StringSequence_NextWord (NewStringSequence str) width) (\<lambda>(ls, nl, nc).
       returns \<lparr>b_width = width, numberOfChars = nc, numberOfLines = nl, b_lines = ls,
         currentLine = 0, currentPosition = 0, currentX = 0, currentY = 0\<rparr>)"

text \<open>The search loop of \<open>findPos\<close> and \<open>SetPosition\<close>; running off the chain dereferences nil.\<close>

fun find_pos_loop :: "byte list list \<Rightarrow> int \<Rightarrow> int \<Rightarrow> nat \<Rightarrow> (int \<times> nat) prog" where
  "find_pos_loop [] pos acc y = panics NilDereference"
| "find_pos_loop (l # ls) pos acc y =
     (if acc + int (length l) > pos then returns (pos - acc, y)
      else find_pos_loop ls pos (acc + int (length l)) (Suc y))"

definition findPos :: "Buffer \<Rightarrow> int \<Rightarrow> (int \<times> int \<times> int \<times> nat) prog" where
  "findPos buf pos =
     pbind (find_pos_loop (b_lines buf) pos 0 0) (\<lambda>(x, y). returns (pos, x, int y, y))"

definition SetPosition :: "Buffer \<Rightarrow> int \<Rightarrow> Buffer prog" where
  "SetPosition buf pos =
     pbind (find_pos_loop (b_lines buf) pos 0 0) (\<lambda>(x, y).
       returns (buf\<lparr>currentPosition := pos, currentLine := y, currentY := int y, currentX := x\<rparr>))"

definition Resize :: "Buffer \<Rightarrow> int \<Rightarrow> Buffer prog" where
  "Resize buf width =
     pbind (SeqToLines LineSequence_NextWord (NewLineSequence (b_lines buf)) width)
       (\<lambda>(ls, nl, nc).
     pbind (SetPosition (buf\<lparr>b_lines := ls, numberOfLines := nl, numberOfChars := nc\<rparr>)
         (currentPosition buf))
       (\<lambda>buf'. returns (buf'\<lparr>b_width := width\<rparr>)))"

definition cur_bytes :: "Buffer \<Rightarrow> byte list" where
  "cur_bytes buf = b_lines buf ! currentLine buf"

definition MoveLeft :: "Buffer \<Rightarrow> Buffer" where
  "MoveLeft buf =
     (if currentX buf > 0 then
        buf\<lparr>currentX := currentX buf - 1, currentPosition := currentPosition buf - 1\<rparr>
      else if currentLine buf \<noteq> 0 then
        let buf = buf\<lparr>currentLine := currentLine buf - 1, currentY := currentY buf - 1\<rparr>
        in buf\<lparr>currentX := int (length (cur_bytes buf)) - 1,
               currentPosition := currentPosition buf - 1\<rparr>
      else buf)"

definition MoveRight :: "Buffer \<Rightarrow> Buffer" where
  "MoveRight buf =
     (if currentX buf < int (length (cur_bytes buf)) - 1 then
        buf\<lparr>currentX := currentX buf + 1, currentPosition := currentPosition buf + 1\<rparr>
      else if currentLine buf + 1 < length (b_lines buf) then
        buf\<lparr>currentLine := currentLine buf + 1, currentY := currentY buf + 1, currentX := 0,
            currentPosition := currentPosition buf + 1\<rparr>
      else buf)"

text \<open>The loop of \<open>MoveUp\<close> and \<open>MoveDown\<close> that looks for the target column.\<close>

fun column_loop :: "byte list \<Rightarrow> int \<Rightarrow> int \<Rightarrow> int \<Rightarrow> int" where
  "column_loop [] s target x = x"
| "column_loop (ch # bytes) s target x =
     (let s' = s + charLength ch in
      if s' > target \<or> ch = CHR 0x0A then x
      else if s' = target then x + 1
      else column_loop bytes s' target (x + 1))"

definition MoveUp :: "Buffer \<Rightarrow> Buffer prog" where
  "MoveUp buf =
     (if currentLine buf \<noteq> 0 then
        pbind (go_slice (cur_bytes buf) 0 (currentX buf)) (\<lambda>prefix.
        let target = sliceLength prefix;
            pos = currentPosition buf - currentX buf;
            buf = buf\<lparr>currentLine := currentLine buf - 1, currentY := currentY buf - 1\<rparr>;
            x = column_loop (cur_bytes buf) 0 target 0
        in returns (buf\<lparr>currentX := x,
             currentPosition := pos - (int (length (cur_bytes buf)) - x)\<rparr>))
      else returns buf)"

definition MoveDown :: "Buffer \<Rightarrow> Buffer prog" where
  "MoveDown buf =
     (if currentLine buf + 1 < length (b_lines buf) then
        pbind (go_slice (cur_bytes buf) 0 (currentX buf)) (\<lambda>prefix.
        let target = sliceLength prefix;
            pos = currentPosition buf + (int (length (cur_bytes buf)) - currentX buf);
            buf = buf\<lparr>currentLine := currentLine buf + 1, currentY := currentY buf + 1\<rparr>;
            x = column_loop (cur_bytes buf) 0 target 0
        in returns (buf\<lparr>currentX := x, currentPosition := pos + x\<rparr>))
      else returns buf)"

text \<open>\<open>append(b, 0); copy(b[x+1:], b[x:]); b[x] = ch\<close>, and \<open>append(b[:x], b[x+1:]...)\<close>.\<close>

definition insert_byte :: "byte list \<Rightarrow> int \<Rightarrow> byte \<Rightarrow> byte list prog" where
  "insert_byte bytes x ch = guard_else (0 \<le> x \<and> x \<le> int (length bytes)) SliceOutOfRange
     (returns (insert_at (nat x) ch bytes))"

definition delete_byte :: "byte list \<Rightarrow> int \<Rightarrow> byte list prog" where
  "delete_byte bytes x = guard_else (0 \<le> x \<and> x + 1 \<le> int (length bytes)) SliceOutOfRange
     (returns (delete_at (nat x) bytes))"

definition Buffer_Insert :: "Buffer \<Rightarrow> int \<Rightarrow> byte \<Rightarrow> Buffer prog" where
  "Buffer_Insert buf pos ch =
     pbind (findPos buf pos) (\<lambda>(_, x, _, y).
     pbind (insert_byte (b_lines buf ! y) x ch) (\<lambda>bytes.
     let buf = buf\<lparr>b_lines := (b_lines buf)[y := bytes]\<rparr>;
         buf = (if pos \<le> currentPosition buf
                then buf\<lparr>currentPosition := currentPosition buf + 1\<rparr> else buf)
     in Resize buf (b_width buf)))"

definition Buffer_RemoteInsert :: "Buffer \<Rightarrow> int \<Rightarrow> byte \<Rightarrow> Buffer prog" where
  "Buffer_RemoteInsert buf pos ch =
     pbind (findPos buf pos) (\<lambda>(_, x, _, y).
     pbind (insert_byte (b_lines buf ! y) x ch) (\<lambda>bytes.
     let buf = buf\<lparr>b_lines := (b_lines buf)[y := bytes]\<rparr>;
         buf = (if pos < currentPosition buf
                then buf\<lparr>currentPosition := currentPosition buf + 1\<rparr> else buf)
     in Resize buf (b_width buf)))"

definition Buffer_Delete :: "Buffer \<Rightarrow> int \<Rightarrow> Buffer prog" where
  "Buffer_Delete buf pos =
     pbind (findPos buf pos) (\<lambda>(_, x, _, y).
     pbind (delete_byte (b_lines buf ! y) x) (\<lambda>bytes.
     let buf = buf\<lparr>b_lines := (b_lines buf)[y := bytes]\<rparr>;
         buf = (if pos < currentPosition buf
                then buf\<lparr>currentPosition := currentPosition buf - 1\<rparr> else buf)
     in Resize buf (b_width buf)))"

definition InsertAtCurrent :: "Buffer \<Rightarrow> byte \<Rightarrow> Buffer prog" where
  "InsertAtCurrent buf ch = Buffer_Insert buf (currentPosition buf) ch"

definition DeleteAtCurrent :: "Buffer \<Rightarrow> Buffer prog" where
  "DeleteAtCurrent buf =
     (if numberOfChars buf > 0 then Buffer_Delete buf (currentPosition buf) else returns buf)"

definition BackspaceAtCurrent :: "Buffer \<Rightarrow> Buffer prog" where
  "BackspaceAtCurrent buf =
     (if currentPosition buf > 0 then Buffer_Delete buf (currentPosition buf - 1) else returns buf)"

definition Buffer_ApplyOperation :: "Buffer \<Rightarrow> BufferOperation \<Rightarrow> Buffer prog" where
  "Buffer_ApplyOperation buf bufOp =
     (if bo_Type bufOp = BUF_INSERT then Buffer_Insert buf (bo_Pos bufOp) (bo_Atom bufOp)
      else if bo_Type bufOp = BUF_REMOTE_INSERT
        then Buffer_RemoteInsert buf (bo_Pos bufOp) (bo_Atom bufOp)
      else if bo_Type bufOp = BUF_DELETE then Buffer_Delete buf (bo_Pos bufOp)
      else returns buf)"

definition GetPosition :: "Buffer \<Rightarrow> int" where
  "GetPosition buf = currentPosition buf"

definition GetSize :: "Buffer \<Rightarrow> int" where
  "GetSize buf = numberOfChars buf"

text \<open>\<open>for i < cursorY { line = line.Prev }\<close>: \<open>None\<close> is the nil line before the first one.\<close>

fun walk_prev :: "nat \<Rightarrow> nat option \<Rightarrow> nat option prog" where
  "walk_prev 0 line = returns line"
| "walk_prev (Suc n) line =
     (case line of None \<Rightarrow> panics NilDereference
      | Some y \<Rightarrow> walk_prev n (if y = 0 then None else Some (y - 1)))"

definition GetDisplayInformation ::
  "Buffer \<Rightarrow> int \<Rightarrow> int \<Rightarrow> (int \<times> int \<times> int \<times> nat option) prog" where
  "GetDisplayInformation buf screenY height =
     (let screenY = (if currentY buf < screenY then currentY buf
                     else if currentY buf \<ge> screenY + height then currentY buf - height + 1
                     else screenY);
          cursorY = currentY buf - screenY
      in pbind (go_slice (cur_bytes buf) 0 (currentX buf)) (\<lambda>prefix.
         pbind (walk_prev (nat cursorY) (Some (currentLine buf))) (\<lambda>line.
         returns (screenY, sliceLength prefix, cursorY, line))))"

definition Buffer_ToString :: "Buffer \<Rightarrow> byte list prog" where
  "Buffer_ToString buf =
     (if b_lines buf = [] then panics NilDereference
      else let written = concat (b_lines buf)
           in guard_else (written \<noteq> []) (ExplicitPanic ''bytes.Buffer: truncation out of range'')
                (returns (butlast written)))"

fun NumberOfLines_loop :: "byte list list \<Rightarrow> int \<Rightarrow> int" where
  "NumberOfLines_loop [] i = i"
| "NumberOfLines_loop (l # lines) i = NumberOfLines_loop lines (i + 1)"

definition NumberOfLines :: "byte list list \<Rightarrow> int" where
  "NumberOfLines lines = NumberOfLines_loop lines 0"

section \<open>The invariant\<close>

definition buf_text :: "Buffer \<Rightarrow> byte list" where
  "buf_text buf = lines_text (b_lines buf)"

definition cursor_ok :: "Buffer \<Rightarrow> bool" where
  "cursor_ok buf \<longleftrightarrow> currentLine buf < length (b_lines buf) \<and> currentY buf = int (currentLine buf) \<and>
     0 \<le> currentX buf \<and> currentX buf \<le> int (length (cur_bytes buf)) \<and>
     (currentLine buf + 1 = length (b_lines buf) \<longrightarrow> currentX buf < int (length (cur_bytes buf))) \<and>
     currentPosition buf =
       int (length (concat (take (currentLine buf) (b_lines buf)))) + currentX buf"

text \<open>
  The column may be one past the last byte of a wrapped line: \<open>MoveUp\<close> and \<open>MoveDown\<close> leave it
  there when the target column lies beyond the line.
\<close>

definition cursor_on_byte :: "Buffer \<Rightarrow> bool" where
  "cursor_on_byte buf \<longleftrightarrow> currentX buf < int (length (cur_bytes buf))"

text \<open>
  A buffer is well formed when its lines, line count and character count are what a fresh layout
  of its text at its width gives, and its cursor fields agree with each other.
\<close>

definition buf_ok :: "Buffer \<Rightarrow> bool" where
  "buf_ok buf \<longleftrightarrow> 4 \<le> b_width buf \<and>
     SeqToLines StringSequence_NextWord (NewStringSequence (buf_text buf)) (b_width buf) =
       returns (b_lines buf, numberOfLines buf, numberOfChars buf) \<and> cursor_ok buf"

section \<open>Layout facts\<close>

lemma nonempty_lines_ok:
  "\<forall>l\<in>set ls. l \<noteq> [] \<Longrightarrow> ls \<noteq> [] \<Longrightarrow> last (concat ls) = CHR 0x0A \<Longrightarrow> lines_ok ls"
proof (induction ls rule: lines_ok.induct)
  case (3 l l' ls)
  then have "l' \<noteq> []" "concat (l' # ls) \<noteq> []" by simp_all
  with 3 show ?case by (simp add: last_append split: if_splits)
qed auto

lemma string_layout_facts:
  assumes "SeqToLines StringSequence_NextWord (NewStringSequence t) w = returns (L, nl, nc)"
    and "4 \<le> w"
  shows "L \<noteq> []" and "lines_fit w L" and "concat L = t @ [CHR 0x0A]" and "nl = int (length L)"
    and "nc = int (length t)" and "lines_ok L" and "lines_text L = t"
proof -
  have rest: "string_rest (NewStringSequence t) = t"
    by (simp add: string_rest_def NewStringSequence_def)
  from string_seq.SeqToLines_ok [OF TrueI assms(2), of "NewStringSequence t"] assms(1)
  show *: "L \<noteq> []" "lines_fit w L" "concat L = t @ [CHR 0x0A]" "nl = int (length L)"
    "nc = int (length t)" by (auto simp: rest)
  from * show "lines_ok L" by (intro nonempty_lines_ok) (auto simp: lines_fit_def)
  from * show "lines_text L = t" by (simp add: lines_text_def)
qed

lemma string_layout_total:
  "4 \<le> w \<Longrightarrow> \<exists>L nl nc.
     SeqToLines StringSequence_NextWord (NewStringSequence t) w = returns (L, nl, nc)"
  using string_seq.SeqToLines_ok [OF TrueI, of w "NewStringSequence t"] by blast

text \<open>Laying out the lines of a chain again is laying out their text from scratch.\<close>

lemma line_layout_eq:
  assumes "lines_ok ls"
  shows "SeqToLines LineSequence_NextWord (NewLineSequence ls) w =
    SeqToLines StringSequence_NextWord (NewStringSequence (lines_text ls)) w"
proof -
  have "line_seq_ok (NewLineSequence ls)"
    using assms by (cases ls rule: lines_ok.cases) (auto simp: line_seq_ok_def NewLineSequence_def)
  moreover have "line_rest (NewLineSequence ls) = lines_text ls"
    by (simp add: line_rest_def NewLineSequence_def lines_text_def)
  ultimately show ?thesis using line_seq.SeqToLines_same_rest by metis
qed

lemma find_pos_loop_ok:
  assumes "acc \<le> pos" and "pos < acc + int (length (concat ls))"
  shows "\<exists>x j. find_pos_loop ls pos acc y = returns (int x, y + j) \<and> j < length ls \<and>
    x < length (ls ! j) \<and> pos = acc + int (length (concat (take j ls))) + int x"
  using assms
proof (induction ls arbitrary: acc y)
  case Nil
  then show ?case by simp
next
  case (Cons l ls)
  show ?case
  proof (cases "acc + int (length l) > pos")
    case True
    with Cons.prems show ?thesis
      by (intro exI [of _ "nat (pos - acc)"] exI [of _ 0]) auto
  next
    case False
    with Cons.prems Cons.IH [of "acc + int (length l)" "Suc y"] obtain x j where
      "find_pos_loop ls pos (acc + int (length l)) (Suc y) = returns (int x, Suc y + j)"
      "j < length ls" "x < length (ls ! j)"
      "pos = acc + int (length l) + int (length (concat (take j ls))) + int x" by auto
    with False show ?thesis by (intro exI [of _ x] exI [of _ "Suc j"]) simp
  qed
qed

lemma find_pos_loop_past_end:
  "acc + int (length (concat ls)) \<le> pos \<Longrightarrow> find_pos_loop ls pos acc y = panics NilDereference"
  by (induction ls arbitrary: acc y) (simp_all add: algebra_simps)

section \<open>The operations keep the invariant\<close>

lemma Resize_ok:
  assumes "lines_ok (b_lines buf)" and "4 \<le> w" and "0 \<le> currentPosition buf"
    and "currentPosition buf \<le> int (length (buf_text buf))"
  shows "\<exists>buf'. Resize buf w = returns buf' \<and> buf_ok buf' \<and> buf_text buf' = buf_text buf \<and>
    b_width buf' = w \<and> currentPosition buf' = currentPosition buf \<and> cursor_on_byte buf'"
proof -
  obtain L nl nc where lay:
    "SeqToLines StringSequence_NextWord (NewStringSequence (buf_text buf)) w = returns (L, nl, nc)"
    using string_layout_total [OF assms(2)] by blast
  note facts = string_layout_facts [OF lay assms(2)]
  have seq: "SeqToLines LineSequence_NextWord (NewLineSequence (b_lines buf)) w = returns (L, nl, nc)"
    using line_layout_eq [OF assms(1)] lay by (simp add: buf_text_def)
  obtain x j where "find_pos_loop L (currentPosition buf) 0 0 = returns (int x, j)"
    "j < length L" "x < length (L ! j)"
    "currentPosition buf = int (length (concat (take j L))) + int x"
    using find_pos_loop_ok [of 0 "currentPosition buf" L 0] assms(3,4) facts(3) by auto
  with seq lay facts(7) assms(2) show ?thesis
    by (simp add: Resize_def SetPosition_def buf_ok_def cursor_ok_def cursor_on_byte_def cur_bytes_def
        buf_text_def)
qed

lemma buf_ok_facts:
  assumes "buf_ok buf"
  shows "4 \<le> b_width buf" and "b_lines buf \<noteq> []" and "lines_fit (b_width buf) (b_lines buf)"
    and "concat (b_lines buf) = buf_text buf @ [CHR 0x0A]"
    and "numberOfLines buf = int (length (b_lines buf))"
    and "numberOfChars buf = int (length (buf_text buf))" and "lines_ok (b_lines buf)"
    and "cursor_ok buf"
  using assms string_layout_facts [of "buf_text buf" "b_width buf"] unfolding buf_ok_def by blast+

lemma buf_ok_line_nonempty: "buf_ok buf \<Longrightarrow> j < length (b_lines buf) \<Longrightarrow> b_lines buf ! j \<noteq> []"
  using buf_ok_facts(3) [of buf] by (simp add: lines_fit_def)

lemma buf_ok_position:
  assumes "buf_ok buf"
  shows "0 \<le> currentPosition buf" and "currentPosition buf \<le> int (length (buf_text buf))"
proof -
  note c = buf_ok_facts(8) [OF assms, unfolded cursor_ok_def]
  let ?after = "drop (Suc (currentLine buf)) (b_lines buf)"
  have "length (concat (b_lines buf)) = length (concat (take (currentLine buf) (b_lines buf))) +
      (length (cur_bytes buf) + length (concat ?after))"
    using c concat_update(2) [of "currentLine buf" "b_lines buf"] by (metis cur_bytes_def length_append)
  moreover have "0 < length (concat ?after)" if "currentX buf = int (length (cur_bytes buf))"
  proof -
    have "?after \<noteq> []" using c that by simp
    then have "\<exists>l\<in>set ?after. l \<noteq> []"
      using buf_ok_facts(3) [OF assms] by (metis lines_fit_def in_set_dropD list.set_intros(1) neq_Nil_conv)
    then show ?thesis by (metis concat_eq_Nil_conv length_greater_0_conv)
  qed
  moreover have "length (concat (b_lines buf)) = Suc (length (buf_text buf))"
    using buf_ok_facts(4) [OF assms] by simp
  moreover have "currentX buf \<le> int (length (cur_bytes buf))" "currentPosition buf =
      int (length (concat (take (currentLine buf) (b_lines buf)))) + currentX buf"
    using c by blast+
  ultimately show "currentPosition buf \<le> int (length (buf_text buf))"
    by (cases "currentX buf = int (length (cur_bytes buf))") linarith+
  show "0 \<le> currentPosition buf" using c by simp
qed

text \<open>Where a position lies: the line \<open>y\<close> and the column \<open>x\<close> that \<open>findPos\<close> gives.\<close>

lemma findPos_ok:
  assumes "buf_ok buf" and "0 \<le> pos" and "pos \<le> int (length (buf_text buf))"
  obtains x y where "findPos buf pos = returns (pos, int x, int y, y)" and "y < length (b_lines buf)"
    and "x < length (b_lines buf ! y)"
    and "nat pos = length (concat (take y (b_lines buf))) + x"
proof -
  have "pos < 0 + int (length (concat (b_lines buf)))"
    using assms(3) buf_ok_facts(4) [OF assms(1)] by simp
  from find_pos_loop_ok [OF assms(2) this, of 0] obtain x y where
    "find_pos_loop (b_lines buf) pos 0 0 = returns (int x, y)" "y < length (b_lines buf)"
    "x < length (b_lines buf ! y)"
    "pos = int (length (concat (take y (b_lines buf)))) + int x" by auto
  then show ?thesis by (intro that [of x y]) (auto simp: findPos_def)
qed

text \<open>After an edit of one line, the layout runs again and the cursor is set.\<close>

lemma edit_line_ok:
  assumes ok: "buf_ok buf" and y: "y < length (b_lines buf)"
    and lines: "lines_ok ((b_lines buf)[y := bytes])"
    and tx: "lines_text ((b_lines buf)[y := bytes]) = t"
    and pos: "0 \<le> p" "p \<le> int (length t)"
  shows "\<exists>buf'. Resize (buf\<lparr>b_lines := (b_lines buf)[y := bytes], currentPosition := p\<rparr>)
      (b_width buf) = returns buf' \<and> buf_ok buf' \<and> buf_text buf' = t \<and>
      b_width buf' = b_width buf \<and> currentPosition buf' = p"
  using Resize_ok [of "buf\<lparr>b_lines := (b_lines buf)[y := bytes], currentPosition := p\<rparr>" "b_width buf"]
    assms buf_ok_facts(1) [OF ok] by (auto simp: buf_text_def)

lemma insert_line_facts:
  fixes ch :: byte
  assumes ok: "buf_ok buf" and y: "y < length (b_lines buf)" and x: "x < length (b_lines buf ! y)"
    and p: "p = length (concat (take y (b_lines buf))) + x"
  defines "ls \<equiv> (b_lines buf)[y := insert_at x ch (b_lines buf ! y)]"
  shows "lines_ok ls" and "lines_text ls = insert_at p ch (buf_text buf)"
proof -
  note f = buf_ok_facts [OF ok]
  have len: "p < length (concat (b_lines buf))"
    unfolding p using x concat_update(2) [OF y] by (metis add_less_cancel_left length_append trans_less_add1)
  have cat: "concat ls = insert_at p ch (concat (b_lines buf))"
    unfolding ls_def p using concat_insert_at [OF y less_imp_le [OF x]] .
  then show "lines_text ls = insert_at p ch (buf_text buf)"
    using len by (simp add: lines_text_def butlast_insert_at buf_text_def)
  have "\<forall>l\<in>set ls. l \<noteq> []"
    unfolding ls_def using f(3) by (auto simp: lines_fit_def insert_at_def dest!: set_update_subset_insert [THEN subsetD])
  moreover have "last (concat ls) = CHR 0x0A"
    using len f(4) unfolding cat by (simp add: insert_at_def)
  ultimately show "lines_ok ls" using f(2) by (intro nonempty_lines_ok) (auto simp: ls_def)
qed

lemma Buffer_Insert_ok:
  assumes "buf_ok buf" and "0 \<le> pos" and "pos \<le> int (length (buf_text buf))"
  shows "\<exists>buf'. Buffer_Insert buf pos ch = returns buf' \<and> buf_ok buf' \<and>
    buf_text buf' = insert_at (nat pos) ch (buf_text buf) \<and> b_width buf' = b_width buf \<and>
    currentPosition buf' = currentPosition buf + (if pos \<le> currentPosition buf then 1 else 0)"
proof -
  from assms obtain x y where f: "findPos buf pos = returns (pos, int x, int y, y)"
    and y: "y < length (b_lines buf)" and x: "x < length (b_lines buf ! y)"
    and p: "nat pos = length (concat (take y (b_lines buf))) + x" by (rule findPos_ok)
  let ?b = "insert_at x ch (b_lines buf ! y)"
  let ?p = "currentPosition buf + (if pos \<le> currentPosition buf then 1 else 0)"
  note e = edit_line_ok [OF assms(1) y insert_line_facts [OF assms(1) y x p], of ?p ch]
  have ins: "insert_byte (b_lines buf ! y) (int x) ch = returns ?b"
    using x by (simp add: insert_byte_def guard_else_def)
  show ?thesis
    using e buf_ok_position [OF assms(1)] by (cases "pos \<le> currentPosition buf")
      (simp_all add: Buffer_Insert_def f ins Let_def)
qed

lemma Buffer_RemoteInsert_ok:
  assumes "buf_ok buf" and "0 \<le> pos" and "pos \<le> int (length (buf_text buf))"
  shows "\<exists>buf'. Buffer_RemoteInsert buf pos ch = returns buf' \<and> buf_ok buf' \<and>
    buf_text buf' = insert_at (nat pos) ch (buf_text buf) \<and> b_width buf' = b_width buf \<and>
    currentPosition buf' = currentPosition buf + (if pos < currentPosition buf then 1 else 0)"
proof -
  from assms obtain x y where f: "findPos buf pos = returns (pos, int x, int y, y)"
    and y: "y < length (b_lines buf)" and x: "x < length (b_lines buf ! y)"
    and p: "nat pos = length (concat (take y (b_lines buf))) + x" by (rule findPos_ok)
  let ?b = "insert_at x ch (b_lines buf ! y)"
  let ?p = "currentPosition buf + (if pos < currentPosition buf then 1 else 0)"
  note e = edit_line_ok [OF assms(1) y insert_line_facts [OF assms(1) y x p], of ?p ch]
  have ins: "insert_byte (b_lines buf ! y) (int x) ch = returns ?b"
    using x by (simp add: insert_byte_def guard_else_def)
  show ?thesis
    using e buf_ok_position [OF assms(1)] by (cases "pos < currentPosition buf")
      (simp_all add: Buffer_RemoteInsert_def f ins Let_def)
qed

subsection \<open>Deleting\<close>

text \<open>
  The one deletion the buffer does not survive: the byte is alone on its line and the line before
  ends inside a word. The line becomes empty and \<open>continue_word\<close> reads its byte 0.
\<close>

definition delete_gap :: "Buffer \<Rightarrow> int \<Rightarrow> bool" where
  "delete_gap buf pos \<longleftrightarrow>
     (case findPos buf pos of
        Some (Inr (_, _, _, y)) \<Rightarrow> 0 < y \<and> y + 1 < length (b_lines buf) \<and>
          length (b_lines buf ! y) = 1 \<and> \<not> is_break (last (b_lines buf ! (y - 1)))
      | _ \<Rightarrow> False)"

lemma nonempty_lines_ok_tl: "lines_ok ls \<Longrightarrow> j < length ls \<Longrightarrow> lines_ok (drop j ls)"
proof (induction ls arbitrary: j)
  case (Cons l ls)
  then show ?case by (cases j) (auto dest: lines_ok_tl)
qed simp

lemma lines_ok_update_empty:
  assumes "\<forall>l\<in>set ls. l \<noteq> []" and "lines_ok ls" and "j + 1 < length ls"
    and "j = 0 \<or> is_break (last (ls ! (j - 1)))"
  shows "lines_ok (ls[j := []])"
  using assms
proof (induction ls arbitrary: j rule: lines_ok.induct)
  case (3 l l' ls)
  show ?case
  proof (cases j)
    case 0
    with 3 show ?thesis by simp
  next
    case (Suc i)
    show ?thesis
    proof (cases i)
      case 0
      with 3 Suc show ?thesis using "3.IH" [of 0] by (cases ls) auto
    next
      case (Suc k)
      with 3 \<open>j = Suc i\<close> show ?thesis using "3.IH" [of i] by simp
    qed
  qed
qed auto

lemma delete_line_facts:
  assumes ok: "buf_ok buf" and y: "y < length (b_lines buf)" and x: "x < length (b_lines buf ! y)"
    and p: "p = length (concat (take y (b_lines buf))) + x" and lt: "p < length (buf_text buf)"
    and gap: "0 < y \<Longrightarrow> y + 1 < length (b_lines buf) \<Longrightarrow> length (b_lines buf ! y) = 1 \<Longrightarrow>
      is_break (last (b_lines buf ! (y - 1)))"
  defines "ls \<equiv> (b_lines buf)[y := delete_at x (b_lines buf ! y)]"
  shows "lines_ok ls" and "lines_text ls = delete_at p (buf_text buf)"
proof -
  note f = buf_ok_facts [OF ok]
  have ne: "\<forall>l\<in>set (b_lines buf). l \<noteq> []" using f(3) by (simp add: lines_fit_def)
  have len: "Suc p < length (concat (b_lines buf))" using lt f(4) by simp
  have cat: "concat ls = delete_at p (concat (b_lines buf))"
    unfolding ls_def p using concat_delete_at [OF y x] .
  then show "lines_text ls = delete_at p (buf_text buf)"
    using len by (simp add: lines_text_def butlast_delete_at buf_text_def)
  have last: "last (concat ls) = CHR 0x0A"
    using len f(4) unfolding cat by (simp add: delete_at_def)
  show "lines_ok ls"
  proof (cases "length (b_lines buf ! y) = 1")
    case False
    have "delete_at x (b_lines buf ! y) \<noteq> []"
      using False x by (metis One_nat_def delete_at_def length_0_conv length_delete_at less_one
          linorder_neqE_nat not_less_zero zero_less_diff)
    then have "\<forall>l\<in>set ls. l \<noteq> []"
      unfolding ls_def using ne by (auto dest!: set_update_subset_insert [THEN subsetD])
    with last f(2) show ?thesis by (intro nonempty_lines_ok) (auto simp: ls_def)
  next
    case True
    then have e: "delete_at x (b_lines buf ! y) = []"
      using x by (metis diff_self_eq_0 length_0_conv length_delete_at)
    have "y + 1 < length (b_lines buf)"
    proof (rule ccontr)
      assume "\<not> y + 1 < length (b_lines buf)"
      then have "drop (Suc y) (b_lines buf) = []" using y by simp
      then have "length (concat (b_lines buf)) = length (concat (take y (b_lines buf))) + 1"
        using True concat_update(2) [OF y] by (metis append_Nil2 concat.simps(1) length_append)
      with len p show False by simp
    qed
    moreover from this gap True have "y = 0 \<or> is_break (last (b_lines buf ! (y - 1)))" by blast
    ultimately show ?thesis
      unfolding ls_def e using lines_ok_update_empty [OF ne f(7)] by blast
  qed
qed

lemma Buffer_Delete_ok:
  assumes "buf_ok buf" and "0 \<le> pos" and "pos < int (length (buf_text buf))"
    and "\<not> delete_gap buf pos"
  shows "\<exists>buf'. Buffer_Delete buf pos = returns buf' \<and> buf_ok buf' \<and>
    buf_text buf' = delete_at (nat pos) (buf_text buf) \<and> b_width buf' = b_width buf \<and>
    currentPosition buf' = currentPosition buf - (if pos < currentPosition buf then 1 else 0)"
proof -
  from assms(1,2) less_imp_le [OF assms(3)] obtain x y where
    f: "findPos buf pos = returns (pos, int x, int y, y)"
    and y: "y < length (b_lines buf)" and x: "x < length (b_lines buf ! y)"
    and p: "nat pos = length (concat (take y (b_lines buf))) + x" by (rule findPos_ok)
  let ?b = "delete_at x (b_lines buf ! y)"
  let ?p = "currentPosition buf - (if pos < currentPosition buf then 1 else 0)"
  have lt: "nat pos < length (buf_text buf)" using assms(2,3) by linarith
  have gap: "0 < y \<Longrightarrow> y + 1 < length (b_lines buf) \<Longrightarrow> length (b_lines buf ! y) = 1 \<Longrightarrow>
      is_break (last (b_lines buf ! (y - 1)))"
    using assms(4) by (simp add: delete_gap_def f)
  have "?p \<le> int (length (delete_at (nat pos) (buf_text buf)))" "0 \<le> ?p"
    using buf_ok_position [OF assms(1)] assms(2) lt by (simp_all add: nat_less_iff)
  note e = edit_line_ok [OF assms(1) y delete_line_facts [OF assms(1) y x p lt gap] this(2,1)]
  have del: "delete_byte (b_lines buf ! y) (int x) = returns ?b"
    using x by (simp add: delete_byte_def guard_else_def)
  show ?thesis
    using e by (cases "pos < currentPosition buf") (simp_all add: Buffer_Delete_def f del Let_def)
qed

section \<open>Moving the cursor\<close>

lemma buf_ok_cursor_only:
  assumes "buf_ok buf" and "b_lines buf' = b_lines buf" and "b_width buf' = b_width buf"
    and "numberOfChars buf' = numberOfChars buf" and "numberOfLines buf' = numberOfLines buf"
    and "cursor_ok buf'"
  shows "buf_ok buf'" and "buf_text buf' = buf_text buf"
  using assms by (simp_all add: buf_ok_def buf_text_def)

lemma length_concat_take_Suc:
  "j < length ls \<Longrightarrow> length (concat (take (Suc j) ls)) = length (concat (take j ls)) + length (ls ! j)"
  by (simp add: take_Suc_conv_app_nth)

lemma MoveLeft_ok:
  assumes "buf_ok buf"
  shows "buf_ok (MoveLeft buf)" and "buf_text (MoveLeft buf) = buf_text buf"
    and "currentPosition (MoveLeft buf) = max 0 (currentPosition buf - 1)"
    and "cursor_on_byte (MoveLeft buf)"
proof -
  note c = buf_ok_facts(8) [OF assms, unfolded cursor_ok_def]
  have j: "currentLine buf \<noteq> 0 \<Longrightarrow> length (concat (take (currentLine buf) (b_lines buf))) =
      length (concat (take (currentLine buf - 1) (b_lines buf))) +
      length (b_lines buf ! (currentLine buf - 1))"
    using c length_concat_take_Suc [of "currentLine buf - 1" "b_lines buf"]
    by (simp add: less_imp_diff_less)
  have ne: "b_lines buf ! (currentLine buf - 1) \<noteq> []" "b_lines buf ! currentLine buf \<noteq> []"
    using buf_ok_line_nonempty [OF assms] c by auto
  have "cursor_ok (MoveLeft buf)"
    using c j ne by (auto simp: MoveLeft_def cursor_ok_def cur_bytes_def Let_def int_diff_cases
        of_nat_diff Suc_le_eq)
  moreover have same: "b_lines (MoveLeft buf) = b_lines buf" "b_width (MoveLeft buf) = b_width buf"
    "numberOfChars (MoveLeft buf) = numberOfChars buf"
    "numberOfLines (MoveLeft buf) = numberOfLines buf"
    by (simp_all add: MoveLeft_def Let_def)
  ultimately show "buf_ok (MoveLeft buf)" "buf_text (MoveLeft buf) = buf_text buf"
    using buf_ok_cursor_only [OF assms same] by auto
  show "currentPosition (MoveLeft buf) = max 0 (currentPosition buf - 1)"
    using c j ne by (auto simp: MoveLeft_def Let_def max_def Suc_le_eq add_nonneg_pos)
  show "cursor_on_byte (MoveLeft buf)"
    using c ne by (auto simp: MoveLeft_def Let_def cursor_on_byte_def cur_bytes_def)
qed

lemma MoveRight_ok:
  assumes "buf_ok buf" and "cursor_on_byte buf"
  shows "buf_ok (MoveRight buf)" and "buf_text (MoveRight buf) = buf_text buf"
    and "currentPosition (MoveRight buf) = min (int (length (buf_text buf))) (currentPosition buf + 1)"
    and "cursor_on_byte (MoveRight buf)"
proof -
  note c = buf_ok_facts(8) [OF assms(1), unfolded cursor_ok_def]
  note j = length_concat_take_Suc [of "currentLine buf" "b_lines buf"]
  have on: "currentX buf < int (length (b_lines buf ! currentLine buf))"
    using assms(2) by (simp add: cursor_on_byte_def cur_bytes_def)
  have ne: "currentLine buf + 1 < length (b_lines buf) \<Longrightarrow> b_lines buf ! (currentLine buf + 1) \<noteq> []"
    using buf_ok_line_nonempty [OF assms(1)] by auto
  have ok: "cursor_ok (MoveRight buf)"
    using c j on ne by (auto simp: MoveRight_def cursor_ok_def cur_bytes_def)
  have same: "b_lines (MoveRight buf) = b_lines buf" "b_width (MoveRight buf) = b_width buf"
    "numberOfChars (MoveRight buf) = numberOfChars buf"
    "numberOfLines (MoveRight buf) = numberOfLines buf"
    by (simp_all add: MoveRight_def)
  show bok: "buf_ok (MoveRight buf)" "buf_text (MoveRight buf) = buf_text buf"
    using buf_ok_cursor_only [OF assms(1) same ok] by auto
  have total: "length (concat (b_lines buf)) = Suc (length (buf_text buf))"
    using buf_ok_facts(4) [OF assms(1)] by simp
  have "currentPosition (MoveRight buf) = currentPosition buf + 1 \<or>
      currentPosition (MoveRight buf) = currentPosition buf \<and>
      currentPosition buf = int (length (buf_text buf))"
  proof (cases "currentLine buf + 1 < length (b_lines buf)")
    case False
    then have "take (Suc (currentLine buf)) (b_lines buf) = b_lines buf" using c by simp
    with j c total on False show ?thesis by (auto simp: MoveRight_def cur_bytes_def)
  qed (auto simp: MoveRight_def)
  then show "currentPosition (MoveRight buf) = min (int (length (buf_text buf))) (currentPosition buf + 1)"
    using buf_ok_position(2) [OF bok(1)] bok(2) by (auto simp: min_def)
  show "cursor_on_byte (MoveRight buf)"
    using c on ne by (auto simp: MoveRight_def cursor_on_byte_def cur_bytes_def)
qed

subsection \<open>Up and down\<close>

definition at_column :: "byte list \<Rightarrow> int \<Rightarrow> nat \<Rightarrow> bool" where
  "at_column bytes target k \<longleftrightarrow> sliceLength (take k bytes) \<le> target \<and>
     (sliceLength (take k bytes) = target \<or> k = length bytes \<or> bytes ! k = CHR 0x0A \<or>
      target < sliceLength (take (Suc k) bytes))"

lemma column_loop_ok:
  assumes "s \<le> target"
  shows "\<exists>k. column_loop bytes s target x = x + int k \<and> k \<le> length bytes \<and>
    (CHR 0x0A \<in> set bytes \<longrightarrow> k < length bytes) \<and> at_column bytes (target - s) k"
  using assms
proof (induction bytes s target x rule: column_loop.induct)
  case (1 s target x)
  then show ?case by (simp add: at_column_def)
next
  case (2 ch bytes s target x)
  let ?s = "s + charLength ch"
  consider (stop) "?s > target \<or> ch = CHR 0x0A" | (hit) "?s = target" "ch \<noteq> CHR 0x0A"
    | (go) "?s < target" "ch \<noteq> CHR 0x0A" by linarith
  then show ?case
  proof cases
    case stop
    with "2.prems" show ?thesis by (intro exI [of _ 0]) (auto simp: at_column_def)
  next
    case hit
    then show ?thesis by (intro exI [of _ 1]) (auto simp: at_column_def neq_Nil_conv dest: length_pos_if_in_set)
  next
    case go
    with "2.IH" [of ?s] obtain k where "column_loop bytes ?s target (x + 1) = x + 1 + int k"
      "k \<le> length bytes" "CHR 0x0A \<in> set bytes \<longrightarrow> k < length bytes" "at_column bytes (target - ?s) k"
      by auto
    with go show ?thesis by (intro exI [of _ "Suc k"]) (auto simp: at_column_def)
  qed
qed

lemma last_line_newline:
  assumes "buf_ok buf" and "j + 1 = length (b_lines buf)"
  shows "CHR 0x0A \<in> set (b_lines buf ! j)"
proof -
  have "j < length (b_lines buf)" using assms(2) by simp
  then have "concat (b_lines buf) = concat (take j (b_lines buf)) @ b_lines buf ! j"
    using concat_update(2) [of j "b_lines buf"] assms(2) by simp
  moreover have "b_lines buf ! j \<noteq> []"
    using buf_ok_line_nonempty [OF assms(1)] assms(2) by simp
  ultimately have "last (b_lines buf ! j) = CHR 0x0A"
    using buf_ok_facts(4) [OF assms(1)] by (metis last_appendR last_snoc)
  then show ?thesis using \<open>b_lines buf ! j \<noteq> []\<close> by (metis last_in_set)
qed

lemma cursor_slice:
  assumes "buf_ok buf"
  shows "go_slice (cur_bytes buf) 0 (currentX buf) =
    returns (take (nat (currentX buf)) (cur_bytes buf))"
  using buf_ok_facts(8) [OF assms] by (simp add: go_slice_def guard_else_def cursor_ok_def)

definition cursor_column :: "Buffer \<Rightarrow> int" where
  "cursor_column buf = sliceLength (take (nat (currentX buf)) (cur_bytes buf))"

text \<open>What \<open>MoveUp\<close> and \<open>MoveDown\<close> share: the cursor goes to a line and to the target column.\<close>

lemma move_to_line_ok:
  assumes ok: "buf_ok buf" and j: "j < length (b_lines buf)"
  defines "x \<equiv> column_loop (b_lines buf ! j) 0 (cursor_column buf) 0"
  defines "buf' \<equiv> buf\<lparr>currentLine := j, currentY := int j, currentX := x,
      currentPosition := int (length (concat (take j (b_lines buf)))) + x\<rparr>"
  shows "buf_ok buf'" and "buf_text buf' = buf_text buf"
    and "at_column (cur_bytes buf') (cursor_column buf) (nat (currentX buf'))"
proof -
  have col: "0 \<le> cursor_column buf" by (simp add: cursor_column_def)
  from column_loop_ok [OF col, of "b_lines buf ! j" 0] obtain k where k: "x = int k"
    "k \<le> length (b_lines buf ! j)" "CHR 0x0A \<in> set (b_lines buf ! j) \<longrightarrow> k < length (b_lines buf ! j)"
    "at_column (b_lines buf ! j) (cursor_column buf) k"
    by (auto simp: x_def)
  then have "cursor_ok buf'"
    using j last_line_newline [OF ok, of j] by (auto simp: buf'_def cursor_ok_def cur_bytes_def)
  then show "buf_ok buf'" "buf_text buf' = buf_text buf"
    using buf_ok_cursor_only [OF ok, of buf'] by (simp_all add: buf'_def)
  show "at_column (cur_bytes buf') (cursor_column buf) (nat (currentX buf'))"
    using k by (simp add: buf'_def cur_bytes_def)
qed

lemma MoveUp_ok:
  assumes "buf_ok buf"
  shows "\<exists>buf'. MoveUp buf = returns buf' \<and> buf_ok buf' \<and> buf_text buf' = buf_text buf \<and>
    (if currentLine buf = 0 then buf' = buf
     else currentLine buf' + 1 = currentLine buf \<and>
       at_column (cur_bytes buf') (cursor_column buf) (nat (currentX buf')))"
proof (cases "currentLine buf = 0")
  case True
  with assms show ?thesis by (simp add: MoveUp_def)
next
  case False
  define j where "j = currentLine buf - 1"
  note c = buf_ok_facts(8) [OF assms, unfolded cursor_ok_def]
  have j: "j < length (b_lines buf)" "currentLine buf = Suc j" using c False by (auto simp: j_def)
  have "currentPosition buf - currentX buf - int (length (b_lines buf ! j)) =
      int (length (concat (take j (b_lines buf))))"
    using c j length_concat_take_Suc [OF j(1)] by simp
  with move_to_line_ok [OF assms j(1)] c j show ?thesis
    by (simp add: MoveUp_def cursor_slice [OF assms] cursor_column_def [symmetric] Let_def
        cur_bytes_def [of "buf\<lparr>currentLine := _, currentY := _\<rparr>"] algebra_simps)
qed

lemma MoveDown_ok:
  assumes "buf_ok buf"
  shows "\<exists>buf'. MoveDown buf = returns buf' \<and> buf_ok buf' \<and> buf_text buf' = buf_text buf \<and>
    (if currentLine buf + 1 = length (b_lines buf) then buf' = buf
     else currentLine buf' = currentLine buf + 1 \<and>
       at_column (cur_bytes buf') (cursor_column buf) (nat (currentX buf')))"
proof (cases "currentLine buf + 1 = length (b_lines buf)")
  case True
  with assms show ?thesis by (simp add: MoveDown_def)
next
  case False
  note c = buf_ok_facts(8) [OF assms, unfolded cursor_ok_def]
  then have j: "Suc (currentLine buf) < length (b_lines buf)" using False by simp
  have "currentPosition buf + (int (length (cur_bytes buf)) - currentX buf) =
      int (length (concat (take (Suc (currentLine buf)) (b_lines buf))))"
    using c length_concat_take_Suc [of "currentLine buf" "b_lines buf"] by (simp add: cur_bytes_def)
  with move_to_line_ok [OF assms j] c j False show ?thesis
    by (simp add: MoveDown_def cursor_slice [OF assms] cursor_column_def [symmetric] Let_def
        cur_bytes_def [of "buf\<lparr>currentLine := _, currentY := _\<rparr>"] algebra_simps)
qed

section \<open>Display and text\<close>

lemma walk_prev_ok: "n \<le> y \<Longrightarrow> walk_prev n (Some y) = returns (Some (y - n))"
  by (induction n arbitrary: y) auto

lemma GetDisplayInformation_ok:
  assumes "buf_ok buf" and "0 \<le> screenY" and "0 < height"
  shows "\<exists>screenY' cursorY.
    GetDisplayInformation buf screenY height =
      returns (screenY', cursor_column buf, cursorY, Some (nat screenY')) \<and>
    0 \<le> screenY' \<and> nat screenY' < length (b_lines buf) \<and> 0 \<le> cursorY \<and> cursorY < height \<and>
    screenY' + cursorY = currentY buf"
proof -
  note c = buf_ok_facts(8) [OF assms(1), unfolded cursor_ok_def]
  define sy where "sy = (if currentY buf < screenY then currentY buf
      else if currentY buf \<ge> screenY + height then currentY buf - height + 1 else screenY)"
  have sy: "0 \<le> sy" "sy \<le> currentY buf" "currentY buf - sy < height"
    using assms(2,3) c by (auto simp: sy_def)
  then have walk: "walk_prev (nat (currentY buf - sy)) (Some (currentLine buf)) = returns (Some (nat sy))"
    using c by (subst walk_prev_ok) (auto simp: nat_diff_distrib)
  have "GetDisplayInformation buf screenY height =
      returns (sy, cursor_column buf, currentY buf - sy, Some (nat sy))"
    unfolding GetDisplayInformation_def Let_def sy_def [symmetric] cursor_slice [OF assms(1)]
    by (simp add: walk cursor_column_def)
  moreover have "nat sy < length (b_lines buf)" using sy c by linarith
  ultimately show ?thesis using sy by auto
qed

lemma StringToBuffer_ok:
  assumes "4 \<le> width"
  shows "\<exists>buf. StringToBuffer str width = returns buf \<and> buf_ok buf \<and> buf_text buf = str \<and>
    b_width buf = width \<and> currentPosition buf = 0 \<and> cursor_on_byte buf"
proof -
  obtain L nl nc where lay:
    "SeqToLines StringSequence_NextWord (NewStringSequence str) width = returns (L, nl, nc)"
    using string_layout_total [OF assms] by blast
  note f = string_layout_facts [OF lay assms]
  have "L ! 0 \<noteq> []" using f(1,2) by (simp add: lines_fit_def)
  with lay f assms show ?thesis
    by (simp add: StringToBuffer_def buf_ok_def cursor_ok_def cursor_on_byte_def cur_bytes_def
        buf_text_def)
qed

lemma Buffer_ToString_ok: "buf_ok buf \<Longrightarrow> Buffer_ToString buf = returns (buf_text buf)"
  using buf_ok_facts(2,4) [of buf] by (simp add: Buffer_ToString_def guard_else_def)

lemma NumberOfLines_eq: "NumberOfLines ls = int (length ls)"
proof -
  have "NumberOfLines_loop ls i = i + int (length ls)" for i
    by (induction ls arbitrary: i) simp_all
  then show ?thesis by (simp add: NumberOfLines_def)
qed

section \<open>Buffer operations as edits of the text\<close>

definition edit_text :: "BufferOperation \<Rightarrow> byte list \<Rightarrow> byte list" where
  "edit_text bo t = (case bo_Type bo of
     BUF_NO_OPERATION \<Rightarrow> t
   | BUF_INSERT \<Rightarrow> insert_at (nat (bo_Pos bo)) (bo_Atom bo) t
   | BUF_REMOTE_INSERT \<Rightarrow> insert_at (nat (bo_Pos bo)) (bo_Atom bo) t
   | BUF_DELETE \<Rightarrow> delete_at (nat (bo_Pos bo)) t)"

definition edit_in_range :: "BufferOperation \<Rightarrow> byte list \<Rightarrow> bool" where
  "edit_in_range bo t \<longleftrightarrow> (case bo_Type bo of
     BUF_NO_OPERATION \<Rightarrow> True
   | BUF_DELETE \<Rightarrow> 0 \<le> bo_Pos bo \<and> bo_Pos bo < int (length t)
   | _ \<Rightarrow> 0 \<le> bo_Pos bo \<and> bo_Pos bo \<le> int (length t))"

definition edit_safe :: "Buffer \<Rightarrow> BufferOperation \<Rightarrow> bool" where
  "edit_safe buf bo \<longleftrightarrow> edit_in_range bo (buf_text buf) \<and>
     (bo_Type bo = BUF_DELETE \<longrightarrow> \<not> delete_gap buf (bo_Pos bo))"

lemma Buffer_ApplyOperation_ok:
  assumes "buf_ok buf" and "edit_safe buf bo"
  shows "\<exists>buf'. Buffer_ApplyOperation buf bo = returns buf' \<and> buf_ok buf' \<and>
    buf_text buf' = edit_text bo (buf_text buf) \<and> b_width buf' = b_width buf"
  using assms Buffer_Insert_ok [OF assms(1), of "bo_Pos bo" "bo_Atom bo"]
    Buffer_RemoteInsert_ok [OF assms(1), of "bo_Pos bo" "bo_Atom bo"]
    Buffer_Delete_ok [OF assms(1), of "bo_Pos bo"]
  by (cases "bo_Type bo")
     (auto simp: Buffer_ApplyOperation_def edit_safe_def edit_in_range_def edit_text_def)

section \<open>Properties\<close>

text \<open>C22: laying out the lines of a buffer again gives what laying out its whole text gives, at every
  width, so a resize or an edit never depends on how the text was wrapped before.\<close>

theorem relayout_equals_layout:
  assumes "lines_ok ls"
  shows "SeqToLines LineSequence_NextWord (NewLineSequence ls) width =
    SeqToLines StringSequence_NextWord (NewStringSequence (lines_text ls)) width"
  by (rule line_layout_eq [OF assms])

theorem relayout_equals_layout_witness:
  "SeqToLines LineSequence_NextWord (NewLineSequence [''ab cd'', ''efgh'' @ [CHR 0x0A]]) 6 =
    SeqToLines StringSequence_NextWord (NewStringSequence ''ab cdefgh'') 6"
  using relayout_equals_layout [of "[''ab cd'', ''efgh'' @ [CHR 0x0A]]" 6] by (simp add: lines_text_def)



text \<open>Deleting the last byte of a line that follows an unfinished word makes the re-wrapping read byte 0 of
  an empty line and panics.\<close>

theorem Buffer_Delete_panics:
  "\<exists>buf. StringToBuffer ''abcde fghij'' 5 = returns buf \<and> buf_ok buf \<and>
    Buffer_Delete buf 5 = panics IndexOutOfRange"
proof -
  obtain buf where buf: "StringToBuffer ''abcde fghij'' 5 = returns buf" "buf_ok buf"
    using StringToBuffer_ok [of 5 "''abcde fghij''"] by auto
  have "(case StringToBuffer ''abcde fghij'' 5 of Some (Inr b) \<Rightarrow> Buffer_Delete b 5) = panics IndexOutOfRange"
    by code_simp
  with buf show ?thesis by auto
qed

text \<open>Moving left and right keeps the text, moves the position by one and stops at both ends.\<close>

theorem MoveLeft_MoveRight:
  assumes "buf_ok buf" "cursor_on_byte buf"
  shows "buf_ok (MoveLeft buf) \<and> buf_ok (MoveRight buf) \<and>
    buf_text (MoveLeft buf) = buf_text buf \<and> buf_text (MoveRight buf) = buf_text buf \<and>
    currentPosition (MoveLeft buf) = max 0 (currentPosition buf - 1) \<and>
    currentPosition (MoveRight buf) = min (int (length (buf_text buf))) (currentPosition buf + 1)"
  using MoveLeft_ok [OF assms(1)] MoveRight_ok [OF assms] by simp

theorem MoveLeft_MoveRight_witness:
  "\<exists>buf. StringToBuffer ''ab'' 5 = returns buf \<and> currentPosition (MoveRight buf) = 1 \<and>
    currentPosition (MoveLeft buf) = 0"
proof -
  obtain buf where buf: "StringToBuffer ''ab'' 5 = returns buf" "buf_ok buf" "buf_text buf = ''ab''"
    "currentPosition buf = 0" "cursor_on_byte buf"
    using StringToBuffer_ok [of 5 "''ab''"] by auto
  with MoveLeft_MoveRight [OF buf(2,5)] show ?thesis by simp
qed

text \<open>Moving up and down keeps the text, goes to the neighbouring line and puts the cursor at the column it
  came from, or as close before it as the line allows; on the first and on the last line nothing moves.\<close>

theorem MoveUp_MoveDown:
  assumes "buf_ok buf"
  shows "(\<exists>buf'. MoveUp buf = returns buf' \<and> buf_ok buf' \<and> buf_text buf' = buf_text buf \<and>
      (if currentLine buf = 0 then buf' = buf
       else currentLine buf' + 1 = currentLine buf \<and>
         at_column (cur_bytes buf') (cursor_column buf) (nat (currentX buf')))) \<and>
    (\<exists>buf'. MoveDown buf = returns buf' \<and> buf_ok buf' \<and> buf_text buf' = buf_text buf \<and>
      (if currentLine buf + 1 = length (b_lines buf) then buf' = buf
       else currentLine buf' = currentLine buf + 1 \<and>
         at_column (cur_bytes buf') (cursor_column buf) (nat (currentX buf'))))"
  using MoveUp_ok [OF assms] MoveDown_ok [OF assms] by blast

theorem MoveUp_MoveDown_witness:
  "\<exists>buf buf'. StringToBuffer ''ab cdefgh'' 5 = returns buf \<and> MoveDown buf = returns buf' \<and> buf_ok buf'"
proof -
  obtain buf where buf: "StringToBuffer ''ab cdefgh'' 5 = returns buf" "buf_ok buf"
    using StringToBuffer_ok [of 5 "''ab cdefgh''"] by auto
  with MoveUp_MoveDown [OF buf(2)] show ?thesis by blast
qed

text \<open>After a resize the text and the position of the cursor in it are what they were, and the lines fit
  the new width.\<close>

theorem Resize_keeps_text:
  assumes "buf_ok buf" "4 \<le> w"
  shows "\<exists>buf'. Resize buf w = returns buf' \<and> buf_ok buf' \<and> buf_text buf' = buf_text buf \<and>
    b_width buf' = w \<and> currentPosition buf' = currentPosition buf \<and> lines_fit w (b_lines buf')"
proof -
  have "lines_ok (b_lines buf)" by (rule buf_ok_facts(7) [OF assms(1)])
  from Resize_ok [OF this assms(2)] buf_ok_position [OF assms(1)] obtain buf' where
    "Resize buf w = returns buf'" "buf_ok buf'" "buf_text buf' = buf_text buf" "b_width buf' = w"
    "currentPosition buf' = currentPosition buf" by blast
  with buf_ok_facts(3) [of buf'] show ?thesis by auto
qed

theorem Resize_keeps_text_witness:
  "\<exists>buf buf'. StringToBuffer ''ab cdefgh'' 5 = returns buf \<and> Resize buf 7 = returns buf' \<and>
    buf_text buf' = ''ab cdefgh'' \<and> lines_fit 7 (b_lines buf')"
proof -
  obtain buf where buf: "StringToBuffer ''ab cdefgh'' 5 = returns buf" "buf_ok buf" "buf_text buf = ''ab cdefgh''"
    using StringToBuffer_ok [of 5 "''ab cdefgh''"] by auto
  with Resize_keeps_text [OF buf(2), of 7] show ?thesis by auto
qed

text \<open>The window the editor draws always holds the cursor: its first line exists and the cursor row lies
  within the height.\<close>

theorem GetDisplayInformation_shows_cursor:
  assumes "buf_ok buf" "0 \<le> screenY" "0 < height"
  shows "\<exists>screenY' cursorY.
    GetDisplayInformation buf screenY height =
      returns (screenY', cursor_column buf, cursorY, Some (nat screenY')) \<and>
    0 \<le> screenY' \<and> nat screenY' < length (b_lines buf) \<and> 0 \<le> cursorY \<and> cursorY < height \<and>
    screenY' + cursorY = currentY buf"
  by (rule GetDisplayInformation_ok [OF assms])

theorem GetDisplayInformation_shows_cursor_witness:
  "\<exists>buf screenY' cursorY. StringToBuffer ''ab cdefgh'' 5 = returns buf \<and>
    GetDisplayInformation buf 3 10 = returns (screenY', cursor_column buf, cursorY, Some (nat screenY')) \<and>
    0 \<le> cursorY \<and> cursorY < 10"
proof -
  obtain buf where buf: "StringToBuffer ''ab cdefgh'' 5 = returns buf" "buf_ok buf"
    using StringToBuffer_ok [of 5 "''ab cdefgh''"] by auto
  with GetDisplayInformation_shows_cursor [OF buf(2), of 3 10] show ?thesis by auto
qed

end
