(* ===== verification/Treedoc.thy ===== *)
theory Treedoc
  imports Ids Buffer
begin

text \<open>
  The replicated document: \<^verbatim>\<open>treedoc/treedoc2.go\<close>, \<^verbatim>\<open>helpers.go\<close> and \<^verbatim>\<open>miscellaneous.go\<close>.
  The document is a graph of \<open>DocNode\<close> objects that the code mutates through pointers, so the model
  keeps an explicit store: \<open>dHeap\<close> is the list of the nodes allocated so far, a pointer is the index of
  its node, \<open>&DocNode{...}\<close> appends to the store. A map lookup that misses gives the nil pointer
  (\<open>None\<close>), and dereferencing it panics.

  The slice \<open>Atoms\<close> of a node is nil until the first call of \<open>extendAtomToSize\<close> and never empty
  afterwards (an empty result of \<open>make\<close> is indexed at once, which panics), so \<open>[]\<close> stands for nil.
  Sizes are \<open>int\<close>; \<open>N\<close> and \<open>ParentN\<close> keep their 16 bits.
\<close>

section \<open>Data\<close>

type_synonym addr = nat

datatype AtomState = UNINITIALIZED | DEAD | ALIVE

record Atom =
  aState :: AtomState
  aAtom :: byte
  aSize :: int
  aLeft :: "addr list"

record DocNode =
  nParent :: "addr option"
  nParentN :: uint16
  nNodeId :: NodeId
  nSize :: int
  nAtoms :: "Atom list"

record Document =
  dSize :: int
  dDoc :: "addr list"
  dNodes :: "NodeId \<rightharpoonup> addr"
  dHeap :: "DocNode list"

definition MAX_ATOMS_PER_NODE :: int where "MAX_ATOMS_PER_NODE = 65535"

definition NO_OPERATION :: "8 word" where "NO_OPERATION = 0"
definition INSERT_NEW :: "8 word" where "INSERT_NEW = 1"
definition INSERT_ROOT :: "8 word" where "INSERT_ROOT = 2"
definition INSERT :: "8 word" where "INSERT = 3"
definition DELETE :: "8 word" where "DELETE = 4"

lemmas operation_types = NO_OPERATION_def INSERT_NEW_def INSERT_ROOT_def INSERT_def DELETE_def

record Operation =
  oType :: "8 word"
  oParentId :: NodeId
  oParentN :: uint16
  oId :: NodeId
  oN :: uint16
  oAtom :: byte

definition zero_Atom :: Atom where
  "zero_Atom = \<lparr>aState = UNINITIALIZED, aAtom = CHR 0x00, aSize = 0, aLeft = []\<rparr>"

definition zero_Operation :: Operation where
  "zero_Operation = \<lparr>oType = 0, oParentId = zero_bytes 20, oParentN = 0, oId = zero_bytes 20,
     oN = 0, oAtom = CHR 0x00\<rparr>"

definition NewDocument :: Document where
  "NewDocument = \<lparr>dSize = 0, dDoc = [], dNodes = Map.empty, dHeap = []\<rparr>"

section \<open>Store and slices\<close>

definition node_at :: "Document \<Rightarrow> addr \<Rightarrow> DocNode" where
  "node_at doc a = dHeap doc ! a"

definition put_node :: "Document \<Rightarrow> addr \<Rightarrow> DocNode \<Rightarrow> Document" where
  "put_node doc a nd = doc\<lparr>dHeap := (dHeap doc)[a := nd]\<rparr>"

definition index_or_panic :: "'a list \<Rightarrow> nat \<Rightarrow> 'a prog" where
  "index_or_panic xs i = guard_else (i < length xs) IndexOutOfRange (returns (xs ! i))"

section \<open>Helpers (\<open>helpers.go\<close>)\<close>

text \<open>The loop of \<open>insertNodeIntoDisambiguatorsSorted\<close> from the end of the slice.\<close>

fun disambiguator_pos :: "DocNode list \<Rightarrow> NodeId \<Rightarrow> addr list \<Rightarrow> nat \<Rightarrow> nat" where
  "disambiguator_pos H nid ds 0 = 0"
| "disambiguator_pos H nid ds (Suc i) =
     (if bytes_Compare nid (nNodeId (H ! (ds ! i))) > 0 then Suc i
      else disambiguator_pos H nid ds i)"

definition insertNodeIntoDisambiguatorsSorted ::
  "DocNode list \<Rightarrow> addr list \<Rightarrow> addr \<Rightarrow> addr list" where
  "insertNodeIntoDisambiguatorsSorted H ds node =
     (if ds = [] then [node]
      else insert_at (disambiguator_pos H (nNodeId (H ! node)) ds (length ds)) node ds)"

function extend_loop :: "Atom list \<Rightarrow> nat \<Rightarrow> Atom list" where
  "extend_loop atoms i = (if i \<ge> length atoms then extend_loop (atoms @ [zero_Atom]) i else atoms)"
  by pat_completeness auto
termination
  by (relation "measure (\<lambda>(atoms, i). Suc i - length atoms)") auto

declare extend_loop.simps [simp del]

text \<open>On a nil slice, \<open>i+1\<close> and \<open>i+5\<close> are computed in 16 bits before \<open>make\<close> checks them.\<close>

definition extendAtomToSize :: "Atom list \<Rightarrow> uint16 \<Rightarrow> Atom list prog" where
  "extendAtomToSize atoms i =
     (if atoms = [] then guard_else (i + 1 \<le> i + 5) MakeSliceRange
        (returns (replicate (unat (i + 1)) zero_Atom))
      else returns (extend_loop atoms (unat i)))"

definition insertAtom :: "Atom list \<Rightarrow> Atom \<Rightarrow> uint16 \<Rightarrow> Atom list prog" where
  "insertAtom atoms atom i =
     pbind (extendAtomToSize atoms i) (\<lambda>atoms.
       guard_else (unat i < length atoms) IndexOutOfRange (returns (atoms[unat i := atom])))"

partial_function (option) updateSize :: "Document \<Rightarrow> addr \<Rightarrow> int \<Rightarrow> Document prog" where
  "updateSize doc a delta =
     (let node = node_at doc a;
          doc = put_node doc a (node\<lparr>nSize := nSize node + delta\<rparr>)
      in case nParent node of
           None \<Rightarrow> returns (doc\<lparr>dSize := dSize doc + delta\<rparr>)
         | Some p \<Rightarrow>
             let parent = node_at doc p; n = unat (nParentN node)
             in pbind (index_or_panic (nAtoms parent) n) (\<lambda>atom.
                  let atoms = (nAtoms parent)[n := atom\<lparr>aSize := aSize atom + delta\<rparr>]
                  in updateSize (put_node doc p (parent\<lparr>nAtoms := atoms\<rparr>)) p delta))"

definition atom_sizes_upto :: "Atom list \<Rightarrow> nat \<Rightarrow> int prog" where
  "atom_sizes_upto atoms n =
     pfold (\<lambda>acc i. pbind (index_or_panic atoms i) (\<lambda>atom. returns (acc + aSize atom))) [0..<n] 0"

fun node_sizes_before :: "DocNode list \<Rightarrow> addr list \<Rightarrow> addr \<Rightarrow> int" where
  "node_sizes_before H [] a = 0"
| "node_sizes_before H (x # xs) a = (if x = a then 0 else nSize (H ! x) + node_sizes_before H xs a)"

partial_function (option) calcPosHelper :: "Document \<Rightarrow> addr \<Rightarrow> nat \<Rightarrow> int prog" where
  "calcPosHelper doc a n =
     (let node = node_at doc a in
      pbind (atom_sizes_upto (nAtoms node) n) (\<lambda>acc.
      case nParent node of
        None \<Rightarrow> returns (acc + node_sizes_before (dHeap doc) (dDoc doc) a)
      | Some p \<Rightarrow>
          pbind (index_or_panic (nAtoms (node_at doc p)) (unat (nParentN node))) (\<lambda>atom.
          pbind (calcPosHelper doc p (unat (nParentN node))) (\<lambda>above.
          returns (acc + node_sizes_before (dHeap doc) (aLeft atom) a + above)))))"

definition calcPos :: "Document \<Rightarrow> addr \<Rightarrow> nat \<Rightarrow> int prog" where
  "calcPos doc a n =
     pbind (calcPosHelper doc a n) (\<lambda>pos.
     pbind (index_or_panic (nAtoms (node_at doc a)) n) (\<lambda>atom.
     returns (pos + aSize atom - 1)))"

section \<open>Reading the document (\<open>miscellaneous.go\<close>)\<close>

partial_function (option) docToBufferHelper ::
  "DocNode list \<Rightarrow> addr list \<Rightarrow> byte list \<Rightarrow> byte list prog" where
  "docToBufferHelper H disambiguator buf =
     pfold (\<lambda>buf node.
       pfold (\<lambda>buf atom.
         pbind (docToBufferHelper H (aLeft atom) buf) (\<lambda>buf.
         returns (if aState atom = ALIVE then buf @ [aAtom atom] else buf)))
       (nAtoms (H ! node)) buf) disambiguator buf"

definition DocToString :: "Document \<Rightarrow> byte list prog" where
  "DocToString doc = docToBufferHelper (dHeap doc) (dDoc doc) []"

definition panic_with_text :: "string \<Rightarrow> Document \<Rightarrow> 'a prog" where
  "panic_with_text msg doc =
     pbind (DocToString doc) (\<lambda>t. panics (ExplicitPanic (msg @ t @ [CHR 0x22, CHR '' ''])))"

section \<open>Remote operations\<close>

definition remote_insert :: "Document \<Rightarrow> addr \<Rightarrow> Operation \<Rightarrow> (Document \<times> BufferOperation) prog" where
  "remote_insert doc a op =
     pbind (updateSize doc a 1) (\<lambda>doc.
     pbind (calcPos doc a (unat (oN op))) (\<lambda>pos.
     returns (doc, \<lparr>bo_Type = BUF_REMOTE_INSERT, bo_Pos = pos, bo_Atom = oAtom op\<rparr>)))"

definition InsertNew :: "Document \<Rightarrow> Operation \<Rightarrow> (Document \<times> BufferOperation) prog" where
  "InsertNew doc op =
     (let parent = dNodes doc (oParentId op); newAddr = length (dHeap doc) in
      pbind (insertAtom []
          \<lparr>aState = ALIVE, aAtom = oAtom op, aSize = 1, aLeft = []\<rparr> (oN op)) (\<lambda>atoms.
      let newNode = \<lparr>nParent = parent, nParentN = oParentN op, nNodeId = oId op, nSize = 0,
                     nAtoms = atoms\<rparr>;
          doc = doc\<lparr>dHeap := dHeap doc @ [newNode], dNodes := (dNodes doc)(oId op \<mapsto> newAddr)\<rparr>
      in case parent of
           None \<Rightarrow> panics NilDereference
         | Some p \<Rightarrow>
             pbind (extendAtomToSize (nAtoms (node_at doc p)) (oParentN op)) (\<lambda>atoms.
             pbind (index_or_panic atoms (unat (oParentN op))) (\<lambda>atom.
             let left = insertNodeIntoDisambiguatorsSorted (dHeap doc) (aLeft atom) newAddr;
                 atoms = atoms[unat (oParentN op) := atom\<lparr>aLeft := left\<rparr>]
             in remote_insert (put_node doc p ((node_at doc p)\<lparr>nAtoms := atoms\<rparr>)) newAddr op))))"

definition InsertRoot :: "Document \<Rightarrow> Operation \<Rightarrow> (Document \<times> BufferOperation) prog" where
  "InsertRoot doc op =
     (let newAddr = length (dHeap doc) in
      pbind (extendAtomToSize [] (oN op)) (\<lambda>atoms.
      guard_else (unat (oN op) < length atoms) IndexOutOfRange
       (let newNode = \<lparr>nParent = None, nParentN = 0, nNodeId = oId op, nSize = 0,
              nAtoms = atoms[unat (oN op) :=
                \<lparr>aState = ALIVE, aAtom = oAtom op, aSize = 1, aLeft = []\<rparr>]\<rparr>;
            doc = doc\<lparr>dHeap := dHeap doc @ [newNode], dNodes := (dNodes doc)(oId op \<mapsto> newAddr)\<rparr>;
            doc = doc\<lparr>dDoc :=
              insertNodeIntoDisambiguatorsSorted (dHeap doc) (dDoc doc) newAddr\<rparr>
        in remote_insert doc newAddr op)))"

definition Insert :: "Document \<Rightarrow> Operation \<Rightarrow> (Document \<times> BufferOperation) prog" where
  "Insert doc op =
     (case dNodes doc (oId op) of
        None \<Rightarrow> panics NilDereference
      | Some a \<Rightarrow>
          pbind (extendAtomToSize (nAtoms (node_at doc a)) (oN op)) (\<lambda>atoms.
          pbind (index_or_panic atoms (unat (oN op))) (\<lambda>atom.
          if aState atom \<noteq> UNINITIALIZED then
            panic_with_text (''Atom is not uninitialized '' @ [CHR 0x22])
              (put_node doc a ((node_at doc a)\<lparr>nAtoms := atoms\<rparr>))
          else
            let atoms = atoms[unat (oN op) := \<lparr>aState = ALIVE, aAtom = oAtom op,
                  aSize = aSize atom + 1, aLeft = aLeft atom\<rparr>]
            in remote_insert (put_node doc a ((node_at doc a)\<lparr>nAtoms := atoms\<rparr>)) a op)))"

definition Delete :: "Document \<Rightarrow> Operation \<Rightarrow> (Document \<times> BufferOperation) prog" where
  "Delete doc op =
     (case dNodes doc (oId op) of
        None \<Rightarrow> panics NilDereference
      | Some a \<Rightarrow>
          pbind (extendAtomToSize (nAtoms (node_at doc a)) (oN op)) (\<lambda>atoms.
          let doc = put_node doc a ((node_at doc a)\<lparr>nAtoms := atoms\<rparr>) in
          pbind (index_or_panic atoms (unat (oN op))) (\<lambda>atom.
          if aState atom = UNINITIALIZED then panic_with_text (''Atom is not alive '' @ [CHR 0x22]) doc
          else if aState atom = ALIVE then
            pbind (calcPos doc a (unat (oN op))) (\<lambda>pos.
            let atoms = atoms[unat (oN op) := \<lparr>aState = DEAD, aAtom = aAtom atom,
                  aSize = aSize atom - 1, aLeft = aLeft atom\<rparr>]
            in pbind (updateSize (put_node doc a ((node_at doc a)\<lparr>nAtoms := atoms\<rparr>)) a (-1)) (\<lambda>doc.
               returns (doc, \<lparr>bo_Type = BUF_DELETE, bo_Pos = pos, bo_Atom = CHR 0x00\<rparr>)))
          else returns (doc, \<lparr>bo_Type = BUF_NO_OPERATION, bo_Pos = 0, bo_Atom = CHR 0x00\<rparr>))))"

definition ApplyOperation :: "Document \<Rightarrow> Operation \<Rightarrow> (Document \<times> BufferOperation) prog" where
  "ApplyOperation doc op =
     (if oType op = INSERT_NEW then InsertNew doc op
      else if oType op = INSERT then Insert doc op
      else if oType op = DELETE then Delete doc op
      else if oType op = INSERT_ROOT then InsertRoot doc op
      else returns (doc, \<lparr>bo_Type = BUF_NO_OPERATION, bo_Pos = 0, bo_Atom = CHR 0x00\<rparr>))"

section \<open>Statistics of the document (\<open>miscellaneous.go\<close>)\<close>

partial_function (option) docHeightHelper :: "DocNode list \<Rightarrow> addr list \<Rightarrow> int prog" where
  "docHeightHelper H disambiguator =
     pfold (\<lambda>m node.
       pfold (\<lambda>m atom.
         pbind (docHeightHelper H (aLeft atom)) (\<lambda>h. returns (if h + 1 > m then h + 1 else m)))
       (nAtoms (H ! node)) m) disambiguator (-1)"

definition DocHeight :: "Document \<Rightarrow> int prog" where
  "DocHeight doc = docHeightHelper (dHeap doc) (dDoc doc)"

partial_function (option) docStat :: "DocNode list \<Rightarrow> addr list \<Rightarrow> (int \<times> int) prog" where
  "docStat H disambiguator =
     pfold (\<lambda>ad node.
       pfold (\<lambda>(alive, dead) atom.
         pbind (docStat H (aLeft atom)) (\<lambda>(a, d).
         returns (if aState atom = ALIVE then (alive + a + 1, dead + d)
                  else if aState atom = DEAD then (alive + a, dead + d + 1)
                  else (alive + a, dead + d))))
       (nAtoms (H ! node)) ad) disambiguator (0, 0)"

definition DocStat :: "Document \<Rightarrow> (int \<times> int) prog" where
  "DocStat doc = docStat (dHeap doc) (dDoc doc)"

declare updateSize.simps [code] calcPosHelper.simps [code] docToBufferHelper.simps [code]
  docHeightHelper.simps [code] docStat.simps [code]

end
