(* ===== verification/TreedocLocal.thy ===== *)
theory TreedocLocal
  imports Treedoc
begin

text \<open>
  Local operations on the document: the second half of \<^verbatim>\<open>treedoc/treedoc2.go\<close>. \<open>InsertPos\<close> and
  \<open>DeletePos\<close> turn a position of the text into an operation on a node and apply it. Their \<open>for\<close>
  loops walk down the store and are partial functions; the search loops over one slice terminate.
\<close>

section \<open>Searching one slice\<close>

function next_node_from :: "DocNode list \<Rightarrow> addr list \<Rightarrow> nat \<Rightarrow> nat \<times> addr option" where
  "next_node_from H nodes i =
     (if i < length nodes then
        (if nSize (H ! (nodes ! i)) \<noteq> 0 then (i, Some (nodes ! i))
         else next_node_from H nodes (Suc i))
      else (i, None))"
  by pat_completeness auto
termination
  by (relation "measure (\<lambda>(H, nodes, i). length nodes - i)") auto

definition nextNonEmptyNode :: "DocNode list \<Rightarrow> int \<Rightarrow> addr list \<Rightarrow> nat \<times> addr option" where
  "nextNonEmptyNode H i nodes = next_node_from H nodes (nat (i + 1))"

function next_atom_from :: "(Atom \<Rightarrow> bool) \<Rightarrow> Atom list \<Rightarrow> nat \<Rightarrow> nat" where
  "next_atom_from P atoms i =
     (if i < length atoms then (if P (atoms ! i) then i else next_atom_from P atoms (Suc i)) else i)"
  by pat_completeness auto
termination
  by (relation "measure (\<lambda>(P, atoms, i). length atoms - i)") auto

definition nextNonEmptyAtom :: "int \<Rightarrow> Atom list \<Rightarrow> nat" where
  "nextNonEmptyAtom i atoms = next_atom_from (\<lambda>atom. aSize atom \<noteq> 0) atoms (nat (i + 1))"

definition nextNonEmptyOrUninitializedAtom :: "int \<Rightarrow> Atom list \<Rightarrow> nat" where
  "nextNonEmptyOrUninitializedAtom i atoms =
     next_atom_from (\<lambda>atom. aSize atom \<noteq> 0 \<or> aState atom = UNINITIALIZED) atoms (nat (i + 1))"

declare next_node_from.simps [simp del] next_atom_from.simps [simp del]

lemma next_node_from_ge: "i \<le> fst (next_node_from H nodes i)"
proof (induction H nodes i rule: next_node_from.induct)
  case (1 H nodes i)
  then show ?case by (subst next_node_from.simps) auto
qed

lemma next_atom_from_ge: "i \<le> next_atom_from P atoms i"
proof (induction P atoms i rule: next_atom_from.induct)
  case (1 P atoms i)
  then show ?case by (subst next_atom_from.simps) auto
qed

function find_node_loop ::
  "DocNode list \<Rightarrow> int \<Rightarrow> int \<Rightarrow> addr list \<Rightarrow> nat \<times> addr option \<Rightarrow> int \<times> addr option" where
  "find_node_loop H pos acc nodes (i, node) =
     (if i < length nodes then
        (case node of
           None \<Rightarrow> (acc, None)
         | Some a \<Rightarrow>
             if acc + nSize (H ! a) > pos then (acc, Some a)
             else find_node_loop H pos (acc + nSize (H ! a)) nodes (nextNonEmptyNode H (int i) nodes))
      else (acc, None))"
  by pat_completeness auto
termination
proof (relation "measure (\<lambda>(H, pos, acc, nodes, i, node). length nodes - i)", goal_cases)
  case (2 H pos acc nodes i node a)
  have "Suc i \<le> fst (nextNonEmptyNode H (int i) nodes)"
    using next_node_from_ge [of "Suc i" H nodes]
    by (simp add: nextNonEmptyNode_def nat_add_distrib)
  with 2 show ?case by (cases "nextNonEmptyNode H (int i) nodes") auto
qed auto

definition findNodePos :: "DocNode list \<Rightarrow> int \<Rightarrow> int \<Rightarrow> addr list \<Rightarrow> int \<times> addr option" where
  "findNodePos H pos acc nodes =
     find_node_loop H pos acc nodes (nextNonEmptyNode H (-1) nodes)"

function find_atom_loop :: "int \<Rightarrow> int \<Rightarrow> Atom list \<Rightarrow> nat \<Rightarrow> int \<times> nat" where
  "find_atom_loop pos acc atoms i =
     (if i < length atoms then
        (if acc + aSize (atoms ! i) > pos then (acc, i)
         else find_atom_loop pos (acc + aSize (atoms ! i)) atoms (nextNonEmptyAtom (int i) atoms))
      else (acc, i))"
  by pat_completeness auto
termination
proof (relation "measure (\<lambda>(pos, acc, atoms, i). length atoms - i)", goal_cases)
  case (2 pos acc atoms i)
  have "Suc i \<le> nextNonEmptyAtom (int i) atoms"
    unfolding nextNonEmptyAtom_def
    by (rule order_trans [OF _ next_atom_from_ge]) (simp add: nat_add_distrib)
  with 2 show ?case by auto
qed auto

definition findAtomPos :: "int \<Rightarrow> int \<Rightarrow> Atom list \<Rightarrow> int \<times> nat" where
  "findAtomPos pos acc atoms = find_atom_loop pos acc atoms (nextNonEmptyAtom (-1) atoms)"

declare find_node_loop.simps [simp del] find_atom_loop.simps [simp del]

section \<open>Insertion\<close>

definition canDoInsert :: "DocNode \<Rightarrow> nat \<Rightarrow> NodeId \<Rightarrow> bool prog" where
  "canDoInsert node n nodeId =
     pbind (index_or_panic (nAtoms node) n) (\<lambda>atom.
     returns (aSize atom = 0 \<and> aState atom = UNINITIALIZED \<and>
       EqualSiteIdInNodeId nodeId (nNodeId node) \<and> int n \<noteq> MAX_ATOMS_PER_NODE))"

function find_insert_loop :: "int \<Rightarrow> int \<Rightarrow> NodeId \<Rightarrow> DocNode \<Rightarrow> nat \<Rightarrow> (8 word \<times> int \<times> nat) prog" where
  "find_insert_loop pos acc nodeId node i =
     (let atoms = nAtoms node in
      if i < length atoms then
        let continue =
          (if acc + aSize (atoms ! i) > pos then returns (NO_OPERATION, acc, i)
           else find_insert_loop pos (acc + aSize (atoms ! i)) nodeId node
                  (nextNonEmptyAtom (int i) atoms))
        in if EqualSiteIdInNodeId nodeId (nNodeId node) \<and> acc = pos then
             pbind (canDoInsert node i nodeId) (\<lambda>here.
             if here then returns (INSERT, acc, i)
             else
               let k = nextNonEmptyOrUninitializedAtom (int i) atoms in
               if k < length atoms then
                 pbind (canDoInsert node k nodeId) (\<lambda>there.
                 if there then returns (INSERT, acc, k) else continue)
               else continue)
           else continue
      else returns (NO_OPERATION, acc, i))"
  by pat_completeness auto
termination
proof (relation "measure (\<lambda>(pos, acc, nodeId, node, i). length (nAtoms node) - i)", goal_cases)
  case (2 pos acc nodeId node i)
  have "Suc i \<le> nextNonEmptyAtom (int i) (nAtoms node)"
    unfolding nextNonEmptyAtom_def
    by (rule order_trans [OF _ next_atom_from_ge]) (simp add: nat_add_distrib)
  with 2 show ?case by auto
qed auto

declare find_insert_loop.simps [simp del]

definition findAtomForInsertHelper ::
  "int \<Rightarrow> int \<Rightarrow> NodeId \<Rightarrow> DocNode \<Rightarrow> (8 word \<times> int \<times> nat) prog" where
  "findAtomForInsertHelper pos acc nodeId node =
     find_insert_loop pos acc nodeId node (nextNonEmptyAtom (-1) (nAtoms node))"

definition makeAndApplyInsertOperation ::
  "Document \<Rightarrow> addr \<Rightarrow> nat \<Rightarrow> byte \<Rightarrow> (Document \<times> Operation) prog" where
  "makeAndApplyInsertOperation doc a n ch =
     (let op = zero_Operation\<lparr>oType := INSERT, oId := nNodeId (node_at doc a),
            oN := word_of_nat n, oAtom := ch\<rparr>
      in pbind (Insert doc op) (\<lambda>(doc, _). returns (doc, op)))"

text \<open>
  The last usable atom of a node, with the slice extended to hold it: the common start of
  the end-of-document branch of \<open>InsertPos\<close> and of each round of \<open>insertPosNewHelper\<close>.
\<close>

definition open_last_atom :: "Document \<Rightarrow> addr \<Rightarrow> (Document \<times> nat) prog" where
  "open_last_atom doc a =
     (let node = node_at doc a; n = length (nAtoms node) in
      guard_else (0 < n) IndexOutOfRange
       (let n = (if aState (nAtoms node ! (n - 1)) = UNINITIALIZED then n - 1 else n)
        in pbind (extendAtomToSize (nAtoms node) (word_of_nat n)) (\<lambda>atoms.
           returns (put_node doc a (node\<lparr>nAtoms := atoms\<rparr>), n))))"

partial_function (option) insertPosNewHelper ::
  "Document \<Rightarrow> addr \<Rightarrow> nat \<Rightarrow> NodeId \<Rightarrow> byte \<Rightarrow> (Document \<times> Operation) prog" where
  "insertPosNewHelper doc a n nodeId ch =
     pbind (index_or_panic (nAtoms (node_at doc a)) n) (\<lambda>atom.
     if aLeft atom = [] then
       let op = zero_Operation\<lparr>oType := INSERT_NEW, oId := nodeId, oN := 0,
             oParentId := nNodeId (node_at doc a), oParentN := word_of_nat n, oAtom := ch\<rparr>
       in pbind (InsertNew doc op) (\<lambda>(doc, _). returns (doc, op))
     else
       let c = last (aLeft atom) in
       pbind (open_last_atom doc c) (\<lambda>(doc, n).
       pbind (canDoInsert (node_at doc c) n nodeId) (\<lambda>b.
       if b then makeAndApplyInsertOperation doc c n ch
       else insertPosNewHelper doc c n nodeId ch)))"

partial_function (option) insert_pos_loop ::
  "Document \<Rightarrow> NodeId \<Rightarrow> int \<Rightarrow> byte \<Rightarrow> int \<Rightarrow> addr \<Rightarrow> nat \<Rightarrow> (Document \<times> Operation) prog" where
  "insert_pos_loop doc nodeId pos ch acc a n =
     pbind (index_or_panic (nAtoms (node_at doc a)) n) (\<lambda>atom.
     if acc + aSize atom - 1 = pos \<and> aState atom = ALIVE then
       insertPosNewHelper doc a n nodeId ch
     else
       case findNodePos (dHeap doc) pos acc (aLeft atom) of
         (acc, None) \<Rightarrow> panics NilDereference
       | (acc, Some c) \<Rightarrow>
           pbind (findAtomForInsertHelper pos acc nodeId (node_at doc c)) (\<lambda>(doInsert, acc, n).
           if doInsert = INSERT then makeAndApplyInsertOperation doc c n ch
           else insert_pos_loop doc nodeId pos ch acc c n))"

definition InsertPos ::
  "Document \<Rightarrow> NodeId \<Rightarrow> int \<Rightarrow> byte \<Rightarrow> (Document \<times> Operation) prog" where
  "InsertPos doc nodeId pos ch =
     (if dSize doc = 0 then
        let op = zero_Operation\<lparr>oType := INSERT_ROOT, oId := nodeId, oN := 0, oAtom := ch\<rparr>
        in pbind (InsertRoot doc op) (\<lambda>(doc, _). returns (doc, op))
      else
        case findNodePos (dHeap doc) pos 0 (dDoc doc) of
          (acc, None) \<Rightarrow>
            guard_else (dDoc doc \<noteq> []) IndexOutOfRange
             (let a = last (dDoc doc) in
              pbind (open_last_atom doc a) (\<lambda>(doc, n).
              pbind (canDoInsert (node_at doc a) n nodeId) (\<lambda>b.
              if b then makeAndApplyInsertOperation doc a n ch
              else insertPosNewHelper doc a n nodeId ch)))
        | (acc, Some a) \<Rightarrow>
            pbind (findAtomForInsertHelper pos acc nodeId (node_at doc a)) (\<lambda>(doInsert, acc, n).
            if doInsert = INSERT then makeAndApplyInsertOperation doc a n ch
            else insert_pos_loop doc nodeId pos ch acc a n))"

section \<open>Deletion\<close>

partial_function (option) pos_to_id_loop ::
  "Document \<Rightarrow> int \<Rightarrow> int \<Rightarrow> addr \<Rightarrow> nat \<Rightarrow> (addr \<times> nat) prog" where
  "pos_to_id_loop doc pos acc a n =
     pbind (index_or_panic (nAtoms (node_at doc a)) n) (\<lambda>atom.
     if acc + aSize atom - 1 = pos \<and> aState atom = ALIVE then returns (a, n)
     else
       case findNodePos (dHeap doc) pos acc (aLeft atom) of
         (acc, None) \<Rightarrow> panics NilDereference
       | (acc, Some c) \<Rightarrow>
           (case findAtomPos pos acc (nAtoms (node_at doc c)) of
              (acc, n) \<Rightarrow> pos_to_id_loop doc pos acc c n))"

definition posToIdForDel :: "Document \<Rightarrow> addr list \<Rightarrow> int \<Rightarrow> (addr \<times> nat) prog" where
  "posToIdForDel doc nodes pos =
     (case findNodePos (dHeap doc) pos 0 nodes of
        (acc, None) \<Rightarrow> panics NilDereference
      | (acc, Some a) \<Rightarrow>
          (case findAtomPos pos acc (nAtoms (node_at doc a)) of
             (acc, n) \<Rightarrow> pos_to_id_loop doc pos acc a n))"

definition DeletePos :: "Document \<Rightarrow> int \<Rightarrow> (Document \<times> Operation) prog" where
  "DeletePos doc pos =
     pbind (posToIdForDel doc (dDoc doc) pos) (\<lambda>(a, n).
     let op = zero_Operation\<lparr>oType := DELETE, oId := nNodeId (node_at doc a), oN := word_of_nat n\<rparr>
     in pbind (Delete doc op) (\<lambda>(doc, _). returns (doc, op)))"

declare insertPosNewHelper.simps [code] insert_pos_loop.simps [code] pos_to_id_loop.simps [code]

end
