(* ===== verification/TreedocInv.thy ===== *)
theory TreedocInv
  imports Treedoc
begin

text \<open>
  The text a document stands for and the invariant of its store. \<open>node_text\<close> reads the tree below a
  node, \<open>doc_ctx\<close> is the text around a node, so that the whole text is always
  \<open>before @ node_text a @ after\<close>. \<open>tree_ok\<close> says that parent and child pointers agree, that every
  slice of siblings is sorted by node id and that \<open>Nodes\<close> names exactly the allocated nodes;
  \<open>sizes_ok\<close> says that every cached size is the size of the text below it. The lemmas show what
  the helpers \<open>updateSize\<close>, \<open>calcPos\<close> and \<open>docToBufferHelper\<close> do on such a store.
\<close>

section \<open>Text of a document\<close>

definition own_text :: "Atom \<Rightarrow> byte list" where
  "own_text atom = (if aState atom = ALIVE then [aAtom atom] else [])"

function node_text :: "DocNode list \<Rightarrow> addr \<Rightarrow> byte list" where
  "node_text H a =
     (if a < length H then
        concat (map (\<lambda>atom.
          concat (map (\<lambda>c. if a < c \<and> c < length H then node_text H c else []) (aLeft atom)) @
          own_text atom) (nAtoms (H ! a)))
      else [])"
  by pat_completeness auto
termination
  by (relation "measure (\<lambda>(H, a). length H - a)") auto

declare node_text.simps [simp del]

definition left_text :: "DocNode list \<Rightarrow> Atom \<Rightarrow> byte list" where
  "left_text H atom = concat (map (node_text H) (aLeft atom))"

definition cell_text :: "DocNode list \<Rightarrow> Atom \<Rightarrow> byte list" where
  "cell_text H atom = left_text H atom @ own_text atom"

definition cells_text :: "DocNode list \<Rightarrow> Atom list \<Rightarrow> byte list" where
  "cells_text H atoms = concat (map (cell_text H) atoms)"

definition doc_text :: "Document \<Rightarrow> byte list" where
  "doc_text doc = concat (map (node_text (dHeap doc)) (dDoc doc))"

section \<open>Invariant\<close>

definition id_sorted :: "DocNode list \<Rightarrow> addr list \<Rightarrow> bool" where
  "id_sorted H ds = sorted_wrt (\<lambda>x y. nNodeId (H ! x) < nNodeId (H ! y)) ds"

definition child_ok :: "DocNode list \<Rightarrow> addr \<Rightarrow> nat \<Rightarrow> addr \<Rightarrow> bool" where
  "child_ok H a i c \<longleftrightarrow>
     a < c \<and> c < length H \<and> nParent (H ! c) = Some a \<and> unat (nParentN (H ! c)) = i"

definition node_ok :: "DocNode list \<Rightarrow> addr \<Rightarrow> bool" where
  "node_ok H a \<longleftrightarrow> nAtoms (H ! a) \<noteq> [] \<and> length (nAtoms (H ! a)) \<le> 65536 \<and>
     (\<forall>i<length (nAtoms (H ! a)). let ds = aLeft (nAtoms (H ! a) ! i) in
        id_sorted H ds \<and> (\<forall>c\<in>set ds. child_ok H a i c))"

definition listed_ok :: "DocNode list \<Rightarrow> addr list \<Rightarrow> addr \<Rightarrow> bool" where
  "listed_ok H D c \<longleftrightarrow>
     (case nParent (H ! c) of
        None \<Rightarrow> c \<in> set D
      | Some p \<Rightarrow> p < c \<and> unat (nParentN (H ! c)) < length (nAtoms (H ! p)) \<and>
          c \<in> set (aLeft (nAtoms (H ! p) ! unat (nParentN (H ! c)))))"

definition tree_ok :: "Document \<Rightarrow> bool" where
  "tree_ok doc \<longleftrightarrow>
     (let H = dHeap doc; D = dDoc doc in
      (\<forall>a<length H. node_ok H a \<and> listed_ok H D a) \<and>
      id_sorted H D \<and> (\<forall>r\<in>set D. r < length H \<and> nParent (H ! r) = None) \<and>
      (\<forall>nid a. dNodes doc nid = Some a \<longleftrightarrow> a < length H \<and> nNodeId (H ! a) = nid))"

definition nodes_size :: "DocNode list \<Rightarrow> addr list \<Rightarrow> int" where
  "nodes_size H ds = sum_list (map (\<lambda>c. nSize (H ! c)) ds)"

definition atom_size_ok :: "DocNode list \<Rightarrow> Atom \<Rightarrow> bool" where
  "atom_size_ok H atom \<longleftrightarrow> aSize atom = nodes_size H (aLeft atom) + int (length (own_text atom))"

text \<open>
  \<open>short a\<close> is what the cached size of node \<open>a\<close> is still short of while \<open>updateSize\<close> climbs to
  the root.
\<close>

definition sizes_ok :: "Document \<Rightarrow> (addr \<Rightarrow> int) \<Rightarrow> bool" where
  "sizes_ok doc short \<longleftrightarrow>
     (let H = dHeap doc in
      (\<forall>a<length H. nSize (H ! a) + short a = sum_list (map aSize (nAtoms (H ! a))) \<and>
         (\<forall>atom\<in>set (nAtoms (H ! a)). atom_size_ok H atom)) \<and>
      dSize doc = nodes_size H (dDoc doc))"

definition doc_ok :: "Document \<Rightarrow> bool" where
  "doc_ok doc \<longleftrightarrow> tree_ok doc \<and> sizes_ok doc (\<lambda>_. 0)"

lemma tree_okD:
  assumes "tree_ok doc"
  shows "\<And>a. a < length (dHeap doc) \<Longrightarrow> node_ok (dHeap doc) a"
    and "\<And>a. a < length (dHeap doc) \<Longrightarrow> listed_ok (dHeap doc) (dDoc doc) a"
    and "id_sorted (dHeap doc) (dDoc doc)"
    and "\<And>r. r \<in> set (dDoc doc) \<Longrightarrow> r < length (dHeap doc) \<and> nParent (dHeap doc ! r) = None"
    and "\<And>nid a. dNodes doc nid = Some a \<longleftrightarrow> a < length (dHeap doc) \<and> nNodeId (dHeap doc ! a) = nid"
  using assms by (auto simp: tree_ok_def Let_def)

lemma tree_ok_child:
  assumes "tree_ok doc" "a < length (dHeap doc)" "atom \<in> set (nAtoms (dHeap doc ! a))"
    "c \<in> set (aLeft atom)"
  shows "a < c" "c < length (dHeap doc)" "nParent (dHeap doc ! c) = Some a"
proof -
  obtain i where "i < length (nAtoms (dHeap doc ! a))" "atom = nAtoms (dHeap doc ! a) ! i"
    using assms(3) by (auto simp: in_set_conv_nth)
  then have "child_ok (dHeap doc) a i c"
    using tree_okD(1) [OF assms(1,2)] assms(4) by (auto simp: node_ok_def Let_def)
  then show "a < c" "c < length (dHeap doc)" "nParent (dHeap doc ! c) = Some a"
    by (auto simp: child_ok_def)
qed

lemma tree_ok_parent:
  assumes "tree_ok doc" "c < length (dHeap doc)" "nParent (dHeap doc ! c) = Some p"
  shows "p < c" "unat (nParentN (dHeap doc ! c)) < length (nAtoms (dHeap doc ! p))"
    "c \<in> set (aLeft (nAtoms (dHeap doc ! p) ! unat (nParentN (dHeap doc ! c))))"
  using tree_okD(2) [OF assms(1,2)] assms(3) by (auto simp: listed_ok_def)

lemma tree_ok_child_nth:
  assumes "tree_ok doc" "a < length (dHeap doc)" "i < length (nAtoms (dHeap doc ! a))"
    "c \<in> set (aLeft (nAtoms (dHeap doc ! a) ! i))"
  shows "a < c" "c < length (dHeap doc)" "nParent (dHeap doc ! c) = Some a"
    "unat (nParentN (dHeap doc ! c)) = i"
  using tree_okD(1) [OF assms(1,2)] assms(3,4) by (auto simp: node_ok_def child_ok_def Let_def)

lemma id_sorted_distinct: "id_sorted H ds \<Longrightarrow> distinct ds"
  unfolding id_sorted_def by (induction ds) auto

lemma left_distinct:
  assumes "tree_ok doc" "a < length (dHeap doc)" "atom \<in> set (nAtoms (dHeap doc ! a))"
  shows "distinct (aLeft atom)"
  using tree_okD(1) [OF assms(1,2)] assms(3)
  by (auto simp: node_ok_def Let_def in_set_conv_nth [of atom] intro: id_sorted_distinct)

lemma node_text_eq:
  assumes "tree_ok doc" "a < length (dHeap doc)"
  shows "node_text (dHeap doc) a = cells_text (dHeap doc) (nAtoms (dHeap doc ! a))"
  unfolding node_text.simps [of _ a] cells_text_def cell_text_def left_text_def
  using assms tree_ok_child [OF assms] by (auto intro!: arg_cong [where f = concat] map_cong)

lemma cells_text_simps [simp]:
  "cells_text H [] = []"
  "cells_text H (atom # atoms) = cell_text H atom @ cells_text H atoms"
  "cells_text H (atoms @ atoms') = cells_text H atoms @ cells_text H atoms'"
  by (simp_all add: cells_text_def)

section \<open>The text around a node\<close>

text \<open>Ancestors of a node, from the node up.\<close>

function chain :: "DocNode list \<Rightarrow> addr \<Rightarrow> addr list" where
  "chain H b = b # (case nParent (H ! b) of
       None \<Rightarrow> [] | Some p \<Rightarrow> if b < length H \<and> p < b then chain H p else [])"
  by pat_completeness auto
termination
  by (relation "measure (\<lambda>(H, b). b)") auto

declare chain.simps [simp del]

definition earlier :: "addr \<Rightarrow> addr list \<Rightarrow> addr list" where
  "earlier a ds = takeWhile (\<lambda>x. x \<noteq> a) ds"

definition later :: "addr \<Rightarrow> addr list \<Rightarrow> addr list" where
  "later a ds = tl (dropWhile (\<lambda>x. x \<noteq> a) ds)"

function doc_ctx :: "DocNode list \<Rightarrow> addr list \<Rightarrow> addr \<Rightarrow> byte list \<times> byte list" where
  "doc_ctx H D a =
     (case nParent (H ! a) of
        None \<Rightarrow> (concat (map (node_text H) (earlier a D)), concat (map (node_text H) (later a D)))
      | Some p \<Rightarrow>
          if p < a then
            let n = unat (nParentN (H ! a)); atoms = nAtoms (H ! p); atom = atoms ! n
            in (fst (doc_ctx H D p) @ cells_text H (take n atoms) @
                  concat (map (node_text H) (earlier a (aLeft atom))),
                concat (map (node_text H) (later a (aLeft atom))) @ own_text atom @
                  cells_text H (drop (Suc n) atoms) @ snd (doc_ctx H D p))
          else ([], []))"
  by pat_completeness auto
termination
  by (relation "measure (\<lambda>(H, D, a). a)") auto

declare doc_ctx.simps [simp del]

lemma earlier_later: "a \<in> set ds \<Longrightarrow> ds = earlier a ds @ a # later a ds"
  unfolding earlier_def later_def by (induction ds) auto

lemma earlier_mem: "x \<in> set (earlier a ds) \<Longrightarrow> x \<in> set ds \<and> x \<noteq> a"
  unfolding earlier_def by (auto dest: set_takeWhileD)

lemma later_mem: "distinct ds \<Longrightarrow> x \<in> set (later a ds) \<Longrightarrow> x \<in> set ds \<and> x \<noteq> a"
  unfolding later_def by (induction ds) (auto split: if_splits)

lemma take_nth_drop: "n < length xs \<Longrightarrow> xs = take n xs @ xs ! n # drop (Suc n) xs"
  by (rule id_take_nth_drop)

lemma doc_ctx_text:
  assumes "tree_ok doc" "a < length (dHeap doc)"
  shows "doc_text doc = fst (doc_ctx (dHeap doc) (dDoc doc) a) @ node_text (dHeap doc) a @
           snd (doc_ctx (dHeap doc) (dDoc doc) a)"
  using assms(2)
proof (induction a rule: less_induct)
  case (less a)
  let ?H = "dHeap doc" and ?D = "dDoc doc"
  show ?case
  proof (cases "nParent (?H ! a)")
    case None
    then have "a \<in> set ?D"
      using tree_okD(2) [OF assms(1) less.prems] by (simp add: listed_ok_def)
    then have "doc_text doc = concat (map (node_text ?H) (earlier a ?D @ a # later a ?D))"
      by (simp add: doc_text_def earlier_later [symmetric])
    then show ?thesis using None by (simp add: doc_ctx.simps [of _ _ a])
  next
    case (Some p)
    note up = tree_ok_parent [OF assms(1) less.prems Some]
    let ?n = "unat (nParentN (?H ! a))" and ?as = "nAtoms (?H ! p)"
    let ?L = "aLeft (?as ! ?n)"
    have "node_text ?H p = cells_text ?H (take ?n ?as @ ?as ! ?n # drop (Suc ?n) ?as)"
      using node_text_eq [OF assms(1), of p] up less.prems by (simp add: take_nth_drop [symmetric])
    moreover have "cell_text ?H (?as ! ?n) =
        concat (map (node_text ?H) (earlier a ?L @ a # later a ?L)) @ own_text (?as ! ?n)"
      using earlier_later [OF up(3)] by (simp add: cell_text_def left_text_def)
    ultimately show ?thesis
      using less.IH [of p] up less.prems Some by (simp add: doc_ctx.simps [of _ _ a] Let_def)
  qed
qed

section \<open>Changing one node\<close>

definition same_atom :: "Atom \<Rightarrow> Atom \<Rightarrow> bool" where
  "same_atom x y \<longleftrightarrow> aState x = aState y \<and> aAtom x = aAtom y \<and> aLeft x = aLeft y"

definition same_node :: "DocNode \<Rightarrow> DocNode \<Rightarrow> bool" where
  "same_node x y \<longleftrightarrow> nParent x = nParent y \<and> nParentN x = nParentN y \<and> nNodeId x = nNodeId y \<and>
     list_all2 same_atom (nAtoms x) (nAtoms y)"

definition agree_except :: "addr \<Rightarrow> DocNode list \<Rightarrow> DocNode list \<Rightarrow> bool" where
  "agree_except b H H' \<longleftrightarrow>
     length H \<le> length H' \<and> (\<forall>x<length H. x \<noteq> b \<longrightarrow> same_node (H ! x) (H' ! x))"

lemma same_node_refl [simp]: "same_node nd nd"
  by (simp add: same_node_def same_atom_def list_all2_refl)

lemma in_chain:
  "x \<in> set (chain H b) \<longleftrightarrow>
     x = b \<or> (\<exists>p. nParent (H ! b) = Some p \<and> b < length H \<and> p < b \<and> x \<in> set (chain H p))"
  by (subst chain.simps) (auto split: option.splits)

lemma chain_le: "x \<in> set (chain H b) \<Longrightarrow> x \<le> b"
proof (induction b rule: less_induct)
  case (less b)
  then show ?case using in_chain [of x H b] by fastforce
qed

lemma chain_self [simp]: "b \<in> set (chain H b)"
  using in_chain by blast

lemma chain_up:
  "d \<in> set (chain H b) \<Longrightarrow> nParent (H ! d) = Some c \<Longrightarrow> c < d \<Longrightarrow> d < length H \<Longrightarrow>
    c \<in> set (chain H b)"
proof (induction b rule: less_induct)
  case (less b)
  then show ?case
    using in_chain [of d H b] in_chain [of c H b] in_chain [of c H c] by blast
qed

lemma chain_linear:
  "a \<in> set (chain H b) \<Longrightarrow> c \<in> set (chain H b) \<Longrightarrow> a \<in> set (chain H c) \<or> c \<in> set (chain H a)"
proof (induction b rule: less_induct)
  case (less b)
  then show ?case using in_chain [of a H b] in_chain [of c H b] by fastforce
qed

lemma chain_strict:
  "c \<in> set (chain H a) \<Longrightarrow> c \<noteq> a \<Longrightarrow> \<exists>p. nParent (H ! a) = Some p \<and> c \<le> p \<and> p < a"
  using in_chain [of c H a] chain_le by blast

lemma chain_sibling:
  assumes "a \<in> set (chain H b)" "c \<in> set (chain H b)" "nParent (H ! a) = nParent (H ! c)"
    "\<And>p. nParent (H ! a) = Some p \<Longrightarrow> p < a \<and> p < c"
  shows "a = c"
proof (rule ccontr)
  assume "a \<noteq> c"
  with chain_linear [OF assms(1,2)] show False
    using chain_strict [of a H c] chain_strict [of c H a] assms(3,4) by force
qed

lemma same_atoms_cells:
  assumes "list_all2 same_atom xs ys"
    "\<And>atom c. atom \<in> set xs \<Longrightarrow> c \<in> set (aLeft atom) \<Longrightarrow> f c = g c"
  shows "concat (map (\<lambda>atom. concat (map f (aLeft atom)) @ own_text atom) xs) =
    concat (map (\<lambda>atom. concat (map g (aLeft atom)) @ own_text atom) ys)"
  using assms
proof (induction rule: list_all2_induct)
    case (Cons u us v vs)
    have "map f (aLeft u) = map g (aLeft u)" using Cons.prems by auto
    then have "concat (map f (aLeft u)) @ own_text u = concat (map g (aLeft v)) @ own_text v"
      using Cons.hyps(1) by (simp only: same_atom_def own_text_def)
    moreover have "concat (map (\<lambda>atom. concat (map f (aLeft atom)) @ own_text atom) us) =
        concat (map (\<lambda>atom. concat (map g (aLeft atom)) @ own_text atom) vs)"
      by (rule Cons.IH) (meson Cons.prems list.set_intros(2))
    ultimately show ?case by simp
qed simp

lemma cells_text_agree:
  "list_all2 same_atom xs ys \<Longrightarrow>
    (\<And>atom c. atom \<in> set xs \<Longrightarrow> c \<in> set (aLeft atom) \<Longrightarrow> node_text H' c = node_text H c) \<Longrightarrow>
    cells_text H' ys = cells_text H xs"
  unfolding cells_text_def cell_text_def left_text_def
  by (rule same_atoms_cells [symmetric]) auto

lemma node_text_agree:
  assumes "tree_ok doc" "agree_except b (dHeap doc) H'" "c < length (dHeap doc)"
    "c \<notin> set (chain (dHeap doc) b)"
  shows "node_text H' c = node_text (dHeap doc) c"
  using assms(3,4)
proof (induction "length (dHeap doc) - c" arbitrary: c rule: less_induct)
  case less
  let ?H = "dHeap doc"
  have same: "same_node (?H ! c) (H' ! c)" and len: "length ?H \<le> length H'"
    using assms(2) less.prems by (auto simp: agree_except_def)
  have kid: "c < d \<and> d < length ?H \<and> node_text H' d = node_text ?H d"
    if "atom \<in> set (nAtoms (?H ! c))" "d \<in> set (aLeft atom)" for atom d
  proof -
    note d = tree_ok_child [OF assms(1) less.prems(1) that]
    then have "d \<notin> set (chain ?H b)" using chain_up [of d ?H b c] less.prems(2) by blast
    with less.hyps [of d] d less.prems(1) show ?thesis by simp
  qed
  have "concat (map (\<lambda>atom. concat (map (\<lambda>d. if c < d \<and> d < length ?H then node_text ?H d else [])
          (aLeft atom)) @ own_text atom) (nAtoms (?H ! c))) =
      concat (map (\<lambda>atom. concat (map (\<lambda>d. if c < d \<and> d < length H' then node_text H' d else [])
          (aLeft atom)) @ own_text atom) (nAtoms (H' ! c)))"
    by (rule same_atoms_cells [OF same [unfolded same_node_def, THEN conjunct2, THEN conjunct2, THEN conjunct2]]) (use kid len in force)
  then show ?case
    using less.prems(1) len by (simp add: node_text.simps [of _ c])
qed

lemma doc_ctx_agree:
  assumes "tree_ok doc" "agree_except b (dHeap doc) H'" "b < length (dHeap doc)"
    "nParent (H' ! b) = nParent (dHeap doc ! b)" "nParentN (H' ! b) = nParentN (dHeap doc ! b)"
    "a \<in> set (chain (dHeap doc) b)"
  shows "doc_ctx H' (dDoc doc) a = doc_ctx (dHeap doc) (dDoc doc) a"
  using assms(6)
proof (induction a rule: less_induct)
  case (less a)
  let ?H = "dHeap doc" and ?D = "dDoc doc"
  have a: "a \<le> b" "a < length ?H" using chain_le [OF less.prems] assms(3) by auto
  have par: "nParent (H' ! a) = nParent (?H ! a)" "nParentN (H' ! a) = nParentN (?H ! a)"
    using assms(2,4,5) a by (cases "a = b"; auto simp: agree_except_def same_node_def)+
  have sib: "node_text H' c = node_text ?H c"
    if "c < length ?H" "c \<noteq> a" "nParent (?H ! c) = nParent (?H ! a)" for c
    using node_text_agree [OF assms(1,2) that(1)] chain_sibling [OF less.prems, of c] that
      tree_ok_parent(1) [OF assms(1) a(2)] tree_ok_parent(1) [OF assms(1) that(1)] by auto
  show ?case
  proof (cases "nParent (?H ! a)")
    case None
    have "distinct ?D" by (rule id_sorted_distinct [OF tree_okD(3) [OF assms(1)]])
    then have "map (node_text H') (earlier a ?D) = map (node_text ?H) (earlier a ?D)"
      "map (node_text H') (later a ?D) = map (node_text ?H) (later a ?D)"
      using tree_okD(4) [OF assms(1)] None
      by (auto dest: earlier_mem later_mem intro!: sib)
    then show ?thesis by (simp only: doc_ctx.simps [of _ _ a] par None option.case)
  next
    case (Some p)
    note up = tree_ok_parent [OF assms(1) a(2) Some]
    let ?n = "unat (nParentN (?H ! a))"
    have p: "p \<in> set (chain ?H b)" "p < length ?H" "p \<noteq> b"
      using chain_up [OF less.prems Some] up a by auto
    have cells: "list_all2 same_atom (nAtoms (?H ! p)) (nAtoms (H' ! p))"
      using assms(2) p by (simp add: agree_except_def same_node_def)
    have n: "?n < length (nAtoms (?H ! p))" "same_atom (nAtoms (?H ! p) ! ?n) (nAtoms (H' ! p) ! ?n)"
      using up(2) list_all2_nthD [OF cells] by auto
    let ?ds = "aLeft (nAtoms (?H ! p) ! ?n)"
    have kids: "child_ok ?H p i c"
      if "i < length (nAtoms (?H ! p))" "c \<in> set (aLeft (nAtoms (?H ! p) ! i))" for i c
      using tree_okD(1) [OF assms(1) p(2)] that by (auto simp: node_ok_def Let_def)
    have other: "node_text H' c = node_text ?H c"
      if "i < length (nAtoms (?H ! p))" "i \<noteq> ?n" "c \<in> set (aLeft (nAtoms (?H ! p) ! i))" for i c
      using kids [OF that(1,3)] that(2) Some by (auto simp: child_ok_def intro!: sib)
    have "distinct ?ds"
      using tree_okD(1) [OF assms(1) p(2)] n(1)
      by (auto simp: node_ok_def Let_def intro: id_sorted_distinct)
    then have "map (node_text H') (earlier a ?ds) = map (node_text ?H) (earlier a ?ds)"
      "map (node_text H') (later a ?ds) = map (node_text ?H) (later a ?ds)"
      using kids [OF n(1)] Some by (auto dest!: earlier_mem later_mem simp: child_ok_def intro!: sib)
    moreover have "cells_text H' (take ?n (nAtoms (H' ! p))) = cells_text ?H (take ?n (nAtoms (?H ! p)))"
      by (rule cells_text_agree [OF list_all2_takeI [OF cells]])
        (use other in \<open>fastforce dest!: in_set_take_nth\<close>)
    moreover have "cells_text H' (drop (Suc ?n) (nAtoms (H' ! p))) =
        cells_text ?H (drop (Suc ?n) (nAtoms (?H ! p)))"
      by (rule cells_text_agree [OF list_all2_dropI [OF cells]])
        (use other in \<open>fastforce dest!: in_set_drop_nth\<close>)
    moreover have "own_text (nAtoms (H' ! p) ! ?n) = own_text (nAtoms (?H ! p) ! ?n)"
      "aLeft (nAtoms (H' ! p) ! ?n) = ?ds"
      using n(2) by (auto simp: same_atom_def own_text_def)
    ultimately show ?thesis
      using less.IH [OF up(1) p(1)] up(1)
      by (simp only: doc_ctx.simps [of _ _ a] par Some option.case Let_def if_True)
  qed
qed

section \<open>Cached sizes\<close>

lemma nodes_size_simps [simp]:
  "nodes_size H [] = 0"
  "nodes_size H (d # ds) = nSize (H ! d) + nodes_size H ds"
  "nodes_size H (ds @ ds') = nodes_size H ds + nodes_size H ds'"
  by (simp_all add: nodes_size_def)

lemma nodes_size_length:
  "(\<And>c. c \<in> set ds \<Longrightarrow> nSize (H ! c) = int (length (node_text H c))) \<Longrightarrow>
    nodes_size H ds = int (length (concat (map (node_text H) ds)))"
  by (induction ds) auto

lemma atoms_size_length:
  "(\<And>atom. atom \<in> set atoms \<Longrightarrow> aSize atom = int (length (cell_text H atom))) \<Longrightarrow>
    sum_list (map aSize atoms) = int (length (cells_text H atoms))"
  by (induction atoms) auto

lemma node_size_length:
  assumes "doc_ok doc" "a < length (dHeap doc)"
  shows "nSize (dHeap doc ! a) = int (length (node_text (dHeap doc) a))"
  using assms(2)
proof (induction "length (dHeap doc) - a" arbitrary: a rule: less_induct)
  case less
  let ?H = "dHeap doc"
  have ok: "tree_ok doc" "sizes_ok doc (\<lambda>_. 0)" using assms(1) by (auto simp: doc_ok_def)
  have "aSize atom = int (length (cell_text ?H atom))" if "atom \<in> set (nAtoms (?H ! a))" for atom
  proof -
    have "nodes_size ?H (aLeft atom) = int (length (left_text ?H atom))"
      unfolding left_text_def
    proof (rule nodes_size_length)
      fix c assume "c \<in> set (aLeft atom)"
      from tree_ok_child [OF ok(1) less.prems that this] less.prems
      show "nSize (?H ! c) = int (length (node_text ?H c))"
        using less.hyps [of c] by simp
    qed
    moreover have "atom_size_ok ?H atom"
      using ok(2) less.prems that by (auto simp: sizes_ok_def Let_def)
    ultimately show ?thesis by (simp add: atom_size_ok_def cell_text_def)
  qed
  then show ?case
    using atoms_size_length [of "nAtoms (?H ! a)" ?H] ok(2) less.prems
    by (simp add: node_text_eq [OF ok(1) less.prems] sizes_ok_def Let_def)
qed

lemma siblings_size_length:
  "doc_ok doc \<Longrightarrow> (\<And>c. c \<in> set ds \<Longrightarrow> c < length (dHeap doc)) \<Longrightarrow>
    nodes_size (dHeap doc) ds = int (length (concat (map (node_text (dHeap doc)) ds)))"
  using nodes_size_length node_size_length by meson

lemma atom_size_length:
  assumes "doc_ok doc" "a < length (dHeap doc)" "atom \<in> set (nAtoms (dHeap doc ! a))"
  shows "aSize atom = int (length (cell_text (dHeap doc) atom))"
proof -
  have "tree_ok doc" and "atom_size_ok (dHeap doc) atom"
    using assms by (auto simp: doc_ok_def sizes_ok_def Let_def)
  then show ?thesis
    using siblings_size_length [OF assms(1), of "aLeft atom"]
      tree_ok_child(2) [OF _ assms(2,3)]
    by (simp add: atom_size_ok_def cell_text_def left_text_def)
qed

lemma doc_size_length: "doc_ok doc \<Longrightarrow> dSize doc = int (length (doc_text doc))"
  using siblings_size_length [of doc "dDoc doc"] tree_okD(4)
  by (fastforce simp: doc_ok_def sizes_ok_def doc_text_def Let_def)

section \<open>Positions (\<open>calcPos\<close>)\<close>

lemma atom_sizes_upto_ok:
  "n \<le> length atoms \<Longrightarrow> atom_sizes_upto atoms n = returns (sum_list (map aSize (take n atoms)))"
proof (induction n)
  case (Suc n)
  then show ?case
    by (simp add: atom_sizes_upto_def pfold_append index_or_panic_def guard_else_def
        take_Suc_conv_app_nth)
qed (simp add: atom_sizes_upto_def)

lemma node_sizes_before_eq: "node_sizes_before H ds a = nodes_size H (earlier a ds)"
  by (induction ds) (auto simp: earlier_def)

lemma calcPosHelper_ok:
  assumes "doc_ok doc" "a < length (dHeap doc)" "n \<le> length (nAtoms (dHeap doc ! a))"
  shows "calcPosHelper doc a n =
    returns (int (length (fst (doc_ctx (dHeap doc) (dDoc doc) a) @
      cells_text (dHeap doc) (take n (nAtoms (dHeap doc ! a))))))"
  using assms(2,3)
proof (induction a arbitrary: n rule: less_induct)
  case (less a)
  let ?H = "dHeap doc" and ?as = "nAtoms (dHeap doc ! a)"
  have ok: "tree_ok doc" using assms(1) by (simp add: doc_ok_def)
  have sum: "sum_list (map aSize (take n ?as)) = int (length (cells_text ?H (take n ?as)))"
    using atom_size_length [OF assms(1) less.prems(1)] in_set_takeD
    by (intro atoms_size_length) fast
  have "nodes_size ?H (earlier a ds) = int (length (concat (map (node_text ?H) (earlier a ds))))"
    if "\<And>c. c \<in> set ds \<Longrightarrow> c < length ?H" for ds
    using that earlier_mem by (intro siblings_size_length [OF assms(1)]) blast
  note before_a = this
  show ?case
  proof (cases "nParent (?H ! a)")
    case None
    with sum before_a [of "dDoc doc"] tree_okD(4) [OF ok] show ?thesis
      by (subst calcPosHelper.simps, subst doc_ctx.simps)
        (simp add: node_at_def atom_sizes_upto_ok [OF less.prems(2)] node_sizes_before_eq)
  next
    case (Some p)
    note up = tree_ok_parent [OF ok less.prems(1) Some]
    have p: "p < length ?H" using up(1) less.prems(1) by simp
    let ?n = "unat (nParentN (?H ! a))"
    have "calcPosHelper doc p ?n = returns (int (length (fst (doc_ctx ?H (dDoc doc) p) @
        cells_text ?H (take ?n (nAtoms (?H ! p))))))"
      using less.IH [OF up(1) p] up(2) by simp
    with sum before_a [of "aLeft (nAtoms (?H ! p) ! ?n)"] tree_ok_child(2) [OF ok p nth_mem [OF up(2)]] up Some
    show ?thesis
      by (subst calcPosHelper.simps, subst doc_ctx.simps)
        (simp add: node_at_def atom_sizes_upto_ok [OF less.prems(2)] node_sizes_before_eq
          index_or_panic_def guard_else_def Let_def)
  qed
qed

lemma calcPos_ok:
  assumes "doc_ok doc" "a < length (dHeap doc)" "n < length (nAtoms (dHeap doc ! a))"
  shows "calcPos doc a n =
    returns (int (length (fst (doc_ctx (dHeap doc) (dDoc doc) a) @
      cells_text (dHeap doc) (take n (nAtoms (dHeap doc ! a))) @
      cell_text (dHeap doc) (nAtoms (dHeap doc ! a) ! n))) - 1)"
  using calcPosHelper_ok [OF assms(1,2), of n] assms(3)
    atom_size_length [OF assms(1,2) nth_mem [OF assms(3)]]
  by (simp add: calcPos_def node_at_def index_or_panic_def guard_else_def)

section \<open>Climbing to the root (\<open>updateSize\<close>)\<close>

definition same_tree :: "Document \<Rightarrow> Document \<Rightarrow> bool" where
  "same_tree doc doc' \<longleftrightarrow> dDoc doc = dDoc doc' \<and> dNodes doc = dNodes doc' \<and>
     list_all2 same_node (dHeap doc) (dHeap doc')"

lemma same_tree_fields:
  assumes "same_tree doc doc'"
  shows "dDoc doc' = dDoc doc" "dNodes doc' = dNodes doc" "length (dHeap doc') = length (dHeap doc)"
    and "\<And>a. a < length (dHeap doc) \<Longrightarrow> same_node (dHeap doc ! a) (dHeap doc' ! a)"
  using assms list_all2_lengthD list_all2_nthD by (fastforce simp: same_tree_def)+

lemma same_node_fields:
  assumes "same_node x y"
  shows "nParent y = nParent x" "nParentN y = nParentN x" "nNodeId y = nNodeId x"
    "length (nAtoms y) = length (nAtoms x)"
    and "\<And>i. i < length (nAtoms x) \<Longrightarrow> aLeft (nAtoms y ! i) = aLeft (nAtoms x ! i)"
  using assms list_all2_lengthD list_all2_nthD by (fastforce simp: same_node_def same_atom_def)+

lemma same_node_trans: "same_node x y \<Longrightarrow> same_node y z \<Longrightarrow> same_node x z"
  using list_all2_trans [of same_atom same_atom same_atom]
  by (auto simp: same_node_def same_atom_def)

lemma same_tree_trans: "same_tree x y \<Longrightarrow> same_tree y z \<Longrightarrow> same_tree x z"
  using list_all2_trans [of same_node same_node same_node, OF same_node_trans]
  by (auto simp: same_tree_def)

lemma id_sorted_cong:
  "(\<And>x. x \<in> set ds \<Longrightarrow> nNodeId (H' ! x) = nNodeId (H ! x)) \<Longrightarrow> id_sorted H' ds = id_sorted H ds"
  unfolding id_sorted_def by (induction ds) auto

lemma same_tree_ok:
  assumes "same_tree doc doc'" "tree_ok doc"
  shows "tree_ok doc'"
proof -
  let ?H = "dHeap doc" and ?H' = "dHeap doc'"
  note F = same_tree_fields [OF assms(1)]
  note N = same_node_fields [OF F(4)]
  have "id_sorted ?H' ds = id_sorted ?H ds" if "\<And>c. c \<in> set ds \<Longrightarrow> c < length ?H" for ds
    using that N(3) by (intro id_sorted_cong) auto
  note sorted = this
  have node: "node_ok ?H' a" if a: "a < length ?H" for a
    unfolding node_ok_def Let_def
  proof (intro conjI allI impI ballI)
    show "nAtoms (?H' ! a) \<noteq> []" "length (nAtoms (?H' ! a)) \<le> 65536"
      using tree_okD(1) [OF assms(2) a] N(4) [OF a] by (auto simp: node_ok_def)
    fix i assume "i < length (nAtoms (?H' ! a))"
    then have i: "i < length (nAtoms (?H ! a))" using N(4) [OF a] by simp
    have kid: "child_ok ?H a i c" if "c \<in> set (aLeft (nAtoms (?H ! a) ! i))" for c
      using tree_okD(1) [OF assms(2) a] i that by (auto simp: node_ok_def Let_def)
    show "id_sorted ?H' (aLeft (nAtoms (?H' ! a) ! i))"
      using tree_okD(1) [OF assms(2) a] i kid sorted [of "aLeft (nAtoms (?H ! a) ! i)"]
      by (auto simp: N(5) [OF a i] node_ok_def child_ok_def Let_def)
    fix c assume "c \<in> set (aLeft (nAtoms (?H' ! a) ! i))"
    then show "child_ok ?H' a i c"
      using kid F(3) N(1,2) by (auto simp: N(5) [OF a i] child_ok_def)
  qed
  have listed: "listed_ok ?H' (dDoc doc') a" if a: "a < length ?H" for a
  proof (cases "nParent (?H ! a)")
    case (Some p)
    note up = tree_ok_parent [OF assms(2) a Some]
    then show ?thesis using Some N(4,5) [of p] a by (simp add: listed_ok_def N(1,2) [OF a])
  qed (use tree_okD(2) [OF assms(2) a] in \<open>simp add: listed_ok_def N(1) [OF a] F(1)\<close>)
  show ?thesis
    unfolding tree_ok_def Let_def
  proof (intro conjI allI impI ballI)
    show "id_sorted ?H' (dDoc doc')"
      using sorted [of "dDoc doc"] tree_okD(3,4) [OF assms(2)] by (simp add: F(1))
    fix r assume "r \<in> set (dDoc doc')"
    then show "r < length ?H'" "nParent (?H' ! r) = None"
      using tree_okD(4) [OF assms(2), of r] N(1) by (auto simp: F)
  next
    fix nid a show "dNodes doc' nid = Some a \<longleftrightarrow> a < length ?H' \<and> nNodeId (?H' ! a) = nid"
      using tree_okD(5) [OF assms(2)] N(3) by (auto simp: F)
  qed (use node listed F(3) in auto)
qed

lemma same_tree_text:
  assumes "same_tree doc doc'" "tree_ok doc"
  shows "a < length (dHeap doc) \<Longrightarrow> node_text (dHeap doc') a = node_text (dHeap doc) a"
    and "doc_text doc' = doc_text doc"
proof -
  note F = same_tree_fields [OF assms(1)]
  have "chain (dHeap doc) (length (dHeap doc)) = [length (dHeap doc)]"
    by (subst chain.simps) (simp split: option.split)
  moreover have "agree_except (length (dHeap doc)) (dHeap doc) (dHeap doc')"
    using F by (simp add: agree_except_def)
  ultimately show *: "a < length (dHeap doc) \<Longrightarrow> node_text (dHeap doc') a = node_text (dHeap doc) a" for a
    using node_text_agree [OF assms(2), of "length (dHeap doc)" "dHeap doc'" a] by simp
  show "doc_text doc' = doc_text doc"
    unfolding doc_text_def F(1) using * tree_okD(4) [OF assms(2)]
    by (intro arg_cong [where f = concat] map_cong) auto
qed

lemma nodes_size_bump:
  assumes "distinct ds" "\<And>x. x \<in> set ds \<Longrightarrow> nSize (H' ! x) = nSize (H ! x) + (if x = a then delta else 0)"
  shows "nodes_size H' ds = nodes_size H ds + (if a \<in> set ds then delta else 0)"
  using assms by (induction ds) auto

lemma atoms_size_update:
  "n < length atoms \<Longrightarrow>
    sum_list (map aSize (atoms[n := atom])) = sum_list (map aSize atoms) + aSize atom - aSize (atoms ! n)"
  by (induction atoms arbitrary: n) (auto split: nat.split)

lemma sizes_ok_nth:
  "sizes_ok doc short \<longleftrightarrow>
     (\<forall>a<length (dHeap doc). nSize (dHeap doc ! a) + short a = sum_list (map aSize (nAtoms (dHeap doc ! a)))) \<and>
     (\<forall>a<length (dHeap doc). \<forall>i<length (nAtoms (dHeap doc ! a)).
        atom_size_ok (dHeap doc) (nAtoms (dHeap doc ! a) ! i)) \<and>
     dSize doc = nodes_size (dHeap doc) (dDoc doc)"
  by (auto simp: sizes_ok_def Let_def all_set_conv_all_nth)

lemma same_tree_update:
  "a < length (dHeap doc) \<Longrightarrow> same_node (dHeap doc ! a) nd \<Longrightarrow>
    same_tree doc (put_node doc a nd)"
  by (auto simp: same_tree_def put_node_def list_all2_conv_all_nth nth_list_update)

lemma same_tree_dSize [simp]: "same_tree doc (doc'\<lparr>dSize := k\<rparr>) = same_tree doc doc'"
  by (simp add: same_tree_def)

lemma updateSize_step_root:
  assumes "tree_ok doc" "sizes_ok doc ((\<lambda>_. 0)(a := delta))" "a < length (dHeap doc)"
    "nParent (dHeap doc ! a) = None"
    "nd = (dHeap doc ! a)\<lparr>nSize := nSize (dHeap doc ! a) + delta\<rparr>"
  shows "sizes_ok ((put_node doc a nd)\<lparr>dSize := dSize doc + delta\<rparr>) (\<lambda>_. 0)"
proof -
  let ?H = "dHeap doc"
  let ?H' = "?H[a := nd]"
  have bump: "nodes_size ?H' ds = nodes_size ?H ds + (if a \<in> set ds then delta else 0)"
    if "distinct ds" for ds
    using that assms(3,5) by (intro nodes_size_bump) (auto simp: nth_list_update)
  have "nodes_size ?H' (aLeft atom) = nodes_size ?H (aLeft atom)"
    if "x < length ?H" "atom \<in> set (nAtoms (?H ! x))" for x atom
  proof -
    have "a \<notin> set (aLeft atom)" using tree_ok_child(3) [OF assms(1) that] assms(4) by auto
    then show ?thesis using bump [OF left_distinct [OF assms(1) that]] by simp
  qed
  moreover have "a \<in> set (dDoc doc)"
    using tree_okD(2) [OF assms(1,3)] assms(4) by (simp add: listed_ok_def)
  ultimately show ?thesis
    using assms(2,3,5) bump [OF id_sorted_distinct [OF tree_okD(3) [OF assms(1)]]]
    by (auto simp: sizes_ok_def Let_def put_node_def nth_list_update atom_size_ok_def
        split: if_splits)
qed

lemma updateSize_step_up:
  assumes "tree_ok doc" "sizes_ok doc ((\<lambda>_. 0)(a := delta))" "a < length (dHeap doc)"
    "nParent (dHeap doc ! a) = Some p" "n = unat (nParentN (dHeap doc ! a))"
    "nd = (dHeap doc ! a)\<lparr>nSize := nSize (dHeap doc ! a) + delta\<rparr>"
    "atoms = nAtoms (dHeap doc ! p)"
    "nd' = (dHeap doc ! p)\<lparr>nAtoms := atoms[n := (atoms ! n)\<lparr>aSize := aSize (atoms ! n) + delta\<rparr>]\<rparr>"
  shows "sizes_ok (put_node (put_node doc a nd) p nd') ((\<lambda>_. 0)(p := delta))"
proof -
  let ?H = "dHeap doc"
  let ?H' = "?H[a := nd, p := nd']"
  note up = tree_ok_parent [OF assms(1,3,4)]
  have bump: "nodes_size ?H' ds = nodes_size ?H ds + (if a \<in> set ds then delta else 0)"
    if "distinct ds" for ds
    using that assms(3,6,8) up(1) by (intro nodes_size_bump) (auto simp: nth_list_update)
  have left: "nodes_size ?H' (aLeft (nAtoms (?H ! x) ! i)) =
      nodes_size ?H (aLeft (nAtoms (?H ! x) ! i)) + (if x = p \<and> i = n then delta else 0)"
    if "x < length ?H" "i < length (nAtoms (?H ! x))" for x i
  proof -
    have "a \<in> set (aLeft (nAtoms (?H ! x) ! i)) \<longleftrightarrow> x = p \<and> i = n"
      using tree_ok_child_nth [OF assms(1) that, of a] assms(4,5) up(3) by auto
    then show ?thesis using bump [OF left_distinct [OF assms(1) that(1) nth_mem [OF that(2)]]] by simp
  qed
  have "a \<notin> set (dDoc doc)" using tree_okD(4) [OF assms(1)] assms(4) by auto
  then have roots: "nodes_size ?H' (dDoc doc) = nodes_size ?H (dDoc doc)"
    using bump [OF id_sorted_distinct [OF tree_okD(3) [OF assms(1)]]] by simp
  have at_x: "?H' ! x = (if x = p then nd' else if x = a then nd else ?H ! x)" if "x < length ?H" for x
    using that assms(3) up(1) by (simp add: nth_list_update)
  have sizes: "atom_size_ok ?H (nAtoms (?H ! x) ! i)"
    if "x < length ?H" "i < length (nAtoms (?H ! x))" for x i
    using assms(2) that by (simp add: sizes_ok_nth)
  have "nSize (?H' ! x) + ((\<lambda>_. 0)(p := delta)) x = sum_list (map aSize (nAtoms (?H' ! x)))"
    if "x < length ?H" for x
    using assms(2,3) that up(1,2) atoms_size_update [of n atoms]
    by (auto simp: nth_list_update assms(5-8) sizes_ok_nth)
  moreover have "atom_size_ok ?H' (nAtoms (?H' ! x) ! i)"
    if "x < length ?H" "i < length (nAtoms (?H' ! x))" for x i
  proof (cases "x = p")
    case True
    then have i: "i < length (nAtoms (?H ! x))"
      using that assms(3) by (simp add: at_x assms(7,8))
    have "n < length (nAtoms (?H ! p))" using up(2) assms(5) by simp
    with sizes [OF that(1) i] left [OF that(1) i] True that(1) i show ?thesis
      by (auto simp: atom_size_ok_def assms(7,8) own_text_def nth_list_update)
  next
    case False
    then have i: "i < length (nAtoms (?H ! x))" "nAtoms (?H' ! x) = nAtoms (?H ! x)"
      using that assms(3) by (auto simp: nth_list_update assms(6) split: if_splits)
    with sizes [OF that(1) i(1)] left [OF that(1) i(1)] False show ?thesis
      by (simp add: atom_size_ok_def)
  qed
  ultimately show ?thesis
    using assms(2) roots by (simp add: sizes_ok_nth put_node_def)
qed

lemma updateSize_ok:
  assumes "tree_ok doc" "sizes_ok doc ((\<lambda>_. 0)(a := delta))" "a < length (dHeap doc)"
  shows "\<exists>doc'. updateSize doc a delta = returns doc' \<and> same_tree doc doc' \<and> doc_ok doc'"
  using assms
proof (induction a arbitrary: doc rule: less_induct)
  case (less a)
  let ?H = "dHeap doc"
  define nd where "nd = (?H ! a)\<lparr>nSize := nSize (?H ! a) + delta\<rparr>"
  have nd: "same_node (?H ! a) nd" by (simp add: nd_def same_node_def same_atom_def list_all2_refl)
  note tree1 = same_tree_update [OF less.prems(3) nd]
  show ?case
  proof (cases "nParent (?H ! a)")
    case None
    let ?doc = "(put_node doc a nd)\<lparr>dSize := dSize doc + delta\<rparr>"
    have "updateSize doc a delta = returns ?doc"
      by (subst updateSize.simps) (simp add: None node_at_def nd_def put_node_def Let_def)
    moreover have "sizes_ok ?doc (\<lambda>_. 0)"
      by (rule updateSize_step_root [OF less.prems None nd_def])
    moreover have "same_tree doc ?doc" using tree1 by simp
    ultimately show ?thesis using same_tree_ok less.prems(1) unfolding doc_ok_def by blast
  next
    case (Some p)
    note up = tree_ok_parent [OF less.prems(1,3) Some]
    define n where "n = unat (nParentN (?H ! a))"
    define atoms where "atoms = nAtoms (?H ! p)"
    define nd' where "nd' = (?H ! p)\<lparr>nAtoms := atoms[n := (atoms ! n)\<lparr>aSize := aSize (atoms ! n) + delta\<rparr>]\<rparr>"
    let ?doc = "put_node (put_node doc a nd) p nd'"
    have "same_node (?H ! p) nd'" using up(2)
      by (auto simp: nd'_def n_def atoms_def same_node_def same_atom_def list_all2_conv_all_nth
          nth_list_update)
    then have "same_tree (put_node doc a nd) ?doc"
      using less.prems(3) up(1) by (intro same_tree_update) (auto simp: put_node_def)
    with tree1 have tree: "same_tree doc ?doc" by (rule same_tree_trans)
    moreover have "updateSize doc a delta = updateSize ?doc p delta"
      using up less.prems(3)
      by (subst updateSize.simps)
        (simp add: Some node_at_def put_node_def nd_def nd'_def n_def atoms_def
          index_or_panic_def guard_else_def Let_def)
    moreover have "sizes_ok ?doc ((\<lambda>_. 0)(p := delta))"
      by (rule updateSize_step_up [OF less.prems Some n_def nd_def atoms_def nd'_def])
    moreover have "p < length (dHeap ?doc)" using up(1) less.prems(3) by (simp add: put_node_def)
    ultimately show ?thesis
      using less.IH [OF up(1) same_tree_ok [OF tree less.prems(1)]] same_tree_trans by metis
  qed
qed

section \<open>Reading the document\<close>

lemma docToBufferHelper_ok:
  assumes "tree_ok doc" "\<And>c. c \<in> set ds \<Longrightarrow> m \<le> c \<and> c < length (dHeap doc)"
  shows "docToBufferHelper (dHeap doc) ds buf =
    returns (buf @ concat (map (node_text (dHeap doc)) ds))"
  using assms(2)
proof (induction "length (dHeap doc) - m" arbitrary: m ds buf rule: less_induct)
  case less
  let ?H = "dHeap doc"
  have atoms: "pfold (\<lambda>buf atom. pbind (docToBufferHelper ?H (aLeft atom) buf)
        (\<lambda>buf. returns (if aState atom = ALIVE then buf @ [aAtom atom] else buf))) atoms buf =
      returns (buf @ cells_text ?H atoms)"
    if "c \<in> set ds" "set atoms \<subseteq> set (nAtoms (?H ! c))" for c atoms buf
    using that(2)
  proof (induction atoms arbitrary: buf)
    case (Cons atom atoms)
    have "docToBufferHelper ?H (aLeft atom) buf = returns (buf @ left_text ?H atom)"
      unfolding left_text_def
    proof (rule less.hyps [of "Suc c"])
      show "length ?H - Suc c < length ?H - m" using less.prems [OF that(1)] by auto
      fix d assume "d \<in> set (aLeft atom)"
      then show "Suc c \<le> d \<and> d < length ?H"
        using tree_ok_child [OF assms(1), of c atom d] less.prems [OF that(1)] Cons.prems by auto
    qed
    with Cons show ?case by (simp add: cell_text_def own_text_def)
  qed simp
  have "pfold (\<lambda>buf node. pfold (\<lambda>buf atom. pbind (docToBufferHelper ?H (aLeft atom) buf)
        (\<lambda>buf. returns (if aState atom = ALIVE then buf @ [aAtom atom] else buf)))
        (nAtoms (?H ! node)) buf) ds' buf = returns (buf @ concat (map (node_text ?H) ds'))"
    if "set ds' \<subseteq> set ds" for ds' buf
    using that
  proof (induction ds' arbitrary: buf)
    case (Cons c ds')
    then show ?case
      using atoms [of c "nAtoms (?H ! c)"] less.prems [of c] by (simp add: node_text_eq [OF assms(1)])
  qed simp
  then show ?case by (subst docToBufferHelper.simps) simp
qed

lemma DocToString_ok: "tree_ok doc \<Longrightarrow> DocToString doc = returns (doc_text doc)"
  using docToBufferHelper_ok [of doc "dDoc doc" 0 "[]"] tree_okD(4)
  by (simp add: DocToString_def doc_text_def)

end
