(* ===== verification/TreedocRemote.thy ===== *)
theory TreedocRemote
  imports TreedocInv
begin

text \<open>
  The operations a document receives (\<open>InsertNew\<close>, \<open>InsertRoot\<close>, \<open>Insert\<close>, \<open>Delete\<close>): when they
  return, that they keep the invariant of the store, and that the buffer operation they return is
  exactly the edit of the text.
\<close>

section \<open>Slices of atoms\<close>

lemma extend_loop_eq: "extend_loop atoms i = atoms @ replicate (Suc i - length atoms) zero_Atom"
proof (induction atoms i rule: extend_loop.induct)
  case (1 atoms i)
  show ?case
  proof (cases "i \<ge> length atoms")
    case True
    then have "Suc i - length atoms = Suc (Suc i - length (atoms @ [zero_Atom]))" by simp
    then show ?thesis
      using 1 [OF True] True by (subst extend_loop.simps) (simp del: length_append_singleton)
  qed (subst extend_loop.simps, simp)
qed

definition extended :: "Atom list \<Rightarrow> nat \<Rightarrow> Atom list" where
  "extended atoms i = atoms @ replicate (Suc i - length atoms) zero_Atom"

lemma extendAtomToSize_ok: "atoms \<noteq> [] \<Longrightarrow> extendAtomToSize atoms i = returns (extended atoms (unat i))"
  by (simp add: extendAtomToSize_def extend_loop_eq extended_def)

lemma extend_nil_wrap:
  "(i :: uint16) + 1 \<le> i + 5 \<and> unat i < unat (i + 1) \<longleftrightarrow> unat i < 65531"
proof -
  have lt: "unat i < 65536" using unsigned_less [of i] by simp
  have "(unat i + k) mod 65536 = (if unat i + k < 65536 then unat i + k else unat i + k - 65536)"
    if "k < 65536" for k
    using lt that by (simp add: mod_if)
  from this [of 1] this [of 5] lt show ?thesis
    unfolding word_le_nat_alt unat_word_ariths by (auto split: if_splits)
qed

lemma zero_Atom_simps [simp]:
  "aState zero_Atom = UNINITIALIZED" "aAtom zero_Atom = CHR 0x00" "aSize zero_Atom = 0"
  "aLeft zero_Atom = []"
  by (simp_all add: zero_Atom_def)

lemma cell_text_zero [simp]: "cell_text H zero_Atom = []"
  by (simp add: cell_text_def left_text_def own_text_def)

lemma cells_text_zeros [simp]: "cells_text H (replicate n zero_Atom) = []"
  by (induction n) auto

lemma extended_facts:
  "length (extended atoms i) = max (length atoms) (Suc i)"
  "j < length atoms \<Longrightarrow> extended atoms i ! j = atoms ! j"
  "length atoms \<le> j \<Longrightarrow> j < length (extended atoms i) \<Longrightarrow> extended atoms i ! j = zero_Atom"
  "cells_text H (extended atoms i) = cells_text H atoms"
  "sum_list (map aSize (extended atoms i)) = sum_list (map aSize atoms)"
  by (auto simp: extended_def nth_append sum_list_replicate)

section \<open>Replacing the atoms of a node\<close>

definition keeps_left :: "Atom list \<Rightarrow> Atom list \<Rightarrow> bool" where
  "keeps_left atoms atoms' \<longleftrightarrow> length atoms \<le> length atoms' \<and>
     (length atoms \<le> 65536 \<longrightarrow> length atoms' \<le> 65536) \<and>
     (\<forall>i<length atoms'. aLeft (atoms' ! i) = (if i < length atoms then aLeft (atoms ! i) else []))"

definition set_atoms :: "Document \<Rightarrow> addr \<Rightarrow> Atom list \<Rightarrow> Document" where
  "set_atoms doc a atoms = put_node doc a ((dHeap doc ! a)\<lparr>nAtoms := atoms\<rparr>)"

lemma set_atoms_fields [simp]:
  "dDoc (set_atoms doc a atoms) = dDoc doc" "dNodes (set_atoms doc a atoms) = dNodes doc"
  "dSize (set_atoms doc a atoms) = dSize doc"
  "length (dHeap (set_atoms doc a atoms)) = length (dHeap doc)"
  by (simp_all add: set_atoms_def put_node_def)

lemma set_atoms_nth:
  "x < length (dHeap doc) \<Longrightarrow> dHeap (set_atoms doc a atoms) ! x =
     (if x = a then (dHeap doc ! a)\<lparr>nAtoms := atoms\<rparr> else dHeap doc ! x)"
  by (simp add: set_atoms_def put_node_def nth_list_update)

lemma set_atoms_same_fields [simp]:
  assumes "x < length (dHeap doc)"
  shows "nParent (dHeap (set_atoms doc a atoms) ! x) = nParent (dHeap doc ! x)"
    "nParentN (dHeap (set_atoms doc a atoms) ! x) = nParentN (dHeap doc ! x)"
    "nNodeId (dHeap (set_atoms doc a atoms) ! x) = nNodeId (dHeap doc ! x)"
    "nSize (dHeap (set_atoms doc a atoms) ! x) = nSize (dHeap doc ! x)"
  using assms by (auto simp: set_atoms_nth)

lemma set_atoms_tree_ok:
  assumes "tree_ok doc" "a < length (dHeap doc)" "keeps_left (nAtoms (dHeap doc ! a)) atoms"
  shows "tree_ok (set_atoms doc a atoms)"
proof -
  let ?H = "dHeap doc" and ?H' = "dHeap (set_atoms doc a atoms)"
  have sorted: "id_sorted ?H' ds = id_sorted ?H ds" if "\<And>c. c \<in> set ds \<Longrightarrow> c < length ?H" for ds
    using that by (intro id_sorted_cong) simp
  have left: "aLeft (nAtoms (?H' ! x) ! i) =
      (if i < length (nAtoms (?H ! x)) then aLeft (nAtoms (?H ! x) ! i) else [])"
    if "x < length ?H" "i < length (nAtoms (?H' ! x))" for x i
    using that assms(3) by (auto simp: set_atoms_nth keeps_left_def)
  have longer: "length (nAtoms (?H ! x)) \<le> length (nAtoms (?H' ! x))" if "x < length ?H" for x
    using that assms(3) by (auto simp: set_atoms_nth keeps_left_def)
  have node: "node_ok ?H' x" if x: "x < length ?H" for x
    unfolding node_ok_def Let_def
  proof (intro conjI allI impI)
    show "nAtoms (?H' ! x) \<noteq> []" "length (nAtoms (?H' ! x)) \<le> 65536"
      using longer [OF x] tree_okD(1) [OF assms(1) x] assms(3) x
      by (auto simp: node_ok_def keeps_left_def set_atoms_nth)
    fix i assume i: "i < length (nAtoms (?H' ! x))"
    show "id_sorted ?H' (aLeft (nAtoms (?H' ! x) ! i))"
    proof (cases "i < length (nAtoms (?H ! x))")
      case True
      then have "id_sorted ?H (aLeft (nAtoms (?H ! x) ! i))"
        using tree_okD(1) [OF assms(1) x] by (auto simp: node_ok_def Let_def)
      then show ?thesis
        using sorted tree_ok_child_nth(2) [OF assms(1) x True] by (simp add: left [OF x i] True)
    qed (simp add: left [OF x i] id_sorted_def)
    show "\<forall>c\<in>set (aLeft (nAtoms (?H' ! x) ! i)). child_ok ?H' x i c"
      using tree_ok_child_nth [OF assms(1) x] by (auto simp: left [OF x i] child_ok_def)
  qed
  have "listed_ok ?H' (dDoc doc) x" if x: "x < length ?H" for x
  proof (cases "nParent (?H ! x)")
    case (Some p)
    note up = tree_ok_parent [OF assms(1) x Some]
    have p: "p < length ?H" using up(1) x by simp
    with up longer [OF p] left [OF p, of "unat (nParentN (?H ! x))"] show ?thesis
      using Some x by (auto simp: listed_ok_def)
  qed (use tree_okD(2) [OF assms(1) x] x in \<open>simp add: listed_ok_def\<close>)
  with node show ?thesis
    using tree_okD(3-5) [OF assms(1)] sorted [of "dDoc doc"] by (auto simp: tree_ok_def Let_def)
qed

lemma set_atoms_agree:
  "a < length (dHeap doc) \<Longrightarrow> agree_except a (dHeap doc) (dHeap (set_atoms doc a atoms))"
  by (simp add: agree_except_def set_atoms_nth)

lemma set_atoms_ctx:
  "tree_ok doc \<Longrightarrow> a < length (dHeap doc) \<Longrightarrow>
    doc_ctx (dHeap (set_atoms doc a atoms)) (dDoc doc) a = doc_ctx (dHeap doc) (dDoc doc) a"
  by (rule doc_ctx_agree [OF _ set_atoms_agree]) auto

lemma set_atoms_cells:
  assumes "tree_ok doc" "a < length (dHeap doc)" "keeps_left (nAtoms (dHeap doc ! a)) atoms"
    "set atoms' \<subseteq> set atoms"
  shows "cells_text (dHeap (set_atoms doc a atoms)) atoms' = cells_text (dHeap doc) atoms'"
proof (rule cells_text_agree)
  show "list_all2 same_atom atoms' atoms'" by (simp add: list_all2_refl same_atom_def)
  fix atom c assume "atom \<in> set atoms'" and c: "c \<in> set (aLeft atom)"
  then obtain i where "i < length atoms" "atom = atoms ! i"
    using assms(4) by (metis in_set_conv_nth subsetD)
  then have "i < length (nAtoms (dHeap doc ! a))" "c \<in> set (aLeft (nAtoms (dHeap doc ! a) ! i))"
    using assms(3) c by (auto simp: keeps_left_def split: if_splits)
  from tree_ok_child_nth [OF assms(1,2) this]
  show "node_text (dHeap (set_atoms doc a atoms)) c = node_text (dHeap doc) c"
    using node_text_agree [OF assms(1) set_atoms_agree [OF assms(2)], of c atoms]
      chain_le [of c "dHeap doc" a] by auto
qed

lemma set_atoms_text:
  assumes "tree_ok doc" "a < length (dHeap doc)" "keeps_left (nAtoms (dHeap doc ! a)) atoms"
  shows "doc_text (set_atoms doc a atoms) = fst (doc_ctx (dHeap doc) (dDoc doc) a) @
    cells_text (dHeap doc) atoms @ snd (doc_ctx (dHeap doc) (dDoc doc) a)"
  using doc_ctx_text [OF set_atoms_tree_ok [OF assms], of a]
    node_text_eq [OF set_atoms_tree_ok [OF assms], of a] assms(2)
  by (simp add: set_atoms_ctx [OF assms(1,2)] set_atoms_nth set_atoms_cells [OF assms])

lemma set_atoms_sizes_ok:
  assumes "tree_ok doc" "sizes_ok doc (\<lambda>_. 0)" "a < length (dHeap doc)"
    "\<And>atom. atom \<in> set atoms \<Longrightarrow> atom_size_ok (dHeap doc) atom"
    "keeps_left (nAtoms (dHeap doc ! a)) atoms"
    "sum_list (map aSize atoms) = nSize (dHeap doc ! a) + delta"
  shows "sizes_ok (set_atoms doc a atoms) ((\<lambda>_. 0)(a := delta))"
proof -
  let ?H = "dHeap doc" and ?H' = "dHeap (set_atoms doc a atoms)"
  have same: "nodes_size ?H' ds = nodes_size ?H ds" if "\<And>c. c \<in> set ds \<Longrightarrow> c < length ?H" for ds
    using that by (auto simp: nodes_size_def intro!: arg_cong [where f = sum_list])
  have "nodes_size ?H' (aLeft atom) = nodes_size ?H (aLeft atom)"
    if "x < length ?H" "atom \<in> set (nAtoms (?H' ! x))" for x atom
    using tree_ok_child(2) [OF set_atoms_tree_ok [OF assms(1,3,5)]] that by (intro same) auto
  then have "atom_size_ok ?H' atom" if "x < length ?H" "atom \<in> set (nAtoms (?H' ! x))" for x atom
    using that assms(2,4) by (auto simp: set_atoms_nth atom_size_ok_def sizes_ok_def Let_def split: if_splits)
  moreover have "nodes_size ?H' (dDoc doc) = nodes_size ?H (dDoc doc)"
    using tree_okD(4) [OF assms(1)] by (intro same) auto
  ultimately show ?thesis
    using assms(2,6) by (auto simp: sizes_ok_def Let_def set_atoms_nth)
qed

section \<open>The end of every insertion\<close>

lemma same_tree_ctx:
  assumes "same_tree doc doc'" "tree_ok doc" "a < length (dHeap doc)"
  shows "doc_ctx (dHeap doc') (dDoc doc') a = doc_ctx (dHeap doc) (dDoc doc) a"
  using doc_ctx_agree [OF assms(2), of a "dHeap doc'" a] same_tree_fields [OF assms(1)]
    same_node_fields(1,2) [OF same_tree_fields(4) [OF assms(1,3)]] assms(3)
  by (simp add: agree_except_def)

lemma same_tree_cells:
  assumes "same_tree doc doc'" "tree_ok doc" "a < length (dHeap doc)"
  shows "cells_text (dHeap doc') (take n (nAtoms (dHeap doc' ! a))) =
    cells_text (dHeap doc) (take n (nAtoms (dHeap doc ! a)))"
proof (rule cells_text_agree)
  show "list_all2 same_atom (take n (nAtoms (dHeap doc ! a))) (take n (nAtoms (dHeap doc' ! a)))"
    using same_tree_fields(4) [OF assms(1,3)] by (intro list_all2_takeI) (simp add: same_node_def)
  fix atom c assume "atom \<in> set (take n (nAtoms (dHeap doc ! a)))" "c \<in> set (aLeft atom)"
  then have "c < length (dHeap doc)"
    using tree_ok_child(2) [OF assms(2,3)] in_set_takeD by fast
  then show "node_text (dHeap doc') c = node_text (dHeap doc) c"
    by (rule same_tree_text(1) [OF assms(1,2)])
qed

text \<open>
  A cell beyond the end of the slice is an uninitialized one; \<open>offset_of\<close> is the position in the
  text of the byte a cell has or would have.
\<close>

definition cell_of :: "Document \<Rightarrow> addr \<Rightarrow> nat \<Rightarrow> Atom" where
  "cell_of doc a n = extended (nAtoms (dHeap doc ! a)) n ! n"

definition offset_of :: "Document \<Rightarrow> addr \<Rightarrow> nat \<Rightarrow> nat" where
  "offset_of doc a n = length (fst (doc_ctx (dHeap doc) (dDoc doc) a) @
     cells_text (dHeap doc) (take n (extended (nAtoms (dHeap doc ! a)) n)) @
     left_text (dHeap doc) (cell_of doc a n))"

lemma extended_id [simp]: "n < length atoms \<Longrightarrow> extended atoms n = atoms"
  by (simp add: extended_def)

lemma calcPos_offset:
  assumes "doc_ok doc" "a < length (dHeap doc)" "n < length (nAtoms (dHeap doc ! a))"
    "aState (nAtoms (dHeap doc ! a) ! n) = ALIVE"
  shows "calcPos doc a n = returns (int (offset_of doc a n))"
  using calcPos_ok [OF assms(1-3)] assms(3,4)
  by (simp add: offset_of_def cell_of_def cell_text_def own_text_def)

lemma same_tree_offset:
  assumes "same_tree doc doc'" "tree_ok doc" "a < length (dHeap doc)"
    "n < length (nAtoms (dHeap doc ! a))"
  shows "offset_of doc' a n = offset_of doc a n"
proof -
  have len: "n < length (nAtoms (dHeap doc' ! a))"
    and left: "aLeft (nAtoms (dHeap doc' ! a) ! n) = aLeft (nAtoms (dHeap doc ! a) ! n)"
    using same_node_fields [OF same_tree_fields(4) [OF assms(1,3)]] assms(4) by auto
  have "left_text (dHeap doc') (nAtoms (dHeap doc' ! a) ! n) =
      left_text (dHeap doc) (nAtoms (dHeap doc ! a) ! n)"
    unfolding left_text_def left
    using same_tree_text(1) [OF assms(1,2)] tree_ok_child_nth(2) [OF assms(2-4)]
    by (intro arg_cong [where f = concat] map_cong) auto
  then show ?thesis
    using len assms(4)
    by (simp add: offset_of_def cell_of_def same_tree_ctx [OF assms(1-3)] same_tree_cells [OF assms(1-3)])
qed

lemma remote_insert_ok:
  assumes "tree_ok doc" "sizes_ok doc ((\<lambda>_. 0)(a := 1))" "a < length (dHeap doc)"
    "unat (oN op) < length (nAtoms (dHeap doc ! a))"
    "aState (nAtoms (dHeap doc ! a) ! unat (oN op)) = ALIVE"
  shows "\<exists>doc'. remote_insert doc a op = returns (doc', \<lparr>bo_Type = BUF_REMOTE_INSERT,
      bo_Pos = int (offset_of doc a (unat (oN op))), bo_Atom = oAtom op\<rparr>) \<and>
    same_tree doc doc' \<and> doc_ok doc'"
proof -
  obtain doc' where doc': "updateSize doc a 1 = returns doc'" "same_tree doc doc'" "doc_ok doc'"
    using updateSize_ok [OF assms(1-3)] by blast
  note F = same_tree_fields [OF doc'(2)]
  have "list_all2 same_atom (nAtoms (dHeap doc ! a)) (nAtoms (dHeap doc' ! a))"
    using F(4) [OF assms(3)] by (simp add: same_node_def)
  from list_all2_nthD [OF this assms(4)] list_all2_lengthD [OF this]
  have "calcPos doc' a (unat (oN op)) = returns (int (offset_of doc' a (unat (oN op))))"
    using assms(3-5) F(3) by (intro calcPos_offset doc'(3)) (auto simp: same_atom_def)
  with doc' same_tree_offset [OF doc'(2) assms(1,3,4)] show ?thesis
    by (simp add: remote_insert_def)
qed

lemma insert_at_split: "t = u @ v \<Longrightarrow> insert_at (length u) c t = u @ c # v"
  by (simp add: insert_at_def)

lemma delete_at_split: "t = u @ c # v \<Longrightarrow> delete_at (length u) t = u @ v"
  by (simp add: delete_at_def)

section \<open>Setting one cell\<close>

definition set_cell :: "Document \<Rightarrow> addr \<Rightarrow> nat \<Rightarrow> Atom \<Rightarrow> Document" where
  "set_cell doc a n atom = set_atoms doc a ((extended (nAtoms (dHeap doc ! a)) n)[n := atom])"

lemma keeps_left_set:
  "aLeft atom = aLeft (extended atoms n ! n) \<Longrightarrow> n < 65536 \<Longrightarrow> keeps_left atoms ((extended atoms n)[n := atom])"
  by (auto simp: keeps_left_def extended_facts nth_list_update)

lemma keeps_left_extended: "n < 65536 \<Longrightarrow> keeps_left atoms (extended atoms n)"
  by (auto simp: keeps_left_def extended_facts)

lemma cell_of_size_ok:
  assumes "doc_ok doc" "a < length (dHeap doc)" "atom \<in> set (extended (nAtoms (dHeap doc ! a)) n)"
  shows "atom_size_ok (dHeap doc) atom"
proof -
  have "atom \<in> set (nAtoms (dHeap doc ! a)) \<or> atom = zero_Atom"
    using assms(3) by (auto simp: extended_def split: if_splits)
  then show ?thesis
    using assms(1,2) by (auto simp: doc_ok_def sizes_ok_def Let_def)
      (simp add: atom_size_ok_def own_text_def)
qed

lemma set_cell_facts:
  assumes "doc_ok doc" "a < length (dHeap doc)" "aLeft atom = aLeft (cell_of doc a n)"
    "aSize atom = aSize (cell_of doc a n) + delta"
    "int (length (own_text atom)) = int (length (own_text (cell_of doc a n))) + delta" "n < 65536"
  shows "tree_ok (set_cell doc a n atom)"
    and "sizes_ok (set_cell doc a n atom) ((\<lambda>_. 0)(a := delta))"
    and "n < length (nAtoms (dHeap (set_cell doc a n atom) ! a))"
    and "nAtoms (dHeap (set_cell doc a n atom) ! a) ! n = atom"
    and "\<exists>u v. doc_text doc = u @ own_text (cell_of doc a n) @ v \<and>
      doc_text (set_cell doc a n atom) = u @ own_text atom @ v \<and>
      length u = offset_of doc a n"
    and "offset_of (set_cell doc a n atom) a n = offset_of doc a n"
proof -
  let ?E = "extended (nAtoms (dHeap doc ! a)) n"
  have tree: "tree_ok doc" and sizes: "sizes_ok doc (\<lambda>_. 0)" using assms(1) by (auto simp: doc_ok_def)
  have n: "n < length ?E" by (simp add: extended_facts)
  have keeps: "keeps_left (nAtoms (dHeap doc ! a)) (?E[n := atom])"
    using assms(3,6) by (intro keeps_left_set) (simp_all add: cell_of_def)
  show "tree_ok (set_cell doc a n atom)"
    unfolding set_cell_def by (rule set_atoms_tree_ok [OF tree assms(2) keeps])
  show "sizes_ok (set_cell doc a n atom) ((\<lambda>_. 0)(a := delta))"
    unfolding set_cell_def
  proof (rule set_atoms_sizes_ok [OF tree sizes assms(2) _ keeps])
    fix x assume "x \<in> set (?E[n := atom])"
    then have "x = atom \<or> x \<in> set ?E" using set_update_subset_insert by fastforce
    then show "atom_size_ok (dHeap doc) x"
      using cell_of_size_ok [OF assms(1,2)] cell_of_size_ok [OF assms(1,2) nth_mem [OF n]] assms(3-5)
      by (auto simp: atom_size_ok_def cell_of_def)
  next
    have "nSize (dHeap doc ! a) = sum_list (map aSize (nAtoms (dHeap doc ! a)))"
      using sizes assms(2) by (simp add: sizes_ok_def Let_def)
    then show "sum_list (map aSize (?E[n := atom])) = nSize (dHeap doc ! a) + delta"
      using assms(4) by (simp add: atoms_size_update n extended_facts cell_of_def)
  qed
  show "n < length (nAtoms (dHeap (set_cell doc a n atom) ! a))"
    and "nAtoms (dHeap (set_cell doc a n atom) ! a) ! n = atom"
    using n assms(2) by (simp_all add: set_cell_def set_atoms_nth)
  show "\<exists>u v. doc_text doc = u @ own_text (cell_of doc a n) @ v \<and>
      doc_text (set_cell doc a n atom) = u @ own_text atom @ v \<and>
      length u = offset_of doc a n"
    and "offset_of (set_cell doc a n atom) a n = offset_of doc a n"
  proof -
    let ?H = "dHeap doc" and ?H' = "dHeap (set_cell doc a n atom)"
    let ?ctx = "doc_ctx ?H (dDoc doc) a"
    let ?u = "fst ?ctx @ cells_text ?H (take n ?E) @ left_text ?H (?E ! n)"
    let ?v = "cells_text ?H (drop (Suc n) ?E) @ snd ?ctx"
    have "cells_text ?H (nAtoms (?H ! a)) = cells_text ?H (take n ?E @ ?E ! n # drop (Suc n) ?E)"
      by (subst take_nth_drop [OF n, symmetric]) (simp add: extended_facts(4))
    then have "doc_text doc = ?u @ own_text (cell_of doc a n) @ ?v"
      using doc_ctx_text [OF tree assms(2)] node_text_eq [OF tree assms(2)]
      by (simp add: cell_text_def cell_of_def)
    moreover have same_left: "left_text ?H atom = left_text ?H (?E ! n)"
      using assms(3) by (simp add: left_text_def cell_of_def)
    moreover have "doc_text (set_cell doc a n atom) = ?u @ own_text atom @ ?v"
      using set_atoms_text [OF tree assms(2) keeps] same_left
      by (simp add: set_cell_def upd_conv_take_nth_drop n cell_text_def)
    ultimately show "\<exists>u v. doc_text doc = u @ own_text (cell_of doc a n) @ v \<and>
        doc_text (set_cell doc a n atom) = u @ own_text atom @ v \<and> length u = offset_of doc a n"
      by (intro exI [of _ ?u] exI [of _ ?v]) (simp add: offset_of_def cell_of_def)
    have "cells_text ?H' (take n ?E) = cells_text ?H (take n ?E)"
      unfolding set_cell_def
      by (rule set_atoms_cells [OF tree assms(2) keeps])
        (metis take_update_cancel order_refl set_take_subset)
    moreover have "cells_text ?H' [atom] = cells_text ?H [atom]"
      unfolding set_cell_def
      by (rule set_atoms_cells [OF tree assms(2) keeps]) (simp add: n set_update_memI)
    ultimately show "offset_of (set_cell doc a n atom) a n = offset_of doc a n"
      using same_left set_atoms_ctx [OF tree assms(2), of "?E[n := atom]"] n assms(2)
      by (simp add: offset_of_def cell_of_def set_cell_def set_atoms_nth cell_text_def)
  qed
qed

section \<open>Insert and Delete\<close>

definition edit_ok :: "Document \<Rightarrow> Document \<Rightarrow> BufferOperation \<Rightarrow> bool" where
  "edit_ok doc doc' b \<longleftrightarrow> doc_ok doc' \<and> edit_in_range b (doc_text doc) \<and>
     doc_text doc' = edit_text b (doc_text doc)"

lemma unat16: "unat (w :: uint16) < 65536"
  using unsigned_less [of w] by simp

lemma unat16_of_nat: "n < 65536 \<Longrightarrow> unat (word_of_nat n :: uint16) = n"
  by (simp add: unsigned_of_nat take_bit_nat_eq_self)

lemma named_node:
  assumes "tree_ok doc" "dNodes doc nid = Some a"
  shows "a < length (dHeap doc)" "nNodeId (dHeap doc ! a) = nid" "nAtoms (dHeap doc ! a) \<noteq> []"
  using tree_okD(5) [OF assms(1)] tree_okD(1) [OF assms(1)] assms(2) by (auto simp: node_ok_def)

lemma edit_ok_insert:
  assumes "same_tree doc1 doc'" "tree_ok doc1" "doc_ok doc'"
    "doc_text doc = u @ v" "doc_text doc1 = u @ [c] @ v" "length u = p"
  shows "edit_ok doc doc' \<lparr>bo_Type = BUF_REMOTE_INSERT, bo_Pos = int p, bo_Atom = c\<rparr>"
  using same_tree_text(2) [OF assms(1,2)] insert_at_split [OF assms(4), of c] assms(3-6)
  by (auto simp: edit_ok_def edit_in_range_def edit_text_def)

lemma cell_index:
  "n < length (extended atoms n)"
  "guard_else (n < length (extended atoms n)) p m = m"
  by (auto simp: extended_facts guard_else_def)

lemma extended_index: "index_or_panic (extended atoms n) n = returns (extended atoms n ! n)"
  by (simp add: index_or_panic_def cell_index(2))

definition alive_cell :: "Document \<Rightarrow> addr \<Rightarrow> nat \<Rightarrow> byte \<Rightarrow> Atom" where
  "alive_cell doc a n c = \<lparr>aState = ALIVE, aAtom = c, aSize = aSize (cell_of doc a n) + 1,
     aLeft = aLeft (cell_of doc a n)\<rparr>"

definition dead_cell :: "Document \<Rightarrow> addr \<Rightarrow> nat \<Rightarrow> Atom" where
  "dead_cell doc a n = \<lparr>aState = DEAD, aAtom = aAtom (cell_of doc a n),
     aSize = aSize (cell_of doc a n) - 1, aLeft = aLeft (cell_of doc a n)\<rparr>"

lemma Insert_ok:
  assumes "doc_ok doc" "dNodes doc (oId op) = Some a" "n = unat (oN op)"
    "aState (cell_of doc a n) = UNINITIALIZED"
  shows "\<exists>doc' b. Insert doc op = returns (doc', b) \<and> edit_ok doc doc' b \<and>
    b = \<lparr>bo_Type = BUF_REMOTE_INSERT, bo_Pos = int (offset_of doc a n), bo_Atom = oAtom op\<rparr> \<and>
    same_tree (set_cell doc a n (alive_cell doc a n (oAtom op))) doc'"
proof -
  let ?atom = "alive_cell doc a n (oAtom op)"
  let ?doc = "set_cell doc a n ?atom"
  have "tree_ok doc" using assms(1) by (simp add: doc_ok_def)
  note node = named_node [OF this assms(2)]
  have "aLeft ?atom = aLeft (cell_of doc a n)" "aSize ?atom = aSize (cell_of doc a n) + 1"
    "int (length (own_text ?atom)) = int (length (own_text (cell_of doc a n))) + 1"
    using assms(4) by (auto simp: alive_cell_def own_text_def)
  note cell = set_cell_facts [OF assms(1) node(1) this unat16 [of "oN op", folded assms(3)]]
  have "aState (nAtoms (dHeap ?doc ! a) ! n) = ALIVE" using cell(4) by (simp add: alive_cell_def)
  with remote_insert_ok [OF cell(1,2)] cell(3) node(1) assms(3)
  obtain doc' where doc': "remote_insert ?doc a op = returns (doc', \<lparr>bo_Type = BUF_REMOTE_INSERT,
      bo_Pos = int (offset_of ?doc a n), bo_Atom = oAtom op\<rparr>)" "same_tree ?doc doc'" "doc_ok doc'"
    by (auto simp: set_cell_def)
  have "Insert doc op = remote_insert ?doc a op"
    using assms(2-4) node(3)
    by (simp add: Insert_def node_at_def extendAtomToSize_ok extended_index
        cell_of_def alive_cell_def set_cell_def set_atoms_def Let_def)
  moreover obtain u v where "doc_text doc = u @ v" "doc_text ?doc = u @ [oAtom op] @ v"
    "length u = offset_of ?doc a n"
    using cell(5,6) assms(4) by (auto simp: own_text_def alive_cell_def)
  ultimately show ?thesis using doc' edit_ok_insert [OF doc'(2) cell(1) doc'(3)] cell(6) by metis
qed

lemma Insert_panics:
  assumes "doc_ok doc" "dNodes doc (oId op) = Some a"
    "aState (cell_of doc a (unat (oN op))) \<noteq> UNINITIALIZED"
  shows "\<exists>msg. Insert doc op = panics (ExplicitPanic msg)"
proof -
  have tree: "tree_ok doc" using assms(1) by (simp add: doc_ok_def)
  note node = named_node [OF tree assms(2)]
  let ?E = "extended (nAtoms (dHeap doc ! a)) (unat (oN op))"
  have "tree_ok (set_atoms doc a ?E)"
    by (intro set_atoms_tree_ok tree node(1) keeps_left_extended unat16)
  then show ?thesis
    using assms(2,3) node(3)
    by (simp add: Insert_def node_at_def extendAtomToSize_ok extended_index
        cell_of_def set_atoms_def panic_with_text_def DocToString_ok)
qed

text \<open>A cell that is dead already makes \<open>Delete\<close> a no-op, apart from the slice it extends.\<close>

lemma same_tree_refl [simp]: "same_tree doc doc"
  by (simp add: same_tree_def list_all2_refl)

lemma set_cell_same: "set_cell doc a n (cell_of doc a n) = set_atoms doc a (extended (nAtoms (dHeap doc ! a)) n)"
  by (simp add: set_cell_def cell_of_def)

lemma set_cell_again:
  assumes "a < length (dHeap doc)"
  shows "cell_of (set_cell doc a n atom) a n = atom"
    and "set_cell (set_cell doc a n atom) a n atom' = set_cell doc a n atom'"
proof -
  have "extended ((extended atoms n)[n := atom]) n = (extended atoms n)[n := atom]" for atoms
    by (simp add: extended_def)
  then show "cell_of (set_cell doc a n atom) a n = atom"
    and "set_cell (set_cell doc a n atom) a n atom' = set_cell doc a n atom'"
    using assms
    by (simp_all add: cell_of_def set_cell_def set_atoms_nth cell_index(1))
      (simp add: set_atoms_def put_node_def)
qed

lemma Delete_ok:
  assumes "doc_ok doc" "dNodes doc (oId op) = Some a" "n = unat (oN op)"
    "aState (cell_of doc a n) \<noteq> UNINITIALIZED"
  shows "\<exists>doc' b. Delete doc op = returns (doc', b) \<and> edit_ok doc doc' b \<and>
    (aState (cell_of doc a n) = ALIVE \<longrightarrow>
      b = \<lparr>bo_Type = BUF_DELETE, bo_Pos = int (offset_of doc a n), bo_Atom = CHR 0x00\<rparr>) \<and>
    same_tree (set_cell doc a n (if aState (cell_of doc a n) = ALIVE then dead_cell doc a n
      else cell_of doc a n)) doc'"
proof -
  have "tree_ok doc" using assms(1) by (simp add: doc_ok_def)
  note node = named_node [OF this assms(2)]
  let ?doc = "set_cell doc a n (cell_of doc a n)"
  have n: "n < 65536" using unat16 assms(3) by simp
  note same = set_cell_facts [OF assms(1) node(1) refl _ _ n, where delta = 0]
  have doc1: "doc_ok ?doc" using same(1,2) by (simp add: doc_ok_def fun_upd_def)
  have text1: "doc_text ?doc = doc_text doc" using same(5) by auto
  have cell1: "cell_of ?doc a n = cell_of doc a n" by (rule set_cell_again(1) [OF node(1)])
  have a1: "a < length (dHeap ?doc)" using node(1) by (simp add: set_cell_def)
  show ?thesis
  proof (cases "aState (cell_of doc a n) = ALIVE")
    case True
    let ?atom = "dead_cell doc a n"
    let ?dead = "set_cell ?doc a n ?atom"
    have "aLeft ?atom = aLeft (cell_of ?doc a n)" "aSize ?atom = aSize (cell_of ?doc a n) + - 1"
      "int (length (own_text ?atom)) = int (length (own_text (cell_of ?doc a n))) + - 1"
      using True by (auto simp: dead_cell_def own_text_def cell1)
    note dead = set_cell_facts [OF doc1 a1 this n]
    obtain doc' where doc': "updateSize ?dead a (- 1) = returns doc'" "same_tree ?dead doc'" "doc_ok doc'"
      using updateSize_ok [OF dead(1,2)] node(1) by (auto simp: set_cell_def)
    have pos: "calcPos ?doc a n = returns (int (offset_of ?doc a n))"
      using calcPos_offset [OF doc1 a1] same(3,4) True by simp
    obtain u v where uv: "doc_text doc = u @ [aAtom (cell_of doc a n)] @ v"
      "doc_text ?dead = u @ v" "length u = offset_of ?doc a n"
      using dead(5) True by (auto simp: text1 cell1 own_text_def dead_cell_def)
    have "Delete doc op = returns (doc', \<lparr>bo_Type = BUF_DELETE, bo_Pos = int (offset_of ?doc a n),
        bo_Atom = CHR 0x00\<rparr>)"
      using assms(2,3) node pos True doc'(1) [unfolded set_cell_again(2) [OF node(1)]]
      by (simp add: Delete_def node_at_def extendAtomToSize_ok extended_index set_cell_same
          cell_of_def dead_cell_def set_cell_def set_atoms_def put_node_def Let_def)
    moreover have "edit_ok doc doc' \<lparr>bo_Type = BUF_DELETE, bo_Pos = int (offset_of ?doc a n),
        bo_Atom = CHR 0x00\<rparr>"
      using uv delete_at_split [of "doc_text doc" u _ v] same_tree_text(2) [OF doc'(2) dead(1)] doc'(3)
      by (auto simp: edit_ok_def edit_in_range_def edit_text_def)
    ultimately show ?thesis
      using doc'(2) True same(6) by (auto simp: set_cell_again [OF node(1)])
  next
    case False
    then have "Delete doc op = returns (?doc, \<lparr>bo_Type = BUF_NO_OPERATION, bo_Pos = 0, bo_Atom = CHR 0x00\<rparr>)"
      using assms(2-4) node
      by (simp add: Delete_def node_at_def extendAtomToSize_ok extended_index
          set_cell_def cell_of_def set_atoms_def Let_def)
    then show ?thesis
      using False doc1 text1 by (auto simp: edit_ok_def edit_in_range_def edit_text_def)
  qed
qed

lemma Delete_panics:
  assumes "doc_ok doc" "dNodes doc (oId op) = Some a"
    "aState (cell_of doc a (unat (oN op))) = UNINITIALIZED"
  shows "\<exists>msg. Delete doc op = panics (ExplicitPanic msg)"
proof -
  have tree: "tree_ok doc" using assms(1) by (simp add: doc_ok_def)
  note node = named_node [OF tree assms(2)]
  have "tree_ok (set_atoms doc a (extended (nAtoms (dHeap doc ! a)) (unat (oN op))))"
    by (intro set_atoms_tree_ok tree node(1) keeps_left_extended unat16)
  then show ?thesis
    using assms(2,3) node(3)
    by (simp add: Delete_def node_at_def extendAtomToSize_ok extended_index Let_def
        cell_of_def set_atoms_def panic_with_text_def DocToString_ok)
qed

section \<open>New nodes\<close>

lemma disambiguator_pos_ok:
  assumes "i \<le> length ds" "id_sorted H ds"
  shows "disambiguator_pos H nid ds i \<le> i"
    and "\<And>j. j < disambiguator_pos H nid ds i \<Longrightarrow> nNodeId (H ! (ds ! j)) < nid"
    and "\<And>j. disambiguator_pos H nid ds i \<le> j \<Longrightarrow> j < i \<Longrightarrow> nid \<le> nNodeId (H ! (ds ! j))"
  using assms
proof (induction i)
  case (Suc i)
  { case 1 then show ?case using Suc by simp }
  { case (2 j)
    then show ?case
      using Suc sorted_wrt_nth_less [of _ ds j i]
      by (cases "j = i") (force simp: bytes_Compare_pos id_sorted_def split: if_splits)+ }
  { case (3 j)
    then show ?case using Suc by (cases "j = i") (auto simp: bytes_Compare_pos split: if_splits) }
qed auto

lemma insert_sorted_ok:
  assumes "id_sorted H ds" "\<And>c. c \<in> set ds \<Longrightarrow> nNodeId (H ! c) \<noteq> nNodeId (H ! node)"
  obtains k where "k \<le> length ds"
    "insertNodeIntoDisambiguatorsSorted H ds node = insert_at k node ds"
    "id_sorted H (insert_at k node ds)"
proof
  let ?k = "disambiguator_pos H (nNodeId (H ! node)) ds (length ds)"
  note pos = disambiguator_pos_ok [OF order_refl assms(1), where nid = "nNodeId (H ! node)"]
  show "?k \<le> length ds" by (rule pos(1))
  show "insertNodeIntoDisambiguatorsSorted H ds node = insert_at ?k node ds"
    by (simp add: insertNodeIntoDisambiguatorsSorted_def insert_at_def)
  have "nNodeId (H ! x) < nNodeId (H ! node)" if "x \<in> set (take ?k ds)" for x
    using in_set_take_nth [OF that] pos(2) by auto
  moreover have "nNodeId (H ! node) < nNodeId (H ! x)" if "x \<in> set (drop ?k ds)" for x
    using in_set_drop_nth [OF that] pos(3) assms(2) in_set_dropD [OF that]
    by (metis order_le_imp_less_or_eq)
  moreover have "sorted_wrt (\<lambda>x y. nNodeId (H ! x) < nNodeId (H ! y)) (take ?k ds @ drop ?k ds)"
    using assms(1) by (simp add: id_sorted_def)
  ultimately show "id_sorted H (insert_at ?k node ds)"
    unfolding insert_at_def id_sorted_def sorted_wrt_append by fastforce
qed

lemma insert_new_sorted:
  assumes "id_sorted H ds" "\<And>c. c \<in> set ds \<Longrightarrow> c < length H \<and> nNodeId (H ! c) \<noteq> nNodeId nd"
  obtains k where "k \<le> length ds"
    "insertNodeIntoDisambiguatorsSorted (H @ [nd]) ds (length H) = insert_at k (length H) ds"
    "id_sorted (H @ [nd]) (insert_at k (length H) ds)"
proof (rule insert_sorted_ok)
  show "id_sorted (H @ [nd]) ds"
    using assms by (subst id_sorted_cong [of ds _ H]) (auto simp: nth_append)
  show "nNodeId ((H @ [nd]) ! c) \<noteq> nNodeId ((H @ [nd]) ! length H)" if "c \<in> set ds" for c
    using assms(2) [OF that] by (simp add: nth_append)
qed

lemma set_insert_at [simp]: "set (insert_at k x xs) = insert x (set xs)"
  by (metis append_take_drop_id insert_at_def list.simps(15) set_append Un_insert_right)

lemma insert_at_around:
  assumes "x \<notin> set xs" "k \<le> length xs"
  shows "earlier x (insert_at k x xs) = take k xs" "later x (insert_at k x xs) = drop k xs"
proof -
  have "\<forall>y\<in>set (take k xs). y \<noteq> x" using assms(1) in_set_takeD by metis
  then show "earlier x (insert_at k x xs) = take k xs" "later x (insert_at k x xs) = drop k xs"
    by (auto simp: earlier_def later_def insert_at_def takeWhile_append dropWhile_append)
qed

definition new_atoms :: "nat \<Rightarrow> byte \<Rightarrow> Atom list" where
  "new_atoms n c = replicate n zero_Atom @ [\<lparr>aState = ALIVE, aAtom = c, aSize = 1, aLeft = []\<rparr>]"

lemma new_atoms_facts [simp]:
  "length (new_atoms n c) = Suc n" "cells_text H (new_atoms n c) = [c]"
  "sum_list (map aSize (new_atoms n c)) = 1"
  "new_atoms n c ! n = \<lparr>aState = ALIVE, aAtom = c, aSize = 1, aLeft = []\<rparr>"
  "new_atoms n c \<noteq> []" "take n (new_atoms n c) = replicate n zero_Atom"
  by (auto simp: new_atoms_def cell_text_def left_text_def own_text_def sum_list_replicate nth_append)

lemma new_atoms_left: "i < length (new_atoms n c) \<Longrightarrow> aLeft (new_atoms n c ! i) = []"
  by (auto simp: new_atoms_def nth_append less_Suc_eq)

lemma extend_nil_ok:
  assumes "unat i < 65531"
  shows "extendAtomToSize [] i = returns (replicate (Suc (unat i)) zero_Atom)"
    and "(replicate (Suc (unat i)) zero_Atom)[unat i := atom] = replicate (unat i) zero_Atom @ [atom]"
proof -
  have "i + 1 \<le> i + 5" "unat i < unat (i + 1)" using extend_nil_wrap assms by blast+
  moreover have "unat (i + 1) \<le> Suc (unat i)" by (simp add: unat_word_ariths)
  ultimately have "i + 1 \<le> i + 5" "unat (i + 1) = Suc (unat i)" by auto
  then show "extendAtomToSize [] i = returns (replicate (Suc (unat i)) zero_Atom)"
    by (simp add: extendAtomToSize_def guard_else_def)
  show "(replicate (Suc (unat i)) zero_Atom)[unat i := atom] = replicate (unat i) zero_Atom @ [atom]"
    by (simp add: replicate_append_same [symmetric] list_update_append)
qed

lemma extend_nil_panics:
  assumes "\<not> unat i < 65531"
  shows "(\<exists>p. extendAtomToSize [] i = panics p) \<or> (\<exists>atoms. extendAtomToSize [] i = returns atoms \<and> length atoms \<le> unat i)"
  using extend_nil_wrap [of i] assms by (auto simp: extendAtomToSize_def guard_else_def)

text \<open>A store with one node more, whose old nodes read as before.\<close>

lemma append_node_text:
  assumes "tree_ok doc" "x < length (dHeap doc)"
  shows "node_text (dHeap doc @ [nd]) x = node_text (dHeap doc) x"
proof (rule node_text_agree [OF assms(1), of "length (dHeap doc)"])
  show "agree_except (length (dHeap doc)) (dHeap doc) (dHeap doc @ [nd])"
    by (simp add: agree_except_def nth_append)
  show "x \<notin> set (chain (dHeap doc) (length (dHeap doc)))"
    using assms(2) by (subst chain.simps) (simp split: option.split)
qed (rule assms(2))

definition new_node :: "addr option \<Rightarrow> uint16 \<Rightarrow> NodeId \<Rightarrow> nat \<Rightarrow> byte \<Rightarrow> DocNode" where
  "new_node p pn nid n c = \<lparr>nParent = p, nParentN = pn, nNodeId = nid, nSize = 0,
     nAtoms = new_atoms n c\<rparr>"

lemma new_node_fields [simp]:
  "nParent (new_node p pn nid n c) = p" "nParentN (new_node p pn nid n c) = pn"
  "nNodeId (new_node p pn nid n c) = nid" "nSize (new_node p pn nid n c) = 0"
  "nAtoms (new_node p pn nid n c) = new_atoms n c"
  by (simp_all add: new_node_def)

definition keeps_names :: "DocNode list \<Rightarrow> DocNode list \<Rightarrow> bool" where
  "keeps_names H H' \<longleftrightarrow> length H \<le> length H' \<and>
     (\<forall>x<length H. nParent (H' ! x) = nParent (H ! x) \<and> nParentN (H' ! x) = nParentN (H ! x) \<and>
        nNodeId (H' ! x) = nNodeId (H ! x) \<and> nSize (H' ! x) = nSize (H ! x))"

lemma keeps_names_siblings:
  assumes "keeps_names H H'" "\<And>c. c \<in> set ds \<Longrightarrow> c < length H"
  shows "id_sorted H' ds = id_sorted H ds" "nodes_size H' ds = nodes_size H ds"
  using assms by (auto simp: keeps_names_def nodes_size_def intro!: id_sorted_cong
      arg_cong [where f = sum_list])

lemma keeps_names_node_ok:
  assumes "keeps_names (dHeap doc) H'" "tree_ok doc" "x < length (dHeap doc)"
    "nAtoms (H' ! x) = nAtoms (dHeap doc ! x)"
  shows "node_ok H' x"
  unfolding node_ok_def Let_def assms(4)
proof (intro conjI allI impI)
  show "nAtoms (dHeap doc ! x) \<noteq> []" "length (nAtoms (dHeap doc ! x)) \<le> 65536"
    using tree_okD(1) [OF assms(2,3)] by (simp_all add: node_ok_def)
  fix i assume i: "i < length (nAtoms (dHeap doc ! x))"
  note kid = tree_ok_child_nth [OF assms(2,3) i]
  show "id_sorted H' (aLeft (nAtoms (dHeap doc ! x) ! i))"
    using keeps_names_siblings(1) [OF assms(1)] kid(2) tree_okD(1) [OF assms(2,3)] i
    by (simp add: node_ok_def Let_def)
  show "\<forall>c\<in>set (aLeft (nAtoms (dHeap doc ! x) ! i)). child_ok H' x i c"
    using kid assms(1) by (force simp: child_ok_def keeps_names_def)
qed

definition add_root :: "Document \<Rightarrow> NodeId \<Rightarrow> nat \<Rightarrow> byte \<Rightarrow> nat \<Rightarrow> Document" where
  "add_root doc nid n c k = doc\<lparr>dHeap := dHeap doc @ [new_node None 0 nid n c],
     dNodes := (dNodes doc)(nid \<mapsto> length (dHeap doc)),
     dDoc := insert_at k (length (dHeap doc)) (dDoc doc)\<rparr>"

lemma fresh_id:
  assumes "tree_ok doc" "dNodes doc nid = None"
  shows "x < length (dHeap doc) \<Longrightarrow> nNodeId (dHeap doc ! x) \<noteq> nid"
  using tree_okD(5) [OF assms(1)] assms(2) by (metis option.distinct(1))

lemma add_root_tree_ok:
  assumes "tree_ok doc" "dNodes doc nid = None" "k \<le> length (dDoc doc)"
    "id_sorted (dHeap doc @ [new_node None 0 nid n c]) (insert_at k (length (dHeap doc)) (dDoc doc))"
    "n < 65536"
  shows "tree_ok (add_root doc nid n c k)"
proof -
  let ?H = "dHeap doc" and ?H' = "dHeap doc @ [new_node None 0 nid n c]"
  have old: "?H' ! x = ?H ! x" if "x < length ?H" for x using that by (simp add: nth_append)
  have keeps: "keeps_names ?H ?H'" by (simp add: keeps_names_def old)
  have "node_ok ?H' x \<and> listed_ok ?H' (insert_at k (length ?H) (dDoc doc)) x" if "x < length ?H" for x
  proof
    show "node_ok ?H' x"
      by (rule keeps_names_node_ok [OF keeps assms(1) that]) (simp add: old that)
    show "listed_ok ?H' (insert_at k (length ?H) (dDoc doc)) x"
      using tree_okD(2) [OF assms(1) that] that
      by (auto simp: listed_ok_def old nth_append split: option.splits)
  qed
  moreover have "node_ok ?H' (length ?H)" "listed_ok ?H' (insert_at k (length ?H) (dDoc doc)) (length ?H)"
    using new_atoms_left assms(5) by (auto simp: node_ok_def listed_ok_def Let_def id_sorted_def)
  moreover have "((dNodes doc)(nid \<mapsto> length ?H)) m = Some a \<longleftrightarrow>
      a < Suc (length ?H) \<and> nNodeId (?H' ! a) = m" for m a
    using tree_okD(5) [OF assms(1), of m a] fresh_id [OF assms(1,2), of a]
    by (auto simp: nth_append less_Suc_eq)
  ultimately show ?thesis
    using assms(4) tree_okD(4) [OF assms(1)]
    by (auto simp: tree_ok_def add_root_def Let_def less_Suc_eq old)
qed

lemma add_root_facts:
  assumes "doc_ok doc" "dNodes doc nid = None" "k \<le> length (dDoc doc)"
    "id_sorted (dHeap doc @ [new_node None 0 nid n c]) (insert_at k (length (dHeap doc)) (dDoc doc))"
    "n < 65536"
  shows "sizes_ok (add_root doc nid n c k) ((\<lambda>_. 0)(length (dHeap doc) := 1))"
    and "\<exists>u v. doc_text doc = u @ v \<and> doc_text (add_root doc nid n c k) = u @ [c] @ v \<and>
      length u = offset_of (add_root doc nid n c k) (length (dHeap doc)) n"
proof -
  let ?H = "dHeap doc" and ?nd = "new_node None 0 nid n c" and ?doc = "add_root doc nid n c k"
  let ?l = "length ?H" and ?H' = "dHeap doc @ [?nd]"
  have tree: "tree_ok doc" and sizes: "sizes_ok doc (\<lambda>_. 0)" using assms(1) by (auto simp: doc_ok_def)
  note tree' = add_root_tree_ok [OF tree assms(2-5)]
  have roots: "r < ?l" if "r \<in> set (dDoc doc)" for r using tree_okD(4) [OF tree that] by simp
  have "keeps_names ?H ?H'" by (simp add: keeps_names_def nth_append)
  note same = keeps_names_siblings(2) [OF this]
  have "nodes_size ?H' (take k (dDoc doc)) = nodes_size ?H (take k (dDoc doc))"
    "nodes_size ?H' (drop k (dDoc doc)) = nodes_size ?H (drop k (dDoc doc))"
    by (auto intro!: same roots dest: in_set_takeD in_set_dropD)
  then have "nodes_size ?H' (insert_at k ?l (dDoc doc)) = nodes_size ?H (dDoc doc)"
    using nodes_size_simps(3) [of ?H "take k (dDoc doc)" "drop k (dDoc doc)"]
    by (simp add: insert_at_def)
  moreover have "atom_size_ok ?H' atom" if "x < ?l" "atom \<in> set (nAtoms (?H ! x))" for x atom
    using that sizes same [of "aLeft atom"] tree_ok_child(2) [OF tree that]
    by (auto simp: sizes_ok_def Let_def atom_size_ok_def)
  moreover have "atom_size_ok ?H' atom" if "atom \<in> set (new_atoms n c)" for atom
    using that by (auto simp: new_atoms_def atom_size_ok_def own_text_def)
  ultimately show "sizes_ok ?doc ((\<lambda>_. 0)(?l := 1))"
    using sizes by (auto simp: sizes_ok_def add_root_def Let_def nth_append less_Suc_eq)
  have texts: "map (node_text ?H') ds = map (node_text ?H) ds" if "set ds \<subseteq> set (dDoc doc)" for ds
    using that roots by (auto intro!: append_node_text [OF tree])
  have "?l \<notin> set (dDoc doc)" using roots by blast
  note around = insert_at_around [OF this assms(3)]
  let ?u = "concat (map (node_text ?H) (take k (dDoc doc)))"
  let ?v = "concat (map (node_text ?H) (drop k (dDoc doc)))"
  have ctx: "doc_ctx ?H' (insert_at k ?l (dDoc doc)) ?l = (?u, ?v)"
    by (subst doc_ctx.simps) (simp add: around texts set_take_subset set_drop_subset)
  have "node_text ?H' ?l = [c]"
    using node_text_eq [OF tree', of ?l] by (simp add: add_root_def)
  then have "doc_text ?doc = ?u @ [c] @ ?v"
    using doc_ctx_text [OF tree', of ?l] ctx by (simp add: add_root_def)
  moreover have "doc_text doc = ?u @ ?v"
    by (metis append_take_drop_id concat_append doc_text_def map_append)
  moreover have "length ?u = offset_of ?doc ?l n"
    using ctx by (simp add: offset_of_def cell_of_def add_root_def left_text_def)
  ultimately show "\<exists>u v. doc_text doc = u @ v \<and> doc_text ?doc = u @ [c] @ v \<and>
      length u = offset_of ?doc ?l n"
    by blast
qed

definition add_child ::
  "Document \<Rightarrow> addr \<Rightarrow> uint16 \<Rightarrow> NodeId \<Rightarrow> nat \<Rightarrow> byte \<Rightarrow> nat \<Rightarrow> Document" where
  "add_child doc p pn nid n c k =
     (let l = length (dHeap doc); atoms = nAtoms (dHeap doc ! p); atom = atoms ! unat pn;
          atom' = atom\<lparr>aLeft := insert_at k l (aLeft atom)\<rparr>
      in doc\<lparr>dNodes := (dNodes doc)(nid \<mapsto> l),
             dHeap := (dHeap doc @ [new_node (Some p) pn nid n c])
               [p := (dHeap doc ! p)\<lparr>nAtoms := atoms[unat pn := atom']\<rparr>]\<rparr>)"

lemma add_child_nth:
  assumes "p < length (dHeap doc)"
  shows "length (dHeap (add_child doc p pn nid n c k)) = Suc (length (dHeap doc))"
    "dHeap (add_child doc p pn nid n c k) ! length (dHeap doc) = new_node (Some p) pn nid n c"
    "x < length (dHeap doc) \<Longrightarrow> x \<noteq> p \<Longrightarrow> dHeap (add_child doc p pn nid n c k) ! x = dHeap doc ! x"
    "dHeap (add_child doc p pn nid n c k) ! p = (dHeap doc ! p)\<lparr>nAtoms := (nAtoms (dHeap doc ! p))
       [unat pn := (nAtoms (dHeap doc ! p) ! unat pn)\<lparr>aLeft :=
          insert_at k (length (dHeap doc)) (aLeft (nAtoms (dHeap doc ! p) ! unat pn))\<rparr>]\<rparr>"
  using assms by (auto simp: add_child_def Let_def nth_append nth_list_update)

lemma add_child_fields [simp]:
  "dDoc (add_child doc p pn nid n c k) = dDoc doc" "dSize (add_child doc p pn nid n c k) = dSize doc"
  "dNodes (add_child doc p pn nid n c k) = (dNodes doc)(nid \<mapsto> length (dHeap doc))"
  by (simp_all add: add_child_def Let_def)

lemma add_child_keeps_names:
  "p < length (dHeap doc) \<Longrightarrow> keeps_names (dHeap doc) (dHeap (add_child doc p pn nid n c k))"
  by (auto simp: keeps_names_def add_child_def Let_def nth_append nth_list_update)

lemma add_child_left:
  assumes "p < length (dHeap doc)" "unat pn < length (nAtoms (dHeap doc ! p))" "x < length (dHeap doc)"
    "i < length (nAtoms (dHeap doc ! x))"
  shows "aLeft (nAtoms (dHeap (add_child doc p pn nid n c k) ! x) ! i) =
    (if x = p \<and> i = unat pn then insert_at k (length (dHeap doc)) (aLeft (nAtoms (dHeap doc ! x) ! i))
     else aLeft (nAtoms (dHeap doc ! x) ! i))"
    and "length (nAtoms (dHeap (add_child doc p pn nid n c k) ! x)) = length (nAtoms (dHeap doc ! x))"
  using assms by (cases "x = p"; simp add: add_child_nth nth_list_update)+

lemma add_child_tree_ok:
  assumes "tree_ok doc" "dNodes doc nid = None" "p < length (dHeap doc)"
    "unat pn < length (nAtoms (dHeap doc ! p))"
    "id_sorted (dHeap (add_child doc p pn nid n c k))
       (insert_at k (length (dHeap doc)) (aLeft (nAtoms (dHeap doc ! p) ! unat pn)))"
    "n < 65536"
  shows "tree_ok (add_child doc p pn nid n c k)"
proof -
  let ?H = "dHeap doc" and ?H' = "dHeap (add_child doc p pn nid n c k)"
  let ?l = "length ?H"
  note keeps = add_child_keeps_names [OF assms(3), of pn nid n c k]
  note nth = add_child_nth [OF assms(3), where pn = pn and nid = nid and n = n and c = c and k = k]
  have node_p: "node_ok ?H' p"
    unfolding node_ok_def Let_def
  proof (intro conjI allI impI)
    show "nAtoms (?H' ! p) \<noteq> []" "length (nAtoms (?H' ! p)) \<le> 65536"
      using tree_okD(1) [OF assms(1,3)] by (simp_all add: nth node_ok_def)
    fix i assume "i < length (nAtoms (?H' ! p))"
    then have i: "i < length (nAtoms (?H ! p))" by (simp add: nth)
    note kid = tree_ok_child_nth [OF assms(1,3) i]
    show "id_sorted ?H' (aLeft (nAtoms (?H' ! p) ! i))"
      using assms(5) keeps_names_siblings(1) [OF keeps kid(2)] tree_okD(1) [OF assms(1,3)] i
      by (auto simp: add_child_left [OF assms(3,4,3) i] node_ok_def Let_def)
    show "\<forall>c\<in>set (aLeft (nAtoms (?H' ! p) ! i)). child_ok ?H' p i c"
      using kid keeps assms(3)
      by (auto simp: add_child_left [OF assms(3,4,3) i] child_ok_def keeps_names_def nth(1,2)
          split: if_splits intro: less_SucI)
  qed
  have node: "node_ok ?H' x" if "x < ?l" for x
    using node_p keeps_names_node_ok [OF keeps assms(1) that] that by (cases "x = p") (auto simp: nth)
  have listed: "listed_ok ?H' (dDoc doc) x" if x: "x < ?l" for x
  proof (cases "nParent (?H ! x)")
    case (Some q)
    note up = tree_ok_parent [OF assms(1) x Some]
    have "q < ?l" using up(1) x by simp
    from up add_child_left [OF assms(3,4) this up(2), of nid n c k] show ?thesis
      using keeps x Some by (auto simp: listed_ok_def keeps_names_def)
  qed (use tree_okD(2) [OF assms(1) x] keeps x in \<open>simp add: listed_ok_def keeps_names_def\<close>)
  have "node_ok ?H' ?l" using new_atoms_left assms(6) by (auto simp: nth node_ok_def Let_def id_sorted_def)
  moreover have "listed_ok ?H' (dDoc doc) ?l"
    using assms(3,4) add_child_left [OF assms(3,4,3,4), of nid n c k] by (simp add: nth listed_ok_def)
  moreover have "((dNodes doc)(nid \<mapsto> ?l)) m = Some a \<longleftrightarrow> a < Suc ?l \<and> nNodeId (?H' ! a) = m" for m a
    using tree_okD(5) [OF assms(1), of m a] fresh_id [OF assms(1,2), of a] keeps
    by (auto simp: nth less_Suc_eq keeps_names_def)
  moreover have "id_sorted ?H' (dDoc doc)"
    using keeps_names_siblings(1) [OF keeps, of "dDoc doc"] tree_okD(3,4) [OF assms(1)] by blast
  moreover have "r < ?l \<and> nParent (?H' ! r) = None" if "r \<in> set (dDoc doc)" for r
    using tree_okD(4) [OF assms(1) that] keeps by (simp add: keeps_names_def)
  ultimately show ?thesis
    using node listed by (auto simp: tree_ok_def Let_def nth less_Suc_eq)
qed

lemma add_child_atom:
  assumes "p < length (dHeap doc)" "unat pn < length (nAtoms (dHeap doc ! p))" "x < length (dHeap doc)"
    "i < length (nAtoms (dHeap doc ! x))"
  shows "aSize (nAtoms (dHeap (add_child doc p pn nid n c k) ! x) ! i) = aSize (nAtoms (dHeap doc ! x) ! i)"
    "own_text (nAtoms (dHeap (add_child doc p pn nid n c k) ! x) ! i) = own_text (nAtoms (dHeap doc ! x) ! i)"
  using assms by (cases "x = p"; simp add: add_child_nth nth_list_update own_text_def)+

lemma add_child_sizes:
  assumes "doc_ok doc" "p < length (dHeap doc)" "unat pn < length (nAtoms (dHeap doc ! p))"
  shows "sizes_ok (add_child doc p pn nid n c k) ((\<lambda>_. 0)(length (dHeap doc) := 1))"
proof -
  let ?H = "dHeap doc" and ?doc = "add_child doc p pn nid n c k"
  let ?l = "length ?H" and ?H' = "dHeap ?doc" and ?ds = "aLeft (nAtoms (?H ! p) ! unat pn)"
  have tree: "tree_ok doc" and sizes: "sizes_ok doc (\<lambda>_. 0)" using assms(1) by (auto simp: doc_ok_def)
  note keeps = add_child_keeps_names [OF assms(2), of pn nid n c k]
  note nth = add_child_nth [OF assms(2), where pn = pn and nid = nid and n = n and c = c and k = k]
  note same = keeps_names_siblings(2) [OF keeps]
  have old: "nodes_size ?H' (aLeft (nAtoms (?H ! x) ! i)) = nodes_size ?H (aLeft (nAtoms (?H ! x) ! i))"
    if "x < ?l" "i < length (nAtoms (?H ! x))" for x i
    by (rule same) (rule tree_ok_child_nth(2) [OF tree that])
  have left: "nodes_size ?H' (insert_at k ?l ?ds) = nodes_size ?H ?ds"
    using old [OF assms(2,3)] nodes_size_simps(3) [of ?H' "take k ?ds" "drop k ?ds"]
    by (simp add: insert_at_def nth)
  have "atom_size_ok ?H' (nAtoms (?H' ! x) ! i)" if "x < ?l" "i < length (nAtoms (?H ! x))" for x i
    using sizes that left old [OF that]
    by (auto simp: atom_size_ok_def add_child_left [OF assms(2,3) that]
        add_child_atom [OF assms(2,3) that] sizes_ok_nth)
  moreover have "atom_size_ok ?H' (new_atoms n c ! i)" if "i < Suc n" for i
    using that by (auto simp: new_atoms_def nth_append atom_size_ok_def own_text_def less_Suc_eq)
  moreover have "sum_list (map aSize (nAtoms (?H' ! p))) = sum_list (map aSize (nAtoms (?H ! p)))"
    using assms(3) by (simp add: nth atoms_size_update)
  then have "nSize (?H' ! x) = sum_list (map aSize (nAtoms (?H' ! x)))" if "x < ?l" for x
    using sizes that by (cases "x = p") (auto simp: nth sizes_ok_nth)
  moreover have "nodes_size ?H' (dDoc doc) = nodes_size ?H (dDoc doc)"
    using tree_okD(4) [OF tree] by (intro same) auto
  moreover have "length (nAtoms (?H' ! x)) = length (nAtoms (?H ! x))" if "x < ?l" for x
    using that by (cases "x = p") (simp_all add: nth)
  ultimately show ?thesis
    using sizes by (auto simp: sizes_ok_nth nth(1,2) less_Suc_eq)
qed

lemma add_child_text:
  assumes "tree_ok doc" "dNodes doc nid = None" "p < length (dHeap doc)"
    "unat pn < length (nAtoms (dHeap doc ! p))"
    "k \<le> length (aLeft (nAtoms (dHeap doc ! p) ! unat pn))"
    "id_sorted (dHeap (add_child doc p pn nid n c k))
       (insert_at k (length (dHeap doc)) (aLeft (nAtoms (dHeap doc ! p) ! unat pn)))"
    "n < 65536"
  shows "\<exists>u v. doc_text doc = u @ v \<and> doc_text (add_child doc p pn nid n c k) = u @ [c] @ v \<and>
      length u = offset_of (add_child doc p pn nid n c k) (length (dHeap doc)) n \<and>
      (aLeft (nAtoms (dHeap doc ! p) ! unat pn) = [] \<longrightarrow> length u = offset_of doc p (unat pn))"
proof -
  let ?H = "dHeap doc" and ?doc = "add_child doc p pn nid n c k"
  let ?l = "length ?H" and ?H' = "dHeap ?doc" and ?atoms = "nAtoms (?H ! p)" and ?n = "unat pn"
  let ?ds = "aLeft (?atoms ! ?n)"
  note tree' = add_child_tree_ok [OF assms(1-4,6,7)]
  note nth = add_child_nth [OF assms(3), where pn = pn and nid = nid and n = n and c = c and k = k]
  have agree: "agree_except p ?H ?H'" by (simp add: agree_except_def nth)
  have kids: "node_text ?H' d = node_text ?H d"
    if "i < length ?atoms" "d \<in> set (aLeft (?atoms ! i))" for i d
    using tree_ok_child_nth [OF assms(1,3) that] chain_le [of d ?H p]
    by (intro node_text_agree [OF assms(1) agree]) auto
  have cells: "cells_text ?H' xs = cells_text ?H xs" if "set xs \<subseteq> set ?atoms" for xs
  proof (rule cells_text_agree)
    show "list_all2 same_atom xs xs" by (simp add: list_all2_refl same_atom_def)
    fix atom d assume "atom \<in> set xs" "d \<in> set (aLeft atom)"
    moreover from this that have "atom \<in> set ?atoms" by blast
    then obtain i where "i < length ?atoms" "atom = ?atoms ! i" by (metis in_set_conv_nth)
    ultimately show "node_text ?H' d = node_text ?H d" using kids by blast
  qed
  let ?ctx = "doc_ctx ?H (dDoc doc) p"
  let ?u = "fst ?ctx @ cells_text ?H (take ?n ?atoms) @ concat (map (node_text ?H) (take k ?ds))"
  let ?v = "concat (map (node_text ?H) (drop k ?ds)) @ own_text (?atoms ! ?n) @
    cells_text ?H (drop (Suc ?n) ?atoms) @ snd ?ctx"
  have "?l \<notin> set ?ds" using tree_ok_child_nth(2) [OF assms(1,3,4)] by blast
  note around = insert_at_around [OF this assms(5)]
  have "concat (map (node_text ?H') xs) = concat (map (node_text ?H) xs)" if "set xs \<subseteq> set ?ds" for xs
    using that kids [OF assms(4)] by (intro arg_cong [where f = concat] map_cong) auto
  from this [OF set_take_subset] this [OF set_drop_subset]
  have "concat (map (node_text ?H') (take k ?ds)) = concat (map (node_text ?H) (take k ?ds))"
    "concat (map (node_text ?H') (drop k ?ds)) = concat (map (node_text ?H) (drop k ?ds))" .
  moreover have "doc_ctx ?H' (dDoc doc) p = ?ctx"
    by (rule doc_ctx_agree [OF assms(1) agree assms(3)]) (simp_all add: nth)
  ultimately have ctx: "doc_ctx ?H' (dDoc doc) ?l = (?u, ?v)"
    using assms(3,4)
    by (subst doc_ctx.simps)
      (simp add: nth(2,4) around cells set_take_subset set_drop_subset own_text_def Let_def)
  have "node_text ?H' ?l = [c]" using node_text_eq [OF tree', of ?l] by (simp add: nth(1,2))
  then have "doc_text ?doc = ?u @ [c] @ ?v"
    using doc_ctx_text [OF tree', of ?l] ctx by (simp add: nth(1))
  moreover have "doc_text doc = ?u @ ?v"
  proof -
    have "cells_text ?H ?atoms = cells_text ?H (take ?n ?atoms @ ?atoms ! ?n # drop (Suc ?n) ?atoms)"
      by (simp only: take_nth_drop [OF assms(4), symmetric])
    moreover have "left_text ?H (?atoms ! ?n) =
        concat (map (node_text ?H) (take k ?ds)) @ concat (map (node_text ?H) (drop k ?ds))"
      unfolding left_text_def by (metis append_take_drop_id concat_append map_append)
    ultimately show ?thesis
      using doc_ctx_text [OF assms(1,3)] node_text_eq [OF assms(1,3)] by (simp add: cell_text_def)
  qed
  moreover have "length ?u = offset_of ?doc ?l n"
    using ctx by (simp add: offset_of_def cell_of_def nth(2) left_text_def)
  moreover have "?ds = [] \<longrightarrow> length ?u = offset_of doc p ?n"
    using assms(4) by (simp add: offset_of_def cell_of_def left_text_def)
  ultimately show ?thesis by blast
qed

section \<open>InsertRoot and InsertNew\<close>

lemma InsertRoot_ok:
  assumes "doc_ok doc" "dNodes doc (oId op) = None" "unat (oN op) < 65531"
  shows "\<exists>doc' b k. InsertRoot doc op = returns (doc', b) \<and> edit_ok doc doc' b \<and>
    (\<exists>q. b = \<lparr>bo_Type = BUF_REMOTE_INSERT, bo_Pos = q, bo_Atom = oAtom op\<rparr>) \<and>
    same_tree (add_root doc (oId op) (unat (oN op)) (oAtom op) k) doc'"
proof -
  let ?n = "unat (oN op)" and ?l = "length (dHeap doc)"
  let ?nd = "new_node None 0 (oId op) ?n (oAtom op)"
  have tree: "tree_ok doc" using assms(1) by (simp add: doc_ok_def)
  have roots: "r < ?l" if "r \<in> set (dDoc doc)" for r using tree_okD(4) [OF tree that] by simp
  obtain k where k: "k \<le> length (dDoc doc)"
    "insertNodeIntoDisambiguatorsSorted (dHeap doc @ [?nd]) (dDoc doc) ?l = insert_at k ?l (dDoc doc)"
    "id_sorted (dHeap doc @ [?nd]) (insert_at k ?l (dDoc doc))"
    by (rule insert_new_sorted [OF tree_okD(3) [OF tree], of ?nd])
      (use roots fresh_id [OF tree assms(2)] in auto)
  let ?doc = "add_root doc (oId op) ?n (oAtom op) k"
  note tree' = add_root_tree_ok [OF tree assms(2) k(1,3) unat16]
  note facts = add_root_facts [OF assms(1,2) k(1,3) unat16]
  have "?l < length (dHeap ?doc)" "?n < length (nAtoms (dHeap ?doc ! ?l))"
    "aState (nAtoms (dHeap ?doc ! ?l) ! ?n) = ALIVE"
    by (simp_all add: add_root_def)
  from remote_insert_ok [OF tree' facts(1) this]
  obtain doc' where doc': "remote_insert ?doc ?l op = returns (doc', \<lparr>bo_Type = BUF_REMOTE_INSERT,
      bo_Pos = int (offset_of ?doc ?l ?n), bo_Atom = oAtom op\<rparr>)" "same_tree ?doc doc'" "doc_ok doc'"
    by blast
  have "InsertRoot doc op = remote_insert ?doc ?l op"
    using assms(3) k(2)
    by (simp add: InsertRoot_def extend_nil_ok guard_else_def add_root_def new_node_def new_atoms_def Let_def
        del: replicate.simps)
  then show ?thesis using doc' facts(2) edit_ok_insert [OF doc'(2) tree' doc'(3)] by metis
qed

lemma extend_node_ok:
  assumes "doc_ok doc" "a < length (dHeap doc)"
    "doc1 = set_atoms doc a (extended (nAtoms (dHeap doc ! a)) n)" "n < 65536"
  shows "doc_ok doc1" "doc_text doc1 = doc_text doc" "n < length (nAtoms (dHeap doc1 ! a))"
proof -
  note same = set_cell_facts [OF assms(1,2) refl _ _ assms(4), where delta = 0]
  show "doc_ok doc1" "doc_text doc1 = doc_text doc" "n < length (nAtoms (dHeap doc1 ! a))"
    using same(1,2,3,5) by (auto simp: assms(3) set_cell_same doc_ok_def fun_upd_def)
qed

lemma InsertNew_ok:
  assumes "doc_ok doc" "dNodes doc (oId op) = None" "unat (oN op) < 65531"
    "dNodes doc (oParentId op) = Some p"
    "doc1 = set_atoms doc p (extended (nAtoms (dHeap doc ! p)) (unat (oParentN op)))"
  shows "\<exists>doc' b k. InsertNew doc op = returns (doc', b) \<and> edit_ok doc doc' b \<and>
    (aLeft (cell_of doc p (unat (oParentN op))) = [] \<longrightarrow> b = \<lparr>bo_Type = BUF_REMOTE_INSERT,
      bo_Pos = int (offset_of doc p (unat (oParentN op))), bo_Atom = oAtom op\<rparr>) \<and>
    same_tree (add_child doc1 p (oParentN op) (oId op) (unat (oN op)) (oAtom op) k) doc'"
proof -
  let ?n = "unat (oN op)" and ?l = "length (dHeap doc)" and ?pn = "unat (oParentN op)"
  let ?nd = "new_node (Some p) (oParentN op) (oId op) ?n (oAtom op)"
  let ?H = "dHeap doc @ [?nd]" and ?E = "extended (nAtoms (dHeap doc ! p)) ?pn"
  let ?ds = "aLeft (?E ! ?pn)"
  have tree: "tree_ok doc" using assms(1) by (simp add: doc_ok_def)
  note p = named_node [OF tree assms(4)]
  note doc1 = extend_node_ok [OF assms(1) p(1) assms(5) unat16]
  have tree1: "tree_ok doc1" using doc1(1) by (simp add: doc_ok_def)
  have l1: "length (dHeap doc1) = ?l" by (simp add: assms(5))
  have atoms1: "nAtoms (dHeap doc1 ! p) = ?E" by (simp add: assms(5) set_atoms_nth p(1))
  have kids: "c < ?l" if "c \<in> set ?ds" for c
    using tree_ok_child_nth(2) [OF tree1 _ doc1(3), of c] p(1) that by (simp add: atoms1 l1)
  have names: "nNodeId (dHeap doc1 ! x) = nNodeId (dHeap doc ! x)" if "x < ?l" for x
    using that by (simp add: assms(5))
  have "id_sorted (dHeap doc1) ?ds"
    using tree_okD(1) [OF tree1, of p] p(1) doc1(3) by (auto simp: l1 atoms1 node_ok_def Let_def)
  moreover have "id_sorted (dHeap doc1) ?ds = id_sorted (dHeap doc) ?ds"
    by (rule id_sorted_cong) (simp add: kids names)
  ultimately have "id_sorted (dHeap doc) ?ds" by simp
  then obtain k where k: "k \<le> length ?ds"
    "insertNodeIntoDisambiguatorsSorted ?H ?ds ?l = insert_at k ?l ?ds" "id_sorted ?H (insert_at k ?l ?ds)"
    by (rule insert_new_sorted [of _ _ ?nd]) (use kids fresh_id [OF tree assms(2)] in auto)
  let ?doc = "add_child doc1 p (oParentN op) (oId op) ?n (oAtom op) k"
  have p1: "p < length (dHeap doc1)" using p(1) l1 by simp
  have fresh1: "dNodes doc1 (oId op) = None" using assms(2,5) by simp
  note nth = add_child_nth [OF p1, where pn = "oParentN op" and nid = "oId op" and n = ?n
      and c = "oAtom op" and k = k]
  have "id_sorted (dHeap ?doc) (insert_at k ?l ?ds) = id_sorted ?H (insert_at k ?l ?ds)"
    using add_child_keeps_names [OF p1, of "oParentN op" "oId op" ?n "oAtom op" k] kids names
    by (intro id_sorted_cong) (auto simp: keeps_names_def l1 nth(2) [unfolded l1] nth_append)
  with k(3) have sorted: "id_sorted (dHeap ?doc)
      (insert_at k (length (dHeap doc1)) (aLeft (nAtoms (dHeap doc1 ! p) ! ?pn)))"
    by (simp add: l1 atoms1)
  note tree' = add_child_tree_ok [OF tree1 fresh1 p1 doc1(3) sorted unat16]
  note sizes' = add_child_sizes [OF doc1(1) p1 doc1(3), of "oId op" ?n "oAtom op" k]
  have k1: "k \<le> length (aLeft (nAtoms (dHeap doc1 ! p) ! ?pn))" using k(1) by (simp add: atoms1)
  note text' = add_child_text [OF tree1 fresh1 p1 doc1(3) k1 sorted unat16]
  have "?l < length (dHeap ?doc)" "?n < length (nAtoms (dHeap ?doc ! ?l))"
    "aState (nAtoms (dHeap ?doc ! ?l) ! ?n) = ALIVE"
    by (simp_all add: nth(1,2) [unfolded l1])
  from remote_insert_ok [OF tree' sizes' [unfolded l1] this]
  obtain doc' where doc': "remote_insert ?doc ?l op = returns (doc', \<lparr>bo_Type = BUF_REMOTE_INSERT,
      bo_Pos = int (offset_of ?doc ?l ?n), bo_Atom = oAtom op\<rparr>)" "same_tree ?doc doc'" "doc_ok doc'"
    by blast
  have offset1: "offset_of doc1 p ?pn = offset_of doc p ?pn"
    using set_cell_facts(6) [OF assms(1) p(1) refl _ _ unat16 [of "oParentN op"], where delta = 0]
    by (simp add: assms(5) set_cell_same)
  have left1: "aLeft (nAtoms (dHeap doc1 ! p) ! ?pn) = aLeft (cell_of doc p ?pn)"
    by (simp add: atoms1 cell_of_def)
  have "InsertNew doc op = remote_insert ?doc ?l op"
    using assms(3,4) k(2) p(1,3)
    by (simp add: InsertNew_def insertAtom_def extend_nil_ok guard_else_def node_at_def nth_append
        extendAtomToSize_ok extended_index new_node_def new_atoms_def add_child_def assms(5)
        set_atoms_def put_node_def list_update_append Let_def del: replicate.simps)
  then show ?thesis
    using doc' text' edit_ok_insert [OF doc'(2) tree' doc'(3), of doc] doc1(2) offset1 left1 by (metis l1)
qed

section \<open>ApplyOperation\<close>

definition creates :: "Operation \<Rightarrow> bool" where
  "creates op \<longleftrightarrow> oType op = INSERT_NEW \<or> oType op = INSERT_ROOT"

text \<open>
  \<open>op_enabled\<close> is exactly when the code returns on a document in which the node the operation
  creates, if any, is new (\<open>op_fresh\<close>): the node it names exists and its cell has the right state,
  and a new node's slice is made without the 16-bit length wrapping.
\<close>

definition op_fresh :: "Document \<Rightarrow> Operation \<Rightarrow> bool" where
  "op_fresh doc op \<longleftrightarrow> (creates op \<longrightarrow> dNodes doc (oId op) = None)"

definition op_enabled :: "Document \<Rightarrow> Operation \<Rightarrow> bool" where
  "op_enabled doc op \<longleftrightarrow>
     (if oType op = INSERT_NEW then unat (oN op) < 65531 \<and> dNodes doc (oParentId op) \<noteq> None
      else if oType op = INSERT then
        (case dNodes doc (oId op) of None \<Rightarrow> False
         | Some a \<Rightarrow> aState (cell_of doc a (unat (oN op))) = UNINITIALIZED)
      else if oType op = DELETE then
        (case dNodes doc (oId op) of None \<Rightarrow> False
         | Some a \<Rightarrow> aState (cell_of doc a (unat (oN op))) \<noteq> UNINITIALIZED)
      else if oType op = INSERT_ROOT then unat (oN op) < 65531
      else True)"

lemma new_node_panics:
  assumes "\<not> unat i < 65531"
  shows "\<exists>p. insertAtom [] atom i = panics p"
    and "\<exists>p. pbind (extendAtomToSize [] i) (\<lambda>atoms.
      guard_else (unat i < length atoms) IndexOutOfRange (f atoms)) = panics p"
  using extend_nil_panics [OF assms] by (auto simp: insertAtom_def guard_else_def)

lemma ApplyOperation_panics:
  assumes "doc_ok doc" "\<not> op_enabled doc op"
  shows "\<exists>p. ApplyOperation doc op = panics p"
proof -
  consider (new) "oType op = INSERT_NEW" | (ins) "oType op = INSERT" | (del) "oType op = DELETE"
    | (root) "oType op = INSERT_ROOT"
    using assms(2) unfolding op_enabled_def by argo
  then show ?thesis
  proof cases
    case new
    then have "\<not> unat (oN op) < 65531 \<or> dNodes doc (oParentId op) = None"
      using assms(2) by (auto simp: op_enabled_def)
    then show ?thesis
    proof
      assume "\<not> unat (oN op) < 65531"
      then obtain q where "insertAtom [] \<lparr>aState = ALIVE, aAtom = oAtom op, aSize = 1, aLeft = []\<rparr>
          (oN op) = panics q"
        using new_node_panics(1) by blast
      then show ?thesis using new by (simp add: ApplyOperation_def InsertNew_def Let_def)
    next
      assume "dNodes doc (oParentId op) = None"
      moreover have "(\<exists>q. insertAtom [] atom (oN op) = panics q) \<or>
          (\<exists>atoms. insertAtom [] atom (oN op) = returns atoms)" for atom
        by (auto simp: insertAtom_def extendAtomToSize_def guard_else_def)
      note this [of "\<lparr>aState = ALIVE, aAtom = oAtom op, aSize = 1, aLeft = []\<rparr>"]
      ultimately show ?thesis using new by (auto simp: ApplyOperation_def InsertNew_def Let_def)
    qed
  next
    case ins
    then show ?thesis
      using assms Insert_panics [OF assms(1)]
      by (fastforce simp: op_enabled_def ApplyOperation_def Insert_def operation_types split: option.splits)
  next
    case del
    then show ?thesis
      using assms Delete_panics [OF assms(1)]
      by (fastforce simp: op_enabled_def ApplyOperation_def Delete_def operation_types split: option.splits)
  next
    case root
    then have "\<not> unat (oN op) < 65531" using assms(2) by (auto simp: op_enabled_def operation_types)
    from new_node_panics(2) [OF this] root show ?thesis
      by (auto simp: ApplyOperation_def InsertRoot_def operation_types Let_def)
  qed
qed

lemma doc_ok_NewDocument [simp]: "doc_ok NewDocument"
  by (simp add: doc_ok_def tree_ok_def sizes_ok_def NewDocument_def id_sorted_def)

end
