(* ===== verification/TreedocSpec.thy ===== *)
theory TreedocSpec
  imports TreedocRemote "HOL-Library.Multiset"
begin

text \<open>
  What the replicated document promises, without its store: where every node hangs
  (\<open>sp_place\<close>) and what every cell holds (\<open>sp_cell\<close>). \<open>abs_doc\<close> reads this state off a store, every
  operation refines its counterpart \<open>spec_apply\<close>, and the text of a document is a function of the
  abstract state alone. So replicas that applied the same operations, in whatever order, show the
  same text.
\<close>

section \<open>Abstract state\<close>

record TreeSpec =
  sp_place :: "NodeId \<Rightarrow> (NodeId \<times> nat) option option"
  sp_cell :: "NodeId \<Rightarrow> nat \<Rightarrow> AtomState \<times> byte"

definition blank :: "AtomState \<times> byte" where "blank = (UNINITIALIZED, CHR 0x00)"

definition abs_doc :: "Document \<Rightarrow> TreeSpec" where
  "abs_doc doc = \<lparr>
     sp_place = (\<lambda>nid. map_option (\<lambda>a. map_option (\<lambda>p. (nNodeId (dHeap doc ! p),
         unat (nParentN (dHeap doc ! a)))) (nParent (dHeap doc ! a))) (dNodes doc nid)),
     sp_cell = (\<lambda>nid n. case dNodes doc nid of None \<Rightarrow> blank
       | Some a \<Rightarrow> (aState (cell_of doc a n), aAtom (cell_of doc a n)))\<rparr>"

definition spec_set :: "TreeSpec \<Rightarrow> NodeId \<Rightarrow> nat \<Rightarrow> AtomState \<times> byte \<Rightarrow> TreeSpec" where
  "spec_set s nid n c = s\<lparr>sp_cell := (sp_cell s)(nid := (sp_cell s nid)(n := c))\<rparr>"

definition spec_new :: "TreeSpec \<Rightarrow> (NodeId \<times> nat) option \<Rightarrow> Operation \<Rightarrow> TreeSpec" where
  "spec_new s pl op = \<lparr>sp_place = (sp_place s)(oId op \<mapsto> pl),
     sp_cell = (sp_cell s)(oId op := (\<lambda>_. blank)(unat (oN op) := (ALIVE, oAtom op)))\<rparr>"

definition spec_apply :: "TreeSpec \<Rightarrow> Operation \<Rightarrow> TreeSpec" where
  "spec_apply s op =
     (if oType op = INSERT_NEW then spec_new s (Some (oParentId op, unat (oParentN op))) op
      else if oType op = INSERT then spec_set s (oId op) (unat (oN op)) (ALIVE, oAtom op)
      else if oType op = DELETE then
        (case sp_cell s (oId op) (unat (oN op)) of (st, c) \<Rightarrow>
           if st = ALIVE then spec_set s (oId op) (unat (oN op)) (DEAD, c) else s)
      else if oType op = INSERT_ROOT then spec_new s None op
      else s)"

section \<open>Refinement\<close>

lemma extended_nth_le: "i \<le> m \<Longrightarrow> extended atoms m ! i = extended atoms i ! i"
  by (auto simp: extended_def nth_append)

lemma extended_nth: "extended atoms n ! n = (if n < length atoms then atoms ! n else zero_Atom)"
  by (auto simp: extended_def nth_append)

lemma same_tree_cell:
  assumes "same_tree doc doc'" "a < length (dHeap doc)"
  shows "aState (cell_of doc' a n) = aState (cell_of doc a n)"
    "aAtom (cell_of doc' a n) = aAtom (cell_of doc a n)"
proof -
  have "list_all2 same_atom (nAtoms (dHeap doc ! a)) (nAtoms (dHeap doc' ! a))"
    using same_tree_fields(4) [OF assms] by (simp add: same_node_def)
  then show "aState (cell_of doc' a n) = aState (cell_of doc a n)"
    "aAtom (cell_of doc' a n) = aAtom (cell_of doc a n)"
    by (auto simp: cell_of_def extended_nth same_atom_def list_all2_conv_all_nth)
qed

lemma abs_same_tree:
  assumes "same_tree doc doc'" "tree_ok doc"
  shows "abs_doc doc' = abs_doc doc"
proof -
  note F = same_tree_fields [OF assms(1)]
  note N = same_node_fields [OF F(4)]
  have "nNodeId (dHeap doc' ! p) = nNodeId (dHeap doc ! p)"
    if "a < length (dHeap doc)" "nParent (dHeap doc ! a) = Some p" for a p
    using tree_ok_parent(1) [OF assms(2) that] that(1) N(3) by simp
  moreover have "a < length (dHeap doc)" if "dNodes doc nid = Some a" for nid a
    using tree_okD(5) [OF assms(2)] that by blast
  ultimately show ?thesis
    using N same_tree_cell [OF assms(1)]
    by (auto simp: abs_doc_def F(2) fun_eq_iff split: option.split
        intro!: option.map_cong0 option.map_cong)
qed

lemma set_cell_fields [simp]:
  "dNodes (set_cell doc a n atom) = dNodes doc" "dDoc (set_cell doc a n atom) = dDoc doc"
  "length (dHeap (set_cell doc a n atom)) = length (dHeap doc)"
  by (simp_all add: set_cell_def)

lemma cell_of_set_cell:
  "a < length (dHeap doc) \<Longrightarrow> x < length (dHeap doc) \<Longrightarrow>
    cell_of (set_cell doc a n atom) x m = (if x = a \<and> m = n then atom else cell_of doc x m)"
  by (auto simp: cell_of_def set_cell_def set_atoms_nth extended_nth extended_facts nth_list_update)

lemma abs_set_cell:
  assumes "tree_ok doc" "dNodes doc nid = Some a"
  shows "abs_doc (set_cell doc a n atom) = spec_set (abs_doc doc) nid n (aState atom, aAtom atom)"
proof -
  note a = named_node [OF assms]
  have names: "dNodes doc m = Some a \<longleftrightarrow> m = nid" for m
    using tree_okD(5) [OF assms(1)] a by auto
  have lt: "x < length (dHeap doc)" if "dNodes doc m = Some x" for m x
    using tree_okD(5) [OF assms(1)] that by blast
  have up: "p < length (dHeap doc)" if "dNodes doc m = Some x" "nParent (dHeap doc ! x) = Some p" for m x p
    using tree_ok_parent(1) [OF assms(1) lt that(2)] lt that(1) by fastforce
  have "sp_place (abs_doc (set_cell doc a n atom)) = sp_place (abs_doc doc)"
    using lt by (auto simp: abs_doc_def set_cell_def fun_eq_iff intro!: option.map_cong
        set_atoms_same_fields(3) dest: up)
  moreover have "sp_cell (abs_doc (set_cell doc a n atom)) m k =
      sp_cell (spec_set (abs_doc doc) nid n (aState atom, aAtom atom)) m k" for m k
  proof (cases "dNodes doc m")
    case None
    then show ?thesis using assms(2) by (auto simp: abs_doc_def spec_set_def set_cell_def)
  next
    case (Some x)
    moreover have "x = a \<longleftrightarrow> m = nid" using names [of m] assms(2) Some by auto
    ultimately show ?thesis
      using assms(2) by (auto simp: abs_doc_def spec_set_def cell_of_set_cell [OF a(1) lt [OF Some]])
  qed
  ultimately show ?thesis by (auto simp: spec_set_def fun_eq_iff)
qed

lemma abs_new_cells:
  assumes "dHeap doc' ! l = new_node p pn nid n c"
  shows "(\<lambda>m. (aState (cell_of doc' l m), aAtom (cell_of doc' l m))) = (\<lambda>_. blank)(n := (ALIVE, c))"
  using assms by (auto simp: cell_of_def extended_nth new_atoms_def nth_append blank_def fun_eq_iff)

lemma abs_place_eq:
  "sp_place (abs_doc doc) nid = Some pl \<longleftrightarrow> (\<exists>a. dNodes doc nid = Some a \<and>
     map_option (\<lambda>p. (nNodeId (dHeap doc ! p), unat (nParentN (dHeap doc ! a))))
       (nParent (dHeap doc ! a)) = pl)"
  by (auto simp: abs_doc_def)

text \<open>Stores that differ in a new node only, apart from the slices of its siblings.\<close>

lemma abs_new_node:
  assumes "tree_ok doc" "dNodes doc nid = None"
    "dNodes doc' = (dNodes doc)(nid \<mapsto> length (dHeap doc))"
    "dHeap doc' ! length (dHeap doc) = new_node p pn nid n c"
    "keeps_names (dHeap doc) (dHeap doc')"
    "\<And>q. p = Some q \<Longrightarrow> q < length (dHeap doc)"
    "\<And>x m. x < length (dHeap doc) \<Longrightarrow> aState (cell_of doc' x m) = aState (cell_of doc x m) \<and>
      aAtom (cell_of doc' x m) = aAtom (cell_of doc x m)"
  shows "abs_doc doc' = \<lparr>sp_place = (sp_place (abs_doc doc))
      (nid \<mapsto> map_option (\<lambda>q. (nNodeId (dHeap doc ! q), unat pn)) p),
    sp_cell = (sp_cell (abs_doc doc))(nid := (\<lambda>_. blank)(n := (ALIVE, c)))\<rparr>"
proof -
  have lt: "x < length (dHeap doc)" if "dNodes doc m = Some x" for m x
    using tree_okD(5) [OF assms(1)] that by blast
  have up: "q < length (dHeap doc)" if "dNodes doc m = Some x" "nParent (dHeap doc ! x) = Some q" for m x q
    using tree_ok_parent(1) [OF assms(1) lt that(2)] lt that(1) by fastforce
  have keep: "nParent (dHeap doc' ! x) = nParent (dHeap doc ! x)"
    "nParentN (dHeap doc' ! x) = nParentN (dHeap doc ! x)"
    "nNodeId (dHeap doc' ! x) = nNodeId (dHeap doc ! x)" if "x < length (dHeap doc)" for x
    using assms(5) that by (auto simp: keeps_names_def)
  have "sp_place (abs_doc doc') m = ((sp_place (abs_doc doc))
      (nid \<mapsto> map_option (\<lambda>q. (nNodeId (dHeap doc ! q), unat pn)) p)) m" for m
    using keep(1,2) [OF lt, of m] keep(3) [OF assms(6)] keep(3) [OF up, of m]
    by (auto simp: abs_doc_def assms(3,4) intro!: option.map_cong)
  moreover have "sp_cell (abs_doc doc') m = ((sp_cell (abs_doc doc))
      (nid := (\<lambda>_. blank)(n := (ALIVE, c)))) m" for m
    using abs_new_cells [OF assms(4)] assms(7) lt [of m]
    by (auto simp: abs_doc_def assms(3) split: option.split)
  ultimately show ?thesis by (auto simp: fun_eq_iff)
qed

lemma abs_add_root:
  assumes "tree_ok doc" "dNodes doc (oId op) = None"
  shows "abs_doc (add_root doc (oId op) (unat (oN op)) (oAtom op) k) = spec_new (abs_doc doc) None op"
  by (subst abs_new_node [OF assms])
    (auto simp: add_root_def keeps_names_def nth_append cell_of_def spec_new_def)

lemma abs_add_child:
  assumes "tree_ok doc" "dNodes doc (oId op) = None" "p < length (dHeap doc)"
    "unat (oParentN op) < length (nAtoms (dHeap doc ! p))"
  shows "abs_doc (add_child doc p (oParentN op) (oId op) (unat (oN op)) (oAtom op) k) =
    spec_new (abs_doc doc) (Some (nNodeId (dHeap doc ! p), unat (oParentN op))) op"
proof -
  let ?doc = "add_child doc p (oParentN op) (oId op) (unat (oN op)) (oAtom op) k"
  have "aState (cell_of ?doc x m) = aState (cell_of doc x m) \<and> aAtom (cell_of ?doc x m) = aAtom (cell_of doc x m)"
    if "x < length (dHeap doc)" for x m
    using that assms(3,4)
    by (cases "x = p") (auto simp: cell_of_def add_child_nth extended_nth nth_list_update)
  then show ?thesis
    by (subst abs_new_node [OF assms(1,2) _ _ add_child_keeps_names [OF assms(3)]])
      (auto simp: add_child_nth [OF assms(3)] spec_new_def assms(3))
qed

lemma same_atom_sym: "same_atom x y \<Longrightarrow> same_atom y x"
  by (simp add: same_atom_def)

lemma same_tree_sym: "same_tree x y \<Longrightarrow> same_tree y x"
  using list_all2_conv_all_nth same_atom_sym
  by (auto simp: same_tree_def same_node_def list_all2_conv_all_nth)

lemma abs_result: "same_tree doc doc' \<Longrightarrow> edit_ok d doc' b \<Longrightarrow> abs_doc doc' = abs_doc doc"
  using abs_same_tree [OF same_tree_sym] by (auto simp: edit_ok_def doc_ok_def)

lemma abs_cell: "dNodes doc nid = Some a \<Longrightarrow>
    sp_cell (abs_doc doc) nid n = (aState (cell_of doc a n), aAtom (cell_of doc a n))"
  by (simp add: abs_doc_def)

lemma abs_extend:
  assumes "tree_ok doc" "dNodes doc nid = Some a"
  shows "abs_doc (set_atoms doc a (extended (nAtoms (dHeap doc ! a)) n)) = abs_doc doc"
proof -
  have "spec_set s nid n (sp_cell s nid n) = s" for s by (simp add: spec_set_def)
  then show ?thesis
    using abs_set_cell [OF assms, of n "cell_of doc a n"] by (simp add: set_cell_same abs_cell [OF assms(2), symmetric])
qed

lemma ApplyOperation_refines:
  assumes "doc_ok doc" "op_fresh doc op" "op_enabled doc op"
  shows "\<exists>doc' b. ApplyOperation doc op = returns (doc', b) \<and> edit_ok doc doc' b \<and>
    abs_doc doc' = spec_apply (abs_doc doc) op"
proof -
  have tree: "tree_ok doc" using assms(1) by (simp add: doc_ok_def)
  consider (new) "oType op = INSERT_NEW" | (ins) "oType op = INSERT" | (del) "oType op = DELETE"
    | (root) "oType op = INSERT_ROOT"
    | (none) "oType op \<notin> {INSERT_NEW, INSERT, DELETE, INSERT_ROOT}"
    by auto
  then show ?thesis
  proof cases
    case new
    then obtain p where p: "dNodes doc (oId op) = None" "unat (oN op) < 65531"
      "dNodes doc (oParentId op) = Some p"
      using assms(2,3) by (auto simp: op_enabled_def op_fresh_def creates_def)
    note a = named_node [OF tree p(3)]
    let ?doc1 = "set_atoms doc p (extended (nAtoms (dHeap doc ! p)) (unat (oParentN op)))"
    note doc1 = extend_node_ok [OF assms(1) a(1), of ?doc1, OF refl unat16]
    have "nNodeId (dHeap ?doc1 ! p) = oParentId op" using a by simp
    moreover have "abs_doc (add_child ?doc1 p (oParentN op) (oId op) (unat (oN op)) (oAtom op) k) =
        spec_new (abs_doc ?doc1) (Some (nNodeId (dHeap ?doc1 ! p), unat (oParentN op))) op" for k
      using doc1(1,3) p(1) a(1) by (intro abs_add_child) (auto simp: doc_ok_def)
    ultimately show ?thesis
      using InsertNew_ok [OF assms(1) p refl] new abs_result abs_extend [OF tree p(3)]
      by (fastforce simp: ApplyOperation_def spec_apply_def)
  next
    case ins
    then obtain a where a: "dNodes doc (oId op) = Some a"
      "aState (cell_of doc a (unat (oN op))) = UNINITIALIZED"
      using assms(3) by (auto simp: op_enabled_def operation_types split: option.splits)
    show ?thesis
      using Insert_ok [OF assms(1) a(1) refl a(2)] ins abs_result abs_set_cell [OF tree a(1)]
      by (fastforce simp: ApplyOperation_def operation_types spec_apply_def alive_cell_def)
  next
    case del
    then obtain a where a: "dNodes doc (oId op) = Some a"
      "aState (cell_of doc a (unat (oN op))) \<noteq> UNINITIALIZED"
      using assms(3) by (auto simp: op_enabled_def operation_types split: option.splits)
    show ?thesis
      using Delete_ok [OF assms(1) a(1) refl a(2)] del abs_result abs_set_cell [OF tree a(1)]
        abs_extend [OF tree a(1)]
      by (fastforce simp: ApplyOperation_def operation_types spec_apply_def dead_cell_def abs_cell [OF a(1)]
          set_cell_same)
  next
    case root
    then have r: "unat (oN op) < 65531" "dNodes doc (oId op) = None"
      using assms(2,3) by (auto simp: op_enabled_def op_fresh_def creates_def operation_types)
    show ?thesis
      using InsertRoot_ok [OF assms(1) r(2,1)] root abs_result abs_add_root [OF tree r(2)]
      by (fastforce simp: ApplyOperation_def operation_types spec_apply_def)
  next
    case none
    then show ?thesis
      using assms(1) by (auto simp: ApplyOperation_def edit_ok_def edit_in_range_def edit_text_def spec_apply_def)
  qed
qed

section \<open>The abstract state determines the text\<close>

lemma named_self: "tree_ok doc \<Longrightarrow> a < length (dHeap doc) \<Longrightarrow> dNodes doc (nNodeId (dHeap doc ! a)) = Some a"
  using tree_okD(5) by blast

lemma names_unique:
  assumes "tree_ok doc" "a < length (dHeap doc)" "b < length (dHeap doc)"
    "nNodeId (dHeap doc ! a) = nNodeId (dHeap doc ! b)"
  shows "a = b"
  using tree_okD(5) [OF assms(1), of "nNodeId (dHeap doc ! a)" a]
    tree_okD(5) [OF assms(1), of "nNodeId (dHeap doc ! a)" b] assms(2-4) by simp

lemma sibling_ids:
  assumes "tree_ok doc" "a < length (dHeap doc)"
  defines "ds \<equiv> \<lambda>n. aLeft (cell_of doc a n)"
  shows "(\<lambda>c. nNodeId (dHeap doc ! c)) ` set (ds n) =
      {nid. sp_place (abs_doc doc) nid = Some (Some (nNodeId (dHeap doc ! a), n))}"
    and "id_sorted (dHeap doc) (ds n)" and "\<And>c. c \<in> set (ds n) \<Longrightarrow> a < c \<and> c < length (dHeap doc)"
proof -
  let ?H = "dHeap doc"
  have ds: "ds n = (if n < length (nAtoms (?H ! a)) then aLeft (nAtoms (?H ! a) ! n) else [])" for n
    by (simp add: ds_def cell_of_def extended_nth)
  have kid: "c < length ?H" "nParent (?H ! c) = Some a" "unat (nParentN (?H ! c)) = n" "a < c"
    if "c \<in> set (ds n)" for c n
    using that tree_ok_child_nth [OF assms(1,2)] by (auto simp: ds split: if_splits)
  then show "a < c \<and> c < length ?H" if "c \<in> set (ds n)" for c using that by blast
  show "id_sorted ?H (ds n)"
    using tree_okD(1) [OF assms(1,2)] by (auto simp: ds node_ok_def Let_def id_sorted_def)
  show "(\<lambda>c. nNodeId (?H ! c)) ` set (ds n) =
      {nid. sp_place (abs_doc doc) nid = Some (Some (nNodeId (?H ! a), n))}" (is "?L = ?R")
  proof (intro equalityI subsetI)
    fix nid assume "nid \<in> ?L"
    then obtain c where "c \<in> set (ds n)" "nid = nNodeId (?H ! c)" by blast
    then show "nid \<in> ?R" using kid tree_okD(5) [OF assms(1), of nid c] by (auto simp: abs_place_eq)
  next
    fix nid assume "nid \<in> ?R"
    then obtain c p where c: "dNodes doc nid = Some c" "nParent (?H ! c) = Some p"
      "nNodeId (?H ! p) = nNodeId (?H ! a)" "unat (nParentN (?H ! c)) = n"
      by (auto simp: abs_place_eq)
    note node = named_node [OF assms(1) c(1)]
    note up = tree_ok_parent [OF assms(1) node(1) c(2)]
    have "p = a" using names_unique [OF assms(1) _ assms(2) c(3)] up(1) node(1) by simp
    then show "nid \<in> ?L" using up c(4) node(2) by (auto simp: ds)
  qed
qed

lemma root_ids:
  assumes "tree_ok doc"
  shows "(\<lambda>c. nNodeId (dHeap doc ! c)) ` set (dDoc doc) = {nid. sp_place (abs_doc doc) nid = Some None}"
proof (intro equalityI subsetI)
  fix nid assume "nid \<in> (\<lambda>c. nNodeId (dHeap doc ! c)) ` set (dDoc doc)"
  then obtain c where "c \<in> set (dDoc doc)" "nid = nNodeId (dHeap doc ! c)" by blast
  then show "nid \<in> {nid. sp_place (abs_doc doc) nid = Some None}"
    using tree_okD(4) [OF assms] tree_okD(5) [OF assms, of nid c] by (auto simp: abs_place_eq)
next
  fix nid assume "nid \<in> {nid. sp_place (abs_doc doc) nid = Some None}"
  then obtain c where c: "dNodes doc nid = Some c" "nParent (dHeap doc ! c) = None"
    by (auto simp: abs_place_eq)
  note node = named_node [OF assms c(1)]
  then show "nid \<in> (\<lambda>c. nNodeId (dHeap doc ! c)) ` set (dDoc doc)"
    using tree_okD(2) [OF assms node(1)] c(2) by (auto simp: listed_ok_def)
qed

lemma same_ids:
  assumes "id_sorted H ds" "id_sorted H' ds'"
    "(\<lambda>c. nNodeId (H ! c)) ` set ds = (\<lambda>c. nNodeId (H' ! c)) ` set ds'"
  shows "map (\<lambda>c. nNodeId (H ! c)) ds = map (\<lambda>c. nNodeId (H' ! c)) ds'"
proof (rule strict_sorted_equal)
  show "sorted_wrt (<) (map (\<lambda>c. nNodeId (H ! c)) ds)" "sorted_wrt (<) (map (\<lambda>c. nNodeId (H' ! c)) ds')"
    using assms(1,2) by (simp_all add: id_sorted_def sorted_wrt_map)
qed (use assms(3) in simp)

lemma same_ids_text:
  assumes "map (\<lambda>c. nNodeId (H ! c)) ds = map (\<lambda>c. nNodeId (H' ! c)) ds'"
    "\<And>c c'. c \<in> set ds \<Longrightarrow> c' \<in> set ds' \<Longrightarrow> nNodeId (H ! c) = nNodeId (H' ! c') \<Longrightarrow> f c = g c'"
  shows "concat (map f ds) = concat (map g ds')"
proof -
  have len: "length ds = length ds'" using map_eq_imp_length_eq [OF assms(1)] .
  have "f (ds ! i) = g (ds' ! i)" if "i < length ds" for i
    using assms(2) [of "ds ! i" "ds' ! i"] that len arg_cong [OF assms(1), of "\<lambda>xs. xs ! i"] by simp
  then show ?thesis using len by (intro arg_cong [where f = concat] nth_equalityI) auto
qed

lemma abs_node_text:
  assumes "tree_ok d" "tree_ok d'" "abs_doc d = abs_doc d'"
    "a < length (dHeap d)" "a' < length (dHeap d')" "nNodeId (dHeap d ! a) = nNodeId (dHeap d' ! a')"
  shows "node_text (dHeap d) a = node_text (dHeap d') a'"
  using assms(4-6)
proof (induction "length (dHeap d) - a" arbitrary: a a' rule: less_induct)
  case less
  let ?H = "dHeap d" and ?H' = "dHeap d'" and ?as = "nAtoms (dHeap d ! a)" and ?as' = "nAtoms (dHeap d' ! a')"
  let ?m = "max (length ?as) (length ?as')"
  have cell: "cell_text ?H (cell_of d a n) = cell_text ?H' (cell_of d' a' n)" for n
  proof -
    note kids = sibling_ids [OF assms(1) less.prems(1), where n = n]
    note kids' = sibling_ids [OF assms(2) less.prems(2), where n = n]
    have "map (\<lambda>c. nNodeId (?H ! c)) (aLeft (cell_of d a n)) =
        map (\<lambda>c. nNodeId (?H' ! c)) (aLeft (cell_of d' a' n))"
      by (rule same_ids [OF kids(2) kids'(2)]) (simp add: kids(1) kids'(1) assms(3) less.prems(3))
    then have "left_text ?H (cell_of d a n) = left_text ?H' (cell_of d' a' n)"
      unfolding left_text_def
    proof (rule same_ids_text)
      fix c c' assume "c \<in> set (aLeft (cell_of d a n))" "c' \<in> set (aLeft (cell_of d' a' n))"
        "nNodeId (?H ! c) = nNodeId (?H' ! c')"
      then show "node_text ?H c = node_text ?H' c'"
        using kids(3) [of c] kids'(3) [of c'] less.prems(1) by (intro less.hyps) auto
    qed
    moreover have "sp_cell (abs_doc d) (nNodeId (?H ! a)) n = sp_cell (abs_doc d') (nNodeId (?H' ! a')) n"
      using assms(3) less.prems(3) by simp
    then have "own_text (cell_of d a n) = own_text (cell_of d' a' n)"
      using abs_cell [OF named_self [OF assms(1) less.prems(1)], of n]
        abs_cell [OF named_self [OF assms(2) less.prems(2)], of n]
      by (simp add: own_text_def)
    ultimately show ?thesis by (simp add: cell_text_def)
  qed
  have "cells_text ?H (extended ?as ?m) = cells_text ?H' (extended ?as' ?m)"
    unfolding cells_text_def
  proof (rule arg_cong [where f = concat], rule nth_equalityI)
    fix i assume "i < length (map (cell_text ?H) (extended ?as ?m))"
    then show "map (cell_text ?H) (extended ?as ?m) ! i = map (cell_text ?H') (extended ?as' ?m) ! i"
      using cell [of i] extended_nth_le [of i ?m ?as] extended_nth_le [of i ?m ?as']
      by (simp add: extended_facts(1) less_Suc_eq_le cell_of_def)
  qed (simp add: extended_facts)
  then show ?case
    by (simp add: extended_facts node_text_eq [OF assms(1) less.prems(1)] node_text_eq [OF assms(2) less.prems(2)])
qed

lemma abs_doc_text:
  assumes "tree_ok d" "tree_ok d'" "abs_doc d = abs_doc d'"
  shows "doc_text d = doc_text d'"
  unfolding doc_text_def
proof (rule same_ids_text)
  show "map (\<lambda>c. nNodeId (dHeap d ! c)) (dDoc d) = map (\<lambda>c. nNodeId (dHeap d' ! c)) (dDoc d')"
    by (rule same_ids) (simp_all add: tree_okD(3) assms root_ids)
  fix c c' assume "c \<in> set (dDoc d)" "c' \<in> set (dDoc d')" "nNodeId (dHeap d ! c) = nNodeId (dHeap d' ! c')"
  then show "node_text (dHeap d) c = node_text (dHeap d') c'"
    using tree_okD(4) [OF assms(1)] tree_okD(4) [OF assms(2)] by (intro abs_node_text [OF assms]) auto
qed

end
