(* ===== verification/TreedocEdit.thy ===== *)
theory TreedocEdit
  imports TreedocLocal TreedocSpec
begin

text \<open>
  The local operations do what the editor asked for: \<open>DeletePos\<close> deletes the byte at the given
  position, \<open>InsertPos\<close> inserts one there, and the operation each returns is what the other replicas
  need to do the same. The searches of \<open>treedoc2.go\<close> are compared with \<open>locate\<close> and
  \<open>locate_atom\<close>, which walk a slice from its start.
\<close>

section \<open>Searches\<close>

fun locate :: "DocNode list \<Rightarrow> int \<Rightarrow> int \<Rightarrow> addr list \<Rightarrow> int \<times> addr option" where
  "locate H pos acc [] = (acc, None)"
| "locate H pos acc (x # xs) =
     (if acc + nSize (H ! x) > pos then (acc, Some x) else locate H pos (acc + nSize (H ! x)) xs)"

fun locate_atom :: "int \<Rightarrow> int \<Rightarrow> Atom list \<Rightarrow> nat \<Rightarrow> int \<times> nat" where
  "locate_atom pos acc [] i = (acc, i)"
| "locate_atom pos acc (x # xs) i =
     (if acc + aSize x > pos then (acc, i) else locate_atom pos (acc + aSize x) xs (Suc i))"

lemma find_node_locate:
  "acc \<le> pos \<Longrightarrow> i \<le> length nodes \<Longrightarrow> (\<And>x. x \<in> set nodes \<Longrightarrow> 0 \<le> nSize (H ! x)) \<Longrightarrow>
    find_node_loop H pos acc nodes (next_node_from H nodes i) = locate H pos acc (drop i nodes)"
proof (induction "length nodes - i" arbitrary: i acc)
  case 0
  then show ?case by (simp add: next_node_from.simps find_node_loop.simps)
next
  case (Suc k)
  let ?s = "nSize (H ! (nodes ! i))"
  have i: "i < length nodes" using Suc.hyps(2) by simp
  have drop: "drop i nodes = nodes ! i # drop (Suc i) nodes" using i by (simp add: Cons_nth_drop_Suc)
  have IH: "find_node_loop H pos acc' nodes (next_node_from H nodes (Suc i)) = locate H pos acc' (drop (Suc i) nodes)"
    if "acc' \<le> pos" for acc'
    using Suc.hyps(1) [of "Suc i" acc'] Suc.hyps(2) Suc.prems(3) i that by simp
  have nxt: "nextNonEmptyNode H (int i) nodes = next_node_from H nodes (Suc i)"
    by (simp add: nextNonEmptyNode_def nat_add_distrib)
  show ?case
  proof (cases "?s = 0")
    case True
    then show ?thesis
      using i IH [OF Suc.prems(1)] Suc.prems(1) by (simp add: next_node_from.simps [of H nodes i] drop)
  next
    case False
    then have "next_node_from H nodes i = (i, Some (nodes ! i))"
      using i by (simp add: next_node_from.simps [of H nodes i])
    then show ?thesis
      using i IH [of "acc + ?s"] by (simp add: find_node_loop.simps [of H pos acc nodes i] drop nxt)
  qed
qed

lemma findNodePos_locate:
  "acc \<le> pos \<Longrightarrow> (\<And>x. x \<in> set nodes \<Longrightarrow> 0 \<le> nSize (H ! x)) \<Longrightarrow>
    findNodePos H pos acc nodes = locate H pos acc nodes"
  using find_node_locate [of acc pos 0 nodes H] by (simp add: findNodePos_def nextNonEmptyNode_def)

lemma find_atom_locate:
  "acc \<le> pos \<Longrightarrow> i \<le> length atoms \<Longrightarrow>
    find_atom_loop pos acc atoms (next_atom_from (\<lambda>atom. aSize atom \<noteq> 0) atoms i) =
      locate_atom pos acc (drop i atoms) i"
proof (induction "length atoms - i" arbitrary: i acc)
  case 0
  then show ?case by (simp add: next_atom_from.simps find_atom_loop.simps)
next
  case (Suc k)
  let ?P = "\<lambda>atom. aSize atom \<noteq> 0"
  have i: "i < length atoms" using Suc.hyps(2) by simp
  have drop: "drop i atoms = atoms ! i # drop (Suc i) atoms" using i by (simp add: Cons_nth_drop_Suc)
  have IH: "find_atom_loop pos acc' atoms (next_atom_from ?P atoms (Suc i)) = locate_atom pos acc' (drop (Suc i) atoms) (Suc i)"
    if "acc' \<le> pos" for acc'
    using Suc.hyps(1) [of "Suc i" acc'] Suc.hyps(2) i that by simp
  have nxt: "nextNonEmptyAtom (int i) atoms = next_atom_from ?P atoms (Suc i)"
    by (simp add: nextNonEmptyAtom_def nat_add_distrib)
  show ?case
  proof (cases "aSize (atoms ! i) = 0")
    case True
    then show ?thesis
      using i IH [OF Suc.prems(1)] Suc.prems(1) by (simp add: next_atom_from.simps [of ?P atoms i] drop)
  next
    case False
    then have "next_atom_from ?P atoms i = i" using i by (simp add: next_atom_from.simps [of ?P atoms i])
    then show ?thesis
      using i IH [of "acc + aSize (atoms ! i)"]
      by (simp add: find_atom_loop.simps [of pos acc atoms i] drop nxt)
  qed
qed

lemma findAtomPos_locate:
  "acc \<le> pos \<Longrightarrow> findAtomPos pos acc atoms = locate_atom pos acc atoms 0"
  using find_atom_locate [of acc pos 0 atoms] by (simp add: findAtomPos_def nextNonEmptyAtom_def)

lemma locate_some:
  assumes "acc \<le> pos" "pos < acc + nodes_size H ds"
  obtains pre c post where "ds = pre @ c # post" "locate H pos acc ds = (acc + nodes_size H pre, Some c)"
    "acc + nodes_size H pre \<le> pos" "pos < acc + nodes_size H pre + nSize (H ! c)"
  using assms
proof (induction ds arbitrary: acc thesis)
  case (Cons d ds)
  show ?case
  proof (cases "acc + nSize (H ! d) > pos")
    case True
    then show ?thesis using Cons.prems by (intro Cons.prems(1) [of "[]" d ds]) auto
  next
    case False
    from Cons.IH [of "acc + nSize (H ! d)"] False Cons.prems(3)
    obtain pre c post where "ds = pre @ c # post"
      "locate H pos (acc + nSize (H ! d)) ds = (acc + nSize (H ! d) + nodes_size H pre, Some c)"
      "acc + nSize (H ! d) + nodes_size H pre \<le> pos" "pos < acc + nSize (H ! d) + nodes_size H pre + nSize (H ! c)"
      by (auto simp: algebra_simps)
    then show ?thesis using False by (intro Cons.prems(1) [of "d # pre" c post]) auto
  qed
qed simp

lemma locate_none:
  "acc + nodes_size H ds \<le> pos \<Longrightarrow> (\<And>x. x \<in> set ds \<Longrightarrow> 0 \<le> nSize (H ! x)) \<Longrightarrow>
    locate H pos acc ds = (acc + nodes_size H ds, None)"
proof (induction ds arbitrary: acc)
  case (Cons d ds)
  have "0 \<le> nodes_size H ds" using Cons.prems(2) by (auto simp: nodes_size_def intro!: sum_list_nonneg)
  with Cons show ?case by (simp add: algebra_simps)
qed simp

lemma locate_atom_some:
  assumes "acc \<le> pos" "pos < acc + sum_list (map aSize atoms)"
  obtains n where "n < length atoms"
    "locate_atom pos acc atoms i = (acc + sum_list (map aSize (take n atoms)), i + n)"
    "acc + sum_list (map aSize (take n atoms)) \<le> pos"
    "pos < acc + sum_list (map aSize (take n atoms)) + aSize (atoms ! n)"
  using assms
proof (induction atoms arbitrary: acc i thesis)
  case (Cons x atoms)
  show ?case
  proof (cases "acc + aSize x > pos")
    case True
    then show ?thesis using Cons.prems by (intro Cons.prems(1) [of 0]) auto
  next
    case False
    from Cons.IH [of "acc + aSize x" "Suc i"] False Cons.prems(3)
    obtain n where "n < length atoms"
      "locate_atom pos (acc + aSize x) atoms (Suc i) = (acc + aSize x + sum_list (map aSize (take n atoms)), Suc i + n)"
      "acc + aSize x + sum_list (map aSize (take n atoms)) \<le> pos"
      "pos < acc + aSize x + sum_list (map aSize (take n atoms)) + aSize (atoms ! n)"
      by (auto simp: algebra_simps)
    then show ?thesis using False by (intro Cons.prems(1) [of "Suc n"]) auto
  qed
qed simp

section \<open>Walking down to a position\<close>

definition start_of :: "Document \<Rightarrow> addr \<Rightarrow> nat \<Rightarrow> int" where
  "start_of doc a n = int (length (fst (doc_ctx (dHeap doc) (dDoc doc) a) @
     cells_text (dHeap doc) (take n (nAtoms (dHeap doc ! a)))))"

text \<open>The cell that holds a position, in its own byte or in the nodes left of it.\<close>

definition reached :: "Document \<Rightarrow> int \<Rightarrow> int \<Rightarrow> addr \<Rightarrow> nat \<Rightarrow> bool" where
  "reached doc pos acc a n \<longleftrightarrow> a < length (dHeap doc) \<and> n < length (nAtoms (dHeap doc ! a)) \<and>
     acc = start_of doc a n \<and> acc \<le> pos \<and> pos < acc + aSize (nAtoms (dHeap doc ! a) ! n)"

definition hit :: "Document \<Rightarrow> int \<Rightarrow> int \<Rightarrow> addr \<Rightarrow> nat \<Rightarrow> bool" where
  "hit doc pos acc a n \<longleftrightarrow> acc + aSize (nAtoms (dHeap doc ! a) ! n) - 1 = pos \<and>
     aState (nAtoms (dHeap doc ! a) ! n) = ALIVE"

lemma offset_of_start:
  "n < length (nAtoms (dHeap doc ! a)) \<Longrightarrow>
    int (offset_of doc a n) = start_of doc a n + int (length (left_text (dHeap doc) (nAtoms (dHeap doc ! a) ! n)))"
  by (simp add: offset_of_def start_of_def cell_of_def)

lemma hit_offset:
  assumes "doc_ok doc" "reached doc pos acc a n" "hit doc pos acc a n"
  shows "int (offset_of doc a n) = pos"
proof -
  have n: "a < length (dHeap doc)" "n < length (nAtoms (dHeap doc ! a))" "acc = start_of doc a n"
    using assms(2) by (auto simp: reached_def)
  show ?thesis
    using assms(3) offset_of_start [OF n(2)] atom_size_length [OF assms(1) n(1) nth_mem [OF n(2)]] n(3)
    by (auto simp: hit_def cell_text_def own_text_def)
qed

lemma earlier_split: "distinct (pre @ c # post) \<Longrightarrow> earlier c (pre @ c # post) = pre"
  unfolding earlier_def by (subst takeWhile_append2) auto

lemma descend:
  assumes "doc_ok doc" "distinct ds" "\<And>c. c \<in> set ds \<Longrightarrow> c < length (dHeap doc)"
    "\<And>c. c \<in> set ds \<Longrightarrow> start_of doc c 0 = base + nodes_size (dHeap doc) (earlier c ds)"
    "base \<le> pos" "pos < base + nodes_size (dHeap doc) ds"
  obtains c acc n acc' where "c \<in> set ds" "findNodePos (dHeap doc) pos base ds = (acc, Some c)"
    "acc = start_of doc c 0" "acc \<le> pos"
    "findAtomPos pos acc (nAtoms (dHeap doc ! c)) = (acc', n)" "reached doc pos acc' c n"
proof -
  let ?H = "dHeap doc"
  have nonneg: "0 \<le> nSize (?H ! c)" if "c \<in> set ds" for c
    using node_size_length [OF assms(1) assms(3) [OF that]] by simp
  obtain pre c post where c: "ds = pre @ c # post" "locate ?H pos base ds = (base + nodes_size ?H pre, Some c)"
    "base + nodes_size ?H pre \<le> pos" "pos < base + nodes_size ?H pre + nSize (?H ! c)"
    using locate_some [OF assms(5,6)] .
  have pre: "earlier c ds = pre" using assms(2) earlier_split unfolding c(1) by simp
  let ?acc = "base + nodes_size ?H pre" and ?as = "nAtoms (?H ! c)"
  have c_in: "c \<in> set ds" using c(1) by simp
  have acc: "?acc = start_of doc c 0" using assms(4) [OF c_in] pre by simp
  have size: "nSize (?H ! c) = sum_list (map aSize ?as)"
    using assms(1) assms(3) [OF c_in] by (simp add: doc_ok_def sizes_ok_def Let_def)
  then have "pos < ?acc + sum_list (map aSize ?as)" using c(4) by simp
  then obtain n where n: "n < length ?as"
    "locate_atom pos ?acc ?as 0 = (?acc + sum_list (map aSize (take n ?as)), 0 + n)"
    "?acc + sum_list (map aSize (take n ?as)) \<le> pos"
    "pos < ?acc + sum_list (map aSize (take n ?as)) + aSize (?as ! n)"
    using locate_atom_some [OF c(3)] by blast
  have "sum_list (map aSize (take n ?as)) = int (length (cells_text ?H (take n ?as)))"
    using atom_size_length [OF assms(1) assms(3) [OF c_in]] in_set_takeD
    by (intro atoms_size_length) fast
  then have "?acc + sum_list (map aSize (take n ?as)) = start_of doc c n"
    using acc by (simp add: start_of_def)
  then have "reached doc pos (?acc + sum_list (map aSize (take n ?as))) c n"
    using n assms(3) [OF c_in] by (simp add: reached_def)
  moreover have "findNodePos ?H pos base ds = (?acc, Some c)"
    using c(2) findNodePos_locate [OF assms(5)] nonneg by simp
  moreover have "findAtomPos pos ?acc ?as = (?acc + sum_list (map aSize (take n ?as)), n)"
    using n(2) findAtomPos_locate [OF c(3)] by simp
  ultimately show thesis using that [OF c_in _ acc c(3)] by blast
qed

lemma root_start:
  assumes "doc_ok doc" "c \<in> set (dDoc doc)"
  shows "start_of doc c 0 = 0 + nodes_size (dHeap doc) (earlier c (dDoc doc))"
proof -
  have tree: "tree_ok doc" using assms(1) by (simp add: doc_ok_def)
  have "nodes_size (dHeap doc) (earlier c (dDoc doc)) =
      int (length (concat (map (node_text (dHeap doc)) (earlier c (dDoc doc)))))"
    using earlier_mem tree_okD(4) [OF tree] by (intro siblings_size_length [OF assms(1)]) blast
  then show ?thesis
    using tree_okD(4) [OF tree assms(2)] by (simp add: start_of_def doc_ctx.simps [of _ _ c])
qed

lemma child_start:
  assumes "doc_ok doc" "a < length (dHeap doc)" "n < length (nAtoms (dHeap doc ! a))"
    "c \<in> set (aLeft (nAtoms (dHeap doc ! a) ! n))"
  shows "start_of doc c 0 = start_of doc a n +
    nodes_size (dHeap doc) (earlier c (aLeft (nAtoms (dHeap doc ! a) ! n)))"
proof -
  have tree: "tree_ok doc" using assms(1) by (simp add: doc_ok_def)
  note kid = tree_ok_child_nth [OF tree assms(2,3)]
  let ?ds = "aLeft (nAtoms (dHeap doc ! a) ! n)"
  have "nodes_size (dHeap doc) (earlier c ?ds) =
      int (length (concat (map (node_text (dHeap doc)) (earlier c ?ds))))"
    using earlier_mem kid(2) by (intro siblings_size_length [OF assms(1)]) blast
  then show ?thesis
    using kid [OF assms(4)] by (simp add: start_of_def doc_ctx.simps [of _ _ c] Let_def)
qed

lemma descend_child:
  assumes "doc_ok doc" "reached doc pos acc a n" "\<not> hit doc pos acc a n"
  obtains c acc1 n' acc' where "a < c" "c < length (dHeap doc)"
    "findNodePos (dHeap doc) pos acc (aLeft (nAtoms (dHeap doc ! a) ! n)) = (acc1, Some c)"
    "acc1 = start_of doc c 0" "acc1 \<le> pos"
    "findAtomPos pos acc1 (nAtoms (dHeap doc ! c)) = (acc', n')" "reached doc pos acc' c n'"
proof -
  have tree: "tree_ok doc" using assms(1) by (simp add: doc_ok_def)
  have r: "a < length (dHeap doc)" "n < length (nAtoms (dHeap doc ! a))" "acc = start_of doc a n" "acc \<le> pos"
    "pos < acc + aSize (nAtoms (dHeap doc ! a) ! n)"
    using assms(2) by (auto simp: reached_def)
  note kid = tree_ok_child_nth [OF tree r(1,2)]
  let ?atom = "nAtoms (dHeap doc ! a) ! n"
  have "atom_size_ok (dHeap doc) ?atom"
    using assms(1) r(1,2) by (simp add: doc_ok_def sizes_ok_nth)
  then have "pos < acc + nodes_size (dHeap doc) (aLeft ?atom)"
    using r(5) assms(3) by (auto simp: atom_size_ok_def hit_def own_text_def split: if_splits)
  then show thesis
    using descend [OF assms(1) left_distinct [OF tree r(1) nth_mem [OF r(2)]] kid(2)
        child_start [OF assms(1) r(1,2), folded r(3)] r(4)] that kid by metis
qed

lemma reached_index:
  "reached doc pos acc a n \<Longrightarrow>
    index_or_panic (nAtoms (node_at doc a)) n = returns (nAtoms (dHeap doc ! a) ! n)"
  by (simp add: reached_def index_or_panic_def guard_else_def node_at_def)

section \<open>Deletion\<close>

lemma pos_to_id_loop_ok:
  assumes "doc_ok doc" "reached doc pos acc a n"
  shows "\<exists>a' n'. pos_to_id_loop doc pos acc a n = returns (a', n') \<and> a' < length (dHeap doc) \<and>
    n' < length (nAtoms (dHeap doc ! a')) \<and> aState (nAtoms (dHeap doc ! a') ! n') = ALIVE \<and>
    int (offset_of doc a' n') = pos"
  using assms(2)
proof (induction "length (dHeap doc) - a" arbitrary: a n acc rule: less_induct)
  case less
  show ?case
  proof (cases "hit doc pos acc a n")
    case True
    then show ?thesis
      using hit_offset [OF assms(1) less.prems True] less.prems
      by (subst pos_to_id_loop.simps) (simp add: reached_index [OF less.prems], auto simp: hit_def reached_def)
  next
    case False
    obtain c acc1 n' acc' where c: "a < c" "c < length (dHeap doc)"
      "findNodePos (dHeap doc) pos acc (aLeft (nAtoms (dHeap doc ! a) ! n)) = (acc1, Some c)"
      "findAtomPos pos acc1 (nAtoms (dHeap doc ! c)) = (acc', n')" "reached doc pos acc' c n'"
      using descend_child [OF assms(1) less.prems False] by metis
    have "pos_to_id_loop doc pos acc a n = pos_to_id_loop doc pos acc' c n'"
      using False c by (subst pos_to_id_loop.simps)
        (simp add: reached_index [OF less.prems], auto simp: hit_def node_at_def)
    then show ?thesis using less.hyps [OF _ c(5)] c(1,2) by simp
  qed
qed

lemma descend_root:
  assumes "doc_ok doc" "0 \<le> pos" "pos < int (length (doc_text doc))"
  obtains c acc1 n' acc' where "c < length (dHeap doc)"
    "findNodePos (dHeap doc) pos 0 (dDoc doc) = (acc1, Some c)" "acc1 = start_of doc c 0" "acc1 \<le> pos"
    "findAtomPos pos acc1 (nAtoms (dHeap doc ! c)) = (acc', n')" "reached doc pos acc' c n'"
proof -
  have tree: "tree_ok doc" using assms(1) by (simp add: doc_ok_def)
  have "pos < 0 + nodes_size (dHeap doc) (dDoc doc)"
    using assms(1,3) doc_size_length [OF assms(1)] by (simp add: doc_ok_def sizes_ok_nth)
  then show thesis
    using descend [OF assms(1) id_sorted_distinct [OF tree_okD(3) [OF tree]] _ root_start [OF assms(1)] assms(2)]
      tree_okD(4) [OF tree] that by metis
qed

lemma DeletePos_ok:
  assumes "doc_ok doc" "0 \<le> pos" "pos < int (length (doc_text doc))"
  shows "\<exists>doc' op. DeletePos doc pos = returns (doc', op) \<and> oType op = DELETE \<and> op_enabled doc op \<and>
    doc_ok doc' \<and> doc_text doc' = delete_at (nat pos) (doc_text doc) \<and>
    abs_doc doc' = spec_apply (abs_doc doc) op"
proof -
  have tree: "tree_ok doc" using assms(1) by (simp add: doc_ok_def)
  obtain c acc1 n' acc' where c: "findNodePos (dHeap doc) pos 0 (dDoc doc) = (acc1, Some c)"
    "findAtomPos pos acc1 (nAtoms (dHeap doc ! c)) = (acc', n')" "reached doc pos acc' c n'"
    using descend_root [OF assms] by metis
  from pos_to_id_loop_ok [OF assms(1) c(3)] obtain a n where
    a: "pos_to_id_loop doc pos acc' c n' = returns (a, n)" "a < length (dHeap doc)"
      "n < length (nAtoms (dHeap doc ! a))" "aState (nAtoms (dHeap doc ! a) ! n) = ALIVE"
      "int (offset_of doc a n) = pos"
    by blast
  let ?op = "zero_Operation\<lparr>oType := DELETE, oId := nNodeId (dHeap doc ! a), oN := word_of_nat n\<rparr>"
  have n: "unat (word_of_nat n :: uint16) = n"
    using a(3) tree_okD(1) [OF tree a(2)] by (intro unat16_of_nat) (simp add: node_ok_def)
  have named: "dNodes doc (oId ?op) = Some a" using named_self [OF tree a(2)] by simp
  have cell: "aState (cell_of doc a n) = ALIVE" using a(3,4) by (simp add: cell_of_def)
  then have enabled: "op_enabled doc ?op" using named n by (simp add: op_enabled_def operation_types)
  have fresh: "op_fresh doc ?op" by (simp add: op_fresh_def creates_def operation_types)
  obtain doc' b where doc': "Delete doc ?op = returns (doc', b)" "edit_ok doc doc' b"
    "b = \<lparr>bo_Type = BUF_DELETE, bo_Pos = pos, bo_Atom = CHR 0x00\<rparr>"
    using Delete_ok [OF assms(1) named, of n] n cell a(5) by auto
  have "DeletePos doc pos = returns (doc', ?op)"
    using c(1,2) a(1) doc'(1) by (simp add: DeletePos_def posToIdForDel_def node_at_def)
  moreover have "abs_doc doc' = spec_apply (abs_doc doc) ?op"
    using ApplyOperation_refines [OF assms(1) fresh enabled] doc'(1)
    by (auto simp: ApplyOperation_def operation_types)
  ultimately show ?thesis
    using doc'(2,3) enabled by (auto simp: edit_ok_def edit_text_def)
qed

section \<open>Insertion\<close>

definition last_free :: "Document \<Rightarrow> bool" where
  "last_free doc \<longleftrightarrow> (\<forall>nid. fst (sp_cell (abs_doc doc) nid 65535) = UNINITIALIZED)"

definition local_insert :: "NodeId \<Rightarrow> Document \<Rightarrow> Document \<Rightarrow> Operation \<Rightarrow> nat \<Rightarrow> byte \<Rightarrow> bool" where
  "local_insert nodeId doc doc' op p ch \<longleftrightarrow>
     doc_ok doc' \<and> op_fresh doc op \<and> op_enabled doc op \<and> abs_doc doc' = spec_apply (abs_doc doc) op \<and>
     p \<le> length (doc_text doc) \<and> doc_text doc' = insert_at p ch (doc_text doc) \<and>
     oType op \<in> {INSERT_NEW, INSERT_ROOT, INSERT} \<and> (creates op \<longrightarrow> oId op = nodeId) \<and>
     unat (oN op) \<noteq> 65535"

lemma abs_enabled:
  assumes "abs_doc d = abs_doc d'"
  shows "op_enabled d op = op_enabled d' op" "op_fresh d op = op_fresh d' op"
proof -
  have node: "dNodes d nid = None \<longleftrightarrow> dNodes d' nid = None" for nid
    using arg_cong [OF assms, of "\<lambda>s. sp_place s nid"] by (auto simp: abs_doc_def)
  then show "op_fresh d op = op_fresh d' op" by (simp add: op_fresh_def)
  have cell: "aState (cell_of d a n) = aState (cell_of d' a' n)"
    if "dNodes d nid = Some a" "dNodes d' nid = Some a'" for nid a a' n
    using arg_cong [OF assms, of "\<lambda>s. sp_cell s nid n"] that by (simp add: abs_cell)
  show "op_enabled d op = op_enabled d' op"
    using node [of "oId op"] node [of "oParentId op"] cell [of "oId op"]
    by (auto simp: op_enabled_def split: option.splits)
qed

lemma local_insert_abs:
  "abs_doc d = abs_doc doc \<Longrightarrow> doc_text d = doc_text doc \<Longrightarrow> local_insert nodeId d doc' op p ch \<Longrightarrow>
    local_insert nodeId doc doc' op p ch"
  using abs_enabled [of d doc] by (simp add: local_insert_def)

lemma insert_cell_ok:
  assumes "doc_ok doc" "a < length (dHeap doc)" "n < 65535" "aState (cell_of doc a n) = UNINITIALIZED"
  shows "\<exists>doc' op. makeAndApplyInsertOperation doc a n ch = returns (doc', op) \<and>
    local_insert nodeId doc doc' op (offset_of doc a n) ch"
proof -
  let ?op = "zero_Operation\<lparr>oType := INSERT, oId := nNodeId (dHeap doc ! a), oN := word_of_nat n, oAtom := ch\<rparr>"
  have tree: "tree_ok doc" using assms(1) by (simp add: doc_ok_def)
  have n: "unat (word_of_nat n :: uint16) = n" using assms(3) by (intro unat16_of_nat) simp
  have named: "dNodes doc (oId ?op) = Some a" using named_self [OF tree assms(2)] by simp
  have enabled: "op_enabled doc ?op" "op_fresh doc ?op"
    using named n assms(4) by (simp_all add: op_enabled_def op_fresh_def creates_def operation_types)
  obtain doc' b where doc': "Insert doc ?op = returns (doc', b)" "edit_ok doc doc' b"
    "b = \<lparr>bo_Type = BUF_REMOTE_INSERT, bo_Pos = int (offset_of doc a n), bo_Atom = ch\<rparr>"
    using Insert_ok [OF assms(1) named, of n] n assms(4) by auto
  moreover have "abs_doc doc' = spec_apply (abs_doc doc) ?op"
    using ApplyOperation_refines [OF assms(1) enabled(2,1)] doc'(1)
    by (auto simp: ApplyOperation_def operation_types)
  ultimately show ?thesis
    using enabled n assms(3)
    by (auto simp: makeAndApplyInsertOperation_def node_at_def local_insert_def edit_ok_def
        edit_text_def edit_in_range_def creates_def operation_types)
qed

lemma insert_child_ok:
  assumes "doc_ok doc" "a < length (dHeap doc)" "n < 65536" "aLeft (cell_of doc a n) = []"
    "dNodes doc nodeId = None"
    "op = zero_Operation\<lparr>oType := INSERT_NEW, oId := nodeId, oN := 0,
       oParentId := nNodeId (dHeap doc ! a), oParentN := word_of_nat n, oAtom := ch\<rparr>"
  shows "\<exists>doc' b. InsertNew doc op = returns (doc', b) \<and> local_insert nodeId doc doc' op (offset_of doc a n) ch"
proof -
  have tree: "tree_ok doc" using assms(1) by (simp add: doc_ok_def)
  have n: "unat (word_of_nat n :: uint16) = n" using assms(3) by (rule unat16_of_nat)
  have named: "dNodes doc (oParentId op) = Some a" using named_self [OF tree assms(2)] assms(6) by simp
  have op: "dNodes doc (oId op) = None" "unat (oN op) < 65531" using assms(5,6) by auto
  have enabled: "op_enabled doc op" "op_fresh doc op"
    using named assms(5,6) by (simp_all add: op_enabled_def op_fresh_def creates_def operation_types)
  obtain doc' b where doc': "InsertNew doc op = returns (doc', b)" "edit_ok doc doc' b"
    "b = \<lparr>bo_Type = BUF_REMOTE_INSERT, bo_Pos = int (offset_of doc a n), bo_Atom = ch\<rparr>"
    using InsertNew_ok [OF assms(1) op named refl] n assms(4,6) by auto
  moreover have "abs_doc doc' = spec_apply (abs_doc doc) op"
    using ApplyOperation_refines [OF assms(1) enabled(2,1)] doc'(1) assms(6)
    by (auto simp: ApplyOperation_def operation_types)
  ultimately show ?thesis
    using enabled assms(6)
    by (auto simp: local_insert_def edit_ok_def edit_text_def edit_in_range_def)
qed

lemma last_free_cell:
  assumes "last_free doc" "tree_ok doc" "a < length (dHeap doc)"
  shows "aState (cell_of doc a 65535) = UNINITIALIZED"
  using assms(1) abs_cell [OF named_self [OF assms(2,3)], of 65535] unfolding last_free_def by (metis fst_conv)

text \<open>The free cell at the end of a node, where the next byte of the node goes.\<close>

definition end_cell :: "Atom list \<Rightarrow> nat" where
  "end_cell atoms = (if aState (last atoms) = UNINITIALIZED then length atoms - 1 else length atoms)"

lemma end_cell_facts:
  assumes "doc_ok doc" "last_free doc" "a < length (dHeap doc)"
  defines "n \<equiv> end_cell (nAtoms (dHeap doc ! a))"
  shows "n < 65536" "aState (cell_of doc a n) = UNINITIALIZED"
    "int (offset_of doc a n) = start_of doc a 0 + nSize (dHeap doc ! a)"
proof -
  let ?as = "nAtoms (dHeap doc ! a)"
  have tree: "tree_ok doc" using assms(1) by (simp add: doc_ok_def)
  have as: "?as \<noteq> []" "length ?as \<le> 65536" using tree_okD(1) [OF tree assms(3)] by (auto simp: node_ok_def)
  show "n < 65536"
  proof (rule ccontr)
    assume "\<not> n < 65536"
    then have "length ?as = 65536" "aState (last ?as) \<noteq> UNINITIALIZED"
      using as by (auto simp: n_def end_cell_def split: if_splits)
    then show False
      using last_free_cell [OF assms(2) tree assms(3)] as by (simp add: cell_of_def extended_nth last_conv_nth)
  qed
  show cell: "aState (cell_of doc a n) = UNINITIALIZED"
    using as by (simp add: n_def end_cell_def cell_of_def extended_nth last_conv_nth)
  have "cells_text (dHeap doc) ?as =
      cells_text (dHeap doc) (take n (extended ?as n)) @ left_text (dHeap doc) (cell_of doc a n)"
  proof (cases "aState (last ?as) = UNINITIALIZED")
    case True
    then have n: "n = length ?as - 1" "n < length ?as" using as by (auto simp: n_def end_cell_def)
    then have "?as = take n ?as @ [?as ! n]"
      using take_nth_drop [OF n(2)] by (metis One_nat_def Suc_pred drop_all gr0I le_refl length_0_conv as(1))
    then have "cells_text (dHeap doc) ?as = cells_text (dHeap doc) (take n ?as @ [?as ! n])" by simp
    then show ?thesis using n cell by (simp add: cell_of_def cell_text_def own_text_def)
  next
    case False
    then have "n = length ?as" by (simp add: n_def end_cell_def)
    then show ?thesis by (simp add: extended_def cell_of_def nth_append left_text_def)
  qed
  then show "int (offset_of doc a n) = start_of doc a 0 + nSize (dHeap doc ! a)"
    using node_size_length [OF assms(1,3)] node_text_eq [OF tree assms(3)]
    by (simp add: offset_of_def start_of_def)
qed

lemma open_last_atom_ok:
  assumes "doc_ok doc" "last_free doc" "a < length (dHeap doc)"
  obtains doc1 n where "open_last_atom doc a = returns (doc1, n)" "doc_ok doc1" "doc_text doc1 = doc_text doc"
    "abs_doc doc1 = abs_doc doc" "length (dHeap doc1) = length (dHeap doc)" "dNodes doc1 = dNodes doc"
    "n < 65536" "n < length (nAtoms (dHeap doc1 ! a))" "aState (nAtoms (dHeap doc1 ! a) ! n) = UNINITIALIZED"
    "int (offset_of doc1 a n) = start_of doc a 0 + nSize (dHeap doc ! a)"
proof -
  let ?as = "nAtoms (dHeap doc ! a)" and ?n = "end_cell (nAtoms (dHeap doc ! a))"
  let ?doc = "set_atoms doc a (extended ?as ?n)"
  have tree: "tree_ok doc" using assms(1) by (simp add: doc_ok_def)
  have as: "?as \<noteq> []" using tree_okD(1) [OF tree assms(3)] by (auto simp: node_ok_def)
  note facts = end_cell_facts [OF assms]
  note ext = extend_node_ok [OF assms(1,3) refl facts(1)]
  have "open_last_atom doc a = returns (?doc, ?n)"
    using as unat16_of_nat [OF facts(1)]
    by (simp add: open_last_atom_def node_at_def guard_else_def extendAtomToSize_ok set_atoms_def end_cell_def
        last_conv_nth Let_def)
  moreover have "aState (nAtoms (dHeap ?doc ! a) ! ?n) = UNINITIALIZED"
    using facts(2) assms(3) by (simp add: set_atoms_nth cell_of_def)
  moreover have "offset_of ?doc a ?n = offset_of doc a ?n"
    using set_cell_facts(6) [OF assms(1,3) refl _ _ facts(1), where delta = 0] by (simp add: set_cell_same)
  ultimately show thesis
    using that [of ?doc ?n] ext facts abs_extend [OF tree named_self [OF tree assms(3)]] by simp
qed

lemma canDoInsert_eq:
  "n < length (nAtoms node) \<Longrightarrow> canDoInsert node n nodeId =
    returns (aSize (nAtoms node ! n) = 0 \<and> aState (nAtoms node ! n) = UNINITIALIZED \<and>
      EqualSiteIdInNodeId nodeId (nNodeId node) \<and> int n \<noteq> MAX_ATOMS_PER_NODE)"
  by (simp add: canDoInsert_def index_or_panic_def guard_else_def)

lemma last_child_end:
  assumes "doc_ok doc" "a < length (dHeap doc)" "n < length (nAtoms (dHeap doc ! a))"
    "aLeft (nAtoms (dHeap doc ! a) ! n) \<noteq> []"
  defines "c \<equiv> last (aLeft (nAtoms (dHeap doc ! a) ! n))"
  shows "a < c" "c < length (dHeap doc)"
    "start_of doc c 0 + nSize (dHeap doc ! c) = int (offset_of doc a n)"
proof -
  let ?ds = "aLeft (nAtoms (dHeap doc ! a) ! n)"
  have tree: "tree_ok doc" using assms(1) by (simp add: doc_ok_def)
  have c: "c \<in> set ?ds" using assms(4) by (simp add: c_def)
  note kid = tree_ok_child_nth [OF tree assms(2,3)]
  show "a < c" "c < length (dHeap doc)" using kid [OF c] by auto
  have ds: "?ds = butlast ?ds @ [c]" using assms(4) by (simp add: c_def)
  with left_distinct [OF tree assms(2) nth_mem [OF assms(3)]]
  have "earlier c ?ds = butlast ?ds" using earlier_split [of "butlast ?ds" c "[]"] by simp
  then have "start_of doc c 0 + nSize (dHeap doc ! c) = start_of doc a n + nodes_size (dHeap doc) ?ds"
    using child_start [OF assms(1-3) c] ds by (metis add.assoc nodes_size_simps add_0_right)
  moreover have "nodes_size (dHeap doc) ?ds = int (length (left_text (dHeap doc) (nAtoms (dHeap doc ! a) ! n)))"
    unfolding left_text_def using kid(2) by (rule siblings_size_length [OF assms(1)])
  ultimately show "start_of doc c 0 + nSize (dHeap doc ! c) = int (offset_of doc a n)"
    using offset_of_start [OF assms(3)] by simp
qed

lemma insertPosNewHelper_ok:
  assumes "doc_ok doc" "last_free doc" "a < length (dHeap doc)" "n < length (nAtoms (dHeap doc ! a))"
    "dNodes doc nodeId = None"
  shows "\<exists>doc' op. insertPosNewHelper doc a n nodeId ch = returns (doc', op) \<and>
    local_insert nodeId doc doc' op (offset_of doc a n) ch"
  using assms
proof (induction "length (dHeap doc) - a" arbitrary: doc a n rule: less_induct)
  case less
  let ?atom = "nAtoms (dHeap doc ! a) ! n"
  have tree: "tree_ok doc" using less.prems(1) by (simp add: doc_ok_def)
  have index: "index_or_panic (nAtoms (dHeap doc ! a)) n = returns ?atom"
    using less.prems(4) by (simp add: index_or_panic_def guard_else_def)
  show ?case
  proof (cases "aLeft ?atom = []")
    case True
    then have "n < 65536" "aLeft (cell_of doc a n) = []"
      using less.prems(4) tree_okD(1) [OF tree less.prems(3)] by (auto simp: node_ok_def cell_of_def)
    from insert_child_ok [OF less.prems(1,3) this less.prems(5) refl, of ch] True show ?thesis
      by (subst insertPosNewHelper.simps) (auto simp: index node_at_def)
  next
    case False
    let ?c = "last (aLeft ?atom)"
    note c = last_child_end [OF less.prems(1,3,4) False]
    obtain doc1 m where doc1: "open_last_atom doc ?c = returns (doc1, m)" "doc_ok doc1"
      "doc_text doc1 = doc_text doc" "abs_doc doc1 = abs_doc doc" "length (dHeap doc1) = length (dHeap doc)"
      "dNodes doc1 = dNodes doc" "m < 65536" "m < length (nAtoms (dHeap doc1 ! ?c))"
      "aState (nAtoms (dHeap doc1 ! ?c) ! m) = UNINITIALIZED"
      "int (offset_of doc1 ?c m) = start_of doc ?c 0 + nSize (dHeap doc ! ?c)"
      using open_last_atom_ok [OF less.prems(1,2) c(2)] .
    have offset: "offset_of doc1 ?c m = offset_of doc a n" using doc1(10) c(3) by simp
    have c1: "?c < length (dHeap doc1)" using c(2) doc1(5) by simp
    let ?b = "aSize (nAtoms (dHeap doc1 ! ?c) ! m) = 0 \<and> EqualSiteIdInNodeId nodeId (nNodeId (dHeap doc1 ! ?c)) \<and>
      int m \<noteq> MAX_ATOMS_PER_NODE"
    have step: "insertPosNewHelper doc a n nodeId ch =
        (if ?b then makeAndApplyInsertOperation doc1 ?c m ch else insertPosNewHelper doc1 ?c m nodeId ch)"
      using False doc1(1,8,9)
      by (subst insertPosNewHelper.simps) (simp add: index canDoInsert_eq node_at_def Let_def)
    have "\<exists>doc' op. insertPosNewHelper doc a n nodeId ch = returns (doc', op) \<and>
        local_insert nodeId doc1 doc' op (offset_of doc1 ?c m) ch"
    proof (cases ?b)
      case True
      then have "m < 65535" "aState (cell_of doc1 ?c m) = UNINITIALIZED"
        using doc1(7-9) by (auto simp: MAX_ATOMS_PER_NODE_def cell_of_def)
      with True insert_cell_ok [OF doc1(2) c1] show ?thesis by (simp add: step)
    next
      case False
      have "last_free doc1" using less.prems(2) doc1(4) by (simp add: last_free_def)
      moreover have "length (dHeap doc1) - ?c < length (dHeap doc) - a" using c doc1(5) by simp
      ultimately show ?thesis
        using less.hyps [OF _ doc1(2) _ c1 doc1(8)] less.prems(5) doc1(6)
        unfolding step if_not_P [OF False] by simp
    qed
    then show ?thesis using local_insert_abs [OF doc1(4,3)] offset by metis
  qed
qed

text \<open>
  \<open>findAtomForInsertHelper\<close> may answer \<open>INSERT\<close> for a free cell that follows a non-empty one, which is
  not where the byte belongs; a node without such a hole is searched like \<open>findAtomPos\<close> searches.
\<close>

definition has_hole :: "DocNode \<Rightarrow> bool" where
  "has_hole node \<longleftrightarrow> (\<exists>i<length (nAtoms node). aSize (nAtoms node ! i) \<noteq> 0 \<and>
     (\<exists>k<length (nAtoms node). i < k \<and> int k \<noteq> MAX_ATOMS_PER_NODE \<and> aSize (nAtoms node ! k) = 0 \<and>
        aState (nAtoms node ! k) = UNINITIALIZED))"

definition own_holes :: "Document \<Rightarrow> NodeId \<Rightarrow> bool" where
  "own_holes doc nodeId \<longleftrightarrow>
     (\<exists>node\<in>set (dHeap doc). EqualSiteIdInNodeId nodeId (nNodeId node) \<and> has_hole node)"

lemma next_atom_from_nonempty:
  "next_atom_from P atoms i < length atoms \<Longrightarrow> P (atoms ! next_atom_from P atoms i)"
proof (induction P atoms i rule: next_atom_from.induct)
  case (1 P atoms i)
  then show ?case by (subst next_atom_from.simps, subst (asm) (2) next_atom_from.simps) (auto split: if_splits)
qed

lemma find_insert_no_hole:
  assumes "\<not> (EqualSiteIdInNodeId nodeId (nNodeId node) \<and> has_hole node)"
    "i < length (nAtoms node) \<Longrightarrow> aSize (nAtoms node ! i) \<noteq> 0"
  shows "find_insert_loop pos acc nodeId node i =
    (case find_atom_loop pos acc (nAtoms node) i of (acc, n) \<Rightarrow> returns (NO_OPERATION, acc, n))"
  using assms(2)
proof (induction pos acc "nAtoms node" i rule: find_atom_loop.induct)
  case (1 pos acc i)
  let ?as = "nAtoms node"
  show ?case
  proof (cases "i < length ?as")
    case False
    then show ?thesis by (simp add: find_insert_loop.simps [of pos acc nodeId node i] find_atom_loop.simps [of pos acc ?as i])
  next
    case True
    let ?k = "nextNonEmptyOrUninitializedAtom (int i) ?as"
    have size: "aSize (?as ! i) \<noteq> 0" using "1.prems" True by simp
    have later: "nextNonEmptyAtom (int i) ?as < length ?as \<Longrightarrow> aSize (?as ! nextNonEmptyAtom (int i) ?as) \<noteq> 0"
      unfolding nextNonEmptyAtom_def by (rule next_atom_from_nonempty)
    have "i < ?k" unfolding nextNonEmptyOrUninitializedAtom_def
      using next_atom_from_ge [of "nat (int i + 1)" _ ?as] by (simp add: nat_add_distrib Suc_le_eq)
    have "canDoInsert node ?k nodeId = returns False"
      if "?k < length ?as" "EqualSiteIdInNodeId nodeId (nNodeId node)"
    proof -
      have "\<not> has_hole node" using assms(1) that(2) by simp
      then have "\<not> (int ?k \<noteq> MAX_ATOMS_PER_NODE \<and> aSize (?as ! ?k) = 0 \<and> aState (?as ! ?k) = UNINITIALIZED)"
        unfolding has_hole_def using True size that(1) \<open>i < ?k\<close> by blast
      then show ?thesis using that(1) by (auto simp: canDoInsert_eq)
    qed
    moreover have "canDoInsert node i nodeId = returns False" using True size by (simp add: canDoInsert_eq)
    ultimately have "find_insert_loop pos acc nodeId node i =
        (if acc + aSize (?as ! i) > pos then returns (NO_OPERATION, acc, i)
         else find_insert_loop pos (acc + aSize (?as ! i)) nodeId node (nextNonEmptyAtom (int i) ?as))"
      using True by (simp add: find_insert_loop.simps [of pos acc nodeId node i] Let_def)
    then show ?thesis
      using "1.hyps" [OF True _ later] True by (simp add: find_atom_loop.simps [of pos acc ?as i])
  qed
qed

lemma findAtomForInsertHelper_no_hole:
  assumes "\<not> own_holes doc nodeId" "c < length (dHeap doc)"
  shows "findAtomForInsertHelper pos acc nodeId (node_at doc c) =
    (case findAtomPos pos acc (nAtoms (dHeap doc ! c)) of (acc, n) \<Rightarrow> returns (NO_OPERATION, acc, n))"
  unfolding findAtomForInsertHelper_def findAtomPos_def node_at_def
proof (rule find_insert_no_hole)
  show "\<not> (EqualSiteIdInNodeId nodeId (nNodeId (dHeap doc ! c)) \<and> has_hole (dHeap doc ! c))"
    using assms nth_mem unfolding own_holes_def by blast
qed (simp add: nextNonEmptyAtom_def next_atom_from_nonempty [where P = "\<lambda>atom. aSize atom \<noteq> 0"])

lemma insert_pos_loop_ok:
  assumes "doc_ok doc" "last_free doc" "\<not> own_holes doc nodeId" "dNodes doc nodeId = None"
    "reached doc pos acc a n"
  shows "\<exists>doc' op. insert_pos_loop doc nodeId pos ch acc a n = returns (doc', op) \<and>
    local_insert nodeId doc doc' op (nat pos) ch"
  using assms(5)
proof (induction "length (dHeap doc) - a" arbitrary: a n acc rule: less_induct)
  case less
  have a: "a < length (dHeap doc)" "n < length (nAtoms (dHeap doc ! a))" using less.prems by (auto simp: reached_def)
  show ?case
  proof (cases "hit doc pos acc a n")
    case True
    have "insert_pos_loop doc nodeId pos ch acc a n = insertPosNewHelper doc a n nodeId ch"
      using True by (subst insert_pos_loop.simps) (simp add: reached_index [OF less.prems], auto simp: hit_def)
    then show ?thesis
      using insertPosNewHelper_ok [OF assms(1,2) a assms(4)] hit_offset [OF assms(1) less.prems True] by auto
  next
    case False
    obtain c acc1 n' acc' where c: "a < c" "c < length (dHeap doc)"
      "findNodePos (dHeap doc) pos acc (aLeft (nAtoms (dHeap doc ! a) ! n)) = (acc1, Some c)"
      "findAtomPos pos acc1 (nAtoms (dHeap doc ! c)) = (acc', n')" "reached doc pos acc' c n'"
      using descend_child [OF assms(1) less.prems False] by metis
    have "insert_pos_loop doc nodeId pos ch acc a n = insert_pos_loop doc nodeId pos ch acc' c n'"
      using False c by (subst insert_pos_loop.simps)
        (simp add: reached_index [OF less.prems] findAtomForInsertHelper_no_hole [OF assms(3) c(2)],
          auto simp: hit_def operation_types)
    then show ?thesis using less.hyps [OF _ c(5)] c(1,2) by simp
  qed
qed

lemma insert_at_end_ok:
  assumes "doc_ok doc" "last_free doc" "dNodes doc nodeId = None" "dDoc doc \<noteq> []" "r = last (dDoc doc)"
  shows "\<exists>doc' op. pbind (open_last_atom doc r) (\<lambda>(doc, n).
      pbind (canDoInsert (node_at doc r) n nodeId) (\<lambda>b.
      if b then makeAndApplyInsertOperation doc r n ch
      else insertPosNewHelper doc r n nodeId ch)) = returns (doc', op) \<and>
    local_insert nodeId doc doc' op (length (doc_text doc)) ch"
proof -
  let ?a = "last (dDoc doc)"
  have tree: "tree_ok doc" using assms(1) by (simp add: doc_ok_def)
  have a: "?a \<in> set (dDoc doc)" "?a < length (dHeap doc)" using assms(4) tree_okD(4) [OF tree] by auto
  obtain doc1 m where doc1: "open_last_atom doc ?a = returns (doc1, m)" "doc_ok doc1"
    "doc_text doc1 = doc_text doc" "abs_doc doc1 = abs_doc doc" "length (dHeap doc1) = length (dHeap doc)"
    "dNodes doc1 = dNodes doc" "m < 65536" "m < length (nAtoms (dHeap doc1 ! ?a))"
    "aState (nAtoms (dHeap doc1 ! ?a) ! m) = UNINITIALIZED"
    "int (offset_of doc1 ?a m) = start_of doc ?a 0 + nSize (dHeap doc ! ?a)"
    using open_last_atom_ok [OF assms(1,2) a(2)] .
  have ds: "dDoc doc = butlast (dDoc doc) @ [?a]" using assms(4) by simp
  with id_sorted_distinct [OF tree_okD(3) [OF tree]]
  have "earlier ?a (dDoc doc) = butlast (dDoc doc)" using earlier_split [of "butlast (dDoc doc)" ?a "[]"] by simp
  then have "start_of doc ?a 0 + nSize (dHeap doc ! ?a) = nodes_size (dHeap doc) (dDoc doc)"
    using root_start [OF assms(1) a(1)] ds by (metis add_0 nodes_size_simps add_0_right)
  then have offset: "offset_of doc1 ?a m = length (doc_text doc)"
    using doc1(10) doc_size_length [OF assms(1)] assms(1) by (simp add: doc_ok_def sizes_ok_nth)
  have a1: "?a < length (dHeap doc1)" using a(2) doc1(5) by simp
  have "\<exists>doc' op. (if aSize (nAtoms (dHeap doc1 ! ?a) ! m) = 0 \<and>
        EqualSiteIdInNodeId nodeId (nNodeId (dHeap doc1 ! ?a)) \<and> int m \<noteq> MAX_ATOMS_PER_NODE
      then makeAndApplyInsertOperation doc1 ?a m ch else insertPosNewHelper doc1 ?a m nodeId ch) =
        returns (doc', op) \<and> local_insert nodeId doc1 doc' op (offset_of doc1 ?a m) ch"
    using insert_cell_ok [OF doc1(2) a1, of m ch] insertPosNewHelper_ok [OF doc1(2) _ a1 doc1(8), of nodeId ch]
      doc1(4,6-9) assms(2,3) by (auto simp: MAX_ATOMS_PER_NODE_def cell_of_def last_free_def)
  then show ?thesis
    using local_insert_abs [OF doc1(4,3)] offset doc1(1,8,9) assms(5)
    by (fastforce simp: canDoInsert_eq node_at_def)
qed

lemma InsertPos_ok:
  assumes "doc_ok doc" "last_free doc" "\<not> own_holes doc nodeId" "dNodes doc nodeId = None"
    "0 \<le> pos" "pos \<le> int (length (doc_text doc))"
  shows "\<exists>doc' op. InsertPos doc nodeId pos ch = returns (doc', op) \<and> local_insert nodeId doc doc' op (nat pos) ch"
proof -
  have tree: "tree_ok doc" using assms(1) by (simp add: doc_ok_def)
  note size = doc_size_length [OF assms(1)]
  consider (empty) "doc_text doc = []" | (inside) "pos < int (length (doc_text doc))"
    | (at_end) "doc_text doc \<noteq> []" "pos = int (length (doc_text doc))"
    using assms(6) by fastforce
  then show ?thesis
  proof cases
    case empty
    let ?op = "zero_Operation\<lparr>oType := INSERT_ROOT, oId := nodeId, oN := 0, oAtom := ch\<rparr>"
    have "op_enabled doc ?op" "op_fresh doc ?op"
      using assms(4) by (simp_all add: op_enabled_def op_fresh_def creates_def operation_types)
    moreover from ApplyOperation_refines [OF assms(1) this(2,1)] InsertRoot_ok [OF assms(1), of ?op] assms(4)
    obtain doc' b where
      "InsertRoot doc ?op = returns (doc', b)" "edit_ok doc doc' b" "abs_doc doc' = spec_apply (abs_doc doc) ?op"
      "bo_Type b = BUF_REMOTE_INSERT" "bo_Atom b = ch"
      by (auto simp: ApplyOperation_def operation_types)
    ultimately show ?thesis
      using empty assms(5,6) size
      by (auto simp: InsertPos_def local_insert_def edit_ok_def edit_text_def edit_in_range_def Let_def)
  next
    case inside
    obtain c acc1 n' acc' where c: "c < length (dHeap doc)"
      "findNodePos (dHeap doc) pos 0 (dDoc doc) = (acc1, Some c)"
      "findAtomPos pos acc1 (nAtoms (dHeap doc ! c)) = (acc', n')" "reached doc pos acc' c n'"
      using descend_root [OF assms(1,5) inside] by metis
    have "dSize doc \<noteq> 0" using inside assms(5) size by linarith
    then have "InsertPos doc nodeId pos ch = insert_pos_loop doc nodeId pos ch acc' c n'"
      using c(2,3)
      by (simp add: InsertPos_def findAtomForInsertHelper_no_hole [OF assms(3) c(1)] operation_types)
    then show ?thesis using insert_pos_loop_ok [OF assms(1-4) c(4)] by simp
  next
    case at_end
    have roots: "nodes_size (dHeap doc) (dDoc doc) = pos"
      using size at_end assms(1) by (simp add: doc_ok_def sizes_ok_nth)
    have "findNodePos (dHeap doc) pos 0 (dDoc doc) = (pos, None)"
      using findNodePos_locate [of 0 pos "dDoc doc" "dHeap doc"] locate_none [of 0 "dHeap doc" "dDoc doc" pos]
        node_size_length [OF assms(1)] tree_okD(4) [OF tree] assms(5) roots by simp
    moreover have "dDoc doc \<noteq> []" using at_end(1) by (auto simp: doc_text_def)
    ultimately show ?thesis
      using insert_at_end_ok [OF assms(1,2,4) _ refl, of ch] at_end size
      by (simp add: InsertPos_def guard_else_def Let_def)
  qed
qed

end
