(* ===== verification/Version.thy ===== *)
theory Version
  imports Ids Gossip "HOL-Library.AList"
begin

text \<open>
  Version vectors: \<^verbatim>\<open>version/version.go\<close>. A Go map is an association list with distinct keys;
  the order of the list is the order in which one \<open>range\<close> loop happens to visit the map, so a fact
  that holds for every list holds for every iteration order. A missing key reads as 0.
\<close>

section \<open>The vector and its operations\<close>

type_synonym VersionVector = "(SiteId \<times> uint32) list"

definition vv_ok :: "VersionVector \<Rightarrow> bool" where
  "vv_ok v \<longleftrightarrow> distinct (map fst v)"

definition LESS_THAN :: int where "LESS_THAN = -1"
definition EQUAL :: int where "EQUAL = 0"
definition GREATER_THAN :: int where "GREATER_THAN = 1"
definition CONFLICT :: int where "CONFLICT = 2"

lemmas compare_consts = LESS_THAN_def EQUAL_def GREATER_THAN_def CONFLICT_def

definition NewVector :: VersionVector where
  "NewVector = []"

definition Get :: "VersionVector \<Rightarrow> SiteId \<Rightarrow> uint32" where
  "Get vector sid = (case map_of vector sid of None \<Rightarrow> 0 | Some n \<Rightarrow> n)"

definition Increment :: "VersionVector \<Rightarrow> SiteId \<Rightarrow> VersionVector" where
  "Increment vector sid = AList.update sid (Get vector sid + 1) vector"

definition IncrementTo :: "VersionVector \<Rightarrow> SiteId \<Rightarrow> uint32 \<Rightarrow> VersionVector" where
  "IncrementTo vector sid i =
     (if Get vector sid < i then AList.update sid i vector else vector)"

definition DecrementTo :: "VersionVector \<Rightarrow> SiteId \<Rightarrow> uint32 \<Rightarrow> VersionVector" where
  "DecrementTo vector sid i =
     (if Get vector sid > i then AList.update sid i vector else vector)"

fun Merge :: "VersionVector \<Rightarrow> VersionVector \<Rightarrow> VersionVector" where
  "Merge vector [] = vector"
| "Merge vector ((k, v) # v2) =
     Merge (if Get vector k < v then AList.update k v vector else vector) v2"

definition Copy :: "VersionVector \<Rightarrow> VersionVector" where
  "Copy vector = fold (\<lambda>(k, v) newVector. AList.update k v newVector) vector NewVector"

text \<open>The two loops of \<open>Compare\<close>: \<open>Inl\<close> is the early \<open>return\<close>, \<open>Inr r\<close> goes on with \<open>r\<close>.\<close>

fun compare_v1 :: "VersionVector \<Rightarrow> VersionVector \<Rightarrow> int \<Rightarrow> int + int" where
  "compare_v1 [] v2 r = Inr r"
| "compare_v1 ((k, v) # v1) v2 r =
     (if v > Get v2 k then
        (if r = EQUAL then compare_v1 v1 v2 GREATER_THAN
         else if r = LESS_THAN then Inl CONFLICT else compare_v1 v1 v2 r)
      else if v < Get v2 k then
        (if r = EQUAL then compare_v1 v1 v2 LESS_THAN
         else if r = GREATER_THAN then Inl CONFLICT else compare_v1 v1 v2 r)
      else compare_v1 v1 v2 r)"

fun compare_v2 :: "VersionVector \<Rightarrow> VersionVector \<Rightarrow> int \<Rightarrow> int + int" where
  "compare_v2 v1 [] r = Inr r"
| "compare_v2 v1 ((k, v) # v2) r =
     (if v > Get v1 k then
        (if r = EQUAL then compare_v2 v1 v2 LESS_THAN
         else if r = GREATER_THAN then Inl CONFLICT else compare_v2 v1 v2 r)
      else if v < Get v1 k then
        (if r = EQUAL then compare_v2 v1 v2 GREATER_THAN
         else if r = LESS_THAN then Inl CONFLICT else compare_v2 v1 v2 r)
      else compare_v2 v1 v2 r)"

definition Compare :: "VersionVector \<Rightarrow> VersionVector \<Rightarrow> int" where
  "Compare v1 v2 =
     (case compare_v1 v1 v2 EQUAL of
        Inl c \<Rightarrow> c
      | Inr r \<Rightarrow> (case compare_v2 v1 v2 r of Inl c \<Rightarrow> c | Inr r' \<Rightarrow> r'))"

section \<open>The JSON form of a vector\<close>

text \<open>
  \<open>json.Marshal\<close> and \<open>json.Unmarshal\<close> on a map from strings to numbers are the parameters
  \<open>marshal\<close> and \<open>unmarshal\<close> (\<open>None\<close> is the error).
\<close>

type_synonym VersionVectorJson = "(string \<times> uint32) list"

definition ToJsonable :: "VersionVector \<Rightarrow> VersionVectorJson" where
  "ToJsonable version =
     fold (\<lambda>(k, v) newVector. AList.update (SiteId_ToString k) v newVector) version []"

definition FromVersionVectorJson :: "VersionVectorJson \<Rightarrow> VersionVector" where
  "FromVersionVectorJson json =
     fold (\<lambda>(k, v) newVector. AList.update (StringToSiteId k) v newVector) json []"

definition MarshalJSON :: "(VersionVectorJson \<Rightarrow> byte list) \<Rightarrow> VersionVector \<Rightarrow> byte list" where
  "MarshalJSON marshal version = marshal (ToJsonable version)"

definition UnmarshalJSON ::
  "(byte list \<Rightarrow> VersionVectorJson option) \<Rightarrow> byte list \<Rightarrow> VersionVector option" where
  "UnmarshalJSON unmarshal data = map_option FromVersionVectorJson (unmarshal data)"

section \<open>Reading a vector after an operation\<close>

lemma Get_simps [simp]:
  "Get [] k = 0"
  "Get ((k', v) # vs) k = (if k' = k then v else Get vs k)"
  by (simp_all add: Get_def)

lemma Get_update [simp]: "Get (AList.update k v vec) k' = (if k' = k then v else Get vec k')"
  by (simp add: Get_def update_conv')

lemma Get_NewVector [simp]: "Get NewVector k = 0"
  by (simp add: NewVector_def)

lemma Get_Increment [simp]:
  "Get (Increment v k) k' = (if k' = k then Get v k + 1 else Get v k')"
  by (simp add: Increment_def)

lemma Get_IncrementTo [simp]:
  "Get (IncrementTo v k i) k' = (if k' = k then max (Get v k) i else Get v k')"
  by (auto simp: IncrementTo_def max_def not_less)

lemma Get_DecrementTo [simp]:
  "Get (DecrementTo v k i) k' = (if k' = k then min (Get v k) i else Get v k')"
  by (auto simp: DecrementTo_def min_def)

lemma Get_notin: "k \<notin> fst ` set v \<Longrightarrow> Get v k = 0"
  by (induction v) auto

lemma Get_Merge:
  assumes "vv_ok v2"
  shows "Get (Merge vector v2) k = max (Get vector k) (Get v2 k)"
  using assms
proof (induction vector v2 rule: Merge.induct)
  case (2 vector k' v v2)
  have ok: "vv_ok v2" and fresh: "Get v2 k' = 0"
    using "2.prems" by (auto simp: vv_ok_def intro!: Get_notin)
  show ?case
    using "2.IH" [OF ok] fresh by (auto simp: max_def not_less)
qed simp

lemma Get_fold_update:
  assumes "vv_ok v" and inj: "inj_on g (fst ` set v)" and "k \<in> fst ` set v"
  shows "Get (fold (\<lambda>(k, x) nv. AList.update (g k) x nv) v acc) (g k) = Get v k"
  using assms
proof (induction v arbitrary: acc)
  case Nil
  then show ?case by simp
next
  case (Cons kx v)
  obtain k' x where kx: "kx = (k', x)" by (cases kx)
  have keep: "Get (fold (\<lambda>(k, x) nv. AList.update (g k) x nv) vs acc) j = Get acc j"
    if "j \<notin> g ` fst ` set vs" for vs acc j
    using that by (induction vs arbitrary: acc) auto
  show ?case
  proof (cases "k = k'")
    case True
    moreover have "g k' \<notin> g ` fst ` set v"
      using Cons.prems(1,2) by (fastforce simp: kx vv_ok_def inj_on_def)
    ultimately show ?thesis by (simp add: kx keep)
  next
    case False
    with Cons.prems have "vv_ok v" "inj_on g (fst ` set v)" "k \<in> fst ` set v"
      by (auto simp: kx vv_ok_def)
    from Cons.IH [OF this] False show ?thesis by (simp add: kx)
  qed
qed


section \<open>Vectors as clocks: the pointwise order\<close>

definition vle :: "VersionVector \<Rightarrow> VersionVector \<Rightarrow> bool" where
  "vle v1 v2 \<longleftrightarrow> (\<forall>k. Get v1 k \<le> Get v2 k)"

text \<open>What a comparison has seen so far: entries where the left is above, and below.\<close>

definition verdict :: "bool \<Rightarrow> bool \<Rightarrow> int + int" where
  "verdict g l = (if g \<and> l then Inl CONFLICT
     else Inr (if g then GREATER_THAN else if l then LESS_THAN else EQUAL))"

lemma compare_v1_verdict:
  "\<not> (g \<and> l) \<Longrightarrow>
   compare_v1 v1 v2 (if g then GREATER_THAN else if l then LESS_THAN else EQUAL) =
   verdict (g \<or> (\<exists>(k, v)\<in>set v1. Get v2 k < v)) (l \<or> (\<exists>(k, v)\<in>set v1. v < Get v2 k))"
proof (induction v1 arbitrary: g l)
  case Nil
  then show ?case by (simp add: verdict_def)
next
  case (Cons kv v1)
  obtain k v where [simp]: "kv = (k, v)" by (cases kv)
  show ?case
    using Cons.IH [of True False] Cons.IH [of False True] Cons.IH [of False False] Cons.prems
    by (cases "Get v2 k < v"; cases "v < Get v2 k"; cases g; cases l)
       (simp_all add: compare_consts verdict_def)
qed

lemma compare_v2_verdict:
  "\<not> (g \<and> l) \<Longrightarrow>
   compare_v2 v1 v2 (if g then GREATER_THAN else if l then LESS_THAN else EQUAL) =
   verdict (g \<or> (\<exists>(k, v)\<in>set v2. v < Get v1 k)) (l \<or> (\<exists>(k, v)\<in>set v2. Get v1 k < v))"
proof (induction v2 arbitrary: g l)
  case Nil
  then show ?case by (simp add: verdict_def)
next
  case (Cons kv v2)
  obtain k v where [simp]: "kv = (k, v)" by (cases kv)
  show ?case
    using Cons.IH [of True False] Cons.IH [of False True] Cons.IH [of False False] Cons.prems
    by (cases "Get v1 k < v"; cases "v < Get v1 k"; cases g; cases l)
       (simp_all add: compare_consts verdict_def)
qed

lemma Get_in_set: "vv_ok v \<Longrightarrow> (k, x) \<in> set v \<Longrightarrow> Get v k = x"
  by (simp add: Get_def vv_ok_def)

lemma vv_entry: "Get v k \<noteq> 0 \<Longrightarrow> (k, Get v k) \<in> set v"
  by (induction v) (auto split: if_splits)

lemma vv_ok_update [simp]: "vv_ok v \<Longrightarrow> vv_ok (AList.update k x v)"
  by (simp add: vv_ok_def distinct_update)

lemma vv_ok_Merge [simp]: "vv_ok v \<Longrightarrow> vv_ok (Merge v v2)"
  by (induction v v2 rule: Merge.induct) auto

lemma above_iff:
  assumes "vv_ok v1" and "vv_ok v2"
  shows "(\<exists>(k, v)\<in>set v1. Get v2 k < v) \<or> (\<exists>(k, v)\<in>set v2. v < Get v1 k) \<longleftrightarrow> \<not> vle v1 v2"
proof
  assume "(\<exists>(k, v)\<in>set v1. Get v2 k < v) \<or> (\<exists>(k, v)\<in>set v2. v < Get v1 k)"
  then show "\<not> vle v1 v2"
    using assms by (auto simp: vle_def not_le dest: Get_in_set)
next
  assume "\<not> vle v1 v2"
  then obtain k where k: "Get v2 k < Get v1 k" by (auto simp: vle_def not_le)
  then have "Get v1 k \<noteq> 0" by auto
  with k vv_entry show "(\<exists>(k, v)\<in>set v1. Get v2 k < v) \<or> (\<exists>(k, v)\<in>set v2. v < Get v1 k)"
    by fastforce
qed

lemma Compare_eq:
  assumes "vv_ok v1" and "vv_ok v2"
  shows "Compare v1 v2 =
     (if vle v1 v2 then (if vle v2 v1 then EQUAL else LESS_THAN)
      else if vle v2 v1 then GREATER_THAN else CONFLICT)"
proof -
  define g1 l1 where "g1 \<longleftrightarrow> (\<exists>(k, v)\<in>set v1. Get v2 k < v)"
    and "l1 \<longleftrightarrow> (\<exists>(k, v)\<in>set v1. v < Get v2 k)"
  define g2 l2 where "g2 \<longleftrightarrow> (\<exists>(k, v)\<in>set v2. v < Get v1 k)"
    and "l2 \<longleftrightarrow> (\<exists>(k, v)\<in>set v2. Get v1 k < v)"
  have first: "compare_v1 v1 v2 EQUAL = verdict g1 l1"
    using compare_v1_verdict [of False False v1 v2] by (simp add: g1_def l1_def)
  have second: "\<not> (g1 \<and> l1) \<Longrightarrow>
      compare_v2 v1 v2 (if g1 then GREATER_THAN else if l1 then LESS_THAN else EQUAL) =
      verdict (g1 \<or> g2) (l1 \<or> l2)"
    unfolding g2_def l2_def by (rule compare_v2_verdict)
  have both: "Compare v1 v2 = (case verdict (g1 \<or> g2) (l1 \<or> l2) of Inl c \<Rightarrow> c | Inr r \<Rightarrow> r)"
    using second by (cases g1; cases l1) (simp_all add: Compare_def first verdict_def)
  have g: "g1 \<or> g2 \<longleftrightarrow> \<not> vle v1 v2"
    unfolding g1_def g2_def by (rule above_iff [OF assms])
  have l: "l1 \<or> l2 \<longleftrightarrow> \<not> vle v2 v1"
    unfolding l1_def l2_def using above_iff [OF assms(2,1)] by blast
  show ?thesis unfolding both g l by (simp add: verdict_def)
qed

lemma Compare_GE:
  "vv_ok v1 \<Longrightarrow> vv_ok v2 \<Longrightarrow>
   Compare v1 v2 = GREATER_THAN \<or> Compare v1 v2 = EQUAL \<longleftrightarrow> vle v2 v1"
  by (simp add: Compare_eq) (simp add: compare_consts)

interpretation vector_gossip: join_merge Merge Get Get vv_ok
  by unfold_locales (rule Get_Merge)

section \<open>Properties\<close>

text \<open>\<open>Compare\<close>, two loops over the maps with early exits, decides the componentwise order of
  vectors in which a missing entry counts as 0.\<close>

theorem Compare_decides:
  assumes "vv_ok v1" and "vv_ok v2"
  shows "Compare v1 v2 =
     (if vle v1 v2 then (if vle v2 v1 then EQUAL else LESS_THAN)
      else if vle v2 v1 then GREATER_THAN else CONFLICT)"
  by (rule Compare_eq [OF assms])

theorem Compare_decides_witness:
  "Compare [(''a'', 2), (''b'', 1)] [(''a'', 1), (''b'', 3)] = CONFLICT"
proof -
  let ?v = "[(''a'', 2), (''b'', 1)] :: VersionVector" and ?w = "[(''a'', 1), (''b'', 3)] :: VersionVector"
  have "\<not> Get ?v ''a'' \<le> Get ?w ''a''" "\<not> Get ?w ''b'' \<le> Get ?v ''b''" by (simp_all add: word_le_nat_alt)
  then have "\<not> vle ?v ?w" "\<not> vle ?w ?v" unfolding vle_def by blast+
  then show ?thesis using Compare_decides [of ?v ?w] by (simp add: vv_ok_def)
qed
text \<open>\<open>Merge\<close> gives the least vector above both: above each argument, and below every vector
  above both.\<close>

theorem Merge_least_upper_bound:
  assumes "vv_ok v2"
  shows "vle v1 (Merge v1 v2) \<and> vle v2 (Merge v1 v2) \<and>
    (\<forall>u. vle v1 u \<longrightarrow> vle v2 u \<longrightarrow> vle (Merge v1 v2) u)"
  using Get_Merge [OF assms, of v1] by (auto simp: vle_def)

theorem Merge_least_upper_bound_witness:
  "vle [(''a'', 2)] (Merge [(''a'', 2)] [(''a'', 1), (''b'', 3)])"
  using Merge_least_upper_bound [of "[(''a'', 1), (''b'', 3)]" "[(''a'', 2)]"] by (simp add: vv_ok_def)

end
