(* ===== verification/OpQueue.thy ===== *)
theory OpQueue
  imports Version Treedoc "HOL-Library.Multiset"
begin

text \<open>
  The queue of remote operations that wait for the operations they depend on:
  \<^verbatim>\<open>documentmanager/operationqueue.go\<close>, with the record of \<^verbatim>\<open>remoteop.go\<close>. \<open>dequeHelper\<close> compacts the slice
  in place and calls itself on the part it has already scanned; \<open>deque_loop\<close> is its loop over the
  array. The vector is a Go map shared by the nested calls, so the loop returns it.

  \<open>drains\<close> is what the loop means: a scheduler that reads the queue from the front, drops what was
  applied before, delivers what is ready and then looks again at what it had to leave.
\<close>

section \<open>Operations and queue\<close>

record RemoteOperation =
  ro_Vector :: VersionVector
  ro_Id :: SiteId
  ro_Version :: uint32
  ro_Op :: Operation

record OperationQueue =
  queue :: "RemoteOperation list"
  q_vector :: VersionVector

definition NewQueue :: OperationQueue where
  "NewQueue = \<lparr>queue = [], q_vector = NewVector\<rparr>"

definition Queue_Size :: "OperationQueue \<Rightarrow> int" where
  "Queue_Size q = int (length (queue q))"

definition covers :: "VersionVector \<Rightarrow> RemoteOperation \<Rightarrow> bool" where
  "covers v op \<longleftrightarrow> Compare v (ro_Vector op) = GREATER_THAN \<or> Compare v (ro_Vector op) = EQUAL"

function deque_loop ::
  "RemoteOperation list \<Rightarrow> nat \<Rightarrow> VersionVector \<Rightarrow> RemoteOperation list \<Rightarrow> nat \<Rightarrow> nat \<Rightarrow>
   RemoteOperation list \<times> VersionVector \<times> RemoteOperation list \<times> nat" where
  "deque_loop q upTo v result i offset =
     (if i < upTo then
        let q = (if offset \<noteq> 0 then q[i - offset := q ! i] else q); elem = q ! i in
        if Get v (ro_Id elem) \<ge> ro_Version elem then deque_loop q upTo v result (Suc i) (offset + 1)
        else if covers v elem then
          case deque_loop q (i - offset) (Increment v (ro_Id elem)) (result @ [elem]) 0 0 of
            (q, v, result, offsetp) \<Rightarrow> deque_loop q upTo v result (Suc i) (offset + offsetp + 1)
        else deque_loop q upTo v result (Suc i) offset
      else (q, v, result, offset))"
  by pat_completeness auto
termination
  by (relation "measures [\<lambda>(q, upTo, v, result, i, offset). upTo,
      \<lambda>(q, upTo, v, result, i, offset). upTo - i]") auto

declare deque_loop.simps [simp del]

definition dequeHelper ::
  "RemoteOperation list \<Rightarrow> RemoteOperation list \<Rightarrow> nat \<Rightarrow> VersionVector \<Rightarrow>
   RemoteOperation list \<times> VersionVector \<times> RemoteOperation list \<times> nat" where
  "dequeHelper result q upTo vector = deque_loop q upTo vector result 0 0"

definition Enqueue ::
  "OperationQueue \<Rightarrow> RemoteOperation \<Rightarrow> VersionVector \<Rightarrow> OperationQueue \<times> RemoteOperation list" where
  "Enqueue q elem vector =
     (if Get vector (ro_Id elem) = ro_Version elem - 1 \<and> covers vector elem then
        case dequeHelper [elem] (queue q) (length (queue q)) (Increment vector (ro_Id elem)) of
          (ops, _, result, offset) \<Rightarrow> (q\<lparr>queue := take (length ops - offset) ops\<rparr>, result)
      else (q\<lparr>queue := queue q @ [elem]\<rparr>, []))"

fun queue_missing_loop ::
  "VersionVector \<Rightarrow> RemoteOperation list \<Rightarrow> RemoteOperation list \<Rightarrow> RemoteOperation list" where
  "queue_missing_loop vector [] result = result"
| "queue_missing_loop vector (elem # q) result =
     queue_missing_loop vector q
       (if Get vector (ro_Id elem) < ro_Version elem then result @ [elem] else result)"

definition Queue_GetMissingOperations ::
  "OperationQueue \<Rightarrow> VersionVector \<Rightarrow> RemoteOperation list" where
  "Queue_GetMissingOperations q vector = queue_missing_loop vector (queue q) []"

section \<open>The scheduler the loop implements\<close>

definition applied :: "VersionVector \<Rightarrow> RemoteOperation \<Rightarrow> bool" where
  "applied v op \<longleftrightarrow> ro_Version op \<le> Get v (ro_Id op)"

inductive drains ::
  "VersionVector \<Rightarrow> RemoteOperation list \<Rightarrow> RemoteOperation list \<Rightarrow>
   VersionVector \<Rightarrow> RemoteOperation list \<Rightarrow> RemoteOperation list \<Rightarrow> bool" where
  drains_done: "drains v kept [] v [] kept"
| drains_drop: "applied v x \<Longrightarrow> drains v kept xs v' out kept' \<Longrightarrow> drains v kept (x # xs) v' out kept'"
| drains_keep: "\<not> applied v x \<Longrightarrow> \<not> covers v x \<Longrightarrow> drains v (kept @ [x]) xs v' out kept' \<Longrightarrow>
    drains v kept (x # xs) v' out kept'"
| drains_deliver: "\<not> applied v x \<Longrightarrow> covers v x \<Longrightarrow>
    drains (Increment v (ro_Id x)) [] kept v1 out1 kept1 \<Longrightarrow> drains v1 kept1 xs v2 out2 kept2 \<Longrightarrow>
    drains v kept (x # xs) v2 (x # out1 @ out2) kept2"

inductive_cases drains_NilE: "drains v kept [] v' out kept'"
inductive_cases drains_ConsE: "drains v kept (x # xs) v' out kept'"

lemma drains_length: "drains v kept xs v' out kept' \<Longrightarrow> length kept' \<le> length kept + length xs"
  by (induction rule: drains.induct) auto

lemma deque_loop_drains:
  assumes "offset \<le> i" "i \<le> upTo" "upTo \<le> length q"
  shows "\<exists>q' v' out kept'. deque_loop q upTo v result i offset = (q', v', result @ out, upTo - length kept') \<and>
    drains v (take (i - offset) q) (take (upTo - i) (drop i q)) v' out kept' \<and>
    length kept' \<le> upTo - offset \<and> length q' = length q \<and>
    take (length kept') q' = kept' \<and> drop upTo q' = drop upTo q"
  using assms
proof (induction q upTo v result i offset rule: deque_loop.induct)
  case (1 q upTo v result i offset)
  define q1 where "q1 = (if offset \<noteq> 0 then q[i - offset := q ! i] else q)"
  have q1: "length q1 = length q" "take (i - offset) q1 = take (i - offset) q" "drop (Suc i) q1 = drop (Suc i) q"
    "drop upTo q1 = drop upTo q"
    using "1.prems" by (auto simp: q1_def)
  show ?case
  proof (cases "i < upTo")
    case False
    then have "drains v (take (i - offset) q) (take (upTo - i) (drop i q)) v [] (take (i - offset) q)"
      by (simp add: drains_done)
    moreover have "deque_loop q upTo v result i offset = (q, v, result @ [], upTo - length (take (i - offset) q))"
      using False "1.prems" by (subst deque_loop.simps) simp
    ultimately show ?thesis
      using False "1.prems" by (intro exI conjI) (assumption, assumption, auto)
  next
    case True
    let ?x = "q ! i" and ?rest = "take (upTo - Suc i) (drop (Suc i) q)"
    have i: "i < length q" using True "1.prems" by simp
    have x: "q1 ! i = ?x" using i "1.prems" by (auto simp: q1_def nth_list_update)
    have rest: "take (upTo - i) (drop i q) = ?x # ?rest"
      using True i by (metis Cons_nth_drop_Suc Suc_diff_Suc take_Suc_Cons)
    have kept: "take (Suc (i - offset)) q1 = take (i - offset) q @ [?x]"
      using i "1.prems" by (auto simp: q1_def take_Suc_conv_app_nth nth_list_update)
    note step = deque_loop.simps [of q upTo v result i offset, folded q1_def]
    consider (old) "applied v ?x" | (ready) "\<not> applied v ?x" "covers v ?x"
      | (wait) "\<not> applied v ?x" "\<not> covers v ?x" by blast
    then show ?thesis
    proof cases
      case old
      then have "deque_loop q upTo v result i offset = deque_loop q1 upTo v result (Suc i) (offset + 1)"
        using True by (subst step) (simp add: x applied_def Let_def)
      moreover obtain q' v' out kept' where rec:
        "deque_loop q1 upTo v result (Suc i) (offset + 1) = (q', v', result @ out, upTo - length kept')"
        "drains v (take (i - offset) q) ?rest v' out kept'" "length kept' \<le> upTo - (offset + 1)"
        "length q' = length q" "take (length kept') q' = kept'" "drop upTo q' = drop upTo q"
        using "1.IH"(1) [OF True q1_def refl] old True "1.prems" by (auto simp: x q1 applied_def)
      ultimately have "deque_loop q upTo v result i offset = (q', v', result @ out, upTo - length kept')"
        "length kept' \<le> upTo - offset" by auto
      with drains_drop [OF old rec(2), folded rest] rec(4-6) show ?thesis by blast
    next
      case wait
      then have "deque_loop q upTo v result i offset = deque_loop q1 upTo v result (Suc i) offset"
        using True by (subst step) (simp add: x applied_def Let_def)
      moreover obtain q' v' out kept' where rec:
        "deque_loop q1 upTo v result (Suc i) offset = (q', v', result @ out, upTo - length kept')"
        "drains v (take (i - offset) q @ [?x]) ?rest v' out kept'" "length kept' \<le> upTo - offset"
        "length q' = length q" "take (length kept') q' = kept'" "drop upTo q' = drop upTo q"
        using "1.IH"(4) [OF True q1_def refl] wait True "1.prems"
        by (auto simp: x q1 applied_def Suc_diff_le kept)
      ultimately have "deque_loop q upTo v result i offset = (q', v', result @ out, upTo - length kept')" by simp
      with drains_keep [OF wait rec(2), folded rest] rec(3-6) show ?thesis by blast
    next
      case ready
      let ?v = "Increment v (ro_Id ?x)"
      from "1.IH"(2) [OF True q1_def refl] ready "1.prems" True q1
      obtain q2 v1 out1 kept1 where nested:
        "deque_loop q1 (i - offset) ?v (result @ [?x]) 0 0 = (q2, v1, (result @ [?x]) @ out1, i - offset - length kept1)"
        "drains ?v [] (take (i - offset) q1) v1 out1 kept1" "length kept1 \<le> i - offset" "length q2 = length q1"
        "take (length kept1) q2 = kept1" "drop (i - offset) q2 = drop (i - offset) q1"
        by (fastforce simp: x applied_def)
      have tail: "drop n q2 = drop n q" if "Suc i \<le> n" for n
        using arg_cong [OF nested(6), of "drop (n - (i - offset))"] arg_cong [OF q1(3), of "drop (n - Suc i)"] that
          "1.prems"(1) by simp
      let ?off = "offset + (i - offset - length kept1) + 1"
      have off: "Suc i - ?off = length kept1" using nested(3) "1.prems"(1) by simp
      have "\<exists>q' v' out kept'. deque_loop q2 upTo v1 ((result @ [?x]) @ out1) (Suc i) ?off =
            (q', v', ((result @ [?x]) @ out1) @ out, upTo - length kept') \<and>
          drains v1 (take (Suc i - ?off) q2) (take (upTo - Suc i) (drop (Suc i) q2)) v' out kept' \<and>
          length kept' \<le> upTo - ?off \<and> length q' = length q2 \<and> take (length kept') q' = kept' \<and>
          drop upTo q' = drop upTo q2"
        by (rule "1.IH"(3) [OF True q1_def refl _ _ _ refl refl])
          (use ready nested(1,3,4) True "1.prems" in \<open>auto simp: x applied_def q1(1)\<close>)
      then obtain q' v' out kept' where rec:
          "deque_loop q2 upTo v1 ((result @ [?x]) @ out1) (Suc i) ?off = (q', v', ((result @ [?x]) @ out1) @ out, upTo - length kept')"
          "drains v1 (take (Suc i - ?off) q2) (take (upTo - Suc i) (drop (Suc i) q2)) v' out kept'"
          "length kept' \<le> upTo - ?off" "length q' = length q2" "take (length kept') q' = kept'" "drop upTo q' = drop upTo q2"
        by blast
      have "deque_loop q upTo v result i offset = (q', v', result @ (?x # out1 @ out), upTo - length kept')"
        using True ready nested(1) rec(1) by (subst step) (simp add: x applied_def Let_def)
      moreover have "drains v1 kept1 ?rest v' out kept'"
        using rec(2) nested(5) off tail [of "Suc i"] by simp
      then have "drains v (take (i - offset) q) (take (upTo - i) (drop i q)) v' (?x # out1 @ out) kept'"
        unfolding rest using ready nested(2) by (intro drains_deliver) (simp_all add: q1(2))
      moreover have "length kept' \<le> upTo - offset" "length q' = length q" "drop upTo q' = drop upTo q"
        using rec(3,4,6) nested(4) q1(1) tail [of upTo] True by auto
      ultimately show ?thesis using rec(5) by (intro exI conjI) assumption+
    qed
  qed
qed

section \<open>What the queue delivers\<close>

definition deliverable :: "VersionVector \<Rightarrow> RemoteOperation \<Rightarrow> bool" where
  "deliverable v op \<longleftrightarrow> \<not> applied v op \<and> covers v op"

fun delivers :: "VersionVector \<Rightarrow> RemoteOperation list \<Rightarrow> VersionVector \<Rightarrow> bool" where
  "delivers v [] v' \<longleftrightarrow> v' = v"
| "delivers v (op # ops) v' \<longleftrightarrow> deliverable v op \<and> delivers (Increment v (ro_Id op)) ops v'"

lemma delivers_append: "delivers v (xs @ ys) v' \<longleftrightarrow> (\<exists>v1. delivers v xs v1 \<and> delivers v1 ys v')"
  by (induction xs arbitrary: v) auto

lemma drains_delivers: "drains v kept xs v' out kept' \<Longrightarrow> delivers v out v'"
  by (induction rule: drains.induct) (auto simp: delivers_append deliverable_def)

lemma drains_none_left:
  "drains v kept xs v' out kept' \<Longrightarrow> \<forall>op\<in>set kept. \<not> deliverable v op \<Longrightarrow>
    \<forall>op\<in>set kept'. \<not> deliverable v' op"
  by (induction rule: drains.induct) (auto simp: deliverable_def)

lemma Increment_mono:
  assumes "deliverable v op"
  shows "Get v k \<le> Get (Increment v (ro_Id op)) k"
proof -
  have "Get v (ro_Id op) < ro_Version op" using assms by (auto simp: deliverable_def applied_def)
  then have "Get v (ro_Id op) \<le> Get v (ro_Id op) + 1" by (rule uint32_succ(2))
  then show ?thesis by simp
qed

lemma delivers_mono: "delivers v ops v' \<Longrightarrow> Get v k \<le> Get v' k"
proof (induction ops arbitrary: v)
  case (Cons op ops)
  then have "Get v k \<le> Get (Increment v (ro_Id op)) k" "Get (Increment v (ro_Id op)) k \<le> Get v' k"
    by (auto simp del: Get_Increment intro: Increment_mono)
  then show ?case by (rule order_trans)
qed simp

lemma drains_all_accounted:
  "drains v kept xs v' out kept' \<Longrightarrow>
    \<exists>dropped. mset kept + mset xs = mset out + mset kept' + mset dropped \<and> (\<forall>op\<in>set dropped. applied v' op)"
proof (induction rule: drains.induct)
  case (drains_done v kept)
  then show ?case by (intro exI [of _ "[]"]) simp
next
  case (drains_drop v x kept xs v' out kept')
  then obtain dropped where "mset kept + mset xs = mset out + mset kept' + mset dropped"
    "\<forall>op\<in>set dropped. applied v' op" by blast
  moreover have "applied v' x"
    using drains_drop(1) delivers_mono [OF drains_delivers [OF drains_drop(2)], of "ro_Id x"]
    by (auto simp: applied_def)
  ultimately show ?case by (intro exI [of _ "x # dropped"]) auto
next
  case (drains_keep v x kept xs v' out kept')
  then show ?case by auto
next
  case (drains_deliver v x kept v1 out1 kept1 xs v2 out2 kept2)
  then obtain d1 d2 where "mset kept = mset out1 + mset kept1 + mset d1" "\<forall>op\<in>set d1. applied v1 op"
    "mset kept1 + mset xs = mset out2 + mset kept2 + mset d2" "\<forall>op\<in>set d2. applied v2 op" by auto
  moreover have "applied v2 op" if "applied v1 op" for op
    using that delivers_mono [OF drains_delivers [OF drains_deliver(4)], of "ro_Id op"]
    by (auto simp: applied_def)
  ultimately show ?case by (intro exI [of _ "d1 @ d2"]) (auto simp: ac_simps)
qed

lemma Enqueue_ready:
  assumes "Get v (ro_Id op) = ro_Version op - 1" "covers v op" "Enqueue q op v = (q', out)"
  shows "\<exists>v' out'. out = op # out' \<and> drains (Increment v (ro_Id op)) [] (queue q) v' out' (queue q') \<and>
    q_vector q' = q_vector q"
proof -
  let ?v = "Increment v (ro_Id op)"
  obtain ops v' out' kept where
    "deque_loop (queue q) (length (queue q)) ?v [op] 0 0 = (ops, v', [op] @ out', length (queue q) - length kept)"
    "drains ?v [] (queue q) v' out' kept" "length kept \<le> length (queue q)" "length ops = length (queue q)"
    "take (length kept) ops = kept"
    using deque_loop_drains [of 0 0 "length (queue q)" "queue q" ?v "[op]"] by auto
  then show ?thesis using assms by (auto simp: Enqueue_def dequeHelper_def)
qed

lemma Enqueue_wait:
  "\<not> (Get v (ro_Id op) = ro_Version op - 1 \<and> covers v op) \<Longrightarrow>
    Enqueue q op v = (q\<lparr>queue := queue q @ [op]\<rparr>, [])"
  unfolding Enqueue_def by auto

lemma queue_missing_eq:
  "Queue_GetMissingOperations q vector =
    filter (\<lambda>op. Get vector (ro_Id op) < ro_Version op) (queue q)"
proof -
  have "queue_missing_loop vector ops acc = acc @ filter (\<lambda>op. Get vector (ro_Id op) < ro_Version op) ops"
    for ops acc by (induction ops arbitrary: acc) auto
  then show ?thesis by (simp add: Queue_GetMissingOperations_def)
qed

section \<open>Causal delivery\<close>

text \<open>
  An operation as a site broadcasts it: its vector is what the site had applied before, so the
  site's own entry is one less than the operation's version.
\<close>

definition stamped :: "RemoteOperation \<Rightarrow> bool" where
  "stamped op \<longleftrightarrow> vv_ok (ro_Vector op) \<and> ro_Version op \<noteq> 0 \<and>
     Get (ro_Vector op) (ro_Id op) = ro_Version op - 1"

fun causally_ordered :: "VersionVector \<Rightarrow> RemoteOperation list \<Rightarrow> bool" where
  "causally_ordered v [] \<longleftrightarrow> True"
| "causally_ordered v (op # ops) \<longleftrightarrow> vle (ro_Vector op) v \<and> Get v (ro_Id op) + 1 = ro_Version op \<and>
     causally_ordered (IncrementTo v (ro_Id op) (ro_Version op)) ops"

lemma deliverable_stamped:
  assumes "vv_ok v" "stamped op"
  shows "deliverable v op \<longleftrightarrow> vle (ro_Vector op) v \<and> Get v (ro_Id op) + 1 = ro_Version op"
proof -
  have covers: "covers v op \<longleftrightarrow> vle (ro_Vector op) v"
    using Compare_GE [OF assms(1), of "ro_Vector op"] assms(2) by (auto simp: covers_def stamped_def)
  have own: "vle (ro_Vector op) v \<Longrightarrow> ro_Version op - 1 \<le> Get v (ro_Id op)"
    using assms(2) by (metis stamped_def vle_def)
  have "Get v (ro_Id op) < ro_Version op \<and> ro_Version op - 1 \<le> Get v (ro_Id op) \<longleftrightarrow>
      Get v (ro_Id op) + 1 = ro_Version op"
    using assms(2) by (intro uint32_next_iff) (simp add: stamped_def)
  then show ?thesis using covers own by (auto simp: deliverable_def applied_def)
qed

lemma Increment_stamped:
  assumes "Get v (ro_Id op) + 1 = ro_Version op" "ro_Version op \<noteq> 0"
  shows "Increment v (ro_Id op) = IncrementTo v (ro_Id op) (ro_Version op)"
proof -
  have "Get v (ro_Id op) < ro_Version op" using uint32_next_iff [OF assms(2)] assms(1) by blast
  then show ?thesis using assms(1) by (simp add: Increment_def IncrementTo_def)
qed

lemma delivers_causal:
  assumes "vv_ok v" "\<forall>op\<in>set ops. stamped op" "delivers v ops v'"
  shows "causally_ordered v ops"
  using assms
proof (induction ops arbitrary: v)
  case (Cons op ops)
  have next_op: "vle (ro_Vector op) v" "Get v (ro_Id op) + 1 = ro_Version op"
    using deliverable_stamped [OF Cons.prems(1), of op] Cons.prems(2,3) by auto
  have "Increment v (ro_Id op) = IncrementTo v (ro_Id op) (ro_Version op)"
    using Increment_stamped [OF next_op(2)] Cons.prems(2) by (simp add: stamped_def)
  moreover have "vv_ok (Increment v (ro_Id op))" using Cons.prems(1) by (simp add: Increment_def)
  ultimately show ?case using Cons.IH [of "Increment v (ro_Id op)"] Cons.prems next_op by simp
qed simp

lemma Enqueue_causal:
  assumes "vv_ok v" "stamped op" "\<forall>x\<in>set (queue q). stamped x" "\<forall>x\<in>set (queue q). \<not> deliverable v x"
    "Enqueue q op v = (q', out)"
  shows "causally_ordered v out"
    and "\<exists>v'. delivers v out v' \<and> (\<forall>x\<in>set (queue q'). \<not> deliverable v' x) \<and>
      (\<exists>dropped. mset (queue q) + {#op#} = mset out + mset (queue q') + mset dropped \<and>
        (\<forall>x\<in>set dropped. applied v' x))"
proof -
  have both: "causally_ordered v out \<and> (\<exists>v'. delivers v out v' \<and> (\<forall>x\<in>set (queue q'). \<not> deliverable v' x) \<and>
      (\<exists>dropped. mset (queue q) + {#op#} = mset out + mset (queue q') + mset dropped \<and>
        (\<forall>x\<in>set dropped. applied v' x)))"
  proof (cases "Get v (ro_Id op) = ro_Version op - 1 \<and> covers v op")
    case True
    have "Get v (ro_Id op) < ro_Version op"
      using True assms(2) uint32_next_iff [of "ro_Version op" "Get v (ro_Id op)"] by (auto simp: stamped_def)
    then have now: "deliverable v op" using True by (simp add: deliverable_def applied_def)
    from Enqueue_ready [OF _ _ assms(5)] True obtain v' out' where
      out: "out = op # out'" "drains (Increment v (ro_Id op)) [] (queue q) v' out' (queue q')" by blast
    from drains_all_accounted [OF out(2)] obtain dropped where
      all: "mset (queue q) = mset out' + mset (queue q') + mset dropped" "\<forall>x\<in>set dropped. applied v' x" by auto
    have del: "delivers v out v'" using out drains_delivers [OF out(2)] now by simp
    have "set out \<subseteq> insert op (set (queue q))"
      using arg_cong [OF all(1), of set_mset] out(1) by auto
    then have "\<forall>x\<in>set out. stamped x" using assms(2,3) by blast
    from delivers_causal [OF assms(1) this del] have "causally_ordered v out" .
    then show ?thesis
      using del drains_none_left [OF out(2)] all out(1) by (intro conjI exI [of _ v'] exI [of _ dropped]) auto
  next
    case False
    have "\<not> deliverable v op"
    proof
      assume d: "deliverable v op"
      then have "Get v (ro_Id op) + 1 = ro_Version op" using deliverable_stamped [OF assms(1,2)] by blast
      then have "Get v (ro_Id op) = ro_Version op - 1" by (metis add_diff_cancel_right')
      with d False show False by (simp add: deliverable_def)
    qed
    moreover have "q' = q\<lparr>queue := queue q @ [op]\<rparr>" "out = []" using Enqueue_wait [OF False] assms(5) by auto
    ultimately show ?thesis using assms(4) by (intro conjI exI [of _ v] exI [of _ "[]"]) auto
  qed
  then show "causally_ordered v out" by blast
  from both show "\<exists>v'. delivers v out v' \<and> (\<forall>x\<in>set (queue q'). \<not> deliverable v' x) \<and>
      (\<exists>dropped. mset (queue q) + {#op#} = mset out + mset (queue q') + mset dropped \<and>
        (\<forall>x\<in>set dropped. applied v' x))" by blast
qed

section \<open>Properties\<close>

text \<open>C12: what an arriving operation makes the queue deliver is in causal order (each operation finds
  everything it was stamped with delivered before it, and is the next one of its site), and afterwards no
  waiting operation could be delivered.\<close>

theorem Enqueue_delivers_causally:
  assumes "vv_ok v" "stamped op" "\<forall>x\<in>set (queue q). stamped x" "\<forall>x\<in>set (queue q). \<not> deliverable v x"
    "Enqueue q op v = (q', out)"
  shows "causally_ordered v out \<and>
    (\<exists>v'. delivers v out v' \<and> (\<forall>x\<in>set (queue q'). \<not> deliverable v' x))"
  using Enqueue_causal [OF assms] by blast

definition early_op :: RemoteOperation where
  "early_op = \<lparr>ro_Vector = [(''a'', 1)], ro_Id = ''a'', ro_Version = 2, ro_Op = zero_Operation\<rparr>"

definition late_op :: RemoteOperation where
  "late_op = \<lparr>ro_Vector = [], ro_Id = ''a'', ro_Version = 1, ro_Op = zero_Operation\<rparr>"

lemma early_late_facts:
  "stamped early_op" "stamped late_op" "\<not> deliverable [] early_op" "vv_ok []"
  "Enqueue (NewQueue\<lparr>queue := [early_op]\<rparr>) late_op [] = (NewQueue, [late_op, early_op])"
proof -
  show "stamped early_op" "stamped late_op" "vv_ok []" by (simp_all add: stamped_def early_op_def late_op_def vv_ok_def)
  show "\<not> deliverable [] early_op" by code_simp
  show "Enqueue (NewQueue\<lparr>queue := [early_op]\<rparr>) late_op [] = (NewQueue, [late_op, early_op])" by code_simp
qed

theorem Enqueue_delivers_causally_witness:
  "causally_ordered [] [late_op, early_op]"
  using Enqueue_delivers_causally [OF early_late_facts(4,2) _ _ early_late_facts(5)] early_late_facts(1,3)
  by (simp del: causally_ordered.simps delivers.simps)

text \<open>C13: no operation gets lost: what was waiting and the arriving operation are what is delivered, what
  still waits, and duplicates of operations that have been applied.\<close>

theorem Enqueue_loses_nothing:
  assumes "vv_ok v" "stamped op" "\<forall>x\<in>set (queue q). stamped x" "\<forall>x\<in>set (queue q). \<not> deliverable v x"
    "Enqueue q op v = (q', out)"
  shows "\<exists>v' dropped. delivers v out v' \<and>
    mset (queue q) + {#op#} = mset out + mset (queue q') + mset dropped \<and> (\<forall>x\<in>set dropped. applied v' x)"
  using Enqueue_causal(2) [OF assms] by blast

theorem Enqueue_loses_nothing_witness:
  "\<exists>dropped v'. {#early_op#} + {#late_op#} = mset [late_op, early_op] + mset dropped \<and>
    (\<forall>x\<in>set dropped. applied v' x)"
proof -
  from Enqueue_loses_nothing [OF early_late_facts(4,2) _ _ early_late_facts(5)] early_late_facts(1,3)
  obtain v' dropped where "mset [early_op] + {#late_op#} = mset [late_op, early_op] + mset (queue NewQueue) + mset dropped"
    "\<forall>x\<in>set dropped. applied v' x" by auto
  then have "{#early_op#} + {#late_op#} = mset [late_op, early_op] + mset dropped" by (simp add: NewQueue_def)
  with \<open>\<forall>x\<in>set dropped. applied v' x\<close> show ?thesis by blast
qed

text \<open>C18: the loop of \<open>dequeHelper\<close>, which compacts the array in place while it runs and calls itself for the
  part it has compacted, does what the rules of \<open>drains\<close> say, and leaves the operations that stay at the
  front of the array.\<close>

theorem dequeHelper_refines_drains:
  shows "\<exists>q' v' out kept. dequeHelper result q (length q) v = (q', v', result @ out, length q - length kept) \<and>
    drains v [] q v' out kept \<and> take (length kept) q' = kept \<and> length q' = length q"
  using deque_loop_drains [of 0 0 "length q" q v result] by (auto simp: dequeHelper_def)

end
