(* ===== verification/OpLog.thy ===== *)
theory OpLog
  imports OpQueue
begin

text \<open>
  The log of applied operations (\<^verbatim>\<open>documentmanager/operationlog.go\<close>) and the wire form of remote
  operations (\<^verbatim>\<open>documentmanager/remoteop.go\<close>). \<open>GetMissingOperations\<close> walks the log backwards,
  appends what the other site lacks and reverses the slice in place; it is shown to be the
  filtered log in log order. The JSON encoder and decoder of Go's library are parameters.
\<close>

section \<open>The log\<close>

record LogEntry =
  le_Operation :: Operation
  le_Id :: SiteId
  le_Version :: uint32

record OperationLog =
  Log :: "LogEntry list"
  l_Vector :: VersionVector

definition NewLog :: OperationLog where
  "NewLog = \<lparr>Log = [], l_Vector = NewVector\<rparr>"

definition Log_Write :: "OperationLog \<Rightarrow> SiteId \<Rightarrow> uint32 \<Rightarrow> Operation \<Rightarrow> OperationLog" where
  "Log_Write log sid ver operation =
     log\<lparr>l_Vector := IncrementTo (l_Vector log) sid ver,
         Log := Log log @ [\<lparr>le_Operation = operation, le_Id = sid, le_Version = ver\<rparr>]\<rparr>"

definition entry_to_remote :: "LogEntry \<Rightarrow> RemoteOperation" where
  "entry_to_remote e = \<lparr>ro_Vector = NewVector, ro_Id = le_Id e, ro_Version = le_Version e,
     ro_Op = le_Operation e\<rparr>"

fun log_missing_loop ::
  "LogEntry list \<Rightarrow> VersionVector \<Rightarrow> VersionVector \<Rightarrow> RemoteOperation list \<Rightarrow> nat \<Rightarrow> RemoteOperation list" where
  "log_missing_loop log vector current result 0 = result"
| "log_missing_loop log vector current result (Suc i) =
     (let e = log ! i;
          result = (if Get vector (le_Id e) < le_Version e then result @ [entry_to_remote e] else result);
          current = DecrementTo current (le_Id e) (le_Version e - 1);
          compare = Compare current vector
      in if compare = EQUAL \<and> compare = LESS_THAN then result
         else log_missing_loop log vector current result i)"

fun swap_loop :: "'a list \<Rightarrow> nat \<Rightarrow> 'a list" where
  "swap_loop xs 0 = xs"
| "swap_loop xs (Suc i) =
     (let opp = length xs - 1 - i in swap_loop (xs[i := xs ! opp, opp := xs ! i]) i)"

definition Log_GetMissingOperations :: "OperationLog \<Rightarrow> VersionVector \<Rightarrow> RemoteOperation list" where
  "Log_GetMissingOperations log vector =
     (let result = log_missing_loop (Log log) vector (Copy vector) [] (length (Log log))
      in swap_loop result (length result div 2))"

lemma length_swap_loop [simp]: "length (swap_loop xs n) = length xs"
  by (induction xs n rule: swap_loop.induct) (simp_all add: Let_def)

lemma swap_loop_nth:
  "n \<le> length xs div 2 \<Longrightarrow> j < length xs \<Longrightarrow>
    swap_loop xs n ! j = (if j < n \<or> length xs - n \<le> j then xs ! (length xs - 1 - j) else xs ! j)"
proof (induction xs n rule: swap_loop.induct)
  case (2 xs i)
  let ?opp = "length xs - 1 - i"
  let ?ys = "xs[i := xs ! ?opp, ?opp := xs ! i]"
  have len: "Suc i \<le> length xs div 2" "i < ?opp" "?opp < length xs" using "2.prems"(1) by auto
  have "swap_loop xs (Suc i) ! j =
      (if j < i \<or> length xs - i \<le> j then ?ys ! (length xs - 1 - j) else ?ys ! j)"
    using "2.IH" [OF refl] "2.prems" len by (simp add: Let_def)
  also have "\<dots> = (if j < Suc i \<or> length xs - Suc i \<le> j then xs ! (length xs - 1 - j) else xs ! j)"
    using len "2.prems"(2) by (auto simp: nth_list_update)
  finally show ?case .
qed simp

lemma swap_loop_rev: "swap_loop xs (length xs div 2) = rev xs"
proof (rule nth_equalityI)
  fix j assume "j < length (swap_loop xs (length xs div 2))"
  then have j: "j < length xs" by simp
  have "length xs - Suc j = j" if "\<not> j < length xs div 2" "\<not> length xs - length xs div 2 \<le> j"
    using that by linarith
  then show "swap_loop xs (length xs div 2) ! j = rev xs ! j"
    using j by (simp add: swap_loop_nth rev_nth)
qed simp

lemma log_missing_loop_eq:
  "i \<le> length log \<Longrightarrow> log_missing_loop log vector current result i =
    result @ map entry_to_remote (rev (filter (\<lambda>e. Get vector (le_Id e) < le_Version e) (take i log)))"
proof (induction i arbitrary: current result)
  case (Suc i)
  have never: "(c = EQUAL \<and> c = LESS_THAN) = False" for c by (simp add: compare_consts)
  from Suc show ?case by (simp add: Let_def take_Suc_conv_app_nth never)
qed simp

lemma Log_GetMissingOperations_eq:
  "Log_GetMissingOperations log vector =
    map entry_to_remote (filter (\<lambda>e. Get vector (le_Id e) < le_Version e) (Log log))"
  by (simp add: Log_GetMissingOperations_def Let_def log_missing_loop_eq swap_loop_rev rev_map [symmetric])

section \<open>Remote operations on the wire (\<open>remoteop.go\<close>)\<close>

record RemoteOperationJson =
  rj_Vector :: VersionVectorJson
  rj_Id :: SiteId
  rj_Version :: uint32
  rj_Op :: Operation

definition to_json :: "RemoteOperation \<Rightarrow> RemoteOperationJson" where
  "to_json op = \<lparr>rj_Vector = ToJsonable (ro_Vector op), rj_Id = ro_Id op, rj_Version = ro_Version op,
     rj_Op = ro_Op op\<rparr>"

definition from_json :: "RemoteOperationJson \<Rightarrow> RemoteOperation" where
  "from_json j = \<lparr>ro_Vector = FromVersionVectorJson (rj_Vector j), ro_Id = rj_Id j,
     ro_Version = rj_Version j, ro_Op = rj_Op j\<rparr>"

text \<open>
  \<open>marshal\<close> is \<open>json.Marshal\<close>, an error or the bytes; \<open>unmarshal\<close> is what \<open>json.Unmarshal\<close> leaves in a
  variable that starts as the zero value, whether or not it also reports an error.
\<close>

definition RemoteOperationToSlice ::
  "(RemoteOperationJson \<Rightarrow> string + byte list) \<Rightarrow> RemoteOperation \<Rightarrow> byte list prog" where
  "RemoteOperationToSlice marshal op =
     (case marshal (to_json op) of Inl err \<Rightarrow> panics (ExplicitPanic err) | Inr bytes \<Rightarrow> returns bytes)"

definition RemoteOperationFromSlice ::
  "(byte list \<Rightarrow> RemoteOperationJson) \<Rightarrow> byte list \<Rightarrow> RemoteOperation" where
  "RemoteOperationFromSlice unmarshal bytes = from_json (unmarshal bytes)"

definition RemoteOperationsToSlice ::
  "(RemoteOperationJson list \<Rightarrow> string + byte list) \<Rightarrow> RemoteOperation list \<Rightarrow> byte list" where
  "RemoteOperationsToSlice marshal ops =
     (case marshal (map to_json ops) of Inl err \<Rightarrow> [] | Inr bytes \<Rightarrow> bytes)"

definition RemoteOperationsFromSlice ::
  "(byte list \<Rightarrow> RemoteOperationJson list) \<Rightarrow> byte list \<Rightarrow> RemoteOperation list" where
  "RemoteOperationsFromSlice unmarshal bytes = map from_json (unmarshal bytes)"

lemma keys_fold_update:
  "fst ` set (fold (\<lambda>(k, x) nv. AList.update (g k) x nv) v acc) = g ` fst ` set v \<union> fst ` set acc"
proof (induction v arbitrary: acc)
  case (Cons kx v)
  then show ?case by (cases kx) (auto simp: dom_update [unfolded dom_map_of_conv_image_fst] image_Un)
qed simp

lemma vv_ok_fold_update:
  "distinct (map fst acc) \<Longrightarrow> distinct (map fst (fold (\<lambda>(k, x) nv. AList.update (g k) x nv) v acc))"
  by (induction v arbitrary: acc) (auto simp: distinct_update split_beta)

text \<open>The keys of a vector are site ids of 16 bytes.\<close>

definition sites_ok :: "VersionVector \<Rightarrow> bool" where
  "sites_ok v \<longleftrightarrow> vv_ok v \<and> (\<forall>k\<in>fst ` set v. SiteId_ok k)"

lemma vector_json_roundtrip:
  assumes "sites_ok v"
  shows "Get (FromVersionVectorJson (ToJsonable v)) k = Get v k"
proof -
  let ?j = "ToJsonable v"
  have keys: "fst ` set ?j = fst ` set v"
    by (simp add: ToJsonable_def keys_fold_update SiteId_ToString_def)
  have json: "vv_ok ?j" by (simp add: ToJsonable_def vv_ok_def vv_ok_fold_update)
  have site: "StringToSiteId s = s" if "s \<in> fst ` set v" for s
    using assms that StringToSiteId_ToString [of s] by (auto simp: sites_ok_def SiteId_ToString_def)
  show ?thesis
  proof (cases "k \<in> fst ` set v")
    case True
    have "inj_on StringToSiteId (fst ` set ?j)" using site by (simp add: keys inj_on_def)
    from Get_fold_update [OF json this, of k "[]"] True
    have "Get (FromVersionVectorJson ?j) k = Get ?j k"
      by (simp add: FromVersionVectorJson_def keys site [OF True])
    also have "\<dots> = Get v k"
      using Get_fold_update [of v SiteId_ToString k "[]"] True assms
      by (simp add: ToJsonable_def sites_ok_def SiteId_ToString_def inj_on_def)
    finally show ?thesis .
  next
    case False
    have "StringToSiteId ` fst ` set v = fst ` set v" using site by force
    then have "k \<notin> fst ` set (FromVersionVectorJson ?j)"
      using False by (simp add: FromVersionVectorJson_def keys_fold_update keys)
    then show ?thesis using False by (simp add: Get_notin)
  qed
qed

lemma from_to_json:
  assumes "sites_ok (ro_Vector op)"
  shows "ro_Id (from_json (to_json op)) = ro_Id op" "ro_Version (from_json (to_json op)) = ro_Version op"
    "ro_Op (from_json (to_json op)) = ro_Op op"
    "Get (ro_Vector (from_json (to_json op))) k = Get (ro_Vector op) k"
  using vector_json_roundtrip [OF assms] by (simp_all add: from_json_def to_json_def)

section \<open>Properties\<close>

text \<open>The log returns, in the order written, exactly the entries another site has not seen, although
  it collects them backwards and reverses them in place.\<close>

theorem Log_GetMissingOperations_exact:
  "Log_GetMissingOperations log vector =
    map entry_to_remote (filter (\<lambda>e. Get vector (le_Id e) < le_Version e) (Log log))"
  by (rule Log_GetMissingOperations_eq)

text \<open>C19: an operation sent as JSON comes back with the same id, version and tree operation and an equal
  version vector, when the JSON library gives back the value it encoded.\<close>

theorem RemoteOperation_json_roundtrip:
  assumes "sites_ok (ro_Vector op)" "marshal (to_json op) = Inr bytes" "unmarshal bytes = to_json op"
  shows "\<exists>sent. RemoteOperationToSlice marshal op = returns sent \<and>
    (let op' = RemoteOperationFromSlice unmarshal sent in
     ro_Id op' = ro_Id op \<and> ro_Version op' = ro_Version op \<and> ro_Op op' = ro_Op op \<and>
     (\<forall>k. Get (ro_Vector op') k = Get (ro_Vector op) k))"
  using assms from_to_json [OF assms(1)]
  by (simp add: RemoteOperationToSlice_def RemoteOperationFromSlice_def)

theorem RemoteOperation_json_roundtrip_witness:
  "\<exists>sent. RemoteOperationToSlice (\<lambda>_. Inr ''json'') late_op = returns sent \<and>
    ro_Version (RemoteOperationFromSlice (\<lambda>_. to_json late_op) sent) = 1"
  using RemoteOperation_json_roundtrip [of late_op "\<lambda>_. Inr ''json''" "''json''" "\<lambda>_. to_json late_op"]
  by (auto simp: sites_ok_def vv_ok_def late_op_def Let_def)

end
