(* ===== verification/DocModel.thy ===== *)
theory DocModel
  imports TreedocEdit OpLog
begin

text \<open>
  The document of one site: \<^verbatim>\<open>documentmanager/documentmanager.go\<close>. It keeps the replicated tree and the
  line buffer side by side, checks after every step that they show the same text (\<open>AssertEqual\<close>,
  which panics when they do not), logs what it applied and queues what came too early.

  Every method holds the model's lock from start to end, so one call is one step. The callbacks
  \<open>UpdateGUI\<close> and \<open>BroadcastRemote\<close> are outputs: \<open>BroadcastRemote\<close> is whether the callback is set, and a local
  edit returns the operations it hands to it; redrawing the screen changes no state kept here.
\<close>

section \<open>A text kept twice\<close>

text \<open>
  The contract between the two copies of the text. A store turns an operation into an edit of
  its text; a view applies edits to its own copy.
\<close>

locale text_store =
  fixes apply_op :: "'s \<Rightarrow> 'op \<Rightarrow> ('s \<times> BufferOperation) prog"
    and store_text :: "'s \<Rightarrow> byte list" and store_ok :: "'s \<Rightarrow> bool" and legal_op :: "'s \<Rightarrow> 'op \<Rightarrow> bool"
  assumes apply_op_edits: "store_ok s \<Longrightarrow> legal_op s op \<Longrightarrow>
    \<exists>s' b. apply_op s op = returns (s', b) \<and> store_ok s' \<and> edit_in_range b (store_text s) \<and>
      store_text s' = edit_text b (store_text s)"

locale text_view =
  fixes apply_edit :: "'v \<Rightarrow> BufferOperation \<Rightarrow> 'v prog"
    and view_text :: "'v \<Rightarrow> byte list" and view_ok :: "'v \<Rightarrow> bool" and safe_edit :: "'v \<Rightarrow> BufferOperation \<Rightarrow> bool"
  assumes apply_edit_edits: "view_ok v \<Longrightarrow> edit_in_range b (view_text v) \<Longrightarrow> safe_edit v b \<Longrightarrow>
    \<exists>v'. apply_edit v b = returns v' \<and> view_ok v' \<and> view_text v' = edit_text b (view_text v)"

locale mirrored_text = text_store + text_view
begin

lemma mirror_step:
  assumes "store_ok s" "view_ok v" "view_text v = store_text s" "legal_op s op"
    "\<And>s' b. apply_op s op = returns (s', b) \<Longrightarrow> safe_edit v b"
  obtains s' b v' where "apply_op s op = returns (s', b)" "apply_edit v b = returns v'"
    "store_ok s'" "view_ok v'" "view_text v' = store_text s'"
proof -
  obtain s' b where s': "apply_op s op = returns (s', b)" "store_ok s'" "edit_in_range b (store_text s)"
    "store_text s' = edit_text b (store_text s)"
    using apply_op_edits [OF assms(1,4)] by blast
  moreover obtain v' where "apply_edit v b = returns v'" "view_ok v'" "view_text v' = edit_text b (view_text v)"
    using apply_edit_edits [OF assms(2), of b] assms(3,5) s' by auto
  ultimately show thesis using assms(3) that by simp
qed

end

definition applicable :: "Document \<Rightarrow> Operation \<Rightarrow> bool" where
  "applicable doc op \<longleftrightarrow> op_fresh doc op \<and> op_enabled doc op"

definition no_gap :: "Buffer \<Rightarrow> BufferOperation \<Rightarrow> bool" where
  "no_gap buf b \<longleftrightarrow> (bo_Type b = BUF_DELETE \<longrightarrow> \<not> delete_gap buf (bo_Pos b))"

interpretation tree_text: text_store ApplyOperation doc_text doc_ok applicable
proof unfold_locales
  fix doc :: Document and op assume "doc_ok doc" "applicable doc op"
  then show "\<exists>doc' b. ApplyOperation doc op = returns (doc', b) \<and> doc_ok doc' \<and>
      edit_in_range b (doc_text doc) \<and> doc_text doc' = edit_text b (doc_text doc)"
    using ApplyOperation_refines by (fastforce simp: applicable_def edit_ok_def)
qed

interpretation buffer_text: text_view Buffer_ApplyOperation buf_text buf_ok no_gap
  using Buffer_ApplyOperation_ok by unfold_locales (fastforce simp: edit_safe_def no_gap_def)

interpretation both_texts: mirrored_text ApplyOperation doc_text doc_ok applicable
  Buffer_ApplyOperation buf_text buf_ok no_gap
  by unfold_locales

section \<open>The model of one site\<close>

record DocumentModel =
  OwnerId :: SiteId
  OpVersion :: uint32
  NodeIdClock :: uint32
  dm_Treedoc :: Document
  dm_Buffer :: Buffer
  dm_Log :: OperationLog
  dm_Queue :: OperationQueue
  BroadcastRemote :: bool

definition NewDocumentModel :: "SiteId \<Rightarrow> int \<Rightarrow> bool \<Rightarrow> DocumentModel prog" where
  "NewDocumentModel sid width broadcast =
     pbind (StringToBuffer [] width) (\<lambda>buf.
     returns \<lparr>OwnerId = sid, OpVersion = 0, NodeIdClock = 0, dm_Treedoc = NewDocument, dm_Buffer = buf,
       dm_Log = NewLog, dm_Queue = NewQueue, BroadcastRemote = broadcast\<rparr>)"

definition not_equal_message :: "byte list \<Rightarrow> byte list \<Rightarrow> string" where
  "not_equal_message b t =
     ''Not equal document! (Could just be because translation between treedoc and buffer is wrong)'' @
     [CHR 0x0A] @ ''************************** Local Text Buffer'' @ [CHR 0x0A] @ b @
     [CHR 0x0A] @ ''************************ TreeDoc'' @ [CHR 0x0A] @ t"

definition AssertEqual :: "DocumentModel \<Rightarrow> unit prog" where
  "AssertEqual model =
     pbind (Buffer_ToString (dm_Buffer model)) (\<lambda>b.
     pbind (DocToString (dm_Treedoc model)) (\<lambda>t.
     if b \<noteq> t then panics (ExplicitPanic (not_equal_message b t)) else returns ()))"

text \<open>
  The end of the three local edits: count the operation, copy the vector it is stamped with, log
  it, check the two texts and hand it out.
\<close>

definition finish_local :: "DocumentModel \<Rightarrow> Operation \<Rightarrow> (DocumentModel \<times> RemoteOperation list) prog" where
  "finish_local model operation =
     (let model = model\<lparr>OpVersion := OpVersion model + 1\<rparr>;
          vector = Copy (l_Vector (dm_Log model));
          model = model\<lparr>dm_Log := Log_Write (dm_Log model) (OwnerId model) (OpVersion model) operation\<rparr>
      in pbind (AssertEqual model) (\<lambda>_.
         returns (model, if BroadcastRemote model
           then [\<lparr>ro_Vector = vector, ro_Id = OwnerId model, ro_Version = OpVersion model,
                   ro_Op = operation\<rparr>]
           else [])))"

definition LocalInsert :: "DocumentModel \<Rightarrow> byte \<Rightarrow> (DocumentModel \<times> RemoteOperation list) prog" where
  "LocalInsert model atom =
     (let pos = GetPosition (dm_Buffer model) in
      pbind (InsertAtCurrent (dm_Buffer model) atom) (\<lambda>buf.
      let nid = NewNodeId (OwnerId model) (NodeIdClock model) in
      pbind (InsertPos (dm_Treedoc model) nid pos atom) (\<lambda>(doc, operation).
      let model = model\<lparr>dm_Buffer := buf, dm_Treedoc := doc\<rparr>;
          model = (if oType operation = INSERT_NEW \<or> oType operation = INSERT_ROOT
                   then model\<lparr>NodeIdClock := NodeIdClock model + 1\<rparr> else model)
      in finish_local model operation)))"

definition LocalBackspace :: "DocumentModel \<Rightarrow> (DocumentModel \<times> RemoteOperation list) prog" where
  "LocalBackspace model =
     (let pos = GetPosition (dm_Buffer model) - 1 in
      if pos < 0 then returns (model, [])
      else
        pbind (BackspaceAtCurrent (dm_Buffer model)) (\<lambda>buf.
        pbind (DeletePos (dm_Treedoc model) pos) (\<lambda>(doc, operation).
        finish_local (model\<lparr>dm_Buffer := buf, dm_Treedoc := doc\<rparr>) operation)))"

definition LocalDelete :: "DocumentModel \<Rightarrow> (DocumentModel \<times> RemoteOperation list) prog" where
  "LocalDelete model =
     (let pos = GetPosition (dm_Buffer model) in
      if pos \<ge> GetSize (dm_Buffer model) then returns (model, [])
      else
        pbind (DeleteAtCurrent (dm_Buffer model)) (\<lambda>buf.
        pbind (DeletePos (dm_Treedoc model) pos) (\<lambda>(doc, operation).
        finish_local (model\<lparr>dm_Buffer := buf, dm_Treedoc := doc\<rparr>) operation)))"

definition apply_ready :: "DocumentModel \<Rightarrow> RemoteOperation \<Rightarrow> DocumentModel prog" where
  "apply_ready model queueOp =
     pbind (ApplyOperation (dm_Treedoc model) (ro_Op queueOp)) (\<lambda>(doc, bufOp).
     pbind (Buffer_ApplyOperation (dm_Buffer model) bufOp) (\<lambda>buf.
     let model = model\<lparr>dm_Treedoc := doc, dm_Buffer := buf,
           dm_Log := Log_Write (dm_Log model) (ro_Id queueOp) (ro_Version queueOp) (ro_Op queueOp)\<rparr>
     in pbind (AssertEqual model) (\<lambda>_. returns model)))"

definition ApplyRemoteOperation :: "DocumentModel \<Rightarrow> RemoteOperation \<Rightarrow> DocumentModel prog" where
  "ApplyRemoteOperation model op =
     (case Enqueue (dm_Queue model) op (Copy (l_Vector (dm_Log model))) of
        (q, queueOps) \<Rightarrow> pfold apply_ready queueOps (model\<lparr>dm_Queue := q\<rparr>))"

definition GetVersionVectorReceived :: "DocumentModel \<Rightarrow> VersionVector" where
  "GetVersionVectorReceived model = Merge (Copy (l_Vector (dm_Log model))) (q_vector (dm_Queue model))"

definition GetMissingOperations ::
  "DocumentModel \<Rightarrow> VersionVector \<Rightarrow> RemoteOperation list \<times> RemoteOperation list" where
  "GetMissingOperations model vector =
     (let compare = Compare (GetVersionVectorReceived model) vector in
      if compare = GREATER_THAN \<or> compare = CONFLICT then
        (Log_GetMissingOperations (dm_Log model) vector, Queue_GetMissingOperations (dm_Queue model) vector)
      else ([], []))"

section \<open>Invariant\<close>

definition texts_ok :: "DocumentModel \<Rightarrow> bool" where
  "texts_ok m \<longleftrightarrow> buf_ok (dm_Buffer m) \<and> doc_ok (dm_Treedoc m) \<and> last_free (dm_Treedoc m) \<and>
     buf_text (dm_Buffer m) = doc_text (dm_Treedoc m)"

definition ids_free :: "DocumentModel \<Rightarrow> bool" where
  "ids_free m \<longleftrightarrow> SiteId_ok (OwnerId m) \<and>
     (\<forall>c\<ge>NodeIdClock m. dNodes (dm_Treedoc m) (NewNodeId (OwnerId m) c) = None)"

definition clock_ok :: "DocumentModel \<Rightarrow> bool" where
  "clock_ok m \<longleftrightarrow> vv_ok (l_Vector (dm_Log m)) \<and> Get (l_Vector (dm_Log m)) (OwnerId m) = OpVersion m"

definition model_ok :: "DocumentModel \<Rightarrow> bool" where
  "model_ok m \<longleftrightarrow> texts_ok m \<and> ids_free m \<and> clock_ok m"

lemma AssertEqual_ok: "texts_ok m \<Longrightarrow> AssertEqual m = returns ()"
  by (simp add: AssertEqual_def texts_ok_def Buffer_ToString_ok DocToString_ok doc_ok_def)

lemma last_free_step:
  assumes "last_free doc" "abs_doc doc' = spec_apply (abs_doc doc) op"
    "oType op \<in> {INSERT_NEW, INSERT_ROOT, INSERT} \<Longrightarrow> unat (oN op) \<noteq> 65535"
  shows "last_free doc'"
  unfolding last_free_def assms(2)
proof
  fix nid
  let ?s = "abs_doc doc"
  have free: "fst (sp_cell ?s k 65535) = UNINITIALIZED" for k using assms(1) by (simp add: last_free_def)
  have set: "fst (sp_cell (spec_set ?s k n c) nid 65535) = UNINITIALIZED" if "n \<noteq> 65535" for k n c
    using free that by (simp add: spec_set_def)
  show "fst (sp_cell (spec_apply ?s op) nid 65535) = UNINITIALIZED"
  proof (cases "oType op \<in> {INSERT_NEW, INSERT_ROOT, INSERT}")
    case True
    then show ?thesis using assms(3) free set by (auto simp: spec_apply_def spec_new_def blank_def operation_types)
  next
    case False
    have "n \<noteq> 65535" if "sp_cell ?s k n = (ALIVE, c)" for k n c using free [of k] that by auto
    with False show ?thesis
      using free set by (auto simp: spec_apply_def split: prod.split)
  qed
qed

lemma abs_names: "dNodes doc nid = None \<longleftrightarrow> sp_place (abs_doc doc) nid = None"
  by (simp add: abs_doc_def)

lemma names_step:
  assumes "abs_doc doc' = spec_apply (abs_doc doc) op" "dNodes doc nid = None" "creates op \<Longrightarrow> oId op \<noteq> nid"
  shows "dNodes doc' nid = None"
  using assms unfolding abs_names
  by (auto simp: spec_apply_def spec_new_def spec_set_def creates_def split: prod.splits)

lemma Copy_ok:
  assumes "vv_ok v"
  shows "vv_ok (Copy v)" "Get (Copy v) k = Get v k"
proof -
  show "vv_ok (Copy v)" using vv_ok_fold_update [of "[]" id v] by (simp add: Copy_def NewVector_def vv_ok_def)
  show "Get (Copy v) k = Get v k"
  proof (cases "k \<in> fst ` set v")
    case True
    then show ?thesis
      using Get_fold_update [OF assms, of id k "[]"] by (simp add: Copy_def NewVector_def)
  next
    case False
    then have "k \<notin> fst ` set (Copy v)" using keys_fold_update [of id v "[]"] by (simp add: Copy_def NewVector_def)
    with False show ?thesis by (simp add: Get_notin)
  qed
qed

lemma finish_local_ok:
  assumes "texts_ok m" "ids_free m" "clock_ok m" "OpVersion m \<noteq> - 1"
  shows "\<exists>m' sent. finish_local m op = returns (m', sent) \<and> model_ok m' \<and>
    dm_Treedoc m' = dm_Treedoc m \<and> dm_Buffer m' = dm_Buffer m \<and>
    Log (dm_Log m') = Log (dm_Log m) @ [\<lparr>le_Operation = op, le_Id = OwnerId m, le_Version = OpVersion m + 1\<rparr>] \<and>
    (\<forall>r\<in>set sent. stamped r \<and> ro_Op r = op \<and> ro_Id r = OwnerId m \<and> ro_Version r = OpVersion m + 1)"
proof -
  let ?v = "OpVersion m + 1"
  let ?m = "m\<lparr>OpVersion := ?v, dm_Log := Log_Write (dm_Log m) (OwnerId m) ?v op\<rparr>"
  have v: "?v \<noteq> 0" "OpVersion m \<le> ?v"
    using assms(4) inc_less_eq_self_iff_eq [of "OpVersion m"] by (auto simp: eq_neg_iff_add_eq_0)
  have ok: "texts_ok ?m" "ids_free ?m" using assms(1,2) by (simp_all add: texts_ok_def ids_free_def)
  have "clock_ok ?m"
    using assms(3) v(2) by (auto simp: clock_ok_def Log_Write_def IncrementTo_def max_def)
  then have "model_ok ?m" using ok by (simp add: model_ok_def)
  moreover have "stamped \<lparr>ro_Vector = Copy (l_Vector (dm_Log m)), ro_Id = OwnerId m, ro_Version = ?v, ro_Op = op\<rparr>"
    using assms(3) v(1) Copy_ok by (simp add: stamped_def clock_ok_def)
  ultimately show ?thesis
    using AssertEqual_ok [OF ok(1)] by (auto simp: finish_local_def Let_def Log_Write_def)
qed

section \<open>Local edits\<close>

lemma next_clock:
  assumes "ids_free m" "NodeIdClock m \<noteq> - 1"
    "abs_doc doc' = spec_apply (abs_doc (dm_Treedoc m)) op"
    "creates op \<Longrightarrow> oId op = NewNodeId (OwnerId m) (NodeIdClock m)"
  shows "ids_free (m\<lparr>dm_Buffer := buf, dm_Treedoc := doc',
    NodeIdClock := (if creates op then NodeIdClock m + 1 else NodeIdClock m)\<rparr>)"
proof -
  have "dNodes doc' (NewNodeId (OwnerId m) c) = None"
    if c: "(if creates op then NodeIdClock m + 1 else NodeIdClock m) \<le> c" for c
  proof (rule names_step [OF assms(3)])
    have le: "NodeIdClock m \<le> c" "creates op \<Longrightarrow> NodeIdClock m \<noteq> c"
      using c assms(2) inc_less_eq_iff [of "NodeIdClock m" c] by (auto split: if_splits)
    then show "dNodes (dm_Treedoc m) (NewNodeId (OwnerId m) c) = None"
      using assms(1) by (simp add: ids_free_def)
    show "oId op \<noteq> NewNodeId (OwnerId m) c" if "creates op"
      using assms(1,4) le(2) that NewNodeId_inject [of "OwnerId m" "OwnerId m" "NodeIdClock m" c]
      by (auto simp: ids_free_def)
  qed
  then show ?thesis using assms(1) by (simp add: ids_free_def)
qed

lemma LocalInsert_ok:
  assumes "model_ok m" "OpVersion m \<noteq> - 1" "NodeIdClock m \<noteq> - 1"
    "\<not> own_holes (dm_Treedoc m) (NewNodeId (OwnerId m) (NodeIdClock m))"
  defines "pos \<equiv> currentPosition (dm_Buffer m)"
  shows "\<exists>m' sent. LocalInsert m atom = returns (m', sent) \<and> model_ok m' \<and>
    doc_text (dm_Treedoc m') = insert_at (nat pos) atom (doc_text (dm_Treedoc m)) \<and>
    currentPosition (dm_Buffer m') = pos + 1 \<and> (\<forall>r\<in>set sent. stamped r)"
proof -
  let ?doc = "dm_Treedoc m" and ?nid = "NewNodeId (OwnerId m) (NodeIdClock m)"
  have m: "buf_ok (dm_Buffer m)" "doc_ok ?doc" "last_free ?doc" "buf_text (dm_Buffer m) = doc_text ?doc"
    "ids_free m" "clock_ok m"
    using assms(1) by (auto simp: model_ok_def texts_ok_def)
  note pos = buf_ok_position [OF m(1), folded pos_def]
  obtain buf where buf: "InsertAtCurrent (dm_Buffer m) atom = returns buf" "buf_ok buf"
    "buf_text buf = insert_at (nat pos) atom (doc_text ?doc)" "currentPosition buf = pos + 1"
    using Buffer_Insert_ok [OF m(1) pos, of atom] m(4) by (auto simp: InsertAtCurrent_def pos_def)
  have "dNodes ?doc ?nid = None" using m(5) by (simp add: ids_free_def)
  from InsertPos_ok [OF m(2,3) assms(4) this, of pos atom] pos m(4)
  obtain doc' op where doc': "InsertPos ?doc ?nid pos atom = returns (doc', op)"
    "local_insert ?nid ?doc doc' op (nat pos) atom" by auto
  let ?m = "m\<lparr>dm_Buffer := buf, dm_Treedoc := doc',
    NodeIdClock := (if creates op then NodeIdClock m + 1 else NodeIdClock m)\<rparr>"
  have "last_free doc'"
    using doc'(2) by (intro last_free_step [OF m(3)]) (auto simp: local_insert_def)
  then have "texts_ok ?m" using buf doc'(2) by (simp add: texts_ok_def local_insert_def)
  moreover have "ids_free ?m"
    using doc'(2) by (intro next_clock [OF m(5) assms(3)]) (auto simp: local_insert_def)
  moreover have "clock_ok ?m" "OpVersion ?m \<noteq> - 1" using m(6) assms(2) by (simp_all add: clock_ok_def)
  ultimately obtain m' sent where fin: "finish_local ?m op = returns (m', sent)" "model_ok m'"
    "dm_Treedoc m' = doc'" "dm_Buffer m' = buf" "\<forall>r\<in>set sent. stamped r"
    using finish_local_ok [of ?m op] by auto
  have "LocalInsert m atom = finish_local ?m op"
    using buf(1) doc'(1)
    by (auto simp: LocalInsert_def GetPosition_def pos_def creates_def)
  with fin show ?thesis
    using doc'(2) buf(4) by (auto simp: local_insert_def)
qed

text \<open>Both deletions: the byte at \<open>p\<close> leaves the buffer and the tree.\<close>

lemma local_delete_ok:
  assumes "model_ok m" "OpVersion m \<noteq> - 1" "0 \<le> p" "p < int (length (doc_text (dm_Treedoc m)))"
    "\<not> delete_gap (dm_Buffer m) p"
  shows "\<exists>m' sent. pbind (Buffer_Delete (dm_Buffer m) p) (\<lambda>buf.
      pbind (DeletePos (dm_Treedoc m) p) (\<lambda>(doc, operation).
      finish_local (m\<lparr>dm_Buffer := buf, dm_Treedoc := doc\<rparr>) operation)) = returns (m', sent) \<and> model_ok m' \<and>
    doc_text (dm_Treedoc m') = delete_at (nat p) (doc_text (dm_Treedoc m)) \<and>
    currentPosition (dm_Buffer m') = currentPosition (dm_Buffer m) -
      (if p < currentPosition (dm_Buffer m) then 1 else 0) \<and> (\<forall>r\<in>set sent. stamped r)"
proof -
  let ?doc = "dm_Treedoc m"
  have m: "buf_ok (dm_Buffer m)" "doc_ok ?doc" "last_free ?doc" "buf_text (dm_Buffer m) = doc_text ?doc"
    "ids_free m" "clock_ok m"
    using assms(1) by (auto simp: model_ok_def texts_ok_def)
  obtain buf where buf: "Buffer_Delete (dm_Buffer m) p = returns buf" "buf_ok buf"
    "buf_text buf = delete_at (nat p) (doc_text ?doc)" "currentPosition buf =
      currentPosition (dm_Buffer m) - (if p < currentPosition (dm_Buffer m) then 1 else 0)"
    using Buffer_Delete_ok [OF m(1) assms(3) _ assms(5)] assms(4) m(4) by auto
  obtain doc' op where doc': "DeletePos ?doc p = returns (doc', op)" "oType op = DELETE" "doc_ok doc'"
    "doc_text doc' = delete_at (nat p) (doc_text ?doc)" "abs_doc doc' = spec_apply (abs_doc ?doc) op"
    using DeletePos_ok [OF m(2) assms(3,4)] by blast
  let ?m = "m\<lparr>dm_Buffer := buf, dm_Treedoc := doc'\<rparr>"
  have "\<not> creates op" using doc'(2) by (simp add: creates_def operation_types)
  then have "ids_free ?m"
    using m(5) names_step [OF doc'(5)] by (simp add: ids_free_def)
  moreover have "texts_ok ?m"
    using buf doc' last_free_step [OF m(3) doc'(5)] by (simp add: texts_ok_def operation_types)
  moreover have "clock_ok ?m" "OpVersion ?m \<noteq> - 1" using m(6) assms(2) by (simp_all add: clock_ok_def)
  ultimately show ?thesis
    using finish_local_ok [of ?m op] buf(1,4) doc'(1,4) by fastforce
qed

lemma LocalBackspace_ok:
  assumes "model_ok m" "OpVersion m \<noteq> - 1" "0 < currentPosition (dm_Buffer m)"
    "\<not> delete_gap (dm_Buffer m) (currentPosition (dm_Buffer m) - 1)"
  defines "p \<equiv> currentPosition (dm_Buffer m) - 1"
  shows "\<exists>m' sent. LocalBackspace m = returns (m', sent) \<and> model_ok m' \<and>
    doc_text (dm_Treedoc m') = delete_at (nat p) (doc_text (dm_Treedoc m)) \<and>
    currentPosition (dm_Buffer m') = p \<and> (\<forall>r\<in>set sent. stamped r)"
proof -
  have m: "buf_ok (dm_Buffer m)" "buf_text (dm_Buffer m) = doc_text (dm_Treedoc m)"
    using assms(1) by (auto simp: model_ok_def texts_ok_def)
  have "p < int (length (doc_text (dm_Treedoc m)))" using buf_ok_position(2) [OF m(1)] m(2) by (simp add: p_def)
  then show ?thesis
    using local_delete_ok [OF assms(1,2), of p] assms(3,4)
    by (auto simp: LocalBackspace_def GetPosition_def BackspaceAtCurrent_def p_def)
qed

lemma LocalDelete_ok:
  assumes "model_ok m" "OpVersion m \<noteq> - 1"
    "currentPosition (dm_Buffer m) < int (length (doc_text (dm_Treedoc m)))"
    "\<not> delete_gap (dm_Buffer m) (currentPosition (dm_Buffer m))"
  defines "p \<equiv> currentPosition (dm_Buffer m)"
  shows "\<exists>m' sent. LocalDelete m = returns (m', sent) \<and> model_ok m' \<and>
    doc_text (dm_Treedoc m') = delete_at (nat p) (doc_text (dm_Treedoc m)) \<and>
    currentPosition (dm_Buffer m') = p \<and> (\<forall>r\<in>set sent. stamped r)"
proof -
  have m: "buf_ok (dm_Buffer m)" "buf_text (dm_Buffer m) = doc_text (dm_Treedoc m)"
    using assms(1) by (auto simp: model_ok_def texts_ok_def)
  have "0 \<le> p" "numberOfChars (dm_Buffer m) = int (length (doc_text (dm_Treedoc m)))"
    using buf_ok_position(1) [OF m(1)] buf_ok_facts(6) [OF m(1)] m(2) by (simp_all add: p_def)
  moreover from this have "0 < numberOfChars (dm_Buffer m)" using assms(3) unfolding p_def by linarith
  ultimately show ?thesis
    using local_delete_ok [OF assms(1,2), of p] assms(3,4)
    by (auto simp: LocalDelete_def GetPosition_def GetSize_def DeleteAtCurrent_def p_def)
qed

lemma LocalBackspace_total:
  assumes "model_ok m" "OpVersion m \<noteq> - 1" "p = currentPosition (dm_Buffer m) - 1"
    "\<not> delete_gap (dm_Buffer m) p"
  shows "\<exists>m' sent. LocalBackspace m = returns (m', sent) \<and> model_ok m' \<and>
    (if p < 0 then m' = m \<and> sent = []
     else doc_text (dm_Treedoc m') = delete_at (nat p) (doc_text (dm_Treedoc m)) \<and>
       buf_text (dm_Buffer m') = doc_text (dm_Treedoc m') \<and>
       currentPosition (dm_Buffer m') = p \<and> (\<forall>r\<in>set sent. stamped r))"
proof (cases "p < 0")
  case True
  then have "LocalBackspace m = returns (m, [])" by (simp add: LocalBackspace_def assms(3) GetPosition_def)
  with True assms(1) show ?thesis by simp
next
  case False
  then show ?thesis
    using LocalBackspace_ok [OF assms(1,2)] assms(3,4) by (auto simp: model_ok_def texts_ok_def)
qed

lemma LocalDelete_total:
  assumes "model_ok m" "OpVersion m \<noteq> - 1" "p = currentPosition (dm_Buffer m)"
    "\<not> delete_gap (dm_Buffer m) p"
  shows "\<exists>m' sent. LocalDelete m = returns (m', sent) \<and> model_ok m' \<and>
    (if p = int (length (doc_text (dm_Treedoc m))) then m' = m \<and> sent = []
     else doc_text (dm_Treedoc m') = delete_at (nat p) (doc_text (dm_Treedoc m)) \<and>
       buf_text (dm_Buffer m') = doc_text (dm_Treedoc m') \<and>
       currentPosition (dm_Buffer m') = p \<and> (\<forall>r\<in>set sent. stamped r))"
proof -
  have m: "buf_ok (dm_Buffer m)" "buf_text (dm_Buffer m) = doc_text (dm_Treedoc m)"
    using assms(1) by (auto simp: model_ok_def texts_ok_def)
  then have len: "numberOfChars (dm_Buffer m) = int (length (doc_text (dm_Treedoc m)))"
    using buf_ok_facts(6) by simp
  show ?thesis
  proof (cases "p = int (length (doc_text (dm_Treedoc m)))")
    case True
    then have "LocalDelete m = returns (m, [])"
      by (simp add: LocalDelete_def assms(3) [symmetric] GetPosition_def GetSize_def len)
    with True assms(1) show ?thesis by simp
  next
    case False
    then have "p < int (length (doc_text (dm_Treedoc m)))"
      using buf_ok_position(2) [OF m(1)] m(2) assms(3) by simp
    then show ?thesis
      using LocalDelete_ok [OF assms(1,2)] assms(3,4) by (auto simp: model_ok_def texts_ok_def)
  qed
qed

section \<open>Remote operations\<close>

text \<open>
  What a delivered operation has to satisfy for the step to succeed: the tree can apply it, the
  edit does not leave the buffer with an empty line after an unfinished word, it uses a cell below the
  last one of its node, and it comes from another site.
\<close>

definition acceptable :: "DocumentModel \<Rightarrow> RemoteOperation \<Rightarrow> bool" where
  "acceptable m r \<longleftrightarrow> applicable (dm_Treedoc m) (ro_Op r) \<and>
     (case ApplyOperation (dm_Treedoc m) (ro_Op r) of
        Some (Inr (_, b)) \<Rightarrow> no_gap (dm_Buffer m) b | _ \<Rightarrow> True) \<and>
     unat (oN (ro_Op r)) \<noteq> 65535 \<and> ro_Id r \<noteq> OwnerId m \<and>
     (creates (ro_Op r) \<longrightarrow> take 16 (oId (ro_Op r)) \<noteq> OwnerId m)"

fun all_acceptable :: "DocumentModel \<Rightarrow> RemoteOperation list \<Rightarrow> bool" where
  "all_acceptable m [] \<longleftrightarrow> True"
| "all_acceptable m (r # rs) \<longleftrightarrow> acceptable m r \<and>
     (case apply_ready m r of Some (Inr m') \<Rightarrow> all_acceptable m' rs | _ \<Rightarrow> True)"

definition log_remote :: "RemoteOperation \<Rightarrow> OperationLog \<Rightarrow> OperationLog" where
  "log_remote r log = Log_Write log (ro_Id r) (ro_Version r) (ro_Op r)"

lemma apply_ready_ok:
  assumes "model_ok m" "acceptable m r"
  shows "\<exists>m' b. apply_ready m r = returns m' \<and> model_ok m' \<and> dm_Queue m' = dm_Queue m \<and>
    dm_Log m' = log_remote r (dm_Log m) \<and> ApplyOperation (dm_Treedoc m) (ro_Op r) = returns (dm_Treedoc m', b)"
proof -
  let ?doc = "dm_Treedoc m" and ?op = "ro_Op r"
  have m: "buf_ok (dm_Buffer m)" "doc_ok ?doc" "last_free ?doc" "buf_text (dm_Buffer m) = doc_text ?doc"
    "ids_free m" "clock_ok m"
    using assms(1) by (auto simp: model_ok_def texts_ok_def)
  have acc: "applicable ?doc ?op" "unat (oN ?op) \<noteq> 65535" "ro_Id r \<noteq> OwnerId m"
    "creates ?op \<Longrightarrow> take 16 (oId ?op) \<noteq> OwnerId m"
    using assms(2) by (auto simp: acceptable_def)
  have safe: "no_gap (dm_Buffer m) b" if "ApplyOperation ?doc ?op = returns (s', b)" for s' b
    using assms(2) that by (simp add: acceptable_def)
  obtain doc' b buf where step: "ApplyOperation ?doc ?op = returns (doc', b)"
    "Buffer_ApplyOperation (dm_Buffer m) b = returns buf" "doc_ok doc'" "buf_ok buf" "buf_text buf = doc_text doc'"
    by (rule both_texts.mirror_step [OF m(2,1,4) acc(1)]) (rule safe)
  have "abs_doc doc' = spec_apply (abs_doc ?doc) ?op"
    using ApplyOperation_refines [OF m(2), of ?op] acc(1) step(1) by (auto simp: applicable_def)
  note abs = this
  let ?m = "m\<lparr>dm_Treedoc := doc', dm_Buffer := buf, dm_Log := log_remote r (dm_Log m)\<rparr>"
  have "texts_ok ?m" using step last_free_step [OF m(3) abs] acc(2) by (simp add: texts_ok_def)
  moreover have "ids_free ?m"
  proof -
    have "oId ?op \<noteq> NewNodeId (OwnerId m) c" if "creates ?op" for c
      using acc(4) [OF that] m(5) by (auto simp: ids_free_def NewNodeId_eq SiteId_ok_def)
    then show ?thesis using m(5) names_step [OF abs] by (simp add: ids_free_def)
  qed
  moreover have "clock_ok ?m"
    using m(6) acc(3) by (auto simp: clock_ok_def log_remote_def Log_Write_def IncrementTo_def)
  ultimately show ?thesis
    using step AssertEqual_ok [of ?m]
    by (auto simp: apply_ready_def log_remote_def model_ok_def Let_def)
qed

lemma apply_all_ready_ok:
  assumes "model_ok m" "all_acceptable m rs"
  shows "\<exists>m'. pfold apply_ready rs m = returns m' \<and> model_ok m' \<and> dm_Queue m' = dm_Queue m \<and>
    dm_Log m' = fold log_remote rs (dm_Log m)"
  using assms
proof (induction rs arbitrary: m)
  case (Cons r rs)
  then have "acceptable m r" by simp
  from apply_ready_ok [OF Cons.prems(1) this] obtain m1 where
    m1: "apply_ready m r = returns m1" "model_ok m1" "dm_Queue m1 = dm_Queue m"
      "dm_Log m1 = log_remote r (dm_Log m)" by blast
  moreover have "all_acceptable m1 rs" using Cons.prems(2) m1(1) by simp
  ultimately show ?case using Cons.IH [of m1] by simp
qed simp

section \<open>The queue and the log agree\<close>

definition queue_ok :: "DocumentModel \<Rightarrow> bool" where
  "queue_ok m \<longleftrightarrow> (\<forall>r\<in>set (queue (dm_Queue m)). stamped r \<and> \<not> deliverable (l_Vector (dm_Log m)) r)"

lemma deliverable_cong:
  assumes "vv_ok v" "vv_ok v'" "\<And>k. Get v k = Get v' k" "stamped r"
  shows "deliverable v r = deliverable v' r"
  using deliverable_stamped [OF assms(1,4)] deliverable_stamped [OF assms(2,4)] assms(3) by (simp add: vle_def)

lemma vv_ok_log: "vv_ok (l_Vector log) \<Longrightarrow> vv_ok (l_Vector (fold log_remote rs log))"
  by (induction rs arbitrary: log) (auto simp: log_remote_def Log_Write_def IncrementTo_def)

lemma delivers_vv_ok: "delivers v rs v' \<Longrightarrow> vv_ok v \<Longrightarrow> vv_ok v'"
  by (induction rs arbitrary: v) (auto simp: Increment_def)

lemma delivers_log:
  assumes "vv_ok v" "vv_ok (l_Vector log)" "\<And>k. Get v k = Get (l_Vector log) k" "\<forall>r\<in>set rs. stamped r"
    "delivers v rs v'"
  shows "Get v' k = Get (l_Vector (fold log_remote rs log)) k"
  using assms
proof (induction rs arbitrary: v log)
  case (Cons r rs)
  have r: "Get v (ro_Id r) + 1 = ro_Version r" "ro_Version r \<noteq> 0"
    using deliverable_stamped [OF Cons.prems(1), of r] Cons.prems(4,5) by (auto simp: stamped_def)
  have v: "Increment v (ro_Id r) = IncrementTo v (ro_Id r) (ro_Version r)" by (rule Increment_stamped [OF r])
  have "Get v' k = Get (l_Vector (fold log_remote rs (log_remote r log))) k"
  proof (rule Cons.IH)
    show "vv_ok (Increment v (ro_Id r))" using Cons.prems(1) by (simp add: Increment_def)
    show "vv_ok (l_Vector (log_remote r log))"
      using Cons.prems(2) by (simp add: log_remote_def Log_Write_def IncrementTo_def)
    show "Get (Increment v (ro_Id r)) j = Get (l_Vector (log_remote r log)) j" for j
      unfolding v using Cons.prems(3) by (simp add: log_remote_def Log_Write_def)
  qed (use Cons.prems(4,5) in auto)
  then show ?case by simp
qed simp

lemma ApplyRemoteOperation_ok:
  assumes "model_ok m" "queue_ok m" "stamped op"
    "Enqueue (dm_Queue m) op (Copy (l_Vector (dm_Log m))) = (q, ready)"
    "all_acceptable (m\<lparr>dm_Queue := q\<rparr>) ready"
  shows "\<exists>m'. ApplyRemoteOperation m op = returns m' \<and> model_ok m' \<and> queue_ok m' \<and>
    dm_Log m' = fold log_remote ready (dm_Log m) \<and> causally_ordered (Copy (l_Vector (dm_Log m))) ready"
proof -
  let ?v = "l_Vector (dm_Log m)"
  have v: "vv_ok ?v" using assms(1) by (simp add: model_ok_def clock_ok_def)
  note copy = Copy_ok [OF v]
  have waiting: "\<forall>x\<in>set (queue (dm_Queue m)). stamped x"
    "\<forall>x\<in>set (queue (dm_Queue m)). \<not> deliverable (Copy ?v) x"
    using assms(2) deliverable_cong [OF copy(1) v copy(2)] by (auto simp: queue_ok_def)
  note enq = Enqueue_causal [OF copy(1) assms(3) waiting assms(4)]
  obtain v' dropped where v': "delivers (Copy ?v) ready v'" "\<forall>x\<in>set (queue q). \<not> deliverable v' x"
    "mset (queue (dm_Queue m)) + {#op#} = mset ready + mset (queue q) + mset dropped"
    using enq(2) by blast
  have "set ready \<union> set (queue q) \<subseteq> insert op (set (queue (dm_Queue m)))"
    using arg_cong [OF v'(3), of set_mset] by auto
  then have stamps: "\<forall>r\<in>set ready. stamped r" "\<forall>r\<in>set (queue q). stamped r" using waiting(1) assms(3) by auto
  have m1: "model_ok (m\<lparr>dm_Queue := q\<rparr>)"
    using assms(1) by (simp add: model_ok_def texts_ok_def ids_free_def clock_ok_def)
  obtain m' where m': "pfold apply_ready ready (m\<lparr>dm_Queue := q\<rparr>) = returns m'" "model_ok m'" "dm_Queue m' = q"
    "dm_Log m' = fold log_remote ready (dm_Log m)"
    using apply_all_ready_ok [OF m1 assms(5)] by auto
  have "Get v' k = Get (l_Vector (dm_Log m')) k" for k
    using delivers_log [OF copy(1) v copy(2) stamps(1) v'(1)] by (simp add: m'(4))
  moreover have "vv_ok v'" by (rule delivers_vv_ok [OF v'(1) copy(1)])
  ultimately have "queue_ok m'"
    using v'(2) stamps(2) deliverable_cong [of v' "l_Vector (dm_Log m')"] vv_ok_log [OF v]
    by (auto simp: queue_ok_def m'(3,4))
  then show ?thesis using m' enq(1) assms(4) by (auto simp: ApplyRemoteOperation_def)
qed

section \<open>A new site, and what it sends to others\<close>

lemma NewDocumentModel_ok:
  assumes "SiteId_ok sid" "4 \<le> width"
  shows "\<exists>m. NewDocumentModel sid width b = returns m \<and> model_ok m \<and> queue_ok m \<and>
    doc_text (dm_Treedoc m) = [] \<and> OwnerId m = sid \<and> OpVersion m = 0 \<and> NodeIdClock m = 0"
proof -
  obtain buf where buf: "StringToBuffer [] width = returns buf" "buf_ok buf" "buf_text buf = []"
    using StringToBuffer_ok [OF assms(2), of "[]"] by blast
  have "last_free NewDocument" by (simp add: last_free_def abs_doc_def NewDocument_def blank_def)
  moreover have "doc_text NewDocument = []" "\<And>nid. dNodes NewDocument nid = None"
    by (simp_all add: doc_text_def NewDocument_def)
  ultimately show ?thesis
    using buf assms(1)
    by (simp add: NewDocumentModel_def model_ok_def texts_ok_def ids_free_def clock_ok_def queue_ok_def
        NewLog_def NewQueue_def NewVector_def vv_ok_def)
qed

text \<open>Every entry of the log is counted in its vector; writing keeps that.\<close>

definition log_ok :: "OperationLog \<Rightarrow> bool" where
  "log_ok log \<longleftrightarrow> vv_ok (l_Vector log) \<and> (\<forall>e\<in>set (Log log). le_Version e \<le> Get (l_Vector log) (le_Id e))"

lemma log_ok_NewLog [simp]: "log_ok NewLog"
  by (simp add: log_ok_def NewLog_def NewVector_def vv_ok_def)

lemma log_ok_Log_Write: "log_ok log \<Longrightarrow> log_ok (Log_Write log sid ver op)"
  by (auto simp: log_ok_def Log_Write_def IncrementTo_def max_def not_less intro: order_trans)

lemma GetMissingOperations_log:
  assumes "log_ok (dm_Log m)" "vv_ok vector" "vv_ok (q_vector (dm_Queue m))"
  shows "fst (GetMissingOperations m vector) =
    map entry_to_remote (filter (\<lambda>e. Get vector (le_Id e) < le_Version e) (Log (dm_Log m)))"
proof -
  let ?v = "GetVersionVectorReceived m"
  have v: "vv_ok (l_Vector (dm_Log m))" using assms(1) by (simp add: log_ok_def)
  have vv: "vv_ok ?v" using Copy_ok(1) [OF v] by (simp add: GetVersionVectorReceived_def)
  have "Get (l_Vector (dm_Log m)) k \<le> Get ?v k" for k
    using Get_Merge [OF assms(3)] Copy_ok(2) [OF v] by (simp add: GetVersionVectorReceived_def)
  then have none: "filter (\<lambda>e. Get vector (le_Id e) < le_Version e) (Log (dm_Log m)) = []" if "vle ?v vector"
    using that assms(1) by (fastforce simp: log_ok_def vle_def filter_empty_conv not_less intro: order_trans)
  show ?thesis
    using Compare_eq [OF vv assms(2)] none
    by (auto simp: GetMissingOperations_def Log_GetMissingOperations_eq compare_consts Let_def)
qed

end
