(* ===== verification/Prompt.thy ===== *)
theory Prompt
  imports Buffer
begin

text \<open>
  The prompt of the menu: \<^verbatim>\<open>buffer/prompt.go\<close>. A fixed text and an input line that is edited at its end;
  \<open>GetDisplayInformation\<close> breaks both into lines of a width without wrapping words. The chain of lines is a list.
  The loops of the source do not advance over a byte that is wider than the whole line, so they are partial
  functions, and the theorems say exactly when they return.
\<close>

section \<open>Data and operations\<close>

record Prompt =
  pr_text :: "byte list"
  pr_input :: "byte list"

definition NewPrompt :: "string \<Rightarrow> Prompt" where
  "NewPrompt str = \<lparr>pr_text = str, pr_input = []\<rparr>"

definition Prompt_Insert :: "Prompt \<Rightarrow> byte \<Rightarrow> Prompt" where
  "Prompt_Insert prompt ch = prompt\<lparr>pr_input := pr_input prompt @ [ch]\<rparr>"

definition Prompt_Delete :: "Prompt \<Rightarrow> Prompt" where
  "Prompt_Delete prompt =
     (if length (pr_input prompt) > 0
      then prompt\<lparr>pr_input := take (length (pr_input prompt) - 1) (pr_input prompt)\<rparr> else prompt)"

definition Prompt_ToString :: "Prompt \<Rightarrow> string" where
  "Prompt_ToString prompt = pr_input prompt"

text \<open>The inner loops: how many bytes of the rest the next line takes. Only the text breaks at a newline.\<close>

fun text_line :: "int \<Rightarrow> int \<Rightarrow> byte list \<Rightarrow> nat" where
  "text_line width lineWidth [] = 0"
| "text_line width lineWidth (ch # rest) =
     (if ch = CHR 0x0A then 1
      else if lineWidth + charLength ch > width then 0
      else Suc (text_line width (lineWidth + charLength ch) rest))"

fun input_line :: "int \<Rightarrow> int \<Rightarrow> byte list \<Rightarrow> nat" where
  "input_line width lineWidth [] = 0"
| "input_line width lineWidth (ch # rest) =
     (if lineWidth + charLength ch > width then 0
      else Suc (input_line width (lineWidth + charLength ch) rest))"

text \<open>The outer loops, on the bytes from \<open>i\<close> on.\<close>

partial_function (option) text_lines :: "int \<Rightarrow> byte list \<Rightarrow> byte list list \<Rightarrow> byte list list prog" where
  "text_lines width rest ls =
     (if rest = [] then returns ls
      else let i = text_line width 0 rest in text_lines width (drop i rest) (ls @ [take i rest]))"

partial_function (option) input_lines :: "int \<Rightarrow> byte list \<Rightarrow> byte list list \<Rightarrow> byte list list prog" where
  "input_lines width rest ls =
     (if rest = [] then returns ls
      else let i = input_line width 0 rest in input_lines width (drop i rest) (ls @ [take i rest]))"

declare text_lines.simps [code] input_lines.simps [code]

definition Prompt_GetDisplayInformation ::
  "Prompt \<Rightarrow> int \<Rightarrow> int \<Rightarrow> (int \<times> int \<times> byte list list) prog" where
  "Prompt_GetDisplayInformation prompt width height =
     pbind (text_lines width (pr_text prompt) []) (\<lambda>ls.
     let textHeight = int (length ls) in
     pbind (input_lines width (pr_input prompt) ls) (\<lambda>ls.
     let inputHeight = int (length ls) - textHeight in
     pbind (if inputHeight = 0 then guard_else (0 \<le> width + 1) MakeSliceRange (returns (ls @ [[]], inputHeight + 1))
            else returns (ls, inputHeight)) (\<lambda>(ls, inputHeight).
     returns (if ls = [] then (0, 0, []) else (sliceLength (last ls), textHeight + inputHeight - 1, ls)))))"

section \<open>When the loops return\<close>

definition fits :: "int \<Rightarrow> byte \<Rightarrow> bool" where
  "fits width ch \<longleftrightarrow> charLength ch \<le> width"

definition text_fits :: "int \<Rightarrow> byte list \<Rightarrow> bool" where
  "text_fits width t \<longleftrightarrow> (\<forall>ch\<in>set t. ch = CHR 0x0A \<or> fits width ch)"

definition input_fits :: "int \<Rightarrow> byte list \<Rightarrow> bool" where
  "input_fits width t \<longleftrightarrow> (\<forall>ch\<in>set t. fits width ch)"

lemma charLength_nonneg: "0 \<le> charLength ch"
  by (simp add: charLength_def)

text \<open>A line that was started within the width stays within it; the newline that ends a line has no width.\<close>

lemma text_line_width:
  "lineWidth \<le> width \<Longrightarrow> lineWidth + sliceLength (take (text_line width lineWidth rest) rest) \<le> width"
  by (induction width lineWidth rest rule: text_line.induct) (auto simp: charLength_def split: if_splits)

lemma input_line_width:
  "lineWidth \<le> width \<Longrightarrow> lineWidth + sliceLength (take (input_line width lineWidth rest) rest) \<le> width"
  by (induction width lineWidth rest rule: input_line.induct) (auto split: if_splits)

lemma text_line_pos: "text_line width 0 (ch # rest) > 0 \<longleftrightarrow> ch = CHR 0x0A \<or> fits width ch"
  by (auto simp: fits_def)

lemma input_line_pos: "input_line width 0 (ch # rest) > 0 \<longleftrightarrow> fits width ch"
  by (auto simp: fits_def)

text \<open>
  Both outer loops cut a prefix off until nothing is left. They share their analysis: \<open>cut\<close> is the length of
  the next line, and \<open>good\<close> the bytes that can start one.
\<close>

locale line_cutter =
  fixes cut :: "byte list \<Rightarrow> nat" and good :: "byte \<Rightarrow> bool" and width :: int
    and cut_lines :: "byte list \<Rightarrow> byte list list \<Rightarrow> byte list list prog"
  assumes unfold: "cut_lines rest ls =
      (if rest = [] then returns ls else cut_lines (drop (cut rest) rest) (ls @ [take (cut rest) rest]))"
    and progress: "0 < cut (ch # rest) \<longleftrightarrow> good ch"
    and narrow: "0 \<le> width \<Longrightarrow> sliceLength (take (cut rest) rest) \<le> width"
begin

lemma cuts:
  assumes "\<forall>ch\<in>set rest. good ch"
  shows "\<exists>new. cut_lines rest ls = returns (ls @ new) \<and> concat new = rest \<and>
    (0 \<le> width \<longrightarrow> (\<forall>l\<in>set new. sliceLength l \<le> width)) \<and> [] \<notin> set new"
  using assms
proof (induction "length rest" arbitrary: rest ls rule: less_induct)
  case less
  show ?case
  proof (cases rest)
    case Nil
    then show ?thesis by (subst unfold) simp
  next
    case (Cons ch bytes)
    let ?n = "cut rest"
    have pos: "0 < ?n" using progress [of ch bytes] less.prems Cons by simp
    then have "length (drop ?n rest) < length rest" "\<forall>ch\<in>set (drop ?n rest). good ch"
      using less.prems Cons in_set_dropD [of _ ?n rest] by auto
    from less.hyps [OF this, of "ls @ [take ?n rest]"] obtain new where
      new: "cut_lines (drop ?n rest) (ls @ [take ?n rest]) = returns ((ls @ [take ?n rest]) @ new)"
        "concat new = drop ?n rest" "0 \<le> width \<longrightarrow> (\<forall>l\<in>set new. sliceLength l \<le> width)" "[] \<notin> set new"
      by blast
    with pos Cons narrow [of rest] show ?thesis
      by (intro exI [of _ "take ?n rest # new"]) (subst unfold, auto)
  qed
qed

end

interpretation text_cut: line_cutter "text_line width 0" "\<lambda>ch. ch = CHR 0x0A \<or> fits width ch" width "text_lines width"
  for width
proof
  show "text_lines width rest ls = (if rest = [] then returns ls
      else text_lines width (drop (text_line width 0 rest) rest) (ls @ [take (text_line width 0 rest) rest]))" for rest ls
    by (subst text_lines.simps) (simp add: Let_def)
qed (use text_line_pos text_line_width [of 0 width] in auto)

interpretation input_cut: line_cutter "input_line width 0" "fits width" width "input_lines width"
  for width
proof
  show "input_lines width rest ls = (if rest = [] then returns ls
      else input_lines width (drop (input_line width 0 rest) rest) (ls @ [take (input_line width 0 rest) rest]))" for rest ls
    by (subst input_lines.simps) (simp add: Let_def)
qed (use input_line_pos input_line_width [of 0 width] in auto)

text \<open>Conversely, a loop that returns has passed over bytes that fit only.\<close>

lemma fits_within: "0 \<le> lineWidth \<Longrightarrow> lineWidth + charLength ch \<le> width \<Longrightarrow> fits width ch"
  by (simp add: fits_def)

lemma text_line_fits:
  "0 \<le> lineWidth \<Longrightarrow> text_fits width (take (text_line width lineWidth rest) rest)"
proof (induction width lineWidth rest rule: text_line.induct)
  case (2 width lineWidth ch rest)
  then show ?case using charLength_nonneg [of ch] fits_within [of lineWidth ch width] by (auto simp: text_fits_def)
qed (simp add: text_fits_def)

lemma input_line_fits:
  "0 \<le> lineWidth \<Longrightarrow> input_fits width (take (input_line width lineWidth rest) rest)"
proof (induction width lineWidth rest rule: input_line.induct)
  case (2 width lineWidth ch rest)
  then show ?case using charLength_nonneg [of ch] fits_within [of lineWidth ch width] by (auto simp: input_fits_def)
qed (simp add: input_fits_def)

lemma text_fits_append: "text_fits width (s @ t) \<longleftrightarrow> text_fits width s \<and> text_fits width t"
  by (auto simp: text_fits_def)

lemma input_fits_append: "input_fits width (s @ t) \<longleftrightarrow> input_fits width s \<and> input_fits width t"
  by (auto simp: input_fits_def)

lemma text_lines_fits:
  assumes "text_lines width rest ls = Some r"
  shows "text_fits width rest"
proof (rule text_lines.raw_induct [OF _ assms], goal_cases)
  case (1 loop width rest ls r)
  have split: "text_fits width rest \<longleftrightarrow>
      text_fits width (take (text_line width 0 rest) rest) \<and> text_fits width (drop (text_line width 0 rest) rest)"
    by (simp flip: text_fits_append)
  show ?case
  proof (cases "rest = []")
    case False
    with 1 show ?thesis unfolding split Let_def using text_line_fits [of 0 width rest] by simp
  qed (simp add: text_fits_def)
qed

lemma input_lines_fits:
  assumes "input_lines width rest ls = Some r"
  shows "input_fits width rest"
proof (rule input_lines.raw_induct [OF _ assms], goal_cases)
  case (1 loop width rest ls r)
  have split: "input_fits width rest \<longleftrightarrow>
      input_fits width (take (input_line width 0 rest) rest) \<and> input_fits width (drop (input_line width 0 rest) rest)"
    by (simp flip: input_fits_append)
  show ?case
  proof (cases "rest = []")
    case False
    with 1 show ?thesis unfolding split Let_def using input_line_fits [of 0 width rest] by simp
  qed (simp add: input_fits_def)
qed

section \<open>The display\<close>

lemma Prompt_shows:
  assumes "0 \<le> width" "text_fits width (pr_text p)" "input_fits width (pr_input p)"
  shows "\<exists>x y ls. Prompt_GetDisplayInformation p width height = returns (x, y, ls) \<and>
    concat ls = pr_text p @ pr_input p \<and> (\<forall>l\<in>set ls. sliceLength l \<le> width) \<and>
    ls \<noteq> [] \<and> y = int (length ls) - 1 \<and> x = sliceLength (last ls)"
proof -
  obtain t where t: "text_lines width (pr_text p) [] = returns t" "concat t = pr_text p"
      "\<forall>l\<in>set t. sliceLength l \<le> width"
    using text_cut.cuts [of "pr_text p" width "[]"] assms by (auto simp: text_fits_def)
  obtain u where u: "input_lines width (pr_input p) t = returns (t @ u)" "concat u = pr_input p"
      "\<forall>l\<in>set u. sliceLength l \<le> width"
    using input_cut.cuts [of "pr_input p" width t] assms by (auto simp: input_fits_def)
  define ls where "ls = (if u = [] then t @ [[]] else t @ u)"
  have "Prompt_GetDisplayInformation p width height = returns (sliceLength (last ls), int (length ls) - 1, ls)"
    using t(1) u(1) assms by (simp add: Prompt_GetDisplayInformation_def ls_def guard_else_def Let_def)
  moreover have "concat ls = pr_text p @ pr_input p" "\<forall>l\<in>set ls. sliceLength l \<le> width" "ls \<noteq> []"
    using t(2,3) u(2,3) assms by (auto simp: ls_def)
  ultimately show ?thesis by auto
qed

lemma Prompt_hangs:
  assumes "\<not> (text_fits width (pr_text p) \<and> input_fits width (pr_input p))"
  shows "Prompt_GetDisplayInformation p width height = never_returns"
proof (cases "text_lines width (pr_text p) []")
  case (Some r)
  then have fit: "text_fits width (pr_text p)" by (rule text_lines_fits)
  then obtain t where t: "text_lines width (pr_text p) [] = returns t"
    using text_cut.cuts [of "pr_text p" width "[]"] by (auto simp: text_fits_def)
  have "input_lines width (pr_input p) t = never_returns"
    using input_lines_fits [of width "pr_input p" t] assms fit by (cases "input_lines width (pr_input p) t") auto
  with t show ?thesis by (simp add: Prompt_GetDisplayInformation_def Let_def)
qed (simp add: Prompt_GetDisplayInformation_def)

text \<open>C40: The prompt shows its text followed by its input, in lines that fit into the window, with the cursor behind
  the last byte, exactly when no byte is wider than the window. A tab in a window of less than 4 columns makes the
  loop run for ever.\<close>

theorem Prompt_display:
  assumes "0 \<le> width"
  shows "if text_fits width (pr_text p) \<and> input_fits width (pr_input p)
    then \<exists>x y ls. Prompt_GetDisplayInformation p width height = returns (x, y, ls) \<and>
      concat ls = pr_text p @ pr_input p \<and> (\<forall>l\<in>set ls. sliceLength l \<le> width) \<and>
      ls \<noteq> [] \<and> y = int (length ls) - 1 \<and> x = sliceLength (last ls)
    else Prompt_GetDisplayInformation p width height = never_returns"
  using Prompt_shows [OF assms] Prompt_hangs by simp

theorem Prompt_display_witness:
  "(\<exists>x y ls. Prompt_GetDisplayInformation (Prompt_Insert (NewPrompt ''ab'') (CHR ''c'')) 3 9 = returns (x, y, ls) \<and>
      concat ls = ''abc'') \<and>
    Prompt_GetDisplayInformation (Prompt_Insert (NewPrompt ''ab'') (CHR 0x09)) 3 9 = never_returns"
  using Prompt_display [of 3 "Prompt_Insert (NewPrompt ''ab'') (CHR ''c'')" 9]
    Prompt_display [of 3 "Prompt_Insert (NewPrompt ''ab'') (CHR 0x09)" 9]
  by (auto simp: Prompt_Insert_def NewPrompt_def text_fits_def input_fits_def fits_def charLength_def)

end
