(* ===== verification/Gui.thy ===== *)
theory Gui
  imports Session DocModel Prompt
begin

text \<open>
  The terminal interface: \<^verbatim>\<open>gui/*.go\<close>. The library \<open>termbox\<close> delivers events and shows cells; here an event is a value, and
  redrawing yields the cells that are set and the cursor. The application is a state machine over \<open>appState\<close>, and its callbacks tie
  the document to the network. JSON, UUIDs, the size of the terminal and dialling are arguments.
\<close>

section \<open>State\<close>

definition STATE_MENU :: int where "STATE_MENU = 0"
definition STATE_MENU_RETRY :: int where "STATE_MENU_RETRY = 1"
definition STATE_EXIT :: int where "STATE_EXIT = 10"
definition STATE_DOCUMENT :: int where "STATE_DOCUMENT = 20"
definition STATE_CONNECT :: int where "STATE_CONNECT = 30"
definition STATE_ERROR :: int where "STATE_ERROR = 40"

lemmas gui_states = STATE_MENU_def STATE_MENU_RETRY_def STATE_EXIT_def STATE_DOCUMENT_def STATE_CONNECT_def STATE_ERROR_def

definition OPTION_EXIT :: string where "OPTION_EXIT = ''Exit''"
definition OPTION_CONNECT :: string where "OPTION_CONNECT = ''Connect''"
definition OPTION_DISCONNECT :: string where "OPTION_DISCONNECT = ''Disconnect''"
definition OPTION_NEW_DOCUMENT :: string where "OPTION_NEW_DOCUMENT = ''New Document''"
definition OPTION_CLOSE_DOCUMENT :: string where "OPTION_CLOSE_DOCUMENT = ''Close Document''"

lemmas gui_options = OPTION_EXIT_def OPTION_CONNECT_def OPTION_DISCONNECT_def OPTION_NEW_DOCUMENT_def OPTION_CLOSE_DOCUMENT_def

record appState =
  State :: int
  app_DocModel :: "DocumentModel option"
  ScreenY :: int
  MenuOptions :: "string list"
  Manager :: NetworkManager
  TempData :: "string option"

text \<open>What an action takes from outside: a new UUID, the size of the terminal, the identity and listener of a new session, and
  the connection that dialling an address gives.\<close>

record gui_inputs =
  in_codec :: codec
  in_uuid :: string
  in_size :: "int \<times> int"
  in_newId :: string
  in_listenErr :: "string option"
  in_dial :: "string \<Rightarrow> string + Conn"

record gui_json =
  put_ops :: "RemoteOperationJson list \<Rightarrow> string + byte list"
  get_ops :: "byte list \<Rightarrow> RemoteOperationJson list"
  put_version :: "VersionVectorJson \<Rightarrow> byte list"
  get_version :: "byte list \<Rightarrow> VersionVectorJson option"

section \<open>Callbacks between document and network\<close>

text \<open>The second callback of \<open>newDocument\<close>: a local operation is broadcast.\<close>

definition broadcast_op :: "gui_json \<Rightarrow> NetworkManager \<Rightarrow> RemoteOperation \<Rightarrow> NetworkManager" where
  "broadcast_op J nm op =
     Broadcast nm (NewBroadcastMessage (nm_id nm) MSG_TYPE_REMOTE_OP (RemoteOperationsToSlice (put_ops J) [op]))"

definition newDocument :: "int \<Rightarrow> SiteId \<Rightarrow> DocumentModel prog" where
  "newDocument width siteId = NewDocumentModel siteId (width - 1) True"

text \<open>The three handlers that \<open>StartMainLoop\<close> installs.\<close>

definition remote_op_handler :: "gui_json \<Rightarrow> appState \<Rightarrow> byte list \<Rightarrow> appState prog" where
  "remote_op_handler J app msg =
     (case app_DocModel app of
        None \<Rightarrow> returns app
      | Some m \<Rightarrow>
          pbind (pfold ApplyRemoteOperation (RemoteOperationsFromSlice (get_ops J) msg) m) (\<lambda>m.
          returns (app\<lparr>app_DocModel := Some m\<rparr>)))"

definition ops_receive_version :: "gui_json \<Rightarrow> appState \<Rightarrow> byte list option" where
  "ops_receive_version J app =
     (case app_DocModel app of None \<Rightarrow> None | Some m \<Rightarrow> Some (MarshalJSON (put_version J) (GetVersionVectorReceived m)))"

definition version_check_handler :: "gui_json \<Rightarrow> appState \<Rightarrow> byte list \<Rightarrow> byte list \<times> bool" where
  "version_check_handler J app data =
     (case (app_DocModel app, UnmarshalJSON (get_version J) data) of
        (Some m, Some vector) \<Rightarrow>
          (case GetMissingOperations m vector of (ops, queueOps) \<Rightarrow>
             if length (ops @ queueOps) > 0 then (RemoteOperationsToSlice (put_ops J) (ops @ queueOps), True) else ([], False))
      | _ \<Rightarrow> ([], False))"

definition gui_handlers :: "gui_json \<Rightarrow> appState \<Rightarrow> handlers" where
  "gui_handlers J app = \<lparr>h_RemoteOp = True, h_OpsVersion = Some (ops_receive_version J app),
     h_VersionCheck = Some (version_check_handler J app)\<rparr>"

section \<open>Menu\<close>

text \<open>An error of \<open>Atoi\<close> goes with a value below 1 or above every number of options.\<close>

definition doAction :: "gui_inputs \<Rightarrow> appState \<Rightarrow> string \<Rightarrow> appState prog" where
  "doAction inp app input =
     (if State app = STATE_MENU \<or> State app = STATE_MENU_RETRY then
        let n = StrToInt input in
        if n < 1 \<or> n > int (length (MenuOptions app)) then returns (app\<lparr>State := STATE_MENU_RETRY\<rparr>)
        else
          let option = MenuOptions app ! nat (n - 1) in
          if option = OPTION_EXIT then returns (app\<lparr>State := STATE_EXIT\<rparr>)
          else if option = OPTION_CONNECT then returns (app\<lparr>State := STATE_CONNECT\<rparr>)
          else if option = OPTION_DISCONNECT then returns (app\<lparr>Manager := fst (Disconnect (Manager app))\<rparr>)
          else if option = OPTION_NEW_DOCUMENT then
            pbind (newDocument (fst (in_size inp)) (StringToSiteId (in_uuid inp))) (\<lambda>m.
            returns (app\<lparr>app_DocModel := Some m, ScreenY := 0, State := STATE_DOCUMENT\<rparr>))
          else if option = OPTION_CLOSE_DOCUMENT then
            returns (app\<lparr>Manager := CompleteDisconnect (Manager app) (in_newId inp) (in_listenErr inp), app_DocModel := None\<rparr>)
          else returns (app\<lparr>State := STATE_MENU_RETRY\<rparr>)
      else if State app = STATE_CONNECT then
        (case ConnectTo (in_codec inp) (Manager app) (in_newId inp) (in_listenErr inp) (in_dial inp input) of
           (nm, Some err) \<Rightarrow> returns (app\<lparr>Manager := nm, State := STATE_ERROR, TempData := Some err\<rparr>)
         | (nm, None) \<Rightarrow> returns (app\<lparr>Manager := nm, State := STATE_MENU\<rparr>))
      else if State app = STATE_ERROR then returns (app\<lparr>State := STATE_MENU\<rparr>)
      else returns app)"

fun option_lines :: "nat \<Rightarrow> string list \<Rightarrow> string" where
  "option_lines i [] = []"
| "option_lines i (option # options) = itoa (i + 1) @ ''. '' @ option @ [CHR 0x0A] @ option_lines (i + 1) options"

definition FormatBool :: "bool \<Rightarrow> string" where
  "FormatBool b = (if b then ''true'' else ''false'')"

definition peer_line :: "NodeMetaListElem \<Rightarrow> string" where
  "peer_line node = ml_Id node @ '': Addr = '' @ ml_Addr node @ '', Left = '' @ FormatBool (ml_Left node) @ [CHR 0x0A]"

definition menu_options :: "appState \<Rightarrow> string list" where
  "menu_options app =
     (if app_DocModel app = None then [OPTION_NEW_DOCUMENT] else [OPTION_CONNECT, OPTION_DISCONNECT, OPTION_CLOSE_DOCUMENT]) @
     [OPTION_EXIT]"

definition getPrompt :: "appState \<Rightarrow> (appState \<times> Prompt) prog" where
  "getPrompt app =
     (if State app = STATE_MENU \<or> State app = STATE_MENU_RETRY then
        let options = menu_options app;
            netMeta = sort_key ml_Id (ToList (GetNetworkMetadata (Manager app)));
            str = option_lines 0 options @ [CHR 0x0A] @ ''Esc to switch between menu and editing the document'' @ [CHR 0x0A] @
              [CHR 0x0A] @ ''Peers In Network:'' @ [CHR 0x0A] @ concat (map peer_line netMeta) @ [CHR 0x0A] @
              (if State app = STATE_MENU_RETRY then ''Input is not a valid input, please try again: ''
               else ''Enter number to exectute option: '')
        in returns (app\<lparr>MenuOptions := options\<rparr>, NewPrompt str)
      else if State app = STATE_CONNECT then returns (app, NewPrompt ''Enter ip to connect to: '')
      else if State app = STATE_ERROR then
        (case TempData app of
           None \<Rightarrow> panics (ExplicitPanic ''interface conversion'')
         | Some err \<Rightarrow> returns (app, NewPrompt (err @ [CHR 0x0A, CHR 0x0A] @ ''Press Enter to continue'')))
      else panics (ExplicitPanic (''UNKNOWN STATE '' @ itoa (nat (State app)))))"

section \<open>Drawing\<close>

type_synonym cells = "((int \<times> int) \<times> char) list"

fun draw_bytes :: "int \<Rightarrow> int \<Rightarrow> byte list \<Rightarrow> cells" where
  "draw_bytes y x [] = []"
| "draw_bytes y x (ch # bytes) =
     (if ch = CHR 0x09 then map (\<lambda>i. ((x + i, y), CHR '' '')) [0, 1, 2, 3] @ draw_bytes y (x + 4) bytes
      else if ch \<noteq> CHR 0x0A then ((x, y), ch) # draw_bytes y (x + 1) bytes
      else draw_bytes y x bytes)"

fun draw_lines_from :: "int \<Rightarrow> byte list list \<Rightarrow> int \<Rightarrow> cells" where
  "draw_lines_from y [] height = []"
| "draw_lines_from y (line # lines) height =
     (if y < height then draw_bytes y 0 line @ draw_lines_from (y + 1) lines height else [])"

definition drawLines :: "byte list list \<Rightarrow> int \<Rightarrow> cells" where
  "drawLines lines height = draw_lines_from 0 lines height"

record screen =
  scr_cells :: cells
  scr_cursor :: "(int \<times> int) option"

definition redrawEditor :: "DocumentModel \<Rightarrow> int \<Rightarrow> int \<Rightarrow> (int \<times> screen) prog" where
  "redrawEditor m screenY height =
     pbind (GetDisplayInformation (dm_Buffer m) screenY height) (\<lambda>(screenY, cursorX, cursorY, line).
     let lines = (case line of None \<Rightarrow> [] | Some y \<Rightarrow> drop y (b_lines (dm_Buffer m)))
     in returns (screenY, \<lparr>scr_cells = drawLines lines height, scr_cursor = Some (cursorX, cursorY)\<rparr>))"

definition redrawPrompt :: "Prompt \<Rightarrow> int \<Rightarrow> int \<Rightarrow> screen prog" where
  "redrawPrompt prompt width height =
     pbind (Prompt_GetDisplayInformation prompt (width - 1) height) (\<lambda>(cursorX, cursorY, lines).
     returns \<lparr>scr_cells = drawLines lines height, scr_cursor = (if cursorY < height then Some (cursorX, cursorY) else None)\<rparr>)"

section \<open>Events\<close>

datatype key =
    KeyCtrlC | KeyCtrlK | KeyEsc | KeyArrowLeft | KeyArrowRight | KeyArrowUp | KeyArrowDown
  | KeyBackspace | KeyBackspace2 | KeyDelete | KeySpace | KeyTab | KeyEnter
  | KeyNone | KeyOther

datatype event =
    EventKey key int
  | EventResize int int
  | EventInterrupt
  | EventError string

text \<open>An event either leaves the loop or redraws; the size is that of the terminal.\<close>

datatype 'a event_result = Leaves appState | Stays 'a "int \<times> int" "screen option"

definition byte_of_rune :: "int \<Rightarrow> byte" where
  "byte_of_rune ch = char_of (nat (ch mod 256))"

text \<open>A local edit hands its operations to the broadcast callback.\<close>

definition local_edit :: "gui_json \<Rightarrow> appState \<Rightarrow> (DocumentModel \<times> RemoteOperation list) prog \<Rightarrow> appState prog" where
  "local_edit J app edit =
     pbind edit (\<lambda>(m, sent).
     returns (app\<lparr>app_DocModel := Some m, Manager := foldl (broadcast_op J) (Manager app) sent\<rparr>))"

definition redraw_app :: "appState \<Rightarrow> int \<Rightarrow> (appState \<times> screen) prog" where
  "redraw_app app height =
     (case app_DocModel app of
        None \<Rightarrow> panics NilDereference
      | Some m \<Rightarrow>
          pbind (redrawEditor m (ScreenY app) height) (\<lambda>(screenY, scr). returns (app\<lparr>ScreenY := screenY\<rparr>, scr)))"

definition stay_and_redraw :: "appState \<Rightarrow> int \<times> int \<Rightarrow> appState event_result prog" where
  "stay_and_redraw app dim = pbind (redraw_app app (snd dim)) (\<lambda>(app, scr). returns (Stays app dim (Some scr)))"

definition with_buffer :: "appState \<Rightarrow> DocumentModel \<Rightarrow> Buffer \<Rightarrow> appState" where
  "with_buffer app m buf = app\<lparr>app_DocModel := Some (m\<lparr>dm_Buffer := buf\<rparr>)\<rparr>"

definition editor_event :: "gui_json \<Rightarrow> appState \<Rightarrow> int \<times> int \<Rightarrow> event \<Rightarrow> appState event_result prog" where
  "editor_event J app dim ev =
     (case app_DocModel app of
        None \<Rightarrow> panics NilDereference
      | Some m \<Rightarrow>
        let insert = (\<lambda>c. pbind (local_edit J app (LocalInsert m c)) (\<lambda>app. stay_and_redraw app dim)) in
        (case ev of
           EventKey k ch \<Rightarrow>
             (case k of
                KeyCtrlC \<Rightarrow> returns (Leaves (app\<lparr>State := STATE_EXIT\<rparr>))
              | KeyCtrlK \<Rightarrow> panics (ExplicitPanic ''Force kill'')
              | KeyEsc \<Rightarrow> returns (Leaves (app\<lparr>State := STATE_MENU\<rparr>))
              | KeyArrowLeft \<Rightarrow> stay_and_redraw (with_buffer app m (MoveLeft (dm_Buffer m))) dim
              | KeyArrowRight \<Rightarrow> stay_and_redraw (with_buffer app m (MoveRight (dm_Buffer m))) dim
              | KeyArrowUp \<Rightarrow> pbind (MoveUp (dm_Buffer m)) (\<lambda>buf. stay_and_redraw (with_buffer app m buf) dim)
              | KeyArrowDown \<Rightarrow> pbind (MoveDown (dm_Buffer m)) (\<lambda>buf. stay_and_redraw (with_buffer app m buf) dim)
              | KeyBackspace \<Rightarrow> pbind (local_edit J app (LocalBackspace m)) (\<lambda>app. stay_and_redraw app dim)
              | KeyBackspace2 \<Rightarrow> pbind (local_edit J app (LocalBackspace m)) (\<lambda>app. stay_and_redraw app dim)
              | KeyDelete \<Rightarrow> pbind (local_edit J app (LocalDelete m)) (\<lambda>app. stay_and_redraw app dim)
              | KeySpace \<Rightarrow> insert (CHR '' '')
              | KeyTab \<Rightarrow> insert (CHR 0x09)
              | KeyEnter \<Rightarrow> insert (CHR 0x0A)
              | KeyNone \<Rightarrow> if ch \<le> 256 then insert (byte_of_rune ch) else returns (Stays app dim None)
              | KeyOther \<Rightarrow> returns (Stays app dim None))
         | EventResize w h \<Rightarrow>
             pbind (Resize (dm_Buffer m) (w - 1)) (\<lambda>buf. stay_and_redraw (with_buffer app m buf) (w, h))
         | EventInterrupt \<Rightarrow> stay_and_redraw app dim
         | EventError err \<Rightarrow> panics (ExplicitPanic err)))"

text \<open>What \<open>DrawEditor\<close> does before its loop.\<close>

definition DrawEditor_start :: "appState \<Rightarrow> int \<times> int \<Rightarrow> (appState \<times> screen) prog" where
  "DrawEditor_start app dim =
     (case app_DocModel app of
        None \<Rightarrow> panics NilDereference
      | Some m \<Rightarrow> pbind (Resize (dm_Buffer m) (fst dim - 1)) (\<lambda>buf. redraw_app (with_buffer app m buf) (snd dim)))"

definition redraw_prompt :: "Prompt \<Rightarrow> int \<times> int \<Rightarrow> Prompt event_result prog" where
  "redraw_prompt prompt dim = pbind (redrawPrompt prompt (fst dim) (snd dim)) (\<lambda>scr. returns (Stays prompt dim (Some scr)))"

definition prompt_event :: "gui_inputs \<Rightarrow> appState \<Rightarrow> Prompt \<Rightarrow> int \<times> int \<Rightarrow> event \<Rightarrow> Prompt event_result prog" where
  "prompt_event inp app prompt dim ev =
     (case ev of
        EventKey k ch \<Rightarrow>
          (case k of
             KeyCtrlC \<Rightarrow> returns (Leaves (app\<lparr>State := STATE_EXIT\<rparr>))
           | KeyCtrlK \<Rightarrow> panics (ExplicitPanic ''Force kill'')
           | KeyEsc \<Rightarrow> if app_DocModel app \<noteq> None then returns (Leaves (app\<lparr>State := STATE_DOCUMENT\<rparr>)) else returns (Stays prompt dim None)
           | KeyBackspace \<Rightarrow> redraw_prompt (Prompt_Delete prompt) dim
           | KeyBackspace2 \<Rightarrow> redraw_prompt (Prompt_Delete prompt) dim
           | KeySpace \<Rightarrow> redraw_prompt (Prompt_Insert prompt (CHR '' '')) dim
           | KeyTab \<Rightarrow> redraw_prompt (Prompt_Insert prompt (CHR 0x09)) dim
           | KeyEnter \<Rightarrow> pbind (doAction inp app (Prompt_ToString prompt)) (\<lambda>app. returns (Leaves app))
           | KeyNone \<Rightarrow> if ch \<le> 256 then redraw_prompt (Prompt_Insert prompt (byte_of_rune ch)) dim else returns (Stays prompt dim None)
           | _ \<Rightarrow> returns (Stays prompt dim None))
      | EventResize w h \<Rightarrow> redraw_prompt prompt (w, h)
      | EventInterrupt \<Rightarrow> redraw_prompt prompt dim
      | EventError err \<Rightarrow> panics (ExplicitPanic err))"

section \<open>The main loop\<close>

text \<open>Where the loop of \<open>StartMainLoop\<close> waits: in \<open>DrawEditor\<close>, in \<open>DrawPrompt\<close>, or not at all any more.\<close>

datatype view = AtEditor "int \<times> int" | AtPrompt Prompt "int \<times> int" | Finished

definition StartMainLoop_app :: "NetworkManager \<Rightarrow> appState" where
  "StartMainLoop_app manager = \<lparr>State = STATE_MENU, app_DocModel = None, ScreenY = 0, MenuOptions = [],
     Manager = manager, TempData = None\<rparr>"

text \<open>\<^verbatim>\<open>editor.go\<close>: the arguments behind the name of the program, then the identity and the listener of the first session. The
  local address only goes to the listener.\<close>

datatype main_result = Exits string | Runs appState

definition editor_main :: "string \<Rightarrow> string list \<Rightarrow> string \<Rightarrow> string option \<Rightarrow> main_result" where
  "editor_main name args newId listenErr =
     (case args of
        [] \<Rightarrow> Exits (''Usage: '' @ name @ '' <listening port> [public listening port]'' @ [CHR 0x0A])
      | localAddr # rest \<Rightarrow>
          if length rest > 1 then Exits (''Usage: '' @ name @ '' <listening port> [public listening port]'' @ [CHR 0x0A])
          else
            let publicAddr = (case rest of [] \<Rightarrow> localAddr | addr # _ \<Rightarrow> addr)
            in case NewNetworkManager publicAddr newId listenErr of
                 Inl err \<Rightarrow> Exits err
               | Inr networkManager \<Rightarrow> Runs (StartMainLoop_app networkManager))"

text \<open>One turn of the loop, up to the first event it waits for, and what an event does there.\<close>

definition main_loop_turn :: "int \<times> int \<Rightarrow> appState \<Rightarrow> ((appState \<times> view) \<times> screen option) prog" where
  "main_loop_turn dim app =
     (if State app = STATE_EXIT then returns ((app\<lparr>Manager := fst (Disconnect (Manager app))\<rparr>, Finished), None)
      else if State app = STATE_DOCUMENT then
        pbind (DrawEditor_start app dim) (\<lambda>(app, scr). returns ((app, AtEditor dim), Some scr))
      else
        pbind (getPrompt app) (\<lambda>(app, prompt).
        pbind (redrawPrompt prompt (fst dim) (snd dim)) (\<lambda>scr. returns ((app, AtPrompt prompt dim), Some scr))))"

definition gui_event :: "gui_json \<Rightarrow> gui_inputs \<Rightarrow> appState \<times> view \<Rightarrow> event \<Rightarrow> ((appState \<times> view) \<times> screen option) prog" where
  "gui_event J inp c ev =
     (case c of
        (app, AtEditor dim) \<Rightarrow>
          pbind (editor_event J app dim ev) (\<lambda>r. case r of
            Leaves app \<Rightarrow> main_loop_turn (in_size inp) app
          | Stays app dim scr \<Rightarrow> returns ((app, AtEditor dim), scr))
      | (app, AtPrompt prompt dim) \<Rightarrow>
          pbind (prompt_event inp app prompt dim ev) (\<lambda>r. case r of
            Leaves app \<Rightarrow> main_loop_turn (in_size inp) app
          | Stays prompt dim scr \<Rightarrow> returns ((app, AtPrompt prompt dim), scr))
      | (app, Finished) \<Rightarrow> returns ((app, Finished), None))"

end
