(* ===== verification/GuiEvents.thy ===== *)
theory GuiEvents
  imports Gui
begin

text \<open>
  What the terminal shows and what an event in the editor does: the window is exactly the lines of the text from its first row on, and
  every event returns, edits the text as the key says and draws the result.
\<close>

section \<open>The drawn cells\<close>

text \<open>What a row shows of a line: four blanks for a tab and nothing for a newline.\<close>

definition row_text :: "byte list \<Rightarrow> byte list" where
  "row_text bytes = concat (map (\<lambda>ch. if ch = CHR 0x09 then ''    '' else if ch = CHR 0x0A then [] else [ch]) bytes)"

definition row_cells :: "int \<Rightarrow> int \<Rightarrow> byte list \<Rightarrow> cells" where
  "row_cells y x shown = map (\<lambda>i. ((x + int i, y), shown ! i)) [0..<length shown]"

lemma row_text_simps [simp]:
  "row_text [] = []"
  "row_text (ch # bytes) = (if ch = CHR 0x09 then ''    '' else if ch = CHR 0x0A then [] else [ch]) @ row_text bytes"
  by (simp_all add: row_text_def)

lemma row_cells_append: "row_cells y x (s @ t) = row_cells y x s @ row_cells y (x + int (length s)) t"
  by (rule nth_equalityI) (auto simp: row_cells_def nth_append)

lemma row_cells_blanks: "row_cells y x ''    '' = map (\<lambda>i. ((x + i, y), CHR '' '')) [0, 1, 2, 3]"
  by (simp add: row_cells_def upt_rec [of 0] upt_rec [of 1] upt_rec [of 2] upt_rec [of 3] numeral_3_eq_3)

lemma row_cells_single: "row_cells y x [ch] = [((x, y), ch)]"
  by (simp add: row_cells_def)

lemma draw_bytes_row: "draw_bytes y x bytes = row_cells y x (row_text bytes)"
proof (induction bytes arbitrary: x)
  case Nil
  then show ?case by (simp add: row_cells_def)
next
  case (Cons ch bytes)
  show ?case
    by (simp only: draw_bytes.simps row_text_simps Cons.IH row_cells_append)
      (auto simp: row_cells_blanks row_cells_single row_cells_def [of y x "[]"])
qed

lemma length_row_text: "int (length (row_text bytes)) = sliceLength bytes"
  by (induction bytes) (auto simp: charLength_def)

lemma set_row_cells: "((x, y'), ch) \<in> set (row_cells y 0 s) \<longleftrightarrow> y' = y \<and> 0 \<le> x \<and> nat x < length s \<and> ch = s ! nat x"
  by (auto simp: row_cells_def image_iff intro!: bexI [of _ "nat x"])

lemma set_draw_lines:
  "((x, y'), ch) \<in> set (draw_lines_from y ls height) \<longleftrightarrow>
    y \<le> y' \<and> y' < height \<and> nat (y' - y) < length ls \<and> 0 \<le> x \<and>
    nat x < length (row_text (ls ! nat (y' - y))) \<and> ch = row_text (ls ! nat (y' - y)) ! nat x"
proof (induction ls arbitrary: y)
  case (Cons l ls)
  show ?case
  proof (cases "y < height \<and> y < y'")
    case True
    then have "nat (y' - y) = Suc (nat (y' - (y + 1)))" by arith
    with True show ?thesis by (auto simp: draw_bytes_row set_row_cells Cons.IH)
  next
    case False
    then show ?thesis by (auto simp: draw_bytes_row set_row_cells Cons.IH)
  qed
qed simp

text \<open>The screen shows the text of a buffer from line \<open>screenY\<close> on, and the cursor where the next byte goes.\<close>

definition window_shows :: "Buffer \<Rightarrow> int \<Rightarrow> int \<Rightarrow> screen \<Rightarrow> bool" where
  "window_shows buf screenY height scr \<longleftrightarrow> 0 \<le> screenY \<and>
     (\<exists>y. scr_cursor scr = Some (cursor_column buf, y) \<and> 0 \<le> y \<and> y < height \<and> screenY + y = currentY buf) \<and>
     (\<forall>x y ch. ((x, y), ch) \<in> set (scr_cells scr) \<longleftrightarrow>
        0 \<le> y \<and> y < height \<and> nat (screenY + y) < length (b_lines buf) \<and> 0 \<le> x \<and>
        nat x < length (row_text (b_lines buf ! nat (screenY + y))) \<and> ch = row_text (b_lines buf ! nat (screenY + y)) ! nat x)"

lemma redrawEditor_ok:
  assumes "buf_ok (dm_Buffer m)" "0 \<le> screenY" "0 < height"
  shows "\<exists>screenY' scr. redrawEditor m screenY height = returns (screenY', scr) \<and> window_shows (dm_Buffer m) screenY' height scr"
proof -
  obtain s y where d: "GetDisplayInformation (dm_Buffer m) screenY height =
      returns (s, cursor_column (dm_Buffer m), y, Some (nat s))"
    "0 \<le> s" "0 \<le> y" "y < height" "s + y = currentY (dm_Buffer m)" "nat s < length (b_lines (dm_Buffer m))"
    using GetDisplayInformation_ok [OF assms] by blast
  have "((x, y), ch) \<in> set (drawLines (drop (nat s) (b_lines (dm_Buffer m))) height) \<longleftrightarrow>
      0 \<le> y \<and> y < height \<and> nat (s + y) < length (b_lines (dm_Buffer m)) \<and> 0 \<le> x \<and>
      nat x < length (row_text (b_lines (dm_Buffer m) ! nat (s + y))) \<and>
      ch = row_text (b_lines (dm_Buffer m) ! nat (s + y)) ! nat x" for x y ch
    using d(2,6) by (cases "0 \<le> y") (auto simp: drawLines_def set_draw_lines nat_add_distrib)
  with d show ?thesis by (auto simp: redrawEditor_def window_shows_def)
qed

lemma stay_and_redraw_ok:
  assumes "app_DocModel app = Some m" "model_ok m" "0 \<le> ScreenY app" "0 < snd dim"
  shows "\<exists>screenY scr. stay_and_redraw app dim = returns (Stays (app\<lparr>ScreenY := screenY\<rparr>) dim (Some scr)) \<and>
    window_shows (dm_Buffer m) screenY (snd dim) scr"
  using redrawEditor_ok [of m "ScreenY app" "snd dim"] assms
  by (auto simp: stay_and_redraw_def redraw_app_def model_ok_def texts_ok_def)

section \<open>Events in the editor\<close>

text \<open>The byte that an event types, and where an event deletes one.\<close>

fun typed_byte :: "event \<Rightarrow> byte option" where
  "typed_byte (EventKey KeySpace _) = Some (CHR '' '')"
| "typed_byte (EventKey KeyTab _) = Some (CHR 0x09)"
| "typed_byte (EventKey KeyEnter _) = Some (CHR 0x0A)"
| "typed_byte (EventKey KeyNone ch) = (if ch \<le> 256 then Some (byte_of_rune ch) else None)"
| "typed_byte _ = None"

fun deleted_pos :: "DocumentModel \<Rightarrow> event \<Rightarrow> int option" where
  "deleted_pos m (EventKey k _) =
     (let p = currentPosition (dm_Buffer m) in
      if (k = KeyBackspace \<or> k = KeyBackspace2) \<and> 0 < p then Some (p - 1)
      else if k = KeyDelete \<and> p < int (length (doc_text (dm_Treedoc m))) then Some p
      else None)"
| "deleted_pos m _ = None"

definition event_text :: "DocumentModel \<Rightarrow> event \<Rightarrow> byte list" where
  "event_text m ev =
     (let text = doc_text (dm_Treedoc m) in
      case (typed_byte ev, deleted_pos m ev) of
        (Some c, _) \<Rightarrow> insert_at (nat (currentPosition (dm_Buffer m))) c text
      | (None, Some p) \<Rightarrow> delete_at (nat p) text
      | (None, None) \<Rightarrow> text)"

text \<open>
  When an event is safe: no forced exit and no error of the terminal, a window of at least five columns, counters that are not
  exhausted, no reusable cell for an insertion (\<open>own_holes\<close>), no line left empty behind an unfinished word (\<open>delete_gap\<close>), and no
  step to the right from behind the end of a wrapped line.
\<close>

definition can_insert :: "DocumentModel \<Rightarrow> bool" where
  "can_insert m \<longleftrightarrow> OpVersion m \<noteq> - 1 \<and> NodeIdClock m \<noteq> - 1 \<and>
     \<not> own_holes (dm_Treedoc m) (NewNodeId (OwnerId m) (NodeIdClock m))"

fun event_safe :: "DocumentModel \<Rightarrow> event \<Rightarrow> bool" where
  "event_safe m (EventKey k ch) \<longleftrightarrow> k \<noteq> KeyCtrlK \<and> (k = KeyArrowRight \<longrightarrow> cursor_on_byte (dm_Buffer m)) \<and>
     (typed_byte (EventKey k ch) \<noteq> None \<longrightarrow> can_insert m) \<and>
     (k \<in> {KeyBackspace, KeyBackspace2} \<longrightarrow> OpVersion m \<noteq> - 1 \<and> \<not> delete_gap (dm_Buffer m) (currentPosition (dm_Buffer m) - 1)) \<and>
     (k = KeyDelete \<longrightarrow> OpVersion m \<noteq> - 1 \<and> \<not> delete_gap (dm_Buffer m) (currentPosition (dm_Buffer m)))"
| "event_safe m (EventResize w h) \<longleftrightarrow> 5 \<le> w \<and> 0 < h"
| "event_safe m EventInterrupt \<longleftrightarrow> True"
| "event_safe m (EventError err) \<longleftrightarrow> False"

fun event_size :: "int \<times> int \<Rightarrow> event \<Rightarrow> int \<times> int" where
  "event_size dim (EventResize w h) = (w, h)"
| "event_size dim ev = dim"

text \<open>How the loop goes on after an event that does not leave the editor.\<close>

definition edited :: "appState \<Rightarrow> byte list \<Rightarrow> int \<times> int \<Rightarrow> appState event_result \<Rightarrow> bool" where
  "edited app text dim r \<longleftrightarrow>
     (\<exists>app' m' scr. r = Stays app' dim scr \<and> State app' = State app \<and> app_DocModel app' = Some m' \<and> model_ok m' \<and>
        doc_text (dm_Treedoc m') = text \<and> buf_text (dm_Buffer m') = text \<and> 0 \<le> ScreenY app' \<and>
        (case scr of None \<Rightarrow> app' = app | Some s \<Rightarrow> window_shows (dm_Buffer m') (ScreenY app') (snd dim) s))"

lemma edited_redraw:
  assumes "app_DocModel app' = Some m" "model_ok m" "0 \<le> ScreenY app'" "0 < snd dim" "State app' = State app"
    "doc_text (dm_Treedoc m) = text"
  shows "\<exists>r. stay_and_redraw app' dim = returns r \<and> edited app text dim r"
proof -
  have "buf_text (dm_Buffer m) = text" using assms(2,6) by (simp add: model_ok_def texts_ok_def)
  with stay_and_redraw_ok [OF assms(1-4)] assms show ?thesis
    by (auto simp: edited_def window_shows_def)
qed

lemma edited_buffer:
  assumes "app_DocModel app = Some m" "model_ok m" "0 \<le> ScreenY app" "0 < snd dim"
    "buf_ok buf" "buf_text buf = buf_text (dm_Buffer m)"
  shows "\<exists>r. stay_and_redraw (with_buffer app m buf) dim = returns r \<and> edited app (doc_text (dm_Treedoc m)) dim r"
  using assms by (intro edited_redraw [where m = "m\<lparr>dm_Buffer := buf\<rparr>"])
    (auto simp: with_buffer_def model_ok_def texts_ok_def ids_free_def clock_ok_def)

lemma edited_local:
  assumes "edit = returns (m', sent)" "model_ok m'" "doc_text (dm_Treedoc m') = text" "0 \<le> ScreenY app" "0 < snd dim"
  shows "\<exists>r. pbind (local_edit J app edit) (\<lambda>app. stay_and_redraw app dim) = returns r \<and> edited app text dim r"
  using assms by (simp add: local_edit_def) (rule edited_redraw, auto)

lemma edited_same:
  assumes "app_DocModel app = Some m" "model_ok m" "0 \<le> ScreenY app"
  shows "edited app (doc_text (dm_Treedoc m)) dim (Stays app dim None)"
  using assms by (auto simp: edited_def model_ok_def texts_ok_def)

lemmas event_defs = editor_event_def event_text_def Let_def

lemma typed_ok:
  assumes "app_DocModel app = Some m" "model_ok m" "0 \<le> ScreenY app" "0 < snd dim" "can_insert m"
  shows "\<exists>r. pbind (local_edit J app (LocalInsert m c)) (\<lambda>app. stay_and_redraw app dim) = returns r \<and>
    edited app (insert_at (nat (currentPosition (dm_Buffer m))) c (doc_text (dm_Treedoc m))) dim r"
proof -
  obtain m' sent where "LocalInsert m c = returns (m', sent)" "model_ok m'"
    "doc_text (dm_Treedoc m') = insert_at (nat (currentPosition (dm_Buffer m))) c (doc_text (dm_Treedoc m))"
    using LocalInsert_ok [OF assms(2), of c] assms(5) by (auto simp: can_insert_def)
  then show ?thesis by (rule edited_local [OF _ _ _ assms(3,4)])
qed

lemma backspace_ok:
  assumes "app_DocModel app = Some m" "model_ok m" "0 \<le> ScreenY app" "0 < snd dim"
    "event_safe m (EventKey k ch)" "k = KeyBackspace \<or> k = KeyBackspace2"
  shows "\<exists>r. pbind (local_edit J app (LocalBackspace m)) (\<lambda>app. stay_and_redraw app dim) = returns r \<and>
    edited app (event_text m (EventKey k ch)) dim r"
proof -
  have "OpVersion m \<noteq> - 1" "\<not> delete_gap (dm_Buffer m) (currentPosition (dm_Buffer m) - 1)" using assms(5,6) by auto
  from LocalBackspace_total [OF assms(2) this(1) refl this(2)] obtain m' sent where m':
    "LocalBackspace m = returns (m', sent)" "model_ok m'"
    "doc_text (dm_Treedoc m') = event_text m (EventKey k ch)"
    using assms(6) by (auto simp: event_text_def Let_def split: if_splits)
  then show ?thesis by (rule edited_local [OF _ _ _ assms(3,4)])
qed

lemma delete_ok:
  assumes "app_DocModel app = Some m" "model_ok m" "0 \<le> ScreenY app" "0 < snd dim" "event_safe m (EventKey KeyDelete ch)"
  shows "\<exists>r. pbind (local_edit J app (LocalDelete m)) (\<lambda>app. stay_and_redraw app dim) = returns r \<and>
    edited app (event_text m (EventKey KeyDelete ch)) dim r"
proof -
  have "buf_ok (dm_Buffer m)" "buf_text (dm_Buffer m) = doc_text (dm_Treedoc m)"
    using assms(2) by (auto simp: model_ok_def texts_ok_def)
  then have pos: "currentPosition (dm_Buffer m) \<le> int (length (doc_text (dm_Treedoc m)))"
    using buf_ok_position(2) by metis
  have "OpVersion m \<noteq> - 1" "\<not> delete_gap (dm_Buffer m) (currentPosition (dm_Buffer m))" using assms(5) by auto
  from LocalDelete_total [OF assms(2) this(1) refl this(2)] pos obtain m' sent where
    "LocalDelete m = returns (m', sent)" "model_ok m'"
    "doc_text (dm_Treedoc m') = event_text m (EventKey KeyDelete ch)"
    by (auto simp: event_text_def Let_def split: if_splits)
  then show ?thesis by (rule edited_local [OF _ _ _ assms(3,4)])
qed

lemma resize_ok:
  assumes "app_DocModel app = Some m" "model_ok m" "0 \<le> ScreenY app" "5 \<le> w" "0 < h"
  shows "\<exists>r. pbind (Resize (dm_Buffer m) (w - 1)) (\<lambda>buf. stay_and_redraw (with_buffer app m buf) (w, h)) = returns r \<and>
    edited app (doc_text (dm_Treedoc m)) (w, h) r"
proof -
  have "buf_ok (dm_Buffer m)" using assms(2) by (auto simp: model_ok_def texts_ok_def)
  then obtain buf where "Resize (dm_Buffer m) (w - 1) = returns buf" "buf_ok buf" "buf_text buf = buf_text (dm_Buffer m)"
    using Resize_ok [OF buf_ok_facts(7), of "dm_Buffer m" "w - 1"] buf_ok_position assms(4) by auto
  with edited_buffer [OF assms(1-3), of "(w, h)" buf] assms(5) show ?thesis by simp
qed

text \<open>The two keys that leave the editor, with the state they leave it in.\<close>

fun event_leaves :: "event \<Rightarrow> int option" where
  "event_leaves (EventKey KeyCtrlC _) = Some STATE_EXIT"
| "event_leaves (EventKey KeyEsc _) = Some STATE_MENU"
| "event_leaves _ = None"

lemma moves_ok:
  assumes "model_ok m"
  shows "buf_ok (MoveLeft (dm_Buffer m))" "buf_text (MoveLeft (dm_Buffer m)) = buf_text (dm_Buffer m)"
    "cursor_on_byte (dm_Buffer m) \<Longrightarrow> buf_ok (MoveRight (dm_Buffer m))"
    "cursor_on_byte (dm_Buffer m) \<Longrightarrow> buf_text (MoveRight (dm_Buffer m)) = buf_text (dm_Buffer m)"
    "\<exists>buf. MoveUp (dm_Buffer m) = returns buf \<and> buf_ok buf \<and> buf_text buf = buf_text (dm_Buffer m)"
    "\<exists>buf. MoveDown (dm_Buffer m) = returns buf \<and> buf_ok buf \<and> buf_text buf = buf_text (dm_Buffer m)"
  using MoveLeft_ok [of "dm_Buffer m"] MoveRight_ok [of "dm_Buffer m"] MoveUp_ok [of "dm_Buffer m"]
    MoveDown_ok [of "dm_Buffer m"] assms by (auto simp: model_ok_def texts_ok_def)

lemma editor_key_ok:
  assumes "app_DocModel app = Some m" "model_ok m" "0 \<le> ScreenY app" "0 < snd dim" "event_safe m (EventKey k ch)"
    "event_leaves (EventKey k ch) = None"
  shows "\<exists>r. editor_event J app dim (EventKey k ch) = returns r \<and> edited app (event_text m (EventKey k ch)) dim r"
proof (cases k)
  case KeyArrowUp
  then show ?thesis
    using moves_ok(5) [OF assms(2)] edited_buffer [OF assms(1-4)] assms(1) by (auto simp: event_defs)
next
  case KeyArrowDown
  then show ?thesis
    using moves_ok(6) [OF assms(2)] edited_buffer [OF assms(1-4)] assms(1) by (auto simp: event_defs)
next
  case KeyBackspace
  then show ?thesis using backspace_ok [OF assms(1-5)] assms(1) by (simp add: editor_event_def)
next
  case KeyBackspace2
  then show ?thesis using backspace_ok [OF assms(1-5)] assms(1) by (simp add: editor_event_def)
next
  case KeyDelete
  then show ?thesis using delete_ok [OF assms(1-4)] assms(1,5) by (simp add: editor_event_def)
qed (use assms moves_ok [OF assms(2)] edited_buffer [OF assms(1-4)] typed_ok [OF assms(1-4)] edited_same [OF assms(1-3)]
    in \<open>simp_all add: event_defs\<close>)

lemma editor_event_ok:
  assumes "app_DocModel app = Some m" "model_ok m" "0 \<le> ScreenY app" "0 < snd dim" "event_safe m ev" "event_leaves ev = None"
  shows "\<exists>r. editor_event J app dim ev = returns r \<and> edited app (event_text m ev) (event_size dim ev) r"
proof (cases ev)
  case (EventKey k ch)
  then show ?thesis using editor_key_ok [OF assms(1-4)] assms(5,6) by simp
next
  case (EventResize w h)
  then show ?thesis using resize_ok [OF assms(1-3), of w h] assms(1,5) by (simp add: event_defs)
next
  case EventInterrupt
  then show ?thesis using edited_redraw [OF assms(1-4)] assms(1) by (simp add: event_defs)
qed (use assms(5) in simp)

end
