(* ===== verification/TreedocConverge.thy ===== *)
theory TreedocConverge
  imports TreedocSpec
begin

text \<open>
  Convergence. The abstract state after a run is a function of the set of operations applied, and
  whether an operation is applicable depends on that set only: the operations it builds on must be
  there (\<open>deps_met\<close>). So every order that respects these dependencies runs without a panic and ends
  in the same text.
\<close>

definition inserts :: "Operation \<Rightarrow> bool" where
  "inserts op \<longleftrightarrow> creates op \<or> oType op = INSERT"

definition cell_key :: "Operation \<Rightarrow> NodeId \<times> nat" where
  "cell_key op = (oId op, unat (oN op))"

definition place_of :: "Operation \<Rightarrow> (NodeId \<times> nat) option" where
  "place_of op = (if oType op = INSERT_NEW then Some (oParentId op, unat (oParentN op)) else None)"

definition deps_met :: "Operation set \<Rightarrow> Operation \<Rightarrow> bool" where
  "deps_met S op \<longleftrightarrow>
     (oType op = INSERT_NEW \<longrightarrow> (\<exists>o1\<in>S. creates o1 \<and> oId o1 = oParentId op)) \<and>
     (oType op = INSERT \<longrightarrow> (\<exists>o1\<in>S. creates o1 \<and> oId o1 = oId op)) \<and>
     (oType op = DELETE \<longrightarrow> (\<exists>o1\<in>S. inserts o1 \<and> cell_key o1 = cell_key op))"

fun causal :: "Operation set \<Rightarrow> Operation list \<Rightarrow> bool" where
  "causal S [] = True"
| "causal S (op # ops) = (deps_met S op \<and> causal (insert op S) ops)"

definition apply_ops :: "Document \<Rightarrow> Operation list \<Rightarrow> Document prog" where
  "apply_ops doc ops = pfold (\<lambda>doc op. pbind (ApplyOperation doc op) (\<lambda>(doc, _). returns doc)) ops doc"

definition describes :: "Operation set \<Rightarrow> TreeSpec \<Rightarrow> bool" where
  "describes S s \<longleftrightarrow>
     (\<forall>nid pl. sp_place s nid = Some pl \<longleftrightarrow> (\<exists>op\<in>S. creates op \<and> oId op = nid \<and> place_of op = pl)) \<and>
     (\<forall>nid n. fst (sp_cell s nid n) = DEAD \<longleftrightarrow> (\<exists>op\<in>S. oType op = DELETE \<and> cell_key op = (nid, n))) \<and>
     (\<forall>nid n c. fst (sp_cell s nid n) \<noteq> UNINITIALIZED \<and> snd (sp_cell s nid n) = c \<longleftrightarrow>
        (\<exists>op\<in>S. inserts op \<and> cell_key op = (nid, n) \<and> oAtom op = c)) \<and>
     (\<forall>nid n. fst (sp_cell s nid n) = UNINITIALIZED \<longrightarrow> sp_cell s nid n = blank) \<and>
     (\<forall>nid n. sp_place s nid = None \<longrightarrow> sp_cell s nid n = blank)"

lemma describesD:
  assumes "describes S s"
  shows "\<And>nid pl. sp_place s nid = Some pl \<longleftrightarrow> (\<exists>op\<in>S. creates op \<and> oId op = nid \<and> place_of op = pl)"
    and "\<And>nid n. fst (sp_cell s nid n) = DEAD \<longleftrightarrow> (\<exists>op\<in>S. oType op = DELETE \<and> cell_key op = (nid, n))"
    and "\<And>nid n c. fst (sp_cell s nid n) \<noteq> UNINITIALIZED \<and> snd (sp_cell s nid n) = c \<longleftrightarrow>
        (\<exists>op\<in>S. inserts op \<and> cell_key op = (nid, n) \<and> oAtom op = c)"
    and "\<And>nid n. fst (sp_cell s nid n) = UNINITIALIZED \<Longrightarrow> sp_cell s nid n = blank"
    and "\<And>nid n. sp_place s nid = None \<Longrightarrow> sp_cell s nid n = blank"
  using assms unfolding describes_def by blast+

lemma describes_init:
  assumes "describes S s"
  shows "fst (sp_cell s nid n) \<noteq> UNINITIALIZED \<longleftrightarrow> (\<exists>op\<in>S. inserts op \<and> cell_key op = (nid, n))"
    and "sp_place s nid \<noteq> None \<longleftrightarrow> (\<exists>op\<in>S. creates op \<and> oId op = nid)"
  using describesD(3) [OF assms, of nid n] describesD(1) [OF assms, of nid] by blast+

lemma describes_unique:
  assumes "describes S s" "describes S s'"
  shows "s = s'"
proof -
  have "sp_place s nid = sp_place s' nid" for nid
    using describesD(1) [OF assms(1), of nid] describesD(1) [OF assms(2), of nid]
    by (metis option.exhaust)
  moreover have "sp_cell s nid n = sp_cell s' nid n" for nid n
  proof (cases "fst (sp_cell s nid n) = UNINITIALIZED")
    case True
    then have "fst (sp_cell s' nid n) = UNINITIALIZED"
      using describes_init(1) [OF assms(1)] describes_init(1) [OF assms(2)] by blast
    with True show ?thesis using describesD(4) [OF assms(1)] describesD(4) [OF assms(2)] by metis
  next
    case False
    then have "fst (sp_cell s' nid n) \<noteq> UNINITIALIZED" "snd (sp_cell s' nid n) = snd (sp_cell s nid n)"
      using describesD(3) [OF assms(1), of nid n] describesD(3) [OF assms(2), of nid n] by blast+
    moreover have "fst (sp_cell s nid n) = DEAD \<longleftrightarrow> fst (sp_cell s' nid n) = DEAD"
      using describesD(2) [OF assms(1)] describesD(2) [OF assms(2)] by blast
    ultimately show ?thesis
      using False by (cases "fst (sp_cell s nid n)"; cases "fst (sp_cell s' nid n)") (auto simp: prod_eq_iff)
  qed
  ultimately show ?thesis by (auto simp: fun_eq_iff)
qed

definition spec_enabled :: "Operation set \<Rightarrow> Operation \<Rightarrow> bool" where
  "spec_enabled S op \<longleftrightarrow> deps_met S op \<and>
     (oType op = INSERT \<longrightarrow> (\<forall>o1\<in>S. inserts o1 \<longrightarrow> cell_key o1 \<noteq> cell_key op))"

lemma op_kinds:
  "oType op = INSERT \<Longrightarrow> inserts op \<and> \<not> creates op \<and> oType op \<noteq> DELETE"
  "oType op = DELETE \<Longrightarrow> \<not> inserts op \<and> \<not> creates op"
  "creates op \<Longrightarrow> inserts op \<and> oType op \<noteq> DELETE"
  by (auto simp: inserts_def creates_def operation_types)

text \<open>How the three kinds of operation change a described state.\<close>

lemma describes_insert:
  assumes S: "describes S s" and "sp_place s (oId op) \<noteq> None"
    "oType op = INSERT" "fst (sp_cell s (oId op) (unat (oN op))) = UNINITIALIZED"
  shows "describes (insert op S) (spec_set s (oId op) (unat (oN op)) (ALIVE, oAtom op))" (is "describes _ ?s")
proof -
  have cell: "sp_cell ?s nid n = (if (nid, n) = cell_key op then (ALIVE, oAtom op) else sp_cell s nid n)"
    for nid n by (auto simp: spec_set_def cell_key_def)
  have place: "sp_place ?s = sp_place s" by (simp add: spec_set_def)
  note kind = op_kinds(1) [OF assms(3)]
  have none: "\<not> (inserts o1 \<and> cell_key o1 = cell_key op)" "\<not> (oType o1 = DELETE \<and> cell_key o1 = cell_key op)"
    if "o1 \<in> S" for o1
    using describes_init(1) [OF S, of "oId op" "unat (oN op)"] describesD(2) [OF S, of "oId op" "unat (oN op)"]
      assms(4) that by (auto simp: cell_key_def)
  show ?thesis
    unfolding describes_def place
  proof (intro conjI allI impI)
    fix nid n c
    show "(sp_place s nid = Some pl) = (\<exists>op\<in>insert op S. creates op \<and> oId op = nid \<and> place_of op = pl)" for pl
      using describesD(1) [OF S] kind by auto
    show "(fst (sp_cell ?s nid n) = DEAD) = (\<exists>op\<in>insert op S. oType op = DELETE \<and> cell_key op = (nid, n))"
      using describesD(2) [OF S] kind none by (auto simp: cell)
    show "(fst (sp_cell ?s nid n) \<noteq> UNINITIALIZED \<and> snd (sp_cell ?s nid n) = c) =
        (\<exists>op\<in>insert op S. inserts op \<and> cell_key op = (nid, n) \<and> oAtom op = c)"
      using describesD(3) [OF S, of nid n c] kind none by (auto simp: cell)
    show "sp_cell ?s nid n = blank" if "fst (sp_cell ?s nid n) = UNINITIALIZED"
      using describesD(4) [OF S] that by (auto simp: cell split: if_splits)
    show "sp_cell ?s nid n = blank" if "sp_place s nid = None"
      using describesD(5) [OF S] that assms(2) by (auto simp: cell cell_key_def)
  qed
qed

lemma describes_delete:
  assumes S: "describes S s" and "oType op = DELETE"
    "fst (sp_cell s (oId op) (unat (oN op))) \<noteq> UNINITIALIZED"
  shows "describes (insert op S) (spec_set s (oId op) (unat (oN op))
    (DEAD, snd (sp_cell s (oId op) (unat (oN op)))))" (is "describes _ ?s")
proof -
  have cell: "sp_cell ?s nid n = (if (nid, n) = cell_key op then (DEAD, snd (sp_cell s nid n)) else sp_cell s nid n)"
    for nid n by (auto simp: spec_set_def cell_key_def)
  have place: "sp_place ?s = sp_place s" by (simp add: spec_set_def)
  note kind = op_kinds(2) [OF assms(2)]
  show ?thesis
    unfolding describes_def place
  proof (intro conjI allI impI)
    fix nid n c
    show "(sp_place s nid = Some pl) = (\<exists>op\<in>insert op S. creates op \<and> oId op = nid \<and> place_of op = pl)" for pl
      using describesD(1) [OF S] kind by auto
    show "(fst (sp_cell ?s nid n) = DEAD) = (\<exists>op\<in>insert op S. oType op = DELETE \<and> cell_key op = (nid, n))"
      using describesD(2) [OF S] assms(2) by (auto simp: cell)
    show "(fst (sp_cell ?s nid n) \<noteq> UNINITIALIZED \<and> snd (sp_cell ?s nid n) = c) =
        (\<exists>op\<in>insert op S. inserts op \<and> cell_key op = (nid, n) \<and> oAtom op = c)"
      using describesD(3) [OF S, of nid n c] kind assms(3) by (auto simp: cell cell_key_def)
    show "sp_cell ?s nid n = blank" if "fst (sp_cell ?s nid n) = UNINITIALIZED"
      using describesD(4) [OF S] that by (auto simp: cell split: if_splits)
    show "sp_cell ?s nid n = blank" if "sp_place s nid = None"
      using describesD(5) [OF S that] assms(3) by (auto simp: cell cell_key_def blank_def)
  qed
qed

lemma describes_new:
  assumes S: "describes S s" and "creates op" "sp_place s (oId op) = None"
  shows "describes (insert op S) (spec_new s (place_of op) op)" (is "describes _ ?s")
proof -
  have cell: "sp_cell ?s nid n = (if (nid, n) = cell_key op then (ALIVE, oAtom op) else sp_cell s nid n)"
    for nid n using describesD(5) [OF S assms(3)] by (auto simp: spec_new_def cell_key_def)
  have place: "sp_place ?s nid = (if nid = oId op then Some (place_of op) else sp_place s nid)" for nid
    by (simp add: spec_new_def)
  note kind = op_kinds(3) [OF assms(2)]
  have none: "\<not> (inserts o1 \<and> cell_key o1 = cell_key op)" "\<not> (oType o1 = DELETE \<and> cell_key o1 = cell_key op)"
    "\<not> (creates o1 \<and> oId o1 = oId op)" if "o1 \<in> S" for o1
    using describes_init [OF S, of "oId op"] describesD(2) [OF S, of "oId op" "unat (oN op)"]
      describesD(5) [OF S assms(3)] assms(3) that by (auto simp: cell_key_def blank_def)
  show ?thesis
    unfolding describes_def
  proof (intro conjI allI impI)
    fix nid n c
    show "(sp_place ?s nid = Some pl) = (\<exists>op\<in>insert op S. creates op \<and> oId op = nid \<and> place_of op = pl)" for pl
      using describesD(1) [OF S, of nid pl] none(3) assms(2) by (auto simp: place)
    show "(fst (sp_cell ?s nid n) = DEAD) = (\<exists>op\<in>insert op S. oType op = DELETE \<and> cell_key op = (nid, n))"
      using describesD(2) [OF S] kind none(2) by (auto simp: cell)
    show "(fst (sp_cell ?s nid n) \<noteq> UNINITIALIZED \<and> snd (sp_cell ?s nid n) = c) =
        (\<exists>op\<in>insert op S. inserts op \<and> cell_key op = (nid, n) \<and> oAtom op = c)"
      using describesD(3) [OF S, of nid n c] kind none(1) by (auto simp: cell)
    show "sp_cell ?s nid n = blank" if "fst (sp_cell ?s nid n) = UNINITIALIZED"
      using describesD(4) [OF S] that by (auto simp: cell split: if_splits)
    show "sp_cell ?s nid n = blank" if "sp_place ?s nid = None"
      using describesD(5) [OF S] that by (auto simp: cell place cell_key_def split: if_splits)
  qed
qed

lemma spec_set_same: "spec_set s nid n (sp_cell s nid n) = s"
  by (simp add: spec_set_def)

lemma describes_step:
  assumes "describes S s" "spec_enabled S op" "creates op \<Longrightarrow> sp_place s (oId op) = None"
  shows "describes (insert op S) (spec_apply s op)"
proof -
  let ?c = "sp_cell s (oId op) (unat (oN op))"
  consider (new) "creates op" | (ins) "oType op = INSERT" | (del) "oType op = DELETE"
    | (none) "oType op \<notin> {INSERT_NEW, INSERT_ROOT, INSERT, DELETE}"
    by (auto simp: creates_def)
  then show ?thesis
  proof cases
    case new
    then have "spec_apply s op = spec_new s (place_of op) op"
      by (auto simp: creates_def spec_apply_def place_of_def operation_types)
    then show ?thesis using describes_new [OF assms(1) new assms(3)] new by simp
  next
    case ins
    then have "sp_place s (oId op) \<noteq> None" "fst ?c = UNINITIALIZED"
      using assms(2) describes_init [OF assms(1), of "oId op"]
      by (auto simp: spec_enabled_def deps_met_def cell_key_def)
    from describes_insert [OF assms(1) this(1) ins this(2)] ins show ?thesis
      by (simp add: spec_apply_def operation_types)
  next
    case del
    then have init: "fst ?c \<noteq> UNINITIALIZED"
      using assms(2) describes_init [OF assms(1), of "oId op"]
      by (auto simp: spec_enabled_def deps_met_def cell_key_def)
    have "spec_apply s op = spec_set s (oId op) (unat (oN op)) (DEAD, snd ?c)"
      using del init spec_set_same [of s "oId op" "unat (oN op)"]
      by (cases ?c; cases "fst ?c") (auto simp: spec_apply_def operation_types)
    then show ?thesis using describes_delete [OF assms(1) del init] by simp
  next
    case none
    then have "spec_apply s op = s" "\<not> creates op" "\<not> inserts op" "oType op \<noteq> DELETE"
      by (auto simp: spec_apply_def creates_def inserts_def)
    with assms(1) show ?thesis unfolding describes_def by simp
  qed
qed

lemma op_enabled_iff:
  assumes "describes S (abs_doc doc)"
  shows "op_enabled doc op \<longleftrightarrow> spec_enabled S op \<and> (creates op \<longrightarrow> unat (oN op) < 65531)"
proof -
  have place: "dNodes doc nid \<noteq> None \<longleftrightarrow> (\<exists>o1\<in>S. creates o1 \<and> oId o1 = nid)" for nid
    using describes_init(2) [OF assms, of nid] by (simp add: abs_doc_def)
  have cell: "aState (cell_of doc a n) \<noteq> UNINITIALIZED \<longleftrightarrow> (\<exists>o1\<in>S. inserts o1 \<and> cell_key o1 = (nid, n))"
    if "dNodes doc nid = Some a" for nid a n
    using describes_init(1) [OF assms, of nid n] abs_cell [OF that, of n] by simp
  have none: "\<not> (\<exists>o1\<in>S. inserts o1 \<and> cell_key o1 = (nid, n))" if "dNodes doc nid = None" for nid n
    using describesD(5) [OF assms, of nid n] describes_init(1) [OF assms, of nid n] that
    by (simp add: abs_doc_def blank_def)
  consider (new) "oType op = INSERT_NEW" | (root) "oType op = INSERT_ROOT" | (ins) "oType op = INSERT"
    | (del) "oType op = DELETE" | (none) "oType op \<notin> {INSERT_NEW, INSERT_ROOT, INSERT, DELETE}"
    by auto
  then show ?thesis
  proof cases
    case new
    then show ?thesis using place [of "oParentId op"]
      by (auto simp: op_enabled_def spec_enabled_def deps_met_def creates_def operation_types)
  next
    case ins
    then show ?thesis using place [of "oId op"] cell
      by (cases "dNodes doc (oId op)")
        (auto simp: op_enabled_def spec_enabled_def deps_met_def op_kinds cell_key_def operation_types)
  next
    case del
    then show ?thesis using none cell
      by (cases "dNodes doc (oId op)")
        (auto simp: op_enabled_def spec_enabled_def deps_met_def op_kinds cell_key_def operation_types)
  qed (auto simp: op_enabled_def spec_enabled_def deps_met_def creates_def operation_types)
qed

fun legal :: "Operation set \<Rightarrow> Operation list \<Rightarrow> bool" where
  "legal S [] = True"
| "legal S (op # ops) = (spec_enabled S op \<and> (creates op \<longrightarrow> unat (oN op) < 65531) \<and>
     legal (insert op S) ops)"

definition new_ids :: "Operation list \<Rightarrow> NodeId list" where
  "new_ids ops = map oId (filter creates ops)"

lemma apply_ops_legal:
  assumes "doc_ok doc" "describes S (abs_doc doc)" "distinct (new_ids ops)"
    "\<And>op o1. op \<in> set ops \<Longrightarrow> creates op \<Longrightarrow> o1 \<in> S \<Longrightarrow> creates o1 \<Longrightarrow> oId o1 \<noteq> oId op"
  shows "if legal S ops
    then \<exists>d. apply_ops doc ops = returns d \<and> doc_ok d \<and> describes (S \<union> set ops) (abs_doc d)
    else \<exists>p. apply_ops doc ops = panics p"
  using assms
proof (induction ops arbitrary: doc S)
  case Nil
  then show ?case by (simp add: apply_ops_def)
next
  case (Cons op ops)
  have place: "sp_place (abs_doc doc) (oId op) = None" if "creates op"
    using describes_init(2) [OF Cons.prems(2), of "oId op"] Cons.prems(4) [of op] that by auto
  then have fresh: "op_fresh doc op" by (auto simp: op_fresh_def abs_doc_def)
  note enabled = op_enabled_iff [OF Cons.prems(2), of op]
  show ?case
  proof (cases "op_enabled doc op")
    case False
    then show ?thesis
      using enabled ApplyOperation_panics [OF Cons.prems(1) False] by (auto simp: apply_ops_def)
  next
    case True
    from ApplyOperation_refines [OF Cons.prems(1) fresh True]
    obtain doc' b where doc': "ApplyOperation doc op = returns (doc', b)" "edit_ok doc doc' b"
      "abs_doc doc' = spec_apply (abs_doc doc) op" by blast
    have "describes (insert op S) (abs_doc doc')"
      using describes_step [OF Cons.prems(2) _ place] enabled True doc'(3) by simp
    moreover have "doc_ok doc'" using doc'(2) by (simp add: edit_ok_def)
    moreover have "distinct (new_ids ops)" using Cons.prems(3) by (auto simp: new_ids_def split: if_splits)
    moreover have "oId o1 \<noteq> oId o2" if "o2 \<in> set ops" "creates o2" "o1 \<in> insert op S" "creates o1" for o1 o2
      using that Cons.prems(3,4) by (auto simp: new_ids_def)
    ultimately have "if legal (insert op S) ops
      then \<exists>d. apply_ops doc' ops = returns d \<and> doc_ok d \<and> describes (insert op S \<union> set ops) (abs_doc d)
      else \<exists>p. apply_ops doc' ops = panics p"
      by (intro Cons.IH) auto
    then show ?thesis using doc'(1) enabled True by (simp add: apply_ops_def split: if_splits)
  qed
qed

section \<open>Orders that run\<close>

definition insert_keys :: "Operation list \<Rightarrow> (NodeId \<times> nat) list" where
  "insert_keys ops = map cell_key (filter inserts ops)"

definition small_new :: "Operation list \<Rightarrow> bool" where
  "small_new ops \<longleftrightarrow> (\<forall>op\<in>set ops. creates op \<longrightarrow> unat (oN op) < 65531)"

lemma legal_sufficient:
  assumes "causal S ops" "distinct (insert_keys ops)" "small_new ops"
    "\<And>op o1. op \<in> set ops \<Longrightarrow> inserts op \<Longrightarrow> o1 \<in> S \<Longrightarrow> inserts o1 \<Longrightarrow> cell_key o1 \<noteq> cell_key op"
  shows "legal S ops"
  using assms
proof (induction ops arbitrary: S)
  case (Cons op ops)
  have "legal (insert op S) ops"
  proof (rule Cons.IH)
    show "cell_key o1 \<noteq> cell_key o2" if "o2 \<in> set ops" "inserts o2" "o1 \<in> insert op S" "inserts o1" for o1 o2
      using that Cons.prems(2,4) by (auto simp: insert_keys_def split: if_splits)
  qed (use Cons.prems in \<open>auto simp: insert_keys_def small_new_def split: if_splits\<close>)
  then show ?case using Cons.prems op_kinds(1) [of op] by (auto simp: spec_enabled_def small_new_def)
qed simp

lemma legal_necessary:
  assumes "legal S ops" "distinct (new_ids ops)"
    "\<And>op o1. op \<in> set ops \<Longrightarrow> creates op \<Longrightarrow> o1 \<in> S \<Longrightarrow> creates o1 \<Longrightarrow> oId o1 \<noteq> oId op"
    "\<And>o1. o1 \<in> S \<Longrightarrow> inserts o1 \<Longrightarrow> \<exists>o2\<in>S. creates o2 \<and> oId o2 = oId o1"
  shows "causal S ops \<and> distinct (insert_keys ops) \<and> small_new ops \<and>
    (\<forall>op\<in>set ops. \<forall>o1\<in>S. inserts op \<longrightarrow> inserts o1 \<longrightarrow> cell_key o1 \<noteq> cell_key op)"
  using assms
proof (induction ops arbitrary: S)
  case Nil
  then show ?case by (simp add: insert_keys_def small_new_def)
next
  case (Cons op ops)
  have later: "causal (insert op S) ops \<and> distinct (insert_keys ops) \<and> small_new ops \<and>
    (\<forall>o2\<in>set ops. \<forall>o1\<in>insert op S. inserts o2 \<longrightarrow> inserts o1 \<longrightarrow> cell_key o1 \<noteq> cell_key o2)"
  proof (rule Cons.IH)
    show "oId o1 \<noteq> oId o2" if "o2 \<in> set ops" "creates o2" "o1 \<in> insert op S" "creates o1" for o1 o2
      using that Cons.prems(2,3) by (auto simp: new_ids_def)
    show "\<exists>o2\<in>insert op S. creates o2 \<and> oId o2 = oId o1" if "o1 \<in> insert op S" "inserts o1" for o1
      using that Cons.prems(1,4) by (auto simp: inserts_def spec_enabled_def deps_met_def)
  qed (use Cons.prems(1,2) in \<open>auto simp: new_ids_def split: if_splits\<close>)
  have now: "cell_key o1 \<noteq> cell_key op" if "o1 \<in> S" "inserts o1" "inserts op" for o1
  proof (cases "creates op")
    case True
    then show ?thesis
      using Cons.prems(3) [of op] Cons.prems(4) [OF that(1,2)] by (auto simp: cell_key_def)
  next
    case False
    then show ?thesis
      using Cons.prems(1) that by (auto simp: inserts_def spec_enabled_def)
  qed
  have "cell_key op \<notin> set (insert_keys ops)" if "inserts op"
    using later that by (auto simp: insert_keys_def)
  then show ?case
    using later now Cons.prems(1)
    by (auto simp: insert_keys_def small_new_def spec_enabled_def)
qed

lemma describes_empty: "describes {} (abs_doc NewDocument)"
  by (simp add: describes_def abs_doc_def NewDocument_def blank_def)

lemma run_from_empty:
  assumes "distinct (new_ids ops)"
  shows "(\<exists>d. apply_ops NewDocument ops = returns d) \<longleftrightarrow>
      causal {} ops \<and> distinct (insert_keys ops) \<and> small_new ops"
    and "apply_ops NewDocument ops = returns d \<Longrightarrow> doc_ok d \<and> describes (set ops) (abs_doc d)"
proof -
  have run: "if legal {} ops
    then \<exists>d. apply_ops NewDocument ops = returns d \<and> doc_ok d \<and> describes ({} \<union> set ops) (abs_doc d)
    else \<exists>p. apply_ops NewDocument ops = panics p"
    by (rule apply_ops_legal [OF doc_ok_NewDocument describes_empty assms]) simp
  have "legal {} ops \<longleftrightarrow> causal {} ops \<and> distinct (insert_keys ops) \<and> small_new ops"
    using legal_sufficient [of "{}" ops] legal_necessary [of "{}" ops, OF _ assms] by auto
  with run show "(\<exists>d. apply_ops NewDocument ops = returns d) \<longleftrightarrow>
      causal {} ops \<and> distinct (insert_keys ops) \<and> small_new ops"
    by (auto split: if_splits)
  show "apply_ops NewDocument ops = returns d \<Longrightarrow> doc_ok d \<and> describes (set ops) (abs_doc d)"
    using run by (auto split: if_splits)
qed

lemma same_operations_same_text:
  assumes "distinct (new_ids ops)" "distinct (new_ids ops')" "set ops = set ops'"
    "apply_ops NewDocument ops = returns d" "apply_ops NewDocument ops' = returns d'"
  shows "doc_text d = doc_text d'"
proof -
  note d = run_from_empty(2) [OF assms(1,4)]
  note d' = run_from_empty(2) [OF assms(2,5)]
  have "abs_doc d = abs_doc d'"
    using d d' assms(3) describes_unique [of "set ops" "abs_doc d" "abs_doc d'"] by simp
  then show ?thesis using d d' by (intro abs_doc_text) (auto simp: doc_ok_def)
qed

lemma permuted_run:
  assumes "distinct (new_ids ops)" "apply_ops NewDocument ops = returns d"
    "mset ops' = mset ops" "causal {} ops'"
  shows "\<exists>d'. apply_ops NewDocument ops' = returns d' \<and> doc_text d' = doc_text d"
proof -
  have set: "set ops' = set ops" using assms(3) by (rule mset_eq_setD)
  have "mset (new_ids ops') = mset (new_ids ops)" "mset (insert_keys ops') = mset (insert_keys ops)"
    using assms(3) by (simp_all add: new_ids_def insert_keys_def)
  then have ids: "distinct (new_ids ops')" "distinct (insert_keys ops') = distinct (insert_keys ops)"
    using assms(1) mset_eq_imp_distinct_iff by blast+
  have "small_new ops' = small_new ops" using set by (simp add: small_new_def)
  then obtain d' where d': "apply_ops NewDocument ops' = returns d'"
    using run_from_empty(1) [OF assms(1)] run_from_empty(1) [OF ids(1)] ids(2) assms(2,4) by blast
  moreover have "doc_text d' = doc_text d"
    by (rule same_operations_same_text [OF ids(1) assms(1) set d' assms(2)])
  ultimately show ?thesis by blast
qed

end
