(* ===== verification/Samples.thy ===== *)
theory Samples
  imports TreedocConverge DocModel
begin

text \<open>
  The document that the tests of the repository build (\<open>NewTestDoc\<close> in
  \<^verbatim>\<open>treedoc/treedoc2_test.go\<close>), with the facts that let the theorems be applied to it.
\<close>

definition A_ID0 :: NodeId where "A_ID0 = ''aaaaaaaaaaaaaaaa0000''"
definition A_ID1 :: NodeId where "A_ID1 = ''aaaaaaaaaaaaaaaa0001''"
definition B_ID0 :: NodeId where "B_ID0 = ''bbbbbbbbbbbbbbbb0000''"
definition B_ID1 :: NodeId where "B_ID1 = ''bbbbbbbbbbbbbbbb0001''"
definition C_ID0 :: NodeId where "C_ID0 = ''cccccccccccccccc0000''"
definition C_ID1 :: NodeId where "C_ID1 = ''cccccccccccccccc0001''"
definition D_ID0 :: NodeId where "D_ID0 = ''dddddddddddddddd0000''"

definition op_root :: "byte \<Rightarrow> NodeId \<Rightarrow> Operation" where
  "op_root c nid = zero_Operation\<lparr>oType := INSERT_ROOT, oAtom := c, oId := nid\<rparr>"

definition op_new :: "byte \<Rightarrow> NodeId \<Rightarrow> uint16 \<Rightarrow> NodeId \<Rightarrow> Operation" where
  "op_new c pid pn nid =
     zero_Operation\<lparr>oType := INSERT_NEW, oAtom := c, oParentId := pid, oParentN := pn, oId := nid\<rparr>"

definition op_insert :: "byte \<Rightarrow> NodeId \<Rightarrow> uint16 \<Rightarrow> Operation" where
  "op_insert c nid n = zero_Operation\<lparr>oType := INSERT, oId := nid, oN := n, oAtom := c\<rparr>"

definition op_delete :: "NodeId \<Rightarrow> uint16 \<Rightarrow> Operation" where
  "op_delete nid n = zero_Operation\<lparr>oType := DELETE, oId := nid, oN := n\<rparr>"

lemmas sample_ops = op_root_def op_new_def op_insert_def op_delete_def

definition test_ops :: "Operation list" where
  "test_ops =
     [op_root (CHR ''a'') A_ID0, op_root (CHR ''b'') B_ID0, op_new (CHR ''c'') A_ID0 0 C_ID0,
      op_new (CHR ''d'') A_ID0 1 C_ID1, op_new (CHR ''e'') C_ID1 1 D_ID0,
      op_insert (CHR ''f'') C_ID0 1, op_insert (CHR ''g'') C_ID1 1, op_insert (CHR ''h'') C_ID1 2]"

definition test_ops_permuted :: "Operation list" where
  "test_ops_permuted =
     [op_root (CHR ''b'') B_ID0, op_root (CHR ''a'') A_ID0, op_new (CHR ''d'') A_ID0 1 C_ID1,
      op_insert (CHR ''h'') C_ID1 2, op_insert (CHR ''g'') C_ID1 1, op_new (CHR ''e'') C_ID1 1 D_ID0,
      op_new (CHR ''c'') A_ID0 0 C_ID0, op_insert (CHR ''f'') C_ID0 1]"

definition test_doc :: Document where
  "test_doc = (case apply_ops NewDocument test_ops of Some (Inr d) \<Rightarrow> d | _ \<Rightarrow> NewDocument)"

lemma test_ops_distinct: "distinct (new_ids test_ops)" "distinct (new_ids test_ops_permuted)"
  by code_simp+

lemma mset_eight: "mset [b, a, d, h, g, e, c, f] = mset [a, b, c, d, e, f, g, h]"
  by simp

lemma test_ops_permuted_facts: "mset test_ops_permuted = mset test_ops" "causal {} test_ops_permuted"
proof -
  show "mset test_ops_permuted = mset test_ops"
    unfolding test_ops_permuted_def test_ops_def by (rule mset_eight)
  show "causal {} test_ops_permuted" by code_simp
qed

lemma test_run: "apply_ops NewDocument test_ops = returns test_doc"
proof -
  have "causal {} test_ops" by code_simp
  moreover have "distinct (insert_keys test_ops)" by code_simp
  moreover have "small_new test_ops"
    by (simp add: small_new_def test_ops_def sample_ops operation_types creates_def zero_Operation_def)
  ultimately obtain d where "apply_ops NewDocument test_ops = returns d"
    using run_from_empty(1) [OF test_ops_distinct(1)] by blast
  then show ?thesis by (simp add: test_doc_def)
qed

lemma test_doc_ok: "doc_ok test_doc"
  using run_from_empty(2) [OF test_ops_distinct(1) test_run] by simp

lemma test_doc_text: "doc_text test_doc = ''cfadeghb''"
  by code_simp

lemma run_last_free:
  assumes "distinct (new_ids ops)" "apply_ops NewDocument ops = returns d"
    "\<forall>op\<in>set ops. unat (oN op) \<noteq> 65535"
  shows "last_free d"
proof -
  have "describes (set ops) (abs_doc d)" using run_from_empty(2) [OF assms(1,2)] by simp
  from describes_init(1) [OF this, of _ 65535] assms(3) show ?thesis
    by (auto simp: last_free_def cell_key_def)
qed

lemma test_doc_last_free: "last_free test_doc"
proof (rule run_last_free [OF test_ops_distinct(1) test_run])
  show "\<forall>op\<in>set test_ops. unat (oN op) \<noteq> 65535"
    by (simp add: test_ops_def sample_ops zero_Operation_def)
qed

lemma test_doc_B_free: "\<not> own_holes test_doc B_ID1" "dNodes test_doc B_ID1 = None"
  by code_simp+

text \<open>A site whose document is the test document, with the cursor after the first byte.\<close>

definition E_SITE :: SiteId where "E_SITE = ''eeeeeeeeeeeeeeee''"

definition test_buffer :: Buffer where
  "test_buffer = (case StringToBuffer ''cfadeghb'' 10 of Some (Inr b) \<Rightarrow> MoveRight b)"

definition test_model :: DocumentModel where
  "test_model = \<lparr>OwnerId = E_SITE, OpVersion = 0, NodeIdClock = 0, dm_Treedoc = test_doc,
     dm_Buffer = test_buffer, dm_Log = NewLog, dm_Queue = NewQueue, BroadcastRemote = True\<rparr>"

lemma test_buffer_facts:
  "buf_ok test_buffer" "buf_text test_buffer = ''cfadeghb''" "currentPosition test_buffer = 1"
  "cursor_on_byte test_buffer"
proof -
  obtain b where b: "StringToBuffer ''cfadeghb'' 10 = returns b" "buf_ok b" "buf_text b = ''cfadeghb''"
    "currentPosition b = 0" "cursor_on_byte b"
    using StringToBuffer_ok [of 10 "''cfadeghb''"] by auto
  then have "test_buffer = MoveRight b" by (simp add: test_buffer_def)
  with b MoveRight_ok [OF b(2,5)] show "buf_ok test_buffer" "buf_text test_buffer = ''cfadeghb''"
    "currentPosition test_buffer = 1" "cursor_on_byte test_buffer" by simp_all
qed

lemma test_doc_ids: "dNodes test_doc nid = None \<longleftrightarrow> nid \<notin> set (new_ids test_ops)"
proof -
  have "describes (set test_ops) (abs_doc test_doc)"
    using run_from_empty(2) [OF test_ops_distinct(1) test_run] by simp
  from describes_init(2) [OF this, of nid] show ?thesis
    by (auto simp: abs_doc_def new_ids_def)
qed

lemma test_model_ok: "model_ok test_model" "queue_ok test_model"
proof -
  have "set (map (take 16) (new_ids test_ops)) \<inter> {E_SITE} = {}" by code_simp
  moreover have "SiteId_ok E_SITE" by (simp add: E_SITE_def SiteId_ok_def)
  moreover from this have "take 16 (NewNodeId E_SITE c) = E_SITE" for c
    by (simp add: NewNodeId_eq SiteId_ok_def)
  ultimately have "NewNodeId E_SITE c \<notin> set (new_ids test_ops)" "SiteId_ok E_SITE" for c
    by (auto, metis imageI)
  then have "ids_free test_model" by (simp add: ids_free_def test_model_def test_doc_ids)
  then show "model_ok test_model"
    using test_buffer_facts test_doc_ok test_doc_last_free
    by (simp add: model_ok_def texts_ok_def clock_ok_def test_model_def test_doc_text NewLog_def NewVector_def
        vv_ok_def)
  show "queue_ok test_model" by (simp add: queue_ok_def test_model_def NewQueue_def)
qed

text \<open>
  Site A writes a byte, site B appends one and deletes it again: node A keeps an unused cell after its
  only live one.
\<close>

definition hole_ops :: "Operation list" where
  "hole_ops = [op_root (CHR ''z'') A_ID0, op_new (CHR ''q'') A_ID0 1 B_ID0, op_delete B_ID0 0]"

definition hole_doc :: Document where
  "hole_doc = (case apply_ops NewDocument hole_ops of Some (Inr d) \<Rightarrow> d | _ \<Rightarrow> NewDocument)"

lemma hole_run: "apply_ops NewDocument hole_ops = returns hole_doc"
proof -
  have "distinct (new_ids hole_ops)" "causal {} hole_ops" "distinct (insert_keys hole_ops)"
    by code_simp+
  moreover have "small_new hole_ops"
    by (simp add: small_new_def hole_ops_def sample_ops operation_types creates_def zero_Operation_def)
  ultimately obtain d where "apply_ops NewDocument hole_ops = returns d"
    using run_from_empty(1) by blast
  then show ?thesis by (simp add: hole_doc_def)
qed

lemma hole_doc_ok: "doc_ok hole_doc"
proof -
  have "distinct (new_ids hole_ops)" by code_simp
  then show ?thesis using run_from_empty(2) hole_run by blast
qed

lemma hole_text: "doc_text hole_doc = ''z''"
  by code_simp

lemma InsertPos_first_cell:
  assumes "dSize d \<noteq> 0" "findNodePos (dHeap d) pos 0 (dDoc d) = (acc, Some a)"
    "findAtomForInsertHelper pos acc nodeId (node_at d a) = returns (INSERT, acc', n)"
  shows "InsertPos d nodeId pos ch = makeAndApplyInsertOperation d a n ch"
  using assms by (simp add: InsertPos_def)

end
