(* ===== verification/EditPeer.thy ===== *)
theory EditPeer
  imports GuiEvents Samples
begin

text \<open>
  Two sites that edit one document: an edit made in the editor of one of them travels as bytes to the other, whose handler applies it.
  Sites that agree before the edit agree after it.
\<close>

section \<open>What a local edit hands out\<close>

text \<open>An edit: the operation is legal in the old document, gives the new one, and is logged and stamped.\<close>

definition local_step :: "DocumentModel \<Rightarrow> DocumentModel \<Rightarrow> RemoteOperation \<Rightarrow> bool" where
  "local_step m m' r \<longleftrightarrow>
     applicable (dm_Treedoc m) (ro_Op r) \<and> abs_doc (dm_Treedoc m') = spec_apply (abs_doc (dm_Treedoc m)) (ro_Op r) \<and>
     unat (oN (ro_Op r)) \<noteq> 65535 \<and> (creates (ro_Op r) \<longrightarrow> take 16 (oId (ro_Op r)) = OwnerId m) \<and>
     ro_Vector r = Copy (l_Vector (dm_Log m)) \<and> ro_Id r = OwnerId m \<and> ro_Version r = OpVersion m + 1 \<and>
     OwnerId m' = OwnerId m \<and> dm_Queue m' = dm_Queue m \<and>
     dm_Log m' = Log_Write (dm_Log m) (OwnerId m) (OpVersion m + 1) (ro_Op r)"

lemma finish_local_returns:
  assumes "finish_local m op = returns (m', sent)" "r \<in> set sent"
  shows "sent = [r]" "r = \<lparr>ro_Vector = Copy (l_Vector (dm_Log m)), ro_Id = OwnerId m, ro_Version = OpVersion m + 1, ro_Op = op\<rparr>"
    "m' = m\<lparr>OpVersion := OpVersion m + 1, dm_Log := Log_Write (dm_Log m) (OwnerId m) (OpVersion m + 1) op\<rparr>"
  using assms by (auto simp: finish_local_def Let_def split: if_splits)

lemma LocalInsert_step:
  assumes "model_ok m" "can_insert m" "LocalInsert m c = returns (m', [r])"
  shows "local_step m m' r" "oType (ro_Op r) \<noteq> DELETE"
proof -
  let ?doc = "dm_Treedoc m" and ?nid = "NewNodeId (OwnerId m) (NodeIdClock m)" and ?pos = "currentPosition (dm_Buffer m)"
  have m: "buf_ok (dm_Buffer m)" "doc_ok ?doc" "last_free ?doc" "buf_text (dm_Buffer m) = doc_text ?doc" "ids_free m"
    using assms(1) by (auto simp: model_ok_def texts_ok_def)
  then have free: "dNodes ?doc ?nid = None" and site: "SiteId_ok (OwnerId m)" by (simp_all add: ids_free_def)
  from site have "take 16 ?nid = OwnerId m" by (simp add: NewNodeId_eq SiteId_ok_def)
  moreover from free InsertPos_ok [OF m(2,3), of ?nid ?pos c] buf_ok_position [OF m(1)] m(4) assms(2) obtain doc' op where
    ins: "InsertPos ?doc ?nid ?pos c = returns (doc', op)" "local_insert ?nid ?doc doc' op (nat ?pos) c"
    by (auto simp: can_insert_def)
  moreover from assms(3) ins(1) obtain m1 where m1: "finish_local m1 op = returns (m', [r])" "dm_Treedoc m1 = doc'"
    "dm_Log m1 = dm_Log m" "OwnerId m1 = OwnerId m" "OpVersion m1 = OpVersion m" "dm_Queue m1 = dm_Queue m"
    by (auto simp: LocalInsert_def GetPosition_def Let_def split: if_splits)
  ultimately show "local_step m m' r" "oType (ro_Op r) \<noteq> DELETE"
    using finish_local_returns [OF m1(1), of r] m1 ins(2)
    by (auto simp: local_step_def local_insert_def applicable_def operation_types)
qed

lemma deleted_cell:
  assumes "last_free doc" "oType op = DELETE" "op_enabled doc op"
  shows "unat (oN op) \<noteq> 65535"
  using assms by (auto simp: op_enabled_def operation_types last_free_def abs_doc_def split: option.splits)

lemma local_delete_step:
  assumes "model_ok m" "0 \<le> p" "p < int (length (doc_text (dm_Treedoc m)))"
    "pbind (DeletePos (dm_Treedoc m) p) (\<lambda>(doc, operation).
      finish_local (m\<lparr>dm_Buffer := buf, dm_Treedoc := doc\<rparr>) operation) = returns (m', [r])"
  shows "local_step m m' r"
proof -
  let ?doc = "dm_Treedoc m"
  have m: "doc_ok ?doc" "last_free ?doc" using assms(1) by (auto simp: model_ok_def texts_ok_def)
  from DeletePos_ok [OF m(1) assms(2,3)] obtain doc' op where
    del: "DeletePos ?doc p = returns (doc', op)" "oType op = DELETE" "op_enabled ?doc op"
      "abs_doc doc' = spec_apply (abs_doc ?doc) op" by blast
  from assms(4) del(1) have "finish_local (m\<lparr>dm_Buffer := buf, dm_Treedoc := doc'\<rparr>) op = returns (m', [r])" by simp
  from finish_local_returns [OF this, of r] deleted_cell [OF m(2) del(2,3)] del show ?thesis
    by (simp add: local_step_def applicable_def op_fresh_def creates_def operation_types)
qed

text \<open>The edit that an event of the editor asks for.\<close>

definition event_edit :: "DocumentModel \<Rightarrow> event \<Rightarrow> (DocumentModel \<times> RemoteOperation list) prog" where
  "event_edit m ev =
     (case (typed_byte ev, ev) of
        (Some c, _) \<Rightarrow> LocalInsert m c
      | (None, EventKey KeyDelete _) \<Rightarrow> LocalDelete m
      | (None, EventKey KeyBackspace _) \<Rightarrow> LocalBackspace m
      | (None, EventKey KeyBackspace2 _) \<Rightarrow> LocalBackspace m
      | _ \<Rightarrow> returns (m, []))"

lemma event_edit_step:
  assumes "model_ok m" "event_safe m ev" "event_edit m ev = returns (m', [r])"
  shows "local_step m m' r"
proof (cases "typed_byte ev")
  case (Some c)
  then have "can_insert m" using assms(2) by (cases ev) auto
  with Some assms(1,3) show ?thesis by (auto simp: event_edit_def intro: LocalInsert_step(1))
next
  case None
  have m: "buf_ok (dm_Buffer m)" "buf_text (dm_Buffer m) = doc_text (dm_Treedoc m)"
    using assms(1) by (auto simp: model_ok_def texts_ok_def)
  note pos = buf_ok_position [OF m(1)] and size = buf_ok_facts(6) [OF m(1)]
  from None assms(3) consider "LocalDelete m = returns (m', [r])" | "LocalBackspace m = returns (m', [r])"
    by (auto simp: event_edit_def split: event.splits key.splits)
  then show ?thesis
  proof cases
    case 1
    then show ?thesis using pos size m(2)
      by (auto simp: LocalDelete_def GetPosition_def GetSize_def Let_def split: if_splits
          intro!: local_delete_step [OF assms(1), of "currentPosition (dm_Buffer m)"])
  next
    case 2
    then show ?thesis using pos size m(2)
      by (auto simp: LocalBackspace_def GetPosition_def Let_def split: if_splits
          intro!: local_delete_step [OF assms(1), of "currentPosition (dm_Buffer m) - 1"])
  qed
qed

section \<open>Two sites\<close>

text \<open>Two sites agree: the same document, the same operations seen, nothing waiting.\<close>

definition in_sync :: "DocumentModel \<Rightarrow> DocumentModel \<Rightarrow> bool" where
  "in_sync m1 m2 \<longleftrightarrow> model_ok m1 \<and> model_ok m2 \<and> OwnerId m1 \<noteq> OwnerId m2 \<and>
     abs_doc (dm_Treedoc m1) = abs_doc (dm_Treedoc m2) \<and>
     (\<forall>k. Get (l_Vector (dm_Log m1)) k = Get (l_Vector (dm_Log m2)) k) \<and>
     sites_ok (l_Vector (dm_Log m1)) \<and> sites_ok (l_Vector (dm_Log m2)) \<and>
     queue (dm_Queue m1) = [] \<and> queue (dm_Queue m2) = []"

lemma in_sync_sym: "in_sync m1 m2 \<Longrightarrow> in_sync m2 m1"
  by (auto simp: in_sync_def)

lemma in_sync_text:
  assumes "in_sync m1 m2"
  shows "doc_text (dm_Treedoc m1) = doc_text (dm_Treedoc m2)" "buf_text (dm_Buffer m2) = buf_text (dm_Buffer m1)"
  using assms abs_doc_text [of "dm_Treedoc m1" "dm_Treedoc m2"]
  by (auto simp: in_sync_def model_ok_def texts_ok_def doc_ok_def)

lemma sites_ok_IncrementTo: "sites_ok v \<Longrightarrow> SiteId_ok k \<Longrightarrow> sites_ok (IncrementTo v k i)"
  using keys_fold_update [of id "[(k, i)]" v] by (auto simp: sites_ok_def IncrementTo_def vv_ok_def distinct_update simp del: ball_simps)

lemma sites_ok_Copy: "sites_ok v \<Longrightarrow> sites_ok (Copy v)"
  using Copy_ok(1) [of v] keys_fold_update [of id v "[]"] by (simp add: sites_ok_def Copy_def NewVector_def)

text \<open>The edit does not leave the other buffer with an empty line behind an unfinished word.\<close>

definition peer_safe :: "DocumentModel \<Rightarrow> Operation \<Rightarrow> bool" where
  "peer_safe m op \<longleftrightarrow> (case ApplyOperation (dm_Treedoc m) op of Some (Inr (_, b)) \<Rightarrow> no_gap (dm_Buffer m) b | _ \<Rightarrow> True)"

lemma remote_insert_type: "remote_insert doc a op = returns (doc', b) \<Longrightarrow> bo_Type b = BUF_REMOTE_INSERT"
  by (auto simp: remote_insert_def Let_def)

lemma peer_safe_insert:
  assumes "oType op \<noteq> DELETE"
  shows "peer_safe m op"
proof -
  have "no_gap (dm_Buffer m) b" if "ApplyOperation (dm_Treedoc m) op = returns (d, b)" for d b
  proof -
    have "bo_Type b \<noteq> BUF_DELETE"
      using that assms remote_insert_type
      by (fastforce simp: ApplyOperation_def InsertNew_def InsertRoot_def Insert_def Let_def guard_else_def panic_with_text_def
          split: if_splits option.splits)
    then show ?thesis by (simp add: no_gap_def)
  qed
  then show ?thesis by (auto simp: peer_safe_def split: option.splits sum.splits)
qed

lemma typed_peer_safe:
  assumes "model_ok m" "event_safe m ev" "event_edit m ev = returns (m', [r])" "typed_byte ev \<noteq> None"
  shows "peer_safe m2 (ro_Op r)"
proof -
  from assms(4) obtain c where c: "typed_byte ev = Some c" by blast
  then have "can_insert m" using assms(2) by (cases ev) auto
  moreover have "LocalInsert m c = returns (m', [r])" using assms(3) c by (simp add: event_edit_def)
  ultimately show ?thesis using LocalInsert_step(2) [OF assms(1)] peer_safe_insert by blast
qed

text \<open>The operation as the other site reads it is deliverable there at once and applies.\<close>

lemma sent_deliverable:
  assumes "in_sync m1 m2" "local_step m1 m1' r" "OpVersion m1 \<noteq> - 1"
  defines "r' \<equiv> from_json (to_json r)"
  shows "stamped r'" "ro_Id r' = OwnerId m1" "ro_Version r' = OpVersion m1 + 1" "ro_Op r' = ro_Op r"
    "Enqueue (dm_Queue m2) r' (Copy (l_Vector (dm_Log m2))) = (dm_Queue m2, [r'])"
proof -
  have v: "vv_ok (l_Vector (dm_Log m1))" "vv_ok (l_Vector (dm_Log m2))" "sites_ok (l_Vector (dm_Log m1))"
    "Get (l_Vector (dm_Log m1)) (OwnerId m1) = OpVersion m1"
    using assms(1) by (auto simp: in_sync_def sites_ok_def model_ok_def clock_ok_def)
  have r: "ro_Vector r = Copy (l_Vector (dm_Log m1))" "ro_Id r = OwnerId m1" "ro_Version r = OpVersion m1 + 1"
    using assms(2) by (auto simp: local_step_def)
  note j = from_to_json [of r, folded r'_def, unfolded r(1), OF sites_ok_Copy [OF v(3)]]
  show id: "ro_Id r' = OwnerId m1" "ro_Version r' = OpVersion m1 + 1" "ro_Op r' = ro_Op r" using j r by simp_all
  have get: "Get (ro_Vector r') k = Get (l_Vector (dm_Log m2)) k" for k
    using j(4) [of k] Copy_ok(2) [OF v(1)] assms(1) by (simp add: in_sync_def)
  have "vv_ok (ro_Vector r')"
    by (simp add: r'_def from_json_def FromVersionVectorJson_def vv_ok_def vv_ok_fold_update)
  moreover have "OpVersion m1 + 1 \<noteq> 0" using assms(3) by (simp add: eq_neg_iff_add_eq_0)
  moreover have own: "Get (l_Vector (dm_Log m2)) (OwnerId m1) = OpVersion m1"
    using v(4) assms(1) by (simp add: in_sync_def)
  ultimately show st: "stamped r'" by (simp add: stamped_def id get)
  have "deliverable (Copy (l_Vector (dm_Log m2))) r'"
    using deliverable_stamped [OF Copy_ok(1) [OF v(2)] st] by (simp add: Copy_ok(2) [OF v(2)] vle_def get id own)
  then have "covers (Copy (l_Vector (dm_Log m2))) r'" by (simp add: deliverable_def)
  moreover have "Get (Copy (l_Vector (dm_Log m2))) (ro_Id r') = ro_Version r' - 1"
    by (simp add: Copy_ok(2) [OF v(2)] id own)
  moreover have "queue (dm_Queue m2) = []" using assms(1) by (simp add: in_sync_def)
  ultimately show "Enqueue (dm_Queue m2) r' (Copy (l_Vector (dm_Log m2))) = (dm_Queue m2, [r'])"
    by (cases "dm_Queue m2") (simp add: Enqueue_def dequeHelper_def deque_loop.simps)
qed

lemma peer_applies:
  assumes "in_sync m1 m2" "local_step m1 m1' r" "OpVersion m1 \<noteq> - 1" "model_ok m1'"
    "peer_safe m2 (ro_Op r)"
  shows "\<exists>m2'. ApplyRemoteOperation m2 (from_json (to_json r)) = returns m2' \<and> in_sync m1' m2'"
proof -
  let ?r = "from_json (to_json r)" and ?op = "ro_Op r"
  note s = sent_deliverable [OF assms(1-3)]
  have m: "model_ok m2" "abs_doc (dm_Treedoc m2) = abs_doc (dm_Treedoc m1)" "OwnerId m1 \<noteq> OwnerId m2" "SiteId_ok (OwnerId m1)"
    using assms(1) by (auto simp: in_sync_def model_ok_def ids_free_def)
  have op: "applicable (dm_Treedoc m2) ?op"
    using assms(2) abs_enabled [OF m(2), of ?op] by (auto simp: local_step_def applicable_def)
  have "acceptable m2 ?r"
    using op assms(2,5) m(3) by (auto simp: acceptable_def s local_step_def peer_safe_def)
  from apply_ready_ok [OF m(1) this] obtain m2' b where m2': "apply_ready m2 ?r = returns m2'" "model_ok m2'"
    "dm_Queue m2' = dm_Queue m2" "dm_Log m2' = log_remote ?r (dm_Log m2)"
    "ApplyOperation (dm_Treedoc m2) ?op = returns (dm_Treedoc m2', b)" by (auto simp: s)
  have "OwnerId m2' = OwnerId m2" using m2'(1) by (auto simp: apply_ready_def Let_def)
  moreover have "abs_doc (dm_Treedoc m2') = abs_doc (dm_Treedoc m1')"
    using ApplyOperation_refines [of "dm_Treedoc m2" ?op] op m2'(5) assms(2) m
    by (auto simp: applicable_def local_step_def model_ok_def texts_ok_def)
  ultimately have "in_sync m1' m2'"
    using assms(1,2,4) m2' m(4) by (auto simp: in_sync_def local_step_def log_remote_def Log_Write_def s sites_ok_IncrementTo)
  moreover have "ApplyRemoteOperation m2 ?r = returns m2'" using m2'(1) by (simp add: ApplyRemoteOperation_def s)
  ultimately show ?thesis by blast
qed

lemma editor_event_edits:
  assumes "app_DocModel app = Some m" "event_edit m ev = returns (m', [r])"
  shows "editor_event J app dim ev = stay_and_redraw (app\<lparr>app_DocModel := Some m', Manager := broadcast_op J (Manager app) r\<rparr>) dim"
    "event_leaves ev = None" "event_size dim ev = dim" "event_safe m ev \<Longrightarrow> OpVersion m \<noteq> - 1"
  using assms by (auto simp: event_edit_def editor_event_def Let_def local_edit_def can_insert_def
      split: event.splits key.splits option.splits if_splits)

text \<open>Two sites that have just opened a document agree.\<close>

lemma new_documents_in_sync:
  assumes "SiteId_ok s" "SiteId_ok t" "s \<noteq> t" "4 \<le> w"
  shows "\<exists>m1 m2. NewDocumentModel s w True = returns m1 \<and> NewDocumentModel t w True = returns m2 \<and> in_sync m1 m2 \<and>
    can_insert m1 \<and> BroadcastRemote m1 \<and> currentPosition (dm_Buffer m1) = 0 \<and> doc_text (dm_Treedoc m1) = []"
proof -
  obtain buf where buf: "StringToBuffer [] w = returns buf" "currentPosition buf = 0" using StringToBuffer_ok [OF assms(4)] by blast
  obtain m1 m2 where m: "NewDocumentModel s w True = returns m1" "model_ok m1" "NewDocumentModel t w True = returns m2" "model_ok m2"
      "doc_text (dm_Treedoc m1) = []"
    using NewDocumentModel_ok [OF assms(1,4)] NewDocumentModel_ok [OF assms(2,4)] by blast
  moreover have "in_sync m1 m2 \<and> can_insert m1 \<and> BroadcastRemote m1 \<and> currentPosition (dm_Buffer m1) = 0"
    using m assms buf unfolding NewDocumentModel_def in_sync_def can_insert_def
    by (auto simp: NewLog_def NewQueue_def NewVector_def sites_ok_def vv_ok_def own_holes_def NewDocument_def)
  ultimately show ?thesis by blast
qed

lemma LocalInsert_sends:
  assumes "LocalInsert m c = returns (m', sent)" "BroadcastRemote m"
  shows "\<exists>r. sent = [r]"
  using assms by (auto simp: LocalInsert_def finish_local_def Let_def split: if_splits)

section \<open>Property\<close>



end
