(* ===== verification/GuiMain.thy ===== *)
theory GuiMain
  imports EditPeer NetInv
begin

text \<open>
  The main loop of the terminal interface as a state machine: what holds whenever it waits for an event, and that it goes on.
\<close>

section \<open>Steps\<close>

text \<open>
  While the loop waits, an event comes in, a network thread hands a message to the handler of remote operations, or the network
  changes its own state; only the menu starts and ends sessions.
\<close>

inductive gui_step :: "gui_json \<Rightarrow> appState \<times> view \<Rightarrow> appState \<times> view \<Rightarrow> bool" for J where
  gui_step_event: "gui_event J inp c ev = returns (c', scr) \<Longrightarrow> gui_step J c c'"
| gui_step_remote: "remote_op_handler J app msg = returns app' \<Longrightarrow> gui_step J (app, v) (app', v)"
| gui_step_network: "nm_session nm = nm_session (Manager app) \<Longrightarrow> gui_step J (app, v) (app\<lparr>Manager := nm\<rparr>, v)"

inductive gui_reachable :: "gui_json \<Rightarrow> NetworkManager \<Rightarrow> appState \<times> view \<Rightarrow> bool" for J nm where
  gui_start: "main_loop_turn dim (StartMainLoop_app nm) = returns (c, scr) \<Longrightarrow> gui_reachable J nm c"
| gui_next: "gui_reachable J nm c \<Longrightarrow> gui_step J c c' \<Longrightarrow> gui_reachable J nm c'"

section \<open>What holds while the loop waits\<close>

fun gui_ok :: "appState \<times> view \<Rightarrow> bool" where
  "gui_ok (app, AtEditor dim) \<longleftrightarrow> State app = STATE_DOCUMENT \<and> app_DocModel app \<noteq> None"
| "gui_ok (app, AtPrompt prompt dim) \<longleftrightarrow>
     (if State app = STATE_MENU \<or> State app = STATE_MENU_RETRY then MenuOptions app = menu_options app
      else if State app = STATE_CONNECT then app_DocModel app \<noteq> None
      else State app = STATE_ERROR \<and> app_DocModel app \<noteq> None \<and> TempData app \<noteq> None)"
| "gui_ok (app, Finished) \<longleftrightarrow> State app = STATE_EXIT \<and> nm_session (Manager app) = None"

text \<open>The same before a turn of the loop.\<close>

definition app_ready :: "appState \<Rightarrow> bool" where
  "app_ready app \<longleftrightarrow> State app \<in> {STATE_MENU, STATE_MENU_RETRY, STATE_EXIT, STATE_DOCUMENT, STATE_CONNECT, STATE_ERROR} \<and>
     (State app \<in> {STATE_DOCUMENT, STATE_CONNECT, STATE_ERROR} \<longrightarrow> app_DocModel app \<noteq> None) \<and>
     (State app = STATE_ERROR \<longrightarrow> TempData app \<noteq> None)"

lemma Disconnect_session: "nm_session (fst (Disconnect nm)) = None"
  by (auto simp: Disconnect_def split: option.splits)

lemma redraw_app_keeps:
  "redraw_app app h = returns (app', scr) \<Longrightarrow> \<exists>y. app' = app\<lparr>ScreenY := y\<rparr>"
  by (auto simp: redraw_app_def split: option.splits)

lemma getPrompt_keeps:
  assumes "getPrompt app = returns (app', prompt)"
  shows "app' = (if State app = STATE_MENU \<or> State app = STATE_MENU_RETRY then app\<lparr>MenuOptions := menu_options app\<rparr> else app)"
    "State app \<noteq> STATE_DOCUMENT" "State app \<noteq> STATE_EXIT"
  using assms by (auto simp: getPrompt_def Let_def gui_states split: if_splits option.splits)

lemma main_loop_turn_ok:
  assumes "app_ready app" "main_loop_turn dim app = returns (c, scr)"
  shows "gui_ok c"
proof -
  consider (exit) "State app = STATE_EXIT" | (doc) "State app = STATE_DOCUMENT" | (prompt) "State app \<noteq> STATE_EXIT" "State app \<noteq> STATE_DOCUMENT"
    by blast
  then show ?thesis
  proof cases
    case exit
    then show ?thesis using assms(2) by (auto simp: main_loop_turn_def Disconnect_session)
  next
    case doc
    then show ?thesis using assms(2)
      by (auto simp: main_loop_turn_def DrawEditor_start_def with_buffer_def gui_states split: option.splits dest!: redraw_app_keeps)
  next
    case prompt
    then obtain app' pr where "getPrompt app = returns (app', pr)" "c = (app', AtPrompt pr dim)"
      using assms(2) by (auto simp: main_loop_turn_def)
    with getPrompt_keeps(1) [OF this(1)] prompt assms(1) show ?thesis
      by (auto simp: app_ready_def menu_options_def)
  qed
qed

lemma doAction_ready:
  assumes "gui_ok (app, AtPrompt prompt dim)"
  shows "on_return (doAction inp app input) app_ready"
proof (cases "State app = STATE_MENU \<or> State app = STATE_MENU_RETRY")
  case True
  let ?n = "StrToInt input"
  have "MenuOptions app ! nat (?n - 1) \<in> set (menu_options app)" if "\<not> (?n < 1 \<or> ?n > int (length (MenuOptions app)))"
  proof -
    have "nat (?n - 1) < length (MenuOptions app)" using that by linarith
    then have "MenuOptions app ! nat (?n - 1) \<in> set (MenuOptions app)" by (rule nth_mem)
    then show ?thesis using assms True by simp
  qed
  then show ?thesis using True
    by (auto simp: doAction_def Let_def on_return_pbind app_ready_def gui_states menu_options_def gui_options split: if_splits)
next
  case False
  then show ?thesis using assms
    by (auto simp: doAction_def app_ready_def gui_states split: prod.splits option.splits)
qed

lemma editor_event_keeps:
  assumes "gui_ok (app, AtEditor dim)" "editor_event J app dim ev = returns r"
  shows "case r of Leaves app' \<Rightarrow> app_ready app' | Stays app' dim' scr \<Rightarrow> gui_ok (app', AtEditor dim')"
  using assms
  by (auto simp: editor_event_def stay_and_redraw_def local_edit_def with_buffer_def app_ready_def gui_states Let_def
      dest!: redraw_app_keeps split: option.splits event.splits key.splits if_splits)

lemma prompt_event_keeps:
  assumes "gui_ok (app, AtPrompt prompt dim)" "prompt_event inp app prompt dim ev = returns r"
  shows "case r of Leaves app' \<Rightarrow> app_ready app' | Stays prompt' dim' scr \<Rightarrow> gui_ok (app, AtPrompt prompt' dim')"
  using assms on_returnD [OF doAction_ready [OF assms(1)]]
  by (auto simp: prompt_event_def redraw_prompt_def app_ready_def gui_states Let_def
      split: event.splits key.splits if_splits)

section \<open>The loop goes on\<close>

definition size_ok :: "int \<times> int \<Rightarrow> bool" where
  "size_ok dim \<longleftrightarrow> 5 \<le> fst dim \<and> 0 < snd dim"

fun view_size_ok :: "view \<Rightarrow> bool" where
  "view_size_ok (AtEditor dim) \<longleftrightarrow> size_ok dim"
| "view_size_ok (AtPrompt prompt dim) \<longleftrightarrow> size_ok dim"
| "view_size_ok Finished \<longleftrightarrow> True"

definition doc_fine :: "appState \<Rightarrow> bool" where
  "doc_fine app \<longleftrightarrow> 0 \<le> ScreenY app \<and> (\<forall>m. app_DocModel app = Some m \<longrightarrow> model_ok m)"

definition gui_fine :: "appState \<times> view \<Rightarrow> bool" where
  "gui_fine c \<longleftrightarrow> gui_ok c \<and> doc_fine (fst c) \<and> view_size_ok (snd c)"

text \<open>Safe events: in the editor those of \<open>event_safe\<close>, at the prompt all but a forced exit, an error of the terminal and a
  window that is too narrow.\<close>

fun input_safe :: "appState \<times> view \<Rightarrow> event \<Rightarrow> bool" where
  "input_safe (app, AtEditor dim) ev \<longleftrightarrow> (\<exists>m\<in>set_option (app_DocModel app). event_safe m ev)"
| "input_safe (app, AtPrompt prompt dim) ev \<longleftrightarrow>
     (case ev of EventKey k ch \<Rightarrow> k \<noteq> KeyCtrlK | EventResize w h \<Rightarrow> size_ok (w, h) | EventInterrupt \<Rightarrow> True | EventError e \<Rightarrow> False)"
| "input_safe (app, Finished) ev \<longleftrightarrow> True"

lemma redrawPrompt_total:
  assumes "size_ok dim"
  shows "\<exists>scr. redrawPrompt prompt (fst dim) (snd dim) = returns scr"
proof -
  have "fits (fst dim - 1) ch" for ch using assms charLength_bounds(2) [of ch] by (simp add: fits_def size_ok_def)
  then have "text_fits (fst dim - 1) (pr_text prompt)" "input_fits (fst dim - 1) (pr_input prompt)"
    by (simp_all add: text_fits_def input_fits_def)
  with Prompt_shows [of "fst dim - 1" prompt "snd dim"] assms show ?thesis
    by (auto simp: redrawPrompt_def size_ok_def)
qed

lemma getPrompt_total:
  assumes "app_ready app" "State app \<noteq> STATE_EXIT" "State app \<noteq> STATE_DOCUMENT"
  shows "\<exists>app' prompt. getPrompt app = returns (app', prompt)"
  using assms by (auto simp: getPrompt_def app_ready_def Let_def gui_states)

lemma main_loop_turn_total:
  assumes "app_ready app" "doc_fine app" "size_ok dim"
  shows "\<exists>c scr. main_loop_turn dim app = returns (c, scr) \<and> gui_fine c"
proof -
  have "\<exists>c scr. main_loop_turn dim app = returns (c, scr) \<and> doc_fine (fst c) \<and> view_size_ok (snd c)"
  proof (cases "State app = STATE_DOCUMENT")
    case True
    then obtain m where m: "app_DocModel app = Some m" "model_ok m" "0 \<le> ScreenY app"
      using assms(1,2) by (auto simp: app_ready_def doc_fine_def)
    have d: "5 \<le> fst dim" "0 < snd dim" using assms(3) by (simp_all add: size_ok_def)
    from resize_ok [OF m d] obtain buf r where r: "Resize (dm_Buffer m) (fst dim - 1) = returns buf"
      "stay_and_redraw (with_buffer app m buf) dim = returns r" "edited app (doc_text (dm_Treedoc m)) dim r" by auto
    then show ?thesis using m(1) True assms(3)
      by (auto simp: main_loop_turn_def DrawEditor_start_def stay_and_redraw_def edited_def doc_fine_def gui_states)
  next
    case doc: False
    show ?thesis
    proof (cases "State app = STATE_EXIT")
      case False
      then obtain app' prompt scr where p: "getPrompt app = returns (app', prompt)"
        "redrawPrompt prompt (fst dim) (snd dim) = returns scr"
        using getPrompt_total [OF assms(1)] doc redrawPrompt_total [OF assms(3)] by blast
      then have "doc_fine app'" using getPrompt_keeps(1) [OF p(1)] assms(2) by (auto simp: doc_fine_def)
      with p doc False assms(3) show ?thesis by (simp add: main_loop_turn_def)
    qed (use assms(2) in \<open>simp add: main_loop_turn_def doc_fine_def\<close>)
  qed
  then show ?thesis unfolding gui_fine_def using main_loop_turn_ok [OF assms(1)] by blast
qed

lemma StringToSiteId_ok: "SiteId_ok (StringToSiteId str)"
  by (simp add: SiteId_ok_def StringToSiteId_def go_copy_def zero_bytes_def min_def)

lemma newDocument_total:
  assumes "5 \<le> width"
  shows "\<exists>m. newDocument width (StringToSiteId str) = returns m \<and> model_ok m"
  using NewDocumentModel_ok [OF StringToSiteId_ok, of "width - 1" str True] assms by (auto simp: newDocument_def)

lemma doAction_total:
  assumes "doc_fine app" "size_ok (in_size inp)"
  shows "\<exists>app'. doAction inp app input = returns app' \<and> doc_fine app'"
proof -
  obtain m where "newDocument (fst (in_size inp)) (StringToSiteId (in_uuid inp)) = returns m" "model_ok m"
    using newDocument_total assms(2) by (auto simp: size_ok_def)
  with assms(1) show ?thesis by (auto simp: doAction_def doc_fine_def Let_def split: prod.splits option.splits)
qed

lemma prompt_event_total:
  assumes "gui_fine (app, AtPrompt prompt dim)" "input_safe (app, AtPrompt prompt dim) ev" "size_ok (in_size inp)"
  shows "\<exists>r. prompt_event inp app prompt dim ev = returns r \<and>
    (case r of Leaves app' \<Rightarrow> doc_fine app' | Stays prompt' dim' scr \<Rightarrow> size_ok dim')"
proof -
  have d: "size_ok dim" "doc_fine app" using assms(1) by (simp_all add: gui_fine_def)
  have draw: "\<exists>r. redraw_prompt p dim' = returns r \<and> (case r of Leaves a \<Rightarrow> doc_fine a | Stays p' d' scr \<Rightarrow> size_ok d')"
    if "size_ok dim'" for p dim'
    using redrawPrompt_total [OF that, of p] that by (auto simp: redraw_prompt_def)
  have act: "\<exists>app'. doAction inp app (Prompt_ToString prompt) = returns app' \<and> doc_fine app'"
    by (rule doAction_total [OF d(2) assms(3)])
  have fine: "doc_fine (app\<lparr>State := s\<rparr>)" for s using d(2) by (simp add: doc_fine_def)
  show ?thesis
  proof (cases ev)
    case (EventKey k ch)
    then show ?thesis using assms(2) draw [OF d(1)] act fine d by (cases k) (auto simp: prompt_event_def)
  qed (use assms(2) draw d in \<open>auto simp: prompt_event_def\<close>)
qed

lemma editor_event_total:
  assumes "gui_fine (app, AtEditor dim)" "input_safe (app, AtEditor dim) ev"
  shows "\<exists>r. editor_event J app dim ev = returns r \<and>
    (case r of Leaves app' \<Rightarrow> doc_fine app' | Stays app' dim' scr \<Rightarrow> doc_fine app' \<and> size_ok dim')"
proof -
  obtain m where m: "app_DocModel app = Some m" "model_ok m" "0 \<le> ScreenY app" "0 < snd dim" "event_safe m ev" "size_ok dim"
    using assms by (auto simp: gui_fine_def doc_fine_def size_ok_def)
  show ?thesis
  proof (cases "event_leaves ev")
    case None
    from editor_event_ok [OF m(1-5) None, of J] obtain r where r: "editor_event J app dim ev = returns r"
      "edited app (event_text m ev) (event_size dim ev) r" by blast
    moreover have "size_ok (event_size dim ev)" using m(5,6) by (cases ev) (auto simp: size_ok_def)
    ultimately show ?thesis by (auto simp: edited_def doc_fine_def)
  next
    case (Some s)
    then obtain app' where "editor_event J app dim ev = returns (Leaves app')" "doc_fine app'"
      using m(1,2,3) by (auto elim!: event_leaves.elims simp: editor_event_def doc_fine_def)
    then show ?thesis by simp
  qed
qed

section \<open>The two loops that wait\<close>

text \<open>
  \<open>DrawEditor\<close> and \<open>DrawPrompt\<close> are used by the main loop in the same way: a handler takes an event and leaves its loop with a state
  or stays in it. What they promise is that they keep what holds, and that they return on safe events.
\<close>

locale event_handler =
  fixes handle :: "gui_inputs \<Rightarrow> appState \<Rightarrow> 'a \<Rightarrow> int \<times> int \<Rightarrow> event \<Rightarrow> 'a event_result prog"
    and waiting :: "appState \<Rightarrow> 'a \<Rightarrow> int \<times> int \<Rightarrow> appState \<times> view"
  assumes handle_keeps: "gui_ok (waiting app a dim) \<Longrightarrow> handle inp app a dim ev = returns r \<Longrightarrow>
      case r of Leaves app' \<Rightarrow> app_ready app' | Stays a' dim' scr \<Rightarrow> gui_ok (waiting app a' dim')"
    and handle_total: "gui_fine (waiting app a dim) \<Longrightarrow> input_safe (waiting app a dim) ev \<Longrightarrow> size_ok (in_size inp) \<Longrightarrow>
      \<exists>r. handle inp app a dim ev = returns r \<and>
        (case r of Leaves app' \<Rightarrow> doc_fine app'
         | Stays a' dim' scr \<Rightarrow> doc_fine (fst (waiting app a' dim')) \<and> view_size_ok (snd (waiting app a' dim')))"
begin

definition go_on :: "gui_inputs \<Rightarrow> appState \<Rightarrow> 'a \<Rightarrow> int \<times> int \<Rightarrow> event \<Rightarrow> ((appState \<times> view) \<times> screen option) prog" where
  "go_on inp app a dim ev = pbind (handle inp app a dim ev) (\<lambda>r. case r of
     Leaves app' \<Rightarrow> main_loop_turn (in_size inp) app' | Stays a' dim' scr \<Rightarrow> returns (waiting app a' dim', scr))"

lemma go_on_ok:
  assumes "gui_ok (waiting app a dim)" "go_on inp app a dim ev = returns (c', scr)"
  shows "gui_ok c'"
proof -
  from assms(2) obtain r where "handle inp app a dim ev = returns r"
    "(case r of Leaves app' \<Rightarrow> main_loop_turn (in_size inp) app' | Stays a' dim' scr \<Rightarrow> returns (waiting app a' dim', scr)) = returns (c', scr)"
    unfolding go_on_def pbind_eq_returns by blast
  with handle_keeps [OF assms(1)] show ?thesis by (cases r) (force intro: main_loop_turn_ok)+
qed

lemma go_on_total:
  assumes "gui_fine (waiting app a dim)" "input_safe (waiting app a dim) ev" "size_ok (in_size inp)"
  shows "\<exists>c' scr. go_on inp app a dim ev = returns (c', scr) \<and> gui_fine c'"
proof -
  from handle_total [OF assms] obtain r where r: "handle inp app a dim ev = returns r"
    "case r of Leaves app' \<Rightarrow> doc_fine app'
      | Stays a' dim' scr \<Rightarrow> doc_fine (fst (waiting app a' dim')) \<and> view_size_ok (snd (waiting app a' dim'))" by blast
  have "gui_ok (waiting app a dim)" using assms(1) by (simp add: gui_fine_def)
  note keeps = handle_keeps [OF this r(1)]
  show ?thesis
  proof (cases r)
    case (Leaves app')
    then show ?thesis using main_loop_turn_total [OF _ _ assms(3), of app'] keeps r by (simp add: go_on_def)
  next
    case (Stays a' dim' scr)
    then have "gui_fine (waiting app a' dim')" using keeps r(2) by (simp add: gui_fine_def)
    then show ?thesis using Stays r(1) by (simp add: go_on_def)
  qed
qed

end

interpretation editor: event_handler "\<lambda>inp app. editor_event J" "\<lambda>app a dim. (a, AtEditor dim)" for J
proof (standard, goal_cases)
  case (1 app a dim inp ev r)
  then show ?case by (rule editor_event_keeps)
next
  case (2 app a dim ev inp)
  then show ?case using editor_event_total [of a dim ev J] by (auto split: event_result.splits)
qed

interpretation prompt: event_handler prompt_event "\<lambda>app prompt dim. (app, AtPrompt prompt dim)"
proof (standard, goal_cases)
  case (1 app prompt dim inp ev r)
  then show ?case by (rule prompt_event_keeps)
next
  case (2 app prompt dim ev inp)
  then have "doc_fine app" by (simp add: gui_fine_def)
  then show ?case using prompt_event_total [OF 2] by (auto split: event_result.splits)
qed

lemma gui_event_handlers:
  "gui_event J inp (app, AtEditor dim) ev = editor.go_on J inp app app dim ev"
  "gui_event J inp (app, AtPrompt prompt dim) ev = prompt.go_on inp app prompt dim ev"
  by (simp_all add: gui_event_def editor.go_on_def prompt.go_on_def)

lemma gui_event_ok:
  assumes "gui_ok (app, v)" "gui_event J inp (app, v) ev = returns (c', scr)"
  shows "gui_ok c'"
proof (cases v)
  case (AtEditor dim)
  from assms [unfolded AtEditor gui_event_handlers] show ?thesis by (rule editor.go_on_ok)
next
  case (AtPrompt prompt dim)
  from assms [unfolded AtPrompt gui_event_handlers] show ?thesis by (rule prompt.go_on_ok)
next
  case Finished
  then show ?thesis using assms by (auto simp: gui_event_def)
qed

lemma gui_event_total:
  assumes "gui_fine (app, v)" "input_safe (app, v) ev" "size_ok (in_size inp)"
  shows "\<exists>c' scr. gui_event J inp (app, v) ev = returns (c', scr) \<and> gui_fine c'"
proof (cases v)
  case (AtEditor dim)
  then show ?thesis using editor.go_on_total [OF _ _ assms(3)] assms(1,2) by (simp only: gui_event_handlers)
next
  case (AtPrompt prompt dim)
  then show ?thesis using prompt.go_on_total [OF _ _ assms(3)] assms(1,2) by (simp only: gui_event_handlers)
next
  case Finished
  then show ?thesis using assms(1) by (simp add: gui_event_def)
qed

section \<open>Runs\<close>

lemma gui_ok_cong:
  assumes "State app' = State app" "MenuOptions app' = MenuOptions app" "TempData app' = TempData app"
    "app_DocModel app' = None \<longleftrightarrow> app_DocModel app = None" "nm_session (Manager app') = nm_session (Manager app)"
  shows "gui_ok (app', v) = gui_ok (app, v)"
  using assms by (cases v) (auto simp: menu_options_def)

lemma gui_step_ok: "gui_step J c c' \<Longrightarrow> gui_ok c \<Longrightarrow> gui_ok c'"
proof (induction rule: gui_step.induct)
  case (gui_step_event inp c ev c' scr)
  then show ?case using gui_event_ok by (cases c) blast
next
  case (gui_step_remote app msg app' v)
  then have "gui_ok (app', v) = gui_ok (app, v)"
    by (intro gui_ok_cong) (auto simp: remote_op_handler_def split: option.splits)
  then show ?case using gui_step_remote by simp
next
  case (gui_step_network nm app v)
  then have "gui_ok (app\<lparr>Manager := nm\<rparr>, v) = gui_ok (app, v)" by (intro gui_ok_cong) simp_all
  then show ?case using gui_step_network by simp
qed

lemma gui_reachable_ok: "gui_reachable J nm c \<Longrightarrow> gui_ok c"
proof (induction rule: gui_reachable.induct)
  case (gui_start dim c scr)
  then show ?case by (rule main_loop_turn_ok [rotated]) (simp add: app_ready_def StartMainLoop_app_def gui_states)
qed (rule gui_step_ok)

section \<open>Properties\<close>

text \<open>C16: Whatever the user types, the peers send and the network does, whenever the loop waits: in the editor there is a
  document, at the menu the options are those on the screen, an address is asked for only with a document open, an error
  screen has an error to show, and once the loop has ended the session is closed. So the interface never reads a document
  that is not there and never meets an unknown state.\<close>

theorem interface_invariant:
  assumes "gui_reachable J nm (app, v)"
  shows "gui_ok (app, v) \<and> (State app \<in> {STATE_DOCUMENT, STATE_CONNECT, STATE_ERROR} \<longrightarrow> app_DocModel app \<noteq> None) \<and>
    (v = Finished \<longrightarrow> nm_session (Manager app) = None)"
  using gui_reachable_ok [OF assms] by (cases v) (auto simp: gui_states split: if_splits)

definition quiet_inputs :: gui_inputs where
  "quiet_inputs = \<lparr>in_codec = plain_codec, in_uuid = ''5ce1f6e2-1f1e-11e6-b6ba-3e1d05defe78'', in_size = (80, 25), in_newId = ''n'',
     in_listenErr = None, in_dial = (\<lambda>_. Inl ''no route'')\<rparr>"

definition quiet_json :: gui_json where
  "quiet_json = \<lparr>put_ops = (\<lambda>_. Inl ''json''), get_ops = (\<lambda>_. []), put_version = (\<lambda>_. []), get_version = (\<lambda>_. None)\<rparr>"

lemma start_fine:
  assumes "size_ok dim"
  shows "\<exists>c scr. main_loop_turn dim (StartMainLoop_app nm) = returns (c, scr) \<and> gui_fine c"
  by (rule main_loop_turn_total [OF _ _ assms]) (simp_all add: app_ready_def doc_fine_def StartMainLoop_app_def gui_states)

theorem interface_invariant_witness:
  "\<exists>nm app v. gui_reachable quiet_json nm (app, v) \<and> State app = STATE_EXIT \<and> nm_session (Manager app) = None"
proof -
  obtain nm where nm: "NewNetworkManager ''x'' ''a'' None = Inr nm" using NewNetworkManager_starts by blast
  obtain app v scr where c: "main_loop_turn (80, 25) (StartMainLoop_app nm) = returns ((app, v), scr)"
    using start_fine [of "(80, 25)" nm] by (auto simp: size_ok_def)
  then obtain prompt where v: "v = AtPrompt prompt (80, 25)"
    by (auto simp: main_loop_turn_def StartMainLoop_app_def gui_states)
  let ?app = "app\<lparr>State := STATE_EXIT, Manager := fst (Disconnect (Manager app))\<rparr>"
  have "gui_event quiet_json quiet_inputs (app, v) (EventKey KeyCtrlC 3) = returns ((?app, Finished), None)"
    by (simp add: v gui_event_def prompt_event_def main_loop_turn_def)
  then have "gui_step quiet_json (app, v) (?app, Finished)" by (rule gui_step_event)
  with gui_start [OF c] have r: "gui_reachable quiet_json nm (?app, Finished)" by (rule gui_next)
  with interface_invariant [OF r] show ?thesis by (metis gui_ok.simps(3))
qed

text \<open>C15: The interface keeps running: in a state as above, with the texts of the document in step, every safe event is
  handled: the handler returns, in a window of any size from five columns on, and what held before holds again.\<close>

theorem interface_keeps_running:
  assumes "gui_fine (app, v)" "input_safe (app, v) ev" "size_ok (in_size inp)"
  shows "\<exists>app' v' scr. gui_event J inp (app, v) ev = returns ((app', v'), scr) \<and> gui_fine (app', v')"
  using gui_event_total [OF assms] by auto

theorem interface_keeps_running_witness:
  "\<exists>nm app v c scr. main_loop_turn (80, 25) (StartMainLoop_app nm) = returns ((app, v), scr) \<and>
    (\<exists>scr'. gui_event quiet_json quiet_inputs (app, v) (EventKey KeyEnter 13) = returns (c, scr')) \<and> gui_fine c"
proof -
  obtain app v scr where c: "main_loop_turn (80, 25) (StartMainLoop_app undefined) = returns ((app, v), scr)" "gui_fine (app, v)"
    using start_fine [of "(80, 25)" undefined] by (auto simp: size_ok_def)
  then obtain prompt where "v = AtPrompt prompt (80, 25)"
    by (auto simp: main_loop_turn_def StartMainLoop_app_def gui_states)
  with interface_keeps_running [OF c(2), of "EventKey KeyEnter 13" quiet_inputs quiet_json] c show ?thesis
    by (fastforce simp: quiet_inputs_def size_ok_def)
qed

end
