(* ===== verification/GuiDrift.thy ===== *)
theory GuiDrift
  imports GuiMain
begin

text \<open>
  The cursor can run behind the end of the text: the up key may leave it behind the last byte of a wrapped line, and the right key
  then counts a byte that is not there.
\<close>

section \<open>One step too far\<close>

lemma MoveRight_drifts:
  assumes "buf_ok buf" "\<not> cursor_on_byte buf"
  shows "currentLine (MoveRight buf) = currentLine buf + 1" "currentX (MoveRight buf) = 0"
    "currentPosition (MoveRight buf) = int (length (concat (take (currentLine (MoveRight buf)) (b_lines (MoveRight buf))))) + 1"
proof -
  have c: "cursor_ok buf" by (rule buf_ok_facts(8) [OF assms(1)])
  then have line: "currentLine buf + 1 < length (b_lines buf)" and x: "currentX buf = int (length (cur_bytes buf))"
    using assms(2) by (auto simp: cursor_ok_def cursor_on_byte_def)
  then show "currentLine (MoveRight buf) = currentLine buf + 1" "currentX (MoveRight buf) = 0"
    by (simp_all add: MoveRight_def)
  have "length (concat (take (Suc (currentLine buf)) (b_lines buf))) =
      length (concat (take (currentLine buf) (b_lines buf))) + length (cur_bytes buf)"
    using length_concat_take_Suc [of "currentLine buf" "b_lines buf"] line by (simp add: cur_bytes_def)
  then show "currentPosition (MoveRight buf) =
      int (length (concat (take (currentLine (MoveRight buf)) (b_lines (MoveRight buf))))) + 1"
    using c line x by (simp add: MoveRight_def cursor_ok_def)
qed

section \<open>A run that ends in a panic\<close>

text \<open>The text \<open>ab cdef\<close> in a window of five columns, with the cursor at its end.\<close>

definition wrapped_buffer :: Buffer where
  "wrapped_buffer = \<lparr>b_width = 5, numberOfChars = 7, numberOfLines = 2, b_lines = [''ab '', ''cdef'' @ [CHR 0x0A]],
     currentLine = 1, currentPosition = 7, currentX = 4, currentY = 1\<rparr>"

definition drifted_buffer :: "int \<Rightarrow> Buffer" where
  "drifted_buffer k = wrapped_buffer\<lparr>currentPosition := 4 + k, currentX := k\<rparr>"

lemma wrapped_buffer_ok: "buf_ok wrapped_buffer" "buf_text wrapped_buffer = ''ab cdef''"
  by code_simp+

lemma drift_steps:
  "MoveUp wrapped_buffer = returns (wrapped_buffer\<lparr>currentLine := 0, currentY := 0, currentPosition := 3, currentX := 3\<rparr>)"
  "MoveRight (wrapped_buffer\<lparr>currentLine := 0, currentY := 0, currentPosition := 3, currentX := 3\<rparr>) = drifted_buffer 0"
  "InsertAtCurrent (drifted_buffer 4) c = panics NilDereference"
  by code_simp+

text \<open>What an arrow key does as long as the window starts at the first line.\<close>

lemma arrow_event:
  assumes "app_DocModel app = Some m" "ScreenY app = 0" "editor_event J app dim ev = stay_and_redraw (with_buffer app m buf) dim"
    "currentY buf < snd dim" "0 \<le> currentX buf" "currentX buf \<le> int (length (cur_bytes buf))"
    "currentY buf = int (currentLine buf)"
  shows "\<exists>app' scr. gui_event J inp (app, AtEditor dim) ev = returns ((app', AtEditor dim), scr) \<and>
    app_DocModel app' = Some (m\<lparr>dm_Buffer := buf\<rparr>) \<and> ScreenY app' = 0"
  using assms walk_prev_ok [of "currentLine buf" "currentLine buf"]
  by (auto simp: gui_event_def stay_and_redraw_def redraw_app_def with_buffer_def redrawEditor_def GetDisplayInformation_def
      go_slice_def guard_else_def)

definition gui_events :: "gui_json \<Rightarrow> gui_inputs \<Rightarrow> event list \<Rightarrow> appState \<times> view \<Rightarrow> (appState \<times> view) prog" where
  "gui_events J inp evs c = pfold (\<lambda>c ev. pbind (gui_event J inp c ev) (\<lambda>(c, scr). returns c)) evs c"

definition holds_buffer :: "DocumentModel \<Rightarrow> Buffer \<Rightarrow> appState \<Rightarrow> bool" where
  "holds_buffer m buf app \<longleftrightarrow> app_DocModel app = Some (m\<lparr>dm_Buffer := buf\<rparr>) \<and> ScreenY app = 0"

lemma right_key:
  assumes "holds_buffer m buf app" "MoveRight buf = buf'" "currentY buf' < snd dim" "0 \<le> currentX buf'"
    "currentX buf' \<le> int (length (cur_bytes buf'))" "currentY buf' = int (currentLine buf')"
  shows "\<exists>app'. holds_buffer m buf' app' \<and>
    gui_events J inp (EventKey KeyArrowRight 0 # evs) (app, AtEditor dim) = gui_events J inp evs (app', AtEditor dim)"
  using arrow_event [of app "m\<lparr>dm_Buffer := buf\<rparr>" J dim "EventKey KeyArrowRight 0" buf' inp] assms
  by (auto simp: holds_buffer_def gui_events_def editor_event_def)

lemma up_key:
  assumes "holds_buffer m buf app" "MoveUp buf = returns buf'" "currentY buf' < snd dim" "0 \<le> currentX buf'"
    "currentX buf' \<le> int (length (cur_bytes buf'))" "currentY buf' = int (currentLine buf')"
  shows "\<exists>app'. holds_buffer m buf' app' \<and>
    gui_events J inp (EventKey KeyArrowUp 0 # evs) (app, AtEditor dim) = gui_events J inp evs (app', AtEditor dim)"
  using arrow_event [of app "m\<lparr>dm_Buffer := buf\<rparr>" J dim "EventKey KeyArrowUp 0" buf' inp] assms
  by (auto simp: holds_buffer_def gui_events_def editor_event_def)

lemma drifted_buffer_facts:
  "currentY (drifted_buffer k) = 1" "currentLine (drifted_buffer k) = 1" "currentX (drifted_buffer k) = k"
  "length (cur_bytes (drifted_buffer k)) = 5"
  by (simp_all add: drifted_buffer_def wrapped_buffer_def cur_bytes_def)

lemma drifted_right: "0 \<le> k \<Longrightarrow> k < 4 \<Longrightarrow> MoveRight (drifted_buffer k) = drifted_buffer (k + 1)"
  by (simp add: MoveRight_def drifted_buffer_def wrapped_buffer_def cur_bytes_def)

lemma right_keys:
  assumes "holds_buffer m (drifted_buffer 0) app" "1 < snd dim" "n \<le> 4"
  shows "\<exists>app'. holds_buffer m (drifted_buffer (int n)) app' \<and>
    gui_events J inp (replicate n (EventKey KeyArrowRight 0) @ evs) (app, AtEditor dim) = gui_events J inp evs (app', AtEditor dim)"
  using assms(3)
proof (induction n arbitrary: evs)
  case 0
  then show ?case using assms(1) by auto
next
  case (Suc n)
  from Suc.IH [of "EventKey KeyArrowRight 0 # evs"] Suc.prems obtain app1 where app1: "holds_buffer m (drifted_buffer (int n)) app1"
    "gui_events J inp (replicate (Suc n) (EventKey KeyArrowRight 0) @ evs) (app, AtEditor dim) =
      gui_events J inp (EventKey KeyArrowRight 0 # evs) (app1, AtEditor dim)"
    by (auto simp: replicate_app_Cons_same)
  have "\<exists>app'. holds_buffer m (drifted_buffer (int n + 1)) app' \<and>
    gui_events J inp (EventKey KeyArrowRight 0 # evs) (app1, AtEditor dim) = gui_events J inp evs (app', AtEditor dim)"
    by (rule right_key [OF app1(1) drifted_right]) (use assms(2) Suc.prems in \<open>simp_all add: drifted_buffer_facts\<close>)
  then show ?case unfolding app1(2) by (simp add: add.commute)
qed

text \<open>C17: Arrow keys can take the editor down: with the text \<open>ab cdef\<close> wrapped into two lines and the cursor at its end, one
  step up, five steps to the right and a letter make the insertion run off the text and panic. In general, a step to the right
  from behind the last byte of a wrapped line puts the cursor at the start of the next line but counts one byte more.\<close>

theorem arrow_keys_panic:
  assumes "app_DocModel app = Some m" "dm_Buffer m = wrapped_buffer" "ScreenY app = 0" "1 < snd dim"
    "buf_ok buf" "\<not> cursor_on_byte buf"
  shows "gui_events J inp (EventKey KeyArrowUp 0 # replicate 5 (EventKey KeyArrowRight 0) @ [EventKey KeyNone 120])
      (app, AtEditor dim) = panics NilDereference \<and>
    currentX (MoveRight buf) = 0 \<and> currentPosition (MoveRight buf) =
      int (length (concat (take (currentLine (MoveRight buf)) (b_lines (MoveRight buf))))) + 1"
proof -
  let ?r = "EventKey KeyArrowRight 0" and ?x = "EventKey KeyNone 120"
  have "m\<lparr>dm_Buffer := wrapped_buffer\<rparr> = m" using assms(2) by (cases m) simp
  then have a: "holds_buffer m wrapped_buffer app" using assms(1,3) by (simp add: holds_buffer_def)
  note up = up_key [OF a drift_steps(1), of dim J inp "?r # replicate 4 ?r @ [?x]"]
  obtain app1 where a1: "holds_buffer m (wrapped_buffer\<lparr>currentLine := 0, currentY := 0, currentPosition := 3, currentX := 3\<rparr>) app1"
    "gui_events J inp (EventKey KeyArrowUp 0 # ?r # replicate 4 ?r @ [?x]) (app, AtEditor dim) =
      gui_events J inp (?r # replicate 4 ?r @ [?x]) (app1, AtEditor dim)"
    using up assms(4) by (auto simp: wrapped_buffer_def cur_bytes_def)
  obtain app2 where a2: "holds_buffer m (drifted_buffer 0) app2" "gui_events J inp (?r # replicate 4 ?r @ [?x]) (app1, AtEditor dim) =
      gui_events J inp (replicate 4 ?r @ [?x]) (app2, AtEditor dim)"
    using right_key [OF a1(1) drift_steps(2), of dim J inp "replicate 4 ?r @ [?x]"] assms(4) by (auto simp: drifted_buffer_facts)
  obtain app3 where a3: "holds_buffer m (drifted_buffer 4) app3"
    "gui_events J inp (replicate 4 ?r @ [?x]) (app2, AtEditor dim) = gui_events J inp [?x] (app3, AtEditor dim)"
    using right_keys [OF a2(1) assms(4), of 4 J inp "[?x]"] by auto
  have "gui_events J inp [?x] (app3, AtEditor dim) = panics NilDereference"
    using a3(1) drift_steps(3)
    by (simp add: holds_buffer_def gui_events_def gui_event_def editor_event_def local_edit_def LocalInsert_def)
  moreover have "replicate 5 ?r = ?r # replicate 4 ?r" by (simp add: numeral_eq_Suc)
  ultimately show ?thesis using a1(2) a2(2) a3(2) MoveRight_drifts [OF assms(5,6)] by simp
qed

text \<open>A site in that situation: its document is one node with seven cells.\<close>

definition typed_ops :: "Operation list" where
  "typed_ops = op_root (CHR ''a'') A_ID0 # map (\<lambda>(n, c). op_insert c A_ID0 n) (zip [1, 2, 3, 4, 5, 6] ''b cdef'')"

definition typed_doc :: Document where
  "typed_doc = (case apply_ops NewDocument typed_ops of Some (Inr d) \<Rightarrow> d | _ \<Rightarrow> NewDocument)"

definition wrapped_model :: DocumentModel where
  "wrapped_model = test_model\<lparr>dm_Treedoc := typed_doc, dm_Buffer := wrapped_buffer\<rparr>"

lemma wrapped_model_ok: "model_ok wrapped_model"
proof -
  have ids: "distinct (new_ids typed_ops)" by code_simp
  have "causal {} typed_ops" "distinct (insert_keys typed_ops)" by code_simp+
  moreover have "small_new typed_ops"
    by (simp add: small_new_def typed_ops_def sample_ops operation_types creates_def zero_Operation_def)
  ultimately obtain d where "apply_ops NewDocument typed_ops = returns d" using run_from_empty(1) [OF ids] by blast
  then have run: "apply_ops NewDocument typed_ops = returns typed_doc" by (simp add: typed_doc_def)
  have doc: "doc_ok typed_doc" "describes (set typed_ops) (abs_doc typed_doc)" using run_from_empty(2) [OF ids run] by simp_all
  have "last_free typed_doc"
    by (rule run_last_free [OF ids run]) (simp add: typed_ops_def sample_ops zero_Operation_def)
  moreover have "doc_text typed_doc = ''ab cdef''" by code_simp
  ultimately have "texts_ok wrapped_model"
    using doc wrapped_buffer_ok by (simp add: texts_ok_def wrapped_model_def)
  moreover have "ids_free wrapped_model"
  proof -
    have "set (new_ids typed_ops) = {A_ID0}" by code_simp
    then have "dNodes typed_doc nid = None" if "nid \<noteq> A_ID0" for nid
      using describes_init(2) [OF doc(2), of nid] that by (auto simp: abs_doc_def new_ids_def)
    moreover have "SiteId_ok E_SITE" "take 16 A_ID0 \<noteq> E_SITE" by (simp_all add: E_SITE_def A_ID0_def SiteId_ok_def numeral_eq_Suc)
    moreover from this have "NewNodeId E_SITE c \<noteq> A_ID0" for c
      by (metis NewNodeId_eq SiteId_ok_def append_eq_conv_conj)
    ultimately show ?thesis by (simp add: ids_free_def wrapped_model_def test_model_def)
  qed
  moreover have "clock_ok wrapped_model"
    using test_model_ok(1) by (simp add: model_ok_def clock_ok_def wrapped_model_def)
  ultimately show ?thesis by (simp add: model_ok_def)
qed

theorem arrow_keys_panic_witness:
  "\<exists>app. app_DocModel app = Some wrapped_model \<and> model_ok wrapped_model \<and>
    gui_events quiet_json quiet_inputs (EventKey KeyArrowUp 0 # replicate 5 (EventKey KeyArrowRight 0) @ [EventKey KeyNone 120])
      (app, AtEditor (6, 8)) = panics NilDereference"
proof -
  let ?app = "\<lparr>State = STATE_DOCUMENT, app_DocModel = Some wrapped_model, ScreenY = 0, MenuOptions = [], Manager = undefined, TempData = None\<rparr>"
  obtain buf where "MoveUp wrapped_buffer = returns buf" "buf_ok buf" using MoveUp_ok [OF wrapped_buffer_ok(1)] by blast
  moreover from this drift_steps(1) have "\<not> cursor_on_byte buf" by (auto simp: cursor_on_byte_def cur_bytes_def wrapped_buffer_def)
  ultimately show ?thesis
    using arrow_keys_panic [of ?app wrapped_model "(6, 8)" buf quiet_json quiet_inputs] wrapped_model_ok
    by (intro exI [of _ ?app]) (simp add: wrapped_model_def)
qed

end
