(* ===== verification/EditorSite.thy ===== *)
theory EditorSite
  imports EditPeer
begin

text \<open>
  One site of the editor among others: what it has applied is a set of the operations that were broadcast, its document is the one
  these operations describe, and handling operations of others keeps that.
\<close>

section \<open>A site inserts only into its own nodes\<close>

lemma canDoInsert_own: "canDoInsert node n nodeId = returns True \<Longrightarrow> EqualSiteIdInNodeId nodeId (nNodeId node)"
  by (auto simp: canDoInsert_def)

lemma makeAndApplyInsert_own:
  "makeAndApplyInsertOperation doc a n ch = returns (doc', op) \<Longrightarrow> oId op = nNodeId (node_at doc a)"
  by (auto simp: makeAndApplyInsertOperation_def Let_def)

lemma find_insert_own:
  "find_insert_loop pos acc nodeId node i = returns (INSERT, acc', n) \<Longrightarrow> EqualSiteIdInNodeId nodeId (nNodeId node)"
proof (induction pos acc nodeId node i rule: find_insert_loop.induct)
  case (1 pos acc nodeId node i)
  show ?case
  proof (cases "EqualSiteIdInNodeId nodeId (nNodeId node)")
    case False
    with 1 show ?thesis
      by (auto simp: find_insert_loop.simps [of pos acc nodeId node i] Let_def operation_types split: if_splits)
  qed
qed

definition own_insert :: "NodeId \<Rightarrow> Operation \<Rightarrow> bool" where
  "own_insert nodeId op \<longleftrightarrow> oType op = INSERT \<longrightarrow> EqualSiteIdInNodeId nodeId (oId op)"

lemma insertPosNewHelper_own:
  assumes "insertPosNewHelper doc a n nodeId ch = Some r"
  shows "case r of Inl p \<Rightarrow> True | Inr (doc', op) \<Rightarrow> own_insert nodeId op"
proof (rule insertPosNewHelper.raw_induct [OF _ assms], goal_cases)
  case (1 loop doc a n nodeId ch r)
  show ?case
  proof (cases r)
    case (Inr x)
    with 1 show ?thesis
      by (fastforce simp: own_insert_def operation_types Let_def split: if_splits dest!: canDoInsert_own makeAndApplyInsert_own)
  qed simp
qed

lemma insert_pos_loop_own:
  assumes "insert_pos_loop doc nodeId pos ch acc a n = Some r"
  shows "case r of Inl p \<Rightarrow> True | Inr (doc', op) \<Rightarrow> own_insert nodeId op"
proof (rule insert_pos_loop.raw_induct [OF _ assms], goal_cases)
  case (1 loop doc nodeId pos ch acc a n r)
  show ?case
  proof (cases r)
    case (Inr x)
    with 1 insertPosNewHelper_own [of doc a n nodeId ch r] show ?thesis
      by (fastforce simp: own_insert_def findAtomForInsertHelper_def split: if_splits prod.splits option.splits
          dest!: find_insert_own makeAndApplyInsert_own)
  qed simp
qed

lemma InsertPos_own:
  assumes "InsertPos doc nodeId pos ch = returns (doc', op)"
  shows "own_insert nodeId op"
proof -
  have new: "own_insert nodeId op" if "insertPosNewHelper d a n nodeId ch = returns (doc', op)" for d a n
    using insertPosNewHelper_own [OF that] by simp
  have loop: "own_insert nodeId op" if "insert_pos_loop d nodeId pos ch acc a n = returns (doc', op)" for d acc a n
    using insert_pos_loop_own [OF that] by simp
  have made: "own_insert nodeId op"
    if "makeAndApplyInsertOperation d a n ch = returns (doc', op)" "EqualSiteIdInNodeId nodeId (nNodeId (node_at d a))" for d a n
    using that makeAndApplyInsert_own by (auto simp: own_insert_def)
  have root: "own_insert nodeId (zero_Operation\<lparr>oType := INSERT_ROOT, oId := nodeId, oN := 0, oAtom := ch\<rparr>)"
    by (simp add: own_insert_def operation_types)
  from assms show ?thesis
    unfolding InsertPos_def findAtomForInsertHelper_def guard_else_def Let_def
    by (auto split: if_splits prod.splits option.splits
        intro: new loop root made [OF _ canDoInsert_own] made [OF _ find_insert_own])
qed

section \<open>Edits of the site\<close>

lemma DeletePos_type: "DeletePos doc p = returns (d, op) \<Longrightarrow> oType op = DELETE"
  by (auto simp: DeletePos_def Let_def)

lemma LocalInsert_parts:
  assumes "LocalInsert m c = returns (m', sent)"
  shows "\<exists>m1 d op. InsertPos (dm_Treedoc m) (NewNodeId (OwnerId m) (NodeIdClock m)) (currentPosition (dm_Buffer m)) c = returns (d, op) \<and>
    finish_local m1 op = returns (m', sent) \<and> BroadcastRemote m1 = BroadcastRemote m"
  using assms by (auto simp: LocalInsert_def GetPosition_def Let_def split: if_splits) (fastforce+)

lemma local_delete_parts:
  assumes "LocalDelete m = returns (m', sent) \<or> LocalBackspace m = returns (m', sent)"
  shows "m' = m \<and> sent = [] \<or> (\<exists>m1 p d op. DeletePos (dm_Treedoc m) p = returns (d, op) \<and>
    finish_local m1 op = returns (m', sent) \<and> BroadcastRemote m1 = BroadcastRemote m)"
  using assms
proof
  assume "LocalDelete m = returns (m', sent)"
  then show ?thesis by (simp add: LocalDelete_def Let_def split: if_splits) fastforce
next
  assume "LocalBackspace m = returns (m', sent)"
  then show ?thesis by (simp add: LocalBackspace_def Let_def split: if_splits) fastforce
qed

text \<open>An edit types a byte, deletes one, or does nothing.\<close>

lemma event_edit_cases:
  assumes "event_edit m ev = returns (m', sent)"
  obtains (typed) c m1 d op where "typed_byte ev = Some c" "LocalInsert m c = returns (m', sent)"
      "InsertPos (dm_Treedoc m) (NewNodeId (OwnerId m) (NodeIdClock m)) (currentPosition (dm_Buffer m)) c = returns (d, op)"
      "finish_local m1 op = returns (m', sent)" "BroadcastRemote m1 = BroadcastRemote m"
  | (deleted) m1 op where "oType op = DELETE" "finish_local m1 op = returns (m', sent)" "BroadcastRemote m1 = BroadcastRemote m"
  | (nothing) "m' = m" "sent = []"
proof (cases "typed_byte ev")
  case (Some c)
  then have "LocalInsert m c = returns (m', sent)" using assms by (simp add: event_edit_def)
  with LocalInsert_parts [OF this] Some show thesis using typed by blast
next
  case None
  then have "LocalDelete m = returns (m', sent) \<or> LocalBackspace m = returns (m', sent) \<or> m' = m \<and> sent = []"
    using assms by (auto simp: event_edit_def split: event.splits key.splits)
  then consider "m' = m" "sent = []" | m1 p d op where "DeletePos (dm_Treedoc m) p = returns (d, op)"
      "finish_local m1 op = returns (m', sent)" "BroadcastRemote m1 = BroadcastRemote m"
    using local_delete_parts [of m m' sent] by blast
  then show thesis
  proof cases
    case 1
    then show thesis by (rule nothing)
  next
    case 2
    then show thesis by (intro deleted [OF DeletePos_type])
  qed
qed

lemma finish_local_sends:
  assumes "finish_local m op = returns (m', sent)" "BroadcastRemote m"
  shows "\<exists>r. sent = [r]" "BroadcastRemote m'"
  using assms by (auto simp: finish_local_def Let_def)

lemma finish_local_op: "finish_local m op = returns (m', [r]) \<Longrightarrow> ro_Op r = op"
  using finish_local_returns(2) [of m op m' "[r]" r] by simp

lemma event_edit_keeps:
  assumes "event_edit m ev = returns (m', sent)" "BroadcastRemote m"
  shows "BroadcastRemote m' \<and> ((sent = [] \<and> m' = m) \<or> (\<exists>r. sent = [r]))"
  using assms(1) by (cases rule: event_edit_cases) (use finish_local_sends assms(2) in blast)+

lemma event_edit_ok:
  assumes "model_ok m" "event_safe m ev" "event_edit m ev = returns (m', sent)"
  shows "model_ok m'"
proof -
  have ins: "model_ok m'" if "LocalInsert m c = returns (m', sent)" "can_insert m" for c
    using LocalInsert_ok [OF assms(1), of c] that by (auto simp: can_insert_def)
  have bs: "model_ok m'" if "LocalBackspace m = returns (m', sent)" "OpVersion m \<noteq> - 1"
      "\<not> delete_gap (dm_Buffer m) (currentPosition (dm_Buffer m) - 1)"
    using LocalBackspace_total [OF assms(1) that(2) refl that(3)] that(1) by auto
  have del: "model_ok m'" if "LocalDelete m = returns (m', sent)" "OpVersion m \<noteq> - 1"
      "\<not> delete_gap (dm_Buffer m) (currentPosition (dm_Buffer m))"
    using LocalDelete_total [OF assms(1) that(2) refl that(3)] that(1) by auto
  show ?thesis
  proof (cases "typed_byte ev")
    case (Some c)
    then have "can_insert m" using assms(2) by (cases ev) auto
    then show ?thesis using ins [of c] Some assms(3) by (simp add: event_edit_def)
  next
    case None
    then show ?thesis using assms bs del by (auto simp: event_edit_def split: event.splits key.splits)
  qed
qed

text \<open>A new node gets a fresh name of the site, and a byte goes into a cell of one of the site's own nodes.\<close>

lemma event_edit_names:
  assumes "model_ok m" "event_safe m ev" "event_edit m ev = returns (m', [r])"
  shows "own_insert (NewNodeId (OwnerId m) (NodeIdClock m)) (ro_Op r) \<and>
    (creates (ro_Op r) \<longrightarrow> oId (ro_Op r) = NewNodeId (OwnerId m) (NodeIdClock m))"
  using assms(3)
proof (cases rule: event_edit_cases)
  case (typed c m1 d op)
  let ?doc = "dm_Treedoc m" and ?nid = "NewNodeId (OwnerId m) (NodeIdClock m)" and ?pos = "currentPosition (dm_Buffer m)"
  have m: "buf_ok (dm_Buffer m)" "doc_ok ?doc" "last_free ?doc" "buf_text (dm_Buffer m) = doc_text ?doc" "ids_free m"
    using assms(1) by (auto simp: model_ok_def texts_ok_def)
  have "can_insert m" using assms(2) typed(1) by (cases ev) auto
  then have "local_insert ?nid ?doc d op (nat ?pos) c"
    using InsertPos_ok [OF m(2,3), of ?nid ?pos c] buf_ok_position [OF m(1)] m(4,5) typed(3)
    by (auto simp: can_insert_def ids_free_def)
  then show ?thesis
    using finish_local_op [OF typed(4)] InsertPos_own [OF typed(3)] by (auto simp: local_insert_def)
next
  case (deleted m1 op)
  then have "oType (ro_Op r) = DELETE" using finish_local_op by blast
  then show ?thesis
    by (simp add: creates_def own_insert_def operation_types)
qed simp

end
