(* ===== verification/EditorHistory.thy ===== *)
theory EditorHistory
  imports EditorSite
begin

text \<open>
  The operations that the sites of an editor have broadcast, and the invariant that ties one site to them: its version vector says
  which of them it has applied, and its document is the one these describe.
\<close>

section \<open>The history\<close>

text \<open>The part of a history that a vector covers.\<close>

definition below :: "RemoteOperation set \<Rightarrow> (SiteId \<Rightarrow> uint32) \<Rightarrow> RemoteOperation set" where
  "below N w = {r\<in>N. ro_Version r \<le> w (ro_Id r)}"

text \<open>
  Every operation is stamped, builds on operations that its vector covers, names nodes of its own site only, and is the only one
  of its version, of its cell and of its node.
\<close>

definition cast_ok :: "RemoteOperation set \<Rightarrow> RemoteOperation \<Rightarrow> bool" where
  "cast_ok N r \<longleftrightarrow> stamped r \<and> sites_ok (ro_Vector r) \<and> SiteId_ok (ro_Id r) \<and>
     deps_met (ro_Op ` below N (Get (ro_Vector r))) (ro_Op r) \<and>
     (creates (ro_Op r) \<longrightarrow> unat (oN (ro_Op r)) < 65531 \<and> (\<exists>c. oId (ro_Op r) = NewNodeId (ro_Id r) c)) \<and>
     (inserts (ro_Op r) \<longrightarrow> take 16 (oId (ro_Op r)) = ro_Id r) \<and> unat (oN (ro_Op r)) \<noteq> 65535"

definition same_slot :: "RemoteOperation \<Rightarrow> RemoteOperation \<Rightarrow> bool" where
  "same_slot r r' \<longleftrightarrow> ro_Id r = ro_Id r' \<and> ro_Version r = ro_Version r' \<or>
     inserts (ro_Op r) \<and> inserts (ro_Op r') \<and> cell_key (ro_Op r) = cell_key (ro_Op r') \<or>
     creates (ro_Op r) \<and> creates (ro_Op r') \<and> oId (ro_Op r) = oId (ro_Op r')"

definition history_ok :: "RemoteOperation set \<Rightarrow> bool" where
  "history_ok N \<longleftrightarrow> (\<forall>r\<in>N. cast_ok N r) \<and> (\<forall>r\<in>N. \<forall>r'\<in>N. same_slot r r' \<longrightarrow> r = r')"

lemma same_slot_sym: "same_slot r r' \<Longrightarrow> same_slot r' r"
  by (auto simp: same_slot_def)

lemma deps_met_mono: "deps_met S op \<Longrightarrow> S \<subseteq> T \<Longrightarrow> deps_met T op"
  unfolding deps_met_def by blast

lemma below_mono: "N \<subseteq> N' \<Longrightarrow> (\<And>k. w k \<le> w' k) \<Longrightarrow> below N w \<subseteq> below N' w'"
  unfolding below_def by (auto intro: order_trans)

lemma cast_ok_mono: "cast_ok N r \<Longrightarrow> N \<subseteq> N' \<Longrightarrow> cast_ok N' r"
  using below_mono [of N N' "Get (ro_Vector r)" "Get (ro_Vector r)"] deps_met_mono [OF _ image_mono]
  by (fastforce simp: cast_ok_def)

text \<open>The next operation of a site extends the covered part by itself.\<close>

lemma below_next:
  assumes "history_ok N" "r \<in> N" "w (ro_Id r) + 1 = ro_Version r"
  shows "r \<notin> below N w" "below N (w(ro_Id r := ro_Version r)) = insert r (below N w)"
proof -
  have "ro_Version r \<noteq> 0" using assms(1,2) by (auto simp: history_ok_def cast_ok_def stamped_def)
  then have lt: "w (ro_Id r) < ro_Version r"
    using uint32_next_iff [of "ro_Version r" "w (ro_Id r)"] assms(3) by auto
  then show "r \<notin> below N w" by (auto simp: below_def)
  have prev: "a \<le> w (ro_Id r)" if "a < ro_Version r" for a
    using that uint32_succ(1) [OF lt] assms(3) by (simp add: word_less_nat_alt word_le_nat_alt)
  have "r' = r \<or> ro_Version r' \<le> w (ro_Id r)" if "r' \<in> N" "ro_Id r' = ro_Id r" "ro_Version r' \<le> ro_Version r" for r'
    using that prev [of "ro_Version r'"] assms(1,2) by (fastforce simp: history_ok_def same_slot_def)
  moreover have "a \<le> ro_Version r" if "a \<le> w (ro_Id r)" for a
    using that lt by (rule order_trans [OF _ less_imp_le])
  ultimately show "below N (w(ro_Id r := ro_Version r)) = insert r (below N w)"
    using assms(2) unfolding below_def by (simp add: set_eq_iff) (metis order_refl)
qed

lemma next_enabled:
  assumes "history_ok N" "r \<in> N" "r \<notin> below N w" "describes (ro_Op ` below N w) (abs_doc d)"
    "deps_met (ro_Op ` below N w) (ro_Op r)"
  shows "applicable d (ro_Op r)" "describes (insert (ro_Op r) (ro_Op ` below N w)) (spec_apply (abs_doc d) (ro_Op r))"
proof -
  let ?S = "ro_Op ` below N w"
  have other: "\<not> same_slot r1 r" if "r1 \<in> below N w" for r1
    using assms(1,2,3) that by (auto simp: history_ok_def below_def)
  have en: "spec_enabled ?S (ro_Op r)"
    using assms(5) other op_kinds(1) [of "ro_Op r"] by (auto simp: spec_enabled_def same_slot_def)
  have place: "sp_place (abs_doc d) (oId (ro_Op r)) = None" if "creates (ro_Op r)"
    using describes_init(2) [OF assms(4), of "oId (ro_Op r)"] other that by (fastforce simp: same_slot_def)
  have "creates (ro_Op r) \<longrightarrow> unat (oN (ro_Op r)) < 65531" using assms(1,2) by (auto simp: history_ok_def cast_ok_def)
  with en op_enabled_iff [OF assms(4), of "ro_Op r"] place show "applicable d (ro_Op r)"
    by (auto simp: applicable_def op_fresh_def abs_names)
  show "describes (insert (ro_Op r) ?S) (spec_apply (abs_doc d) (ro_Op r))" by (rule describes_step [OF assms(4) en place])
qed

section \<open>Operations on the way\<close>

text \<open>
  An operation that a site reads is a copy of a broadcast one. One that was sent again from a log has lost its vector; it is safe
  when everything before it has been applied.
\<close>

definition same_op :: "RemoteOperation \<Rightarrow> RemoteOperation \<Rightarrow> bool" where
  "same_op x r \<longleftrightarrow> ro_Id x = ro_Id r \<and> ro_Version x = ro_Version r \<and> ro_Op x = ro_Op r"

definition copy_of :: "RemoteOperation set \<Rightarrow> RemoteOperation \<Rightarrow> bool" where
  "copy_of N x \<longleftrightarrow> sites_ok (ro_Vector x) \<and> (\<exists>r\<in>N. same_op x r \<and> (\<forall>k. Get (ro_Vector x) k = Get (ro_Vector r) k))"

definition known :: "RemoteOperation set \<Rightarrow> (SiteId \<Rightarrow> uint32) \<Rightarrow> RemoteOperation \<Rightarrow> bool" where
  "known N w x \<longleftrightarrow> (\<exists>r\<in>N. same_op x r) \<and> ro_Version x \<le> w (ro_Id x)"

definition due :: "RemoteOperation set \<Rightarrow> (SiteId \<Rightarrow> uint32) \<Rightarrow> RemoteOperation \<Rightarrow> bool" where
  "due N w x \<longleftrightarrow> (\<exists>r\<in>N. same_op x r) \<and> ro_Version x - 1 \<le> w (ro_Id x) \<and> deps_met (ro_Op ` below N w) (ro_Op x)"

lemma copy_stamped: "history_ok N \<Longrightarrow> copy_of N x \<Longrightarrow> stamped x"
  by (auto simp: copy_of_def history_ok_def cast_ok_def stamped_def same_op_def sites_ok_def)

lemma copy_deps:
  assumes "history_ok N" "copy_of N x" "\<And>k. Get (ro_Vector x) k \<le> w k"
  shows "deps_met (ro_Op ` below N w) (ro_Op x)"
proof -
  obtain r where r: "r \<in> N" "same_op x r" "\<And>k. Get (ro_Vector x) k = Get (ro_Vector r) k"
    using assms(2) by (auto simp: copy_of_def)
  then have "deps_met (ro_Op ` below N (Get (ro_Vector r))) (ro_Op x)"
    using assms(1) by (auto simp: history_ok_def cast_ok_def same_op_def)
  moreover have "below N (Get (ro_Vector r)) \<subseteq> below N w" using below_mono [of N N] assms(3) r(3) by simp
  ultimately show ?thesis using deps_met_mono by blast
qed

lemma known_mono: "known N w x \<Longrightarrow> N \<subseteq> N' \<Longrightarrow> (\<And>k. w k \<le> w' k) \<Longrightarrow> known N' w' x"
  by (auto simp: known_def intro: order_trans)

lemma copy_of_mono: "copy_of N x \<Longrightarrow> N \<subseteq> N' \<Longrightarrow> copy_of N' x"
  by (auto simp: copy_of_def)

lemma due_mono: "due N w x \<Longrightarrow> N \<subseteq> N' \<Longrightarrow> (\<And>k. w k \<le> w' k) \<Longrightarrow> due N' w' x"
  using below_mono [of N N' w w'] deps_met_mono [OF _ image_mono]
  by (fastforce simp: due_def intro: order_trans)

section \<open>A site among others\<close>

text \<open>
  The vector of a site covers what it has applied. What waits in its queue is a copy of a broadcast operation, or one sent again
  that has been applied already. Its log can be applied in its order.
\<close>

definition see :: "RemoteOperation \<Rightarrow> (SiteId \<Rightarrow> uint32) \<Rightarrow> SiteId \<Rightarrow> uint32" where
  "see x w = w(ro_Id x := max (w (ro_Id x)) (ro_Version x))"

fun upto_seen :: "RemoteOperation list \<Rightarrow> (SiteId \<Rightarrow> uint32) \<Rightarrow> SiteId \<Rightarrow> uint32" where
  "upto_seen [] w = w"
| "upto_seen (x # xs) w = upto_seen xs (see x w)"

fun in_turn :: "RemoteOperation set \<Rightarrow> (SiteId \<Rightarrow> uint32) \<Rightarrow> RemoteOperation list \<Rightarrow> bool" where
  "in_turn N w [] \<longleftrightarrow> True"
| "in_turn N w (x # xs) \<longleftrightarrow> due N w x \<and> in_turn N (see x w) xs"

abbreviation vec :: "DocumentModel \<Rightarrow> SiteId \<Rightarrow> uint32" where
  "vec m \<equiv> Get (l_Vector (dm_Log m))"

abbreviation resent :: "DocumentModel \<Rightarrow> RemoteOperation list" where
  "resent m \<equiv> map entry_to_remote (Log (dm_Log m))"

definition waiting_ok :: "RemoteOperation set \<Rightarrow> (SiteId \<Rightarrow> uint32) \<Rightarrow> RemoteOperation \<Rightarrow> bool" where
  "waiting_ok N w x \<longleftrightarrow> copy_of N x \<or> ro_Vector x = [] \<and> known N w x"

definition site_ok :: "RemoteOperation set \<Rightarrow> DocumentModel \<Rightarrow> bool" where
  "site_ok N m \<longleftrightarrow> model_ok m \<and> BroadcastRemote m \<and> sites_ok (l_Vector (dm_Log m)) \<and>
     q_vector (dm_Queue m) = NewVector \<and>
     (\<forall>r\<in>N. ro_Id r = OwnerId m \<longrightarrow> ro_Version r \<le> OpVersion m) \<and>
     describes (ro_Op ` below N (vec m)) (abs_doc (dm_Treedoc m)) \<and>
     in_turn N (\<lambda>_. 0) (resent m) \<and> upto_seen (resent m) (\<lambda>_. 0) = vec m \<and>
     (\<forall>x\<in>set (queue (dm_Queue m)). waiting_ok N (vec m) x)"

lemma see_mono:
  assumes "\<And>k. w k \<le> w' k"
  shows "see x w k \<le> see x w' k"
proof -
  have "max (w (ro_Id x)) (ro_Version x) \<le> max (w' (ro_Id x)) (ro_Version x)" by (rule max.mono [OF assms order_refl])
  then show ?thesis using assms unfolding see_def fun_upd_apply by (simp only: if_split) simp
qed

lemma see_ge: "w k \<le> see x w k"
  by (simp add: see_def)

lemma in_turn_mono: "in_turn N w xs \<Longrightarrow> N \<subseteq> N' \<Longrightarrow> (\<And>k. w k \<le> w' k) \<Longrightarrow> in_turn N' w' xs"
proof (induction xs arbitrary: w w')
  case (Cons x xs)
  have "in_turn N' (see x w') xs"
    by (rule Cons.IH [of "see x w"]) (use Cons.prems see_mono in auto)
  then show ?case using Cons.prems due_mono by auto
qed simp

lemma in_turn_append: "in_turn N w (xs @ ys) \<longleftrightarrow> in_turn N w xs \<and> in_turn N (upto_seen xs w) ys"
  by (induction xs arbitrary: w) auto

lemma upto_seen_append: "upto_seen (xs @ ys) w = upto_seen ys (upto_seen xs w)"
  by (induction xs arbitrary: w) auto

lemma upto_seen_ge: "w k \<le> upto_seen xs w k"
  by (induction xs arbitrary: w) (auto intro: order_trans see_ge)

text \<open>Leaving out what the receiver has is harmless.\<close>

lemma in_turn_filter:
  assumes "in_turn N w xs" "\<And>k. w k \<le> w' k" "\<And>x. x \<in> set xs \<Longrightarrow> \<not> P x \<Longrightarrow> ro_Version x \<le> w' (ro_Id x)"
  shows "in_turn N w' (filter P xs) \<and> (\<forall>k. upto_seen xs w k \<le> upto_seen (filter P xs) w' k)"
  using assms
proof (induction xs arbitrary: w w')
  case (Cons x xs)
  show ?case
  proof (cases "P x")
    case True
    have "in_turn N (see x w') (filter P xs) \<and> (\<forall>k. upto_seen xs (see x w) k \<le> upto_seen (filter P xs) (see x w') k)"
    proof (rule Cons.IH)
      show "ro_Version y \<le> see x w' (ro_Id y)" if "y \<in> set xs" "\<not> P y" for y
        using Cons.prems(3) [of y] that see_ge [of w' "ro_Id y" x] by simp
    qed (use Cons.prems see_mono in auto)
    then show ?thesis using True Cons.prems(1,2) due_mono [of N w x N w'] by simp
  next
    case False
    have "see x w k \<le> w' k" for k using Cons.prems(2,3) False by (simp add: see_def)
    then have "in_turn N w' (filter P xs) \<and> (\<forall>k. upto_seen xs (see x w) k \<le> upto_seen (filter P xs) w' k)"
      using Cons.prems by (intro Cons.IH) auto
    then show ?thesis using False by simp
  qed
qed simp

lemma waiting_ok_mono: "waiting_ok N w x \<Longrightarrow> N \<subseteq> N' \<Longrightarrow> (\<And>k. w k \<le> w' k) \<Longrightarrow> waiting_ok N' w' x"
  using copy_of_mono known_mono by (auto simp: waiting_ok_def)

section \<open>Handling operations of others\<close>

text \<open>No operation that is applied leaves an empty line behind an unfinished word (\<open>delete_gap\<close>).\<close>

fun gap_free :: "DocumentModel \<Rightarrow> RemoteOperation list \<Rightarrow> bool" where
  "gap_free m [] \<longleftrightarrow> True"
| "gap_free m (x # xs) \<longleftrightarrow> peer_safe m (ro_Op x) \<and> (case apply_ready m x of Some (Inr m') \<Rightarrow> gap_free m' xs | _ \<Rightarrow> True)"

definition delivery_safe :: "DocumentModel \<Rightarrow> RemoteOperation \<Rightarrow> bool" where
  "delivery_safe m x \<longleftrightarrow>
     (case Enqueue (dm_Queue m) x (Copy (l_Vector (dm_Log m))) of (q, ready) \<Rightarrow> gap_free (m\<lparr>dm_Queue := q\<rparr>) ready)"

fun heard_safe :: "DocumentModel \<Rightarrow> RemoteOperation list \<Rightarrow> bool" where
  "heard_safe m [] \<longleftrightarrow> True"
| "heard_safe m (x # xs) \<longleftrightarrow> delivery_safe m x \<and>
     (case ApplyRemoteOperation m x of Some (Inr m') \<Rightarrow> heard_safe m' xs | _ \<Rightarrow> True)"

text \<open>What no operation of another site changes.\<close>

definition same_owner :: "DocumentModel \<Rightarrow> DocumentModel \<Rightarrow> bool" where
  "same_owner m m' \<longleftrightarrow> OwnerId m' = OwnerId m \<and> OpVersion m' = OpVersion m"

lemma same_owner_simps [simp]: "same_owner m m" "same_owner m (m\<lparr>dm_Queue := q\<rparr>)"
  by (simp_all add: same_owner_def)

lemma same_owner_trans: "same_owner m m1 \<Longrightarrow> same_owner m1 m2 \<Longrightarrow> same_owner m m2"
  by (simp add: same_owner_def)

lemma apply_ready_owner: "apply_ready m x = returns m' \<Longrightarrow> same_owner m m' \<and> BroadcastRemote m' = BroadcastRemote m"
  by (auto simp: apply_ready_def same_owner_def Let_def)

lemma version_step:
  assumes "(a :: uint32) + 1 = b" "b \<noteq> 0"
  shows "a < b" "b - 1 = a" "max a b = b"
proof -
  show lt: "a < b" using uint32_next_iff [OF assms(2), of a] assms(1) by simp
  show "b - 1 = a" using assms(1) by auto
  show "max a b = b" by (rule max_absorb2 [OF less_imp_le [OF lt]])
qed

lemma apply_ready_site:
  assumes "history_ok N" "site_ok N m" "r \<in> N" "same_op x r" "vec m (ro_Id x) + 1 = ro_Version x"
    "deps_met (ro_Op ` below N (vec m)) (ro_Op x)" "peer_safe m (ro_Op x)"
  shows "\<exists>m'. apply_ready m x = returns m' \<and> site_ok N m' \<and> same_owner m m' \<and> vec m' = (vec m)(ro_Id x := ro_Version x) \<and>
    dm_Queue m' = dm_Queue m"
proof -
  let ?op = "ro_Op x" and ?id = "ro_Id x" and ?ver = "ro_Version x" and ?S = "ro_Op ` below N (vec m)"
  have x: "ro_Id r = ?id" "ro_Version r = ?ver" "ro_Op r = ?op" using assms(4) by (auto simp: same_op_def)
  have r: "cast_ok N r" using assms(1,3) by (simp add: history_ok_def)
  then have ver: "?ver \<noteq> 0" by (simp add: cast_ok_def stamped_def flip: x)
  note step = version_step [OF assms(5) ver]
  have m: "model_ok m" "describes ?S (abs_doc (dm_Treedoc m))" using assms(2) by (auto simp: site_ok_def)
  note nxt = below_next [OF assms(1,3), of "vec m", unfolded x, OF assms(5)]
  note en = next_enabled [OF assms(1,3) nxt(1) m(2), unfolded x, OF assms(6)]
  have "?id \<noteq> OwnerId m"
  proof
    assume "?id = OwnerId m"
    then have "?ver \<le> vec m ?id" using assms(2,3) x by (auto simp: site_ok_def model_ok_def clock_ok_def)
    with step(1) show False by simp
  qed
  moreover have "take 16 (oId ?op) = ?id" if "creates ?op"
    using r that op_kinds(3) [of ?op] by (auto simp: cast_ok_def x)
  ultimately have "acceptable m x"
    using en(1) r assms(7) by (auto simp: acceptable_def peer_safe_def cast_ok_def x)
  from apply_ready_ok [OF m(1) this] obtain m' b where m': "apply_ready m x = returns m'" "model_ok m'" "dm_Queue m' = dm_Queue m"
    "dm_Log m' = log_remote x (dm_Log m)" "ApplyOperation (dm_Treedoc m) ?op = returns (dm_Treedoc m', b)" by blast
  note own = apply_ready_owner [OF m'(1)]
  have vec: "vec m' = (vec m)(?id := ?ver)" using step(3) by (auto simp: m'(4) log_remote_def Log_Write_def)
  have "abs_doc (dm_Treedoc m') = spec_apply (abs_doc (dm_Treedoc m)) ?op"
    using ApplyOperation_refines [of "dm_Treedoc m" ?op] en(1) m'(5) m(1)
    by (auto simp: applicable_def model_ok_def texts_ok_def)
  then have "describes (ro_Op ` below N (vec m')) (abs_doc (dm_Treedoc m'))"
    using en(2) nxt(2) by (simp add: vec x)
  moreover have "resent m' = resent m @ [\<lparr>ro_Vector = NewVector, ro_Id = ?id, ro_Version = ?ver, ro_Op = ?op\<rparr>]"
    by (simp add: m'(4) log_remote_def Log_Write_def entry_to_remote_def)
  moreover from this have "in_turn N (\<lambda>_. 0) (resent m') \<and> upto_seen (resent m') (\<lambda>_. 0) = vec m'"
    using assms(2,3,4,6) step by (auto simp: site_ok_def in_turn_append upto_seen_append due_def same_op_def see_def vec)
  moreover have "waiting_ok N (vec m') y" if "waiting_ok N (vec m) y" for y
    by (rule waiting_ok_mono [OF that order_refl]) (use step(1) in \<open>auto simp: vec\<close>)
  moreover have "sites_ok (l_Vector (dm_Log m'))"
    using assms(2) r by (auto simp: site_ok_def m'(4) log_remote_def Log_Write_def cast_ok_def x intro: sites_ok_IncrementTo)
  ultimately have "site_ok N m'" using assms(2) m'(2,3) own by (auto simp: site_ok_def same_owner_def)
  then show ?thesis using m' own vec by blast
qed

lemma apply_list_site:
  assumes "history_ok N" "site_ok N m" "\<forall>x\<in>set out. waiting_ok N (vec m) x" "delivers v out v'" "vv_ok v"
    "\<And>k. Get v k = vec m k" "gap_free m out"
  shows "\<exists>m'. pfold apply_ready out m = returns m' \<and> site_ok N m' \<and> same_owner m m' \<and> (\<forall>k. vec m' k = Get v' k)"
  using assms(2-7)
proof (induction out arbitrary: m v)
  case Nil
  then show ?case by simp
next
  case (Cons x xs)
  have d: "deliverable v x" "delivers (Increment v (ro_Id x)) xs v'" using Cons.prems(3) by simp_all
  then have "\<not> known N (vec m) x" using Cons.prems(5) by (auto simp: deliverable_def applied_def known_def)
  then have copy: "copy_of N x" using Cons.prems(2) by (simp add: waiting_ok_def)
  have nxt: "vle (ro_Vector x) v" "Get v (ro_Id x) + 1 = ro_Version x"
    using deliverable_stamped [OF Cons.prems(4) copy_stamped [OF assms(1) copy]] d(1) by simp_all
  obtain r where r: "r \<in> N" "same_op x r" using copy by (auto simp: copy_of_def)
  have "deps_met (ro_Op ` below N (vec m)) (ro_Op x)"
    by (rule copy_deps [OF assms(1) copy]) (use nxt(1) Cons.prems(5) in \<open>simp add: vle_def\<close>)
  with apply_ready_site [OF assms(1) Cons.prems(1) r] nxt(2) Cons.prems(5,6) obtain m1 where
    m1: "apply_ready m x = returns m1" "site_ok N m1" "same_owner m m1" "vec m1 = (vec m)(ro_Id x := ro_Version x)" by auto
  have ver: "ro_Version x \<noteq> 0" using copy_stamped [OF assms(1) copy] by (simp add: stamped_def)
  have grow: "vec m k \<le> vec m1 k" for k
    using less_imp_le [OF version_step(1) [OF nxt(2) ver]] Cons.prems(5) [of "ro_Id x"] by (simp add: m1(4))
  have "\<exists>m'. pfold apply_ready xs m1 = returns m' \<and> site_ok N m' \<and> same_owner m1 m' \<and> (\<forall>k. vec m' k = Get v' k)"
  proof (rule Cons.IH [OF m1(2) _ d(2)])
    show "\<forall>y\<in>set xs. waiting_ok N (vec m1) y" using Cons.prems(2) waiting_ok_mono [OF _ order_refl grow] by simp
    show "vv_ok (Increment v (ro_Id x))" using Cons.prems(4) by (simp add: Increment_def)
    show "Get (Increment v (ro_Id x)) k = vec m1 k" for k using Cons.prems(5) nxt(2) by (simp add: m1(4))
    show "gap_free m1 xs" using Cons.prems(6) m1(1) by simp
  qed
  then show ?case using m1(1,3) same_owner_trans by fastforce
qed

lemma site_ok_queue:
  assumes "site_ok N m" "\<forall>x\<in>set (queue q). waiting_ok N (vec m) x" "q_vector q = NewVector"
  shows "site_ok N (m\<lparr>dm_Queue := q\<rparr>)"
  using assms by (auto simp: site_ok_def model_ok_def texts_ok_def ids_free_def clock_ok_def)

lemma covers_no_vector: "vv_ok v \<Longrightarrow> ro_Vector x = [] \<Longrightarrow> covers v x"
  using Compare_GE [of v "[]"] by (simp add: covers_def vv_ok_def vle_def)

lemma ApplyRemote_site:
  assumes "history_ok N" "site_ok N m" "waiting_ok N (vec m) x \<or> ro_Vector x = [] \<and> due N (vec m) x" "delivery_safe m x"
  shows "\<exists>m'. ApplyRemoteOperation m x = returns m' \<and> site_ok N m' \<and> same_owner m m' \<and> (\<forall>k. vec m k \<le> vec m' k) \<and>
    (ro_Vector x = [] \<and> due N (vec m) x \<longrightarrow> ro_Version x \<le> vec m' (ro_Id x))"
proof -
  let ?v = "Copy (l_Vector (dm_Log m))" and ?q = "dm_Queue m"
  have vv: "vv_ok (l_Vector (dm_Log m))" using assms(2) by (simp add: site_ok_def sites_ok_def)
  note v = Copy_ok [OF vv]
  have queue: "\<forall>y\<in>set (queue ?q). waiting_ok N (vec m) y" "q_vector ?q = NewVector" using assms(2) by (simp_all add: site_ok_def)
  obtain r where r: "r \<in> N" "same_op x r" using assms(3) by (auto simp: waiting_ok_def copy_of_def known_def due_def)
  then have ver: "ro_Version x \<noteq> 0" using assms(1) by (auto simp: history_ok_def cast_ok_def stamped_def same_op_def)
  show ?thesis
  proof (cases "Get ?v (ro_Id x) = ro_Version x - 1 \<and> covers ?v x")
    case False
    have known: "known N (vec m) x" if "ro_Vector x = []" "due N (vec m) x"
    proof -
      have "vec m (ro_Id x) \<noteq> ro_Version x - 1" "ro_Version x - 1 \<le> vec m (ro_Id x)"
        using False v that covers_no_vector [OF v(1) that(1)] by (auto simp: due_def)
      then have "ro_Version x \<le> vec m (ro_Id x)"
        using uint32_next_iff [OF ver, of "vec m (ro_Id x)"] version_step(2) [OF _ ver] by (metis not_le)
      with that(2) show ?thesis by (simp add: known_def due_def)
    qed
    then have "site_ok N (m\<lparr>dm_Queue := ?q\<lparr>queue := queue ?q @ [x]\<rparr>\<rparr>)"
      using site_ok_queue [OF assms(2)] queue assms(3) by (auto simp: waiting_ok_def)
    then show ?thesis
      using Enqueue_wait [OF False, of ?q] known by (auto simp: ApplyRemoteOperation_def known_def same_owner_def)
  next
    case True
    obtain q ready where enq: "Enqueue ?q x ?v = (q, ready)" by fastforce
    from Enqueue_ready [OF _ _ enq] True obtain v' out where
      out: "ready = x # out" "drains (Increment ?v (ro_Id x)) [] (queue ?q) v' out (queue q)" "q_vector q = q_vector ?q" by blast
    obtain dropped where "mset (queue ?q) = mset out + mset (queue q) + mset dropped"
      using drains_all_accounted [OF out(2)] by auto
    then have sub: "set out \<subseteq> set (queue ?q)" "set (queue q) \<subseteq> set (queue ?q)"
      by (metis mset_subset_eq_add_left mset_subset_eqD set_mset_mset subsetI union_assoc union_commute)+
    have nxt: "vec m (ro_Id x) + 1 = ro_Version x" using True v(2) [of "ro_Id x"] by simp
    have deps: "deps_met (ro_Op ` below N (vec m)) (ro_Op x)"
      using assms(3) unfolding waiting_ok_def
    proof (elim disjE conjE)
      assume copy: "copy_of N x"
      have "vle (ro_Vector x) ?v"
        using True Compare_GE [OF v(1)] copy by (auto simp: covers_def copy_of_def sites_ok_def)
      then show ?thesis by (intro copy_deps [OF assms(1) copy]) (simp add: vle_def v(2))
    next
      assume "known N (vec m) x"
      then show ?thesis using version_step(1) [OF nxt ver] by (auto simp: known_def)
    qed (simp add: due_def)
    let ?m = "m\<lparr>dm_Queue := q\<rparr>"
    have m: "site_ok N ?m" by (rule site_ok_queue [OF assms(2)]) (use queue sub(2) out(3) in auto)
    have safe: "gap_free ?m ready" using assms(4) enq by (simp add: delivery_safe_def)
    from apply_ready_site [OF assms(1) m r] nxt deps safe out(1) obtain m1 where
      m1: "apply_ready ?m x = returns m1" "site_ok N m1" "same_owner ?m m1" "vec m1 = (vec m)(ro_Id x := ro_Version x)"
      by auto
    have grow: "vec m k \<le> vec m1 k" for k using less_imp_le [OF version_step(1) [OF nxt ver]] by (simp add: m1(4))
    have "\<exists>m'. pfold apply_ready out m1 = returns m' \<and> site_ok N m' \<and> same_owner m1 m' \<and> (\<forall>k. vec m' k = Get v' k)"
    proof (rule apply_list_site [OF assms(1) m1(2) _ drains_delivers [OF out(2)]])
      show "\<forall>y\<in>set out. waiting_ok N (vec m1) y"
        using queue(1) sub(1) waiting_ok_mono [where w = "vec m" and w' = "vec m1", OF _ order_refl grow] by blast
      show "vv_ok (Increment ?v (ro_Id x))" using v(1) by (simp add: Increment_def)
      show "Get (Increment ?v (ro_Id x)) k = vec m1 k" for k using v(2) nxt by (simp add: m1(4))
      show "gap_free m1 out" using safe out(1) m1(1) by simp
    qed
    then obtain m' where m': "pfold apply_ready out m1 = returns m'" "site_ok N m'" "same_owner m1 m'" "\<And>k. vec m' k = Get v' k" by blast
    have "vec m1 k \<le> vec m' k" for k
      using delivers_mono [OF drains_delivers [OF out(2)], of k] v(2) nxt by (simp add: m1(4) m'(4) split: if_splits)
    moreover have "ApplyRemoteOperation m x = returns m'" using enq out(1) m1(1) m'(1) by (simp add: ApplyRemoteOperation_def)
    moreover have "same_owner m m'" using m1(3) m'(3) by (simp add: same_owner_def)
    ultimately show ?thesis using m'(2) grow m1(4) order_trans by (metis fun_upd_same)
  qed
qed

text \<open>Whole messages: copies in any order, or what a log sends again in its order.\<close>

lemma handle_copies:
  assumes "history_ok N" "site_ok N m" "\<forall>x\<in>set xs. waiting_ok N (vec m) x" "heard_safe m xs"
  shows "\<exists>m'. pfold ApplyRemoteOperation xs m = returns m' \<and> site_ok N m' \<and> same_owner m m' \<and> (\<forall>k. vec m k \<le> vec m' k)"
  using assms(2-4)
proof (induction xs arbitrary: m)
  case (Cons x xs)
  from ApplyRemote_site [OF assms(1) Cons.prems(1), of x] Cons.prems obtain m1 where
    m1: "ApplyRemoteOperation m x = returns m1" "site_ok N m1" "same_owner m m1" "\<And>k. vec m k \<le> vec m1 k" by auto
  moreover have "\<forall>y\<in>set xs. waiting_ok N (vec m1) y"
    using Cons.prems(2) waiting_ok_mono [where w = "vec m" and w' = "vec m1", OF _ order_refl m1(4)] by auto
  moreover have "heard_safe m1 xs" using Cons.prems(3) m1(1) by simp
  ultimately obtain m' where m': "pfold ApplyRemoteOperation xs m1 = returns m'" "site_ok N m'" "same_owner m1 m'"
    "\<And>k. vec m1 k \<le> vec m' k" using Cons.IH by blast
  have "vec m k \<le> vec m' k" for k by (rule order_trans [OF m1(4) m'(4)])
  then show ?case using m1(1) m'(1,2) same_owner_trans [OF m1(3) m'(3)] by simp
qed simp

lemma handle_in_turn:
  assumes "history_ok N" "site_ok N m" "in_turn N w xs" "\<And>k. w k \<le> vec m k" "\<forall>x\<in>set xs. ro_Vector x = []" "heard_safe m xs"
  shows "\<exists>m'. pfold ApplyRemoteOperation xs m = returns m' \<and> site_ok N m' \<and> same_owner m m' \<and>
    (\<forall>k. vec m k \<le> vec m' k) \<and> (\<forall>k. upto_seen xs w k \<le> vec m' k)"
  using assms(2-6)
proof (induction xs arbitrary: m w)
  case (Cons x xs)
  have "due N (vec m) x" using Cons.prems(2,3) due_mono [of N w x N "vec m"] by simp
  with ApplyRemote_site [OF assms(1) Cons.prems(1), of x] Cons.prems(4,5) obtain m1 where
    m1: "ApplyRemoteOperation m x = returns m1" "site_ok N m1" "same_owner m m1" "\<And>k. vec m k \<le> vec m1 k"
      "ro_Version x \<le> vec m1 (ro_Id x)" by auto
  have "w k \<le> vec m1 k" for k by (rule order_trans [OF Cons.prems(3) m1(4)])
  then have "see x w k \<le> vec m1 k" for k using m1(5) by (simp add: see_def)
  then have "\<exists>m'. pfold ApplyRemoteOperation xs m1 = returns m' \<and> site_ok N m' \<and> same_owner m1 m' \<and>
      (\<forall>k. vec m1 k \<le> vec m' k) \<and> (\<forall>k. upto_seen xs (see x w) k \<le> vec m' k)"
    using Cons.prems m1(1,2) by (intro Cons.IH [where w = "see x w"]) auto
  then obtain m' where m': "pfold ApplyRemoteOperation xs m1 = returns m'" "site_ok N m'" "same_owner m1 m'"
      "\<And>k. vec m1 k \<le> vec m' k" "\<And>k. upto_seen xs (see x w) k \<le> vec m' k" by blast
  have "vec m k \<le> vec m' k" for k by (rule order_trans [OF m1(4) m'(4)])
  then show ?case using m1(1) m'(1,2,5) same_owner_trans [OF m1(3) m'(3)] by simp
qed simp

lemma heard_safe_append:
  "heard_safe m (xs @ ys) \<Longrightarrow> heard_safe m xs \<and> (\<forall>m'. pfold ApplyRemoteOperation xs m = returns m' \<longrightarrow> heard_safe m' ys)"
proof (induction xs arbitrary: m)
  case (Cons x xs)
  show ?case
  proof (cases "\<exists>m1. ApplyRemoteOperation m x = returns m1")
    case True
    then show ?thesis using Cons by auto
  next
    case False
    then show ?thesis using Cons.prems by (auto split: option.splits sum.splits)
  qed
qed simp

end
