(* ===== verification/EditorNet.thy ===== *)
theory EditorNet
  imports EditorHistory
begin

text \<open>
  Any number of sites that edit one document together: edits at every terminal, broadcasts that arrive late, twice, in any order or
  never, and version checks that send again what a site misses. Every step keeps the history of the operations, every site and
  every message consistent (\<open>en_ok\<close>).
\<close>

section \<open>Messages\<close>

text \<open>Operations as the receiver reads them: they have been turned into their JSON form and back.\<close>

definition wire :: "RemoteOperation list \<Rightarrow> RemoteOperation list" where
  "wire ops = map (\<lambda>op. from_json (to_json op)) ops"

lemma wire_simps [simp]: "wire [] = []" "wire (x # xs) = from_json (to_json x) # wire xs" "wire (xs @ ys) = wire xs @ wire ys"
  by (simp_all add: wire_def)

lemma vector_json_sites:
  assumes "sites_ok v"
  shows "sites_ok (FromVersionVectorJson (ToJsonable v))"
proof -
  have "StringToSiteId k = k" if "k \<in> fst ` set v" for k
    using assms that StringToSiteId_ToString [of k] by (auto simp: sites_ok_def SiteId_ToString_def)
  then have "StringToSiteId ` fst ` set v = fst ` set v" by force
  moreover have "fst ` set (FromVersionVectorJson (ToJsonable v)) = StringToSiteId ` fst ` set v"
    by (simp add: FromVersionVectorJson_def ToJsonable_def keys_fold_update SiteId_ToString_def)
  ultimately show ?thesis
    using assms by (simp add: sites_ok_def FromVersionVectorJson_def vv_ok_def vv_ok_fold_update)
qed

lemma wire_copy:
  assumes "copy_of N x"
  shows "copy_of N (from_json (to_json x))"
proof -
  have v: "sites_ok (ro_Vector x)" using assms by (simp add: copy_of_def)
  have "sites_ok (ro_Vector (from_json (to_json x)))"
    using vector_json_sites [OF v] by (simp add: from_json_def to_json_def)
  then show ?thesis using assms by (auto simp: copy_of_def same_op_def from_to_json [OF v])
qed

lemma wire_no_vector: "ro_Vector x = [] \<Longrightarrow> from_json (to_json x) = x"
  by (cases x) (simp add: from_json_def to_json_def ToJsonable_def FromVersionVectorJson_def NewVector_def)

lemma wire_waiting: "waiting_ok N w x \<Longrightarrow> waiting_ok N w (from_json (to_json x))"
  using wire_copy wire_no_vector by (auto simp: waiting_ok_def)

lemma wire_resent: "\<forall>x\<in>set xs. ro_Vector x = [] \<Longrightarrow> wire xs = xs"
  by (induction xs) (auto simp: wire_no_vector)

lemma cast_copy: "history_ok N \<Longrightarrow> r \<in> N \<Longrightarrow> copy_of N r"
  by (auto simp: history_ok_def cast_ok_def copy_of_def same_op_def)

section \<open>Bounds of a vector\<close>

text \<open>A vector counts only operations of the history.\<close>

lemma upto_seen_le:
  assumes "in_turn N w xs" "\<And>r. r \<in> N \<Longrightarrow> ro_Version r \<le> b (ro_Id r)" "\<And>k. w k \<le> b k"
  shows "upto_seen xs w k \<le> b k"
  using assms(1,3)
proof (induction xs arbitrary: w)
  case (Cons x xs)
  then have "ro_Version x \<le> b (ro_Id x)" using assms(2) by (auto simp: due_def same_op_def)
  then have "see x w k \<le> b k" for k using Cons.prems(2) by (simp add: see_def)
  then show ?case using Cons by simp
qed simp

lemma site_vec_le:
  assumes "site_ok N m" "\<And>r. r \<in> N \<Longrightarrow> ro_Version r \<le> b (ro_Id r)"
  shows "vec m k \<le> b k"
  using upto_seen_le [of N "\<lambda>_. 0" "resent m" b k] assms by (simp add: site_ok_def)

section \<open>An edit extends the history\<close>

lemma below_fresh:
  assumes "w (ro_Id r) < ro_Version r"
  shows "below (insert r N) w = below N w"
  using assms by (auto simp: below_def)

lemma below_zero: "history_ok N \<Longrightarrow> below N (\<lambda>_. 0) = {}"
  by (auto simp: below_def history_ok_def cast_ok_def stamped_def)

text \<open>A new operation of another site changes nothing for a site that has not seen it.\<close>

lemma site_ok_insert:
  assumes "site_ok N m" "ro_Id r \<noteq> OwnerId m" "vec m (ro_Id r) < ro_Version r"
  shows "site_ok (insert r N) m"
  using assms(1,2) below_fresh [where w = "vec m", OF assms(3)] in_turn_mono [of N "\<lambda>_. 0" "resent m" "insert r N" "\<lambda>_. 0"]
    waiting_ok_mono [where w = "vec m" and w' = "vec m", OF _ subset_insertI order_refl]
  by (auto simp: site_ok_def)

text \<open>The edits of a site follow one another, and each names a new cell or an old byte.\<close>

lemma edit_op:
  assumes "site_ok N m" "event_safe m ev" "event_edit m ev = returns (m', [r])"
  shows "local_step m m' r" "OpVersion m \<noteq> - 1" "stamped r" "sites_ok (ro_Vector r)" "\<And>k. Get (ro_Vector r) k = vec m k"
    "spec_enabled (ro_Op ` below N (vec m)) (ro_Op r)" "SiteId_ok (ro_Id r)"
proof -
  have m: "model_ok m" "sites_ok (l_Vector (dm_Log m))" "describes (ro_Op ` below N (vec m)) (abs_doc (dm_Treedoc m))"
    using assms(1) by (auto simp: site_ok_def)
  show step: "local_step m m' r" by (rule event_edit_step [OF m(1) assms(2,3)])
  show ver: "OpVersion m \<noteq> - 1"
    using editor_event_edits(4) [of "undefined\<lparr>app_DocModel := Some m\<rparr>", OF _ assms(3,2)] by simp
  have v: "ro_Vector r = Copy (l_Vector (dm_Log m))" "ro_Id r = OwnerId m" "ro_Version r = OpVersion m + 1"
    using step by (auto simp: local_step_def)
  then show sites: "sites_ok (ro_Vector r)" using sites_ok_Copy [OF m(2)] by simp
  show get: "Get (ro_Vector r) k = vec m k" for k using Copy_ok(2) [of "l_Vector (dm_Log m)" k] m(2) by (simp add: v sites_ok_def)
  have "OpVersion m + 1 \<noteq> 0" using ver by (simp add: eq_neg_iff_add_eq_0)
  then show "stamped r" using sites m(1) by (simp add: stamped_def sites_ok_def get v(2,3) model_ok_def clock_ok_def)
  show "spec_enabled (ro_Op ` below N (vec m)) (ro_Op r)"
    using step op_enabled_iff [OF m(3)] by (auto simp: local_step_def applicable_def)
  show "SiteId_ok (ro_Id r)" using m(1) by (simp add: v model_ok_def ids_free_def)
qed

lemma edit_own_node:
  assumes "history_ok N" "site_ok N m" "event_safe m ev" "event_edit m ev = returns (m', [r])" "inserts (ro_Op r)"
  shows "take 16 (oId (ro_Op r)) = OwnerId m"
proof -
  let ?nid = "NewNodeId (OwnerId m) (NodeIdClock m)"
  have m: "model_ok m" "SiteId_ok (OwnerId m)" using assms(2) by (auto simp: site_ok_def model_ok_def ids_free_def)
  note names = event_edit_names [OF m(1) assms(3,4)]
  have own: "take 16 ?nid = OwnerId m" using m(2) by (simp add: NewNodeId_eq SiteId_ok_def)
  show ?thesis
  proof (cases "creates (ro_Op r)")
    case True
    then show ?thesis using names own by simp
  next
    case False
    then have ins: "oType (ro_Op r) = INSERT" using assms(5) by (simp add: inserts_def)
    then obtain r1 where "r1 \<in> N" "creates (ro_Op r1)" "oId (ro_Op r1) = oId (ro_Op r)"
      using edit_op(6) [OF assms(2-4)] by (auto simp: spec_enabled_def deps_met_def below_def)
    then have "NodeId_ok (oId (ro_Op r))" using assms(1) by (metis NewNodeId_ok cast_ok_def history_ok_def)
    then show ?thesis using names ins EqualSiteIdInNodeId_iff [of ?nid "oId (ro_Op r)"] own by (simp add: own_insert_def)
  qed
qed

lemma edit_is_new:
  assumes "history_ok N" "site_ok N m" "event_safe m ev" "event_edit m ev = returns (m', [r])" "r' \<in> N"
  shows "\<not> same_slot r r'"
proof
  assume same: "same_slot r r'"
  let ?S = "ro_Op ` below N (vec m)"
  note e = edit_op [OF assms(2-4)]
  have m: "describes ?S (abs_doc (dm_Treedoc m))" "vec m (OwnerId m) = OpVersion m"
    using assms(2) by (auto simp: site_ok_def model_ok_def clock_ok_def)
  have mine: "r' \<in> below N (vec m)" if "ro_Id r' = OwnerId m"
    using that assms(2,5) m(2) by (auto simp: below_def site_ok_def)
  have id: "ro_Id r = OwnerId m" "ro_Version r = OpVersion m + 1" using e(1) by (auto simp: local_step_def)
  have "OpVersion m < ro_Version r"
    using version_step(1) [of "OpVersion m" "ro_Version r"] e(3) id by (simp add: stamped_def)
  with mine have "ro_Version r' \<noteq> ro_Version r" if "ro_Id r' = ro_Id r"
    using that id m(2) by (auto simp: below_def)
  with same have ins: "inserts (ro_Op r)" "inserts (ro_Op r')" "oId (ro_Op r) = oId (ro_Op r')"
    and cell: "cell_key (ro_Op r) = cell_key (ro_Op r') \<or> creates (ro_Op r)"
    using op_kinds(3) by (auto simp: same_slot_def cell_key_def)
  have "ro_Id r' = OwnerId m"
    using edit_own_node [OF assms(1-4) ins(1)] ins assms(1,5) by (auto simp: history_ok_def cast_ok_def)
  then have r': "ro_Op r' \<in> ?S" using mine by blast
  show False
  proof (cases "creates (ro_Op r)")
    case True
    then have "sp_place (abs_doc (dm_Treedoc m)) (oId (ro_Op r)) = None"
      using e(1) by (auto simp: local_step_def applicable_def op_fresh_def abs_names)
    then have "sp_cell (abs_doc (dm_Treedoc m)) (oId (ro_Op r)) (unat (oN (ro_Op r'))) = blank"
      by (rule describesD(5) [OF m(1)])
    then show False
      using describes_init(1) [OF m(1), of "oId (ro_Op r)" "unat (oN (ro_Op r'))"] r' ins(2,3) by (auto simp: blank_def cell_key_def)
  next
    case False
    then show False using ins(1,2) cell r' e(6) by (auto simp: inserts_def spec_enabled_def)
  qed
qed

lemma edit_history:
  assumes "history_ok N" "site_ok N m" "event_safe m ev" "event_edit m ev = returns (m', [r])"
  shows "history_ok (insert r N)"
proof -
  note e = edit_op [OF assms(2-4)]
  have "model_ok m" using assms(2) by (simp add: site_ok_def)
  note names = event_edit_names [OF this assms(3,4)]
  have id: "ro_Id r = OwnerId m" using e(1) by (simp add: local_step_def)
  have "vec m = Get (ro_Vector r)" using e(5) by auto
  then have "deps_met (ro_Op ` below (insert r N) (Get (ro_Vector r))) (ro_Op r)"
    using e(6) deps_met_mono [OF _ image_mono [OF below_mono [OF subset_insertI order_refl]]] by (auto simp: spec_enabled_def)
  moreover have "creates (ro_Op r) \<longrightarrow> unat (oN (ro_Op r)) < 65531" "unat (oN (ro_Op r)) \<noteq> 65535"
    using e(1) assms(2) op_enabled_iff [of "ro_Op ` below N (vec m)" "dm_Treedoc m" "ro_Op r"]
    by (auto simp: local_step_def applicable_def site_ok_def)
  ultimately have "cast_ok (insert r N) r"
    using e(3,4,7) names edit_own_node [OF assms] id by (auto simp: cast_ok_def)
  moreover have "cast_ok (insert r N) r'" if "r' \<in> N" for r'
    using assms(1) that cast_ok_mono [OF _ subset_insertI] by (auto simp: history_ok_def)
  ultimately show ?thesis
    using assms(1) edit_is_new [OF assms] same_slot_sym by (auto simp: history_ok_def)
qed

lemma edit_site:
  assumes "history_ok N" "site_ok N m" "event_safe m ev" "event_edit m ev = returns (m', [r])"
  shows "site_ok (insert r N) m'" "OwnerId m' = OwnerId m" "vec m' = (vec m)(OwnerId m := OpVersion m + 1)"
    "OpVersion m' = OpVersion m + 1" "vec m k \<le> vec m' k"
proof -
  let ?N = "insert r N" and ?id = "OwnerId m" and ?ver = "OpVersion m + 1"
  note e = edit_op [OF assms(2-4)] and N = edit_history [OF assms]
  have m: "model_ok m" "BroadcastRemote m" "vec m ?id = OpVersion m" "SiteId_ok ?id"
    using assms(2) by (auto simp: site_ok_def model_ok_def clock_ok_def ids_free_def)
  have id: "ro_Id r = ?id" "ro_Version r = ?ver" using e(1) by (simp_all add: local_step_def)
  have ver: "?ver \<noteq> 0" using e(3) by (simp add: stamped_def id)
  note step = version_step [OF refl ver]
  have log: "dm_Log m' = Log_Write (dm_Log m) ?id ?ver (ro_Op r)" "dm_Queue m' = dm_Queue m"
    using e(1) by (auto simp: local_step_def)
  show own: "OwnerId m' = ?id" using e(1) by (simp add: local_step_def)
  have m': "model_ok m'" "BroadcastRemote m'"
    using event_edit_ok [OF m(1) assms(3,4)] event_edit_keeps [OF assms(4) m(2)] by simp_all
  show vec: "vec m' = (vec m)(?id := ?ver)" using step(3) m(3) by (auto simp: log Log_Write_def)
  show op: "OpVersion m' = ?ver" using m'(1) own vec by (auto simp: model_ok_def clock_ok_def)
  show grow: "vec m k \<le> vec m' k" for k using step(1) m(3) by (auto simp: vec intro: less_imp_le)
  have nxt: "r \<notin> below ?N (vec m)" "below ?N (vec m') = insert r (below N (vec m))"
    using below_next [OF N insertI1, of "vec m"] below_fresh [of "vec m" r N] m(3) step(1) by (simp_all add: id vec)
  have same: "below ?N (vec m) = below N (vec m)" using below_fresh [of "vec m" r N] m(3) step(1) by (simp add: id)
  have deps: "deps_met (ro_Op ` below ?N (vec m)) (ro_Op r)" using e(6) by (simp add: same spec_enabled_def)
  have doc: "abs_doc (dm_Treedoc m') = spec_apply (abs_doc (dm_Treedoc m)) (ro_Op r)"
    "describes (ro_Op ` below N (vec m)) (abs_doc (dm_Treedoc m))"
    using e(1) assms(2) by (simp_all add: local_step_def site_ok_def)
  have "describes (ro_Op ` below ?N (vec m')) (abs_doc (dm_Treedoc m'))"
    unfolding nxt(2) doc(1) using next_enabled(2) [OF N insertI1 nxt(1) _ deps] doc(2) by (simp add: same)
  moreover have "resent m' = resent m @ [\<lparr>ro_Vector = NewVector, ro_Id = ?id, ro_Version = ?ver, ro_Op = ro_Op r\<rparr>]"
    by (simp add: log Log_Write_def entry_to_remote_def)
  moreover from this have "in_turn ?N (\<lambda>_. 0) (resent m') \<and> upto_seen (resent m') (\<lambda>_. 0) = vec m'"
    using in_turn_mono [of N "\<lambda>_. 0" "resent m" ?N "\<lambda>_. 0"] assms(2) step m(3) deps
    by (auto simp: site_ok_def in_turn_append upto_seen_append due_def same_op_def see_def vec id)
  moreover have "waiting_ok ?N (vec m') y" if "waiting_ok N (vec m) y" for y
    by (rule waiting_ok_mono [OF that subset_insertI grow])
  moreover have "sites_ok (l_Vector (dm_Log m'))"
    using assms(2) m(4) by (auto simp: site_ok_def log Log_Write_def intro: sites_ok_IncrementTo)
  moreover have "ro_Version r' \<le> ?ver" if "r' \<in> ?N" "ro_Id r' = ?id" for r'
    using that assms(2) id less_imp_le [OF step(1)] by (auto simp: site_ok_def intro: order_trans)
  ultimately show "site_ok ?N m'" using assms(2) m' by (auto simp: site_ok_def log(2) own op)
qed

section \<open>Version checks\<close>

text \<open>
  What a site sends after a version check, as the asker reads it: first what its log sends again, in the order of the log and from
  the vector of the asker on, then what waits in its queue.
\<close>

definition reply_ok :: "RemoteOperation set \<Rightarrow> (SiteId \<Rightarrow> uint32) \<Rightarrow> (SiteId \<Rightarrow> uint32) \<Rightarrow> RemoteOperation list \<Rightarrow> bool" where
  "reply_ok N w goal xs \<longleftrightarrow> (\<exists>ys zs. xs = ys @ zs \<and> in_turn N w ys \<and> (\<forall>y\<in>set ys. ro_Vector y = []) \<and>
     (\<forall>z\<in>set zs. waiting_ok N (upto_seen ys w) z) \<and> (\<forall>k. goal k \<le> upto_seen ys w k))"

lemma reply_ok_mono:
  assumes "reply_ok N w goal xs" "N \<subseteq> N'"
  shows "reply_ok N' w goal xs"
  using assms in_turn_mono [OF _ assms(2) order_refl] waiting_ok_mono [OF _ assms(2) order_refl]
  unfolding reply_ok_def by blast

lemma resent_log_ok:
  assumes "site_ok N m"
  shows "log_ok (dm_Log m)"
proof -
  have "ro_Version x \<le> upto_seen xs w (ro_Id x)" if "x \<in> set xs" for x xs w
    using that
  proof (induction xs arbitrary: w)
    case (Cons y ys)
    then show ?case using upto_seen_ge [of "see y w" "ro_Id y" ys] by (auto simp: see_def)
  qed simp
  from this [of "entry_to_remote _" "resent m" "\<lambda>_. 0"] show ?thesis
    using assms by (fastforce simp: log_ok_def site_ok_def sites_ok_def entry_to_remote_def)
qed

lemma GetMissingOperations_reply:
  assumes "site_ok N m" "vv_ok v"
  shows "reply_ok N (Get v) (vec m) (wire (fst (GetMissingOperations m v) @ snd (GetMissingOperations m v)))"
proof -
  let ?P = "\<lambda>x. Get v (ro_Id x) < ro_Version x"
  have q: "q_vector (dm_Queue m) = NewVector" "\<forall>x\<in>set (queue (dm_Queue m)). waiting_ok N (vec m) x"
    "in_turn N (\<lambda>_. 0) (resent m)" "upto_seen (resent m) (\<lambda>_. 0) = vec m" using assms(1) by (simp_all add: site_ok_def)
  have "fst (GetMissingOperations m v) = map entry_to_remote (filter (\<lambda>e. Get v (le_Id e) < le_Version e) (Log (dm_Log m)))"
    using q(1) by (intro GetMissingOperations_log [OF resent_log_ok [OF assms(1)] assms(2)]) (simp add: vv_ok_def NewVector_def)
  also have "\<dots> = filter ?P (resent m)" by (simp add: filter_map o_def entry_to_remote_def)
  finally have log: "fst (GetMissingOperations m v) = filter ?P (resent m)" .
  have empty: "\<forall>y\<in>set (filter ?P (resent m)). ro_Vector y = []" by (auto simp: entry_to_remote_def NewVector_def)
  have turn: "in_turn N (Get v) (filter ?P (resent m)) \<and> (\<forall>k. vec m k \<le> upto_seen (filter ?P (resent m)) (Get v) k)"
    using in_turn_filter [OF q(3), of "Get v" ?P] by (simp add: q(4) not_less)
  have "set (snd (GetMissingOperations m v)) \<subseteq> set (queue (dm_Queue m))"
    by (auto simp: GetMissingOperations_def Let_def queue_missing_eq)
  then have queue: "\<forall>x\<in>set (snd (GetMissingOperations m v)). waiting_ok N (vec m) x" using q(2) by blast
  have "waiting_ok N (upto_seen (filter ?P (resent m)) (Get v)) (from_json (to_json x))" if "waiting_ok N (vec m) x" for x
    by (rule waiting_ok_mono [OF wire_waiting [OF that] order_refl]) (use turn in blast)
  with queue have "\<forall>z\<in>set (wire (snd (GetMissingOperations m v))). waiting_ok N (upto_seen (filter ?P (resent m)) (Get v)) z"
    by (simp add: wire_def del: filter_map)
  moreover have "wire (filter ?P (resent m)) = filter ?P (resent m)" by (rule wire_resent [OF empty])
  ultimately show ?thesis unfolding reply_ok_def log wire_simps(3)
    by (intro exI [of _ "filter ?P (resent m)"] exI [of _ "wire (snd (GetMissingOperations m v))"]) (use turn empty in blast)
qed

text \<open>A site that handles such a reply catches up with the site that sent it.\<close>

lemma handle_reply:
  assumes "history_ok N" "site_ok N m" "reply_ok N w goal xs" "\<And>k. w k \<le> vec m k" "heard_safe m xs"
  shows "\<exists>m'. pfold ApplyRemoteOperation xs m = returns m' \<and> site_ok N m' \<and> same_owner m m' \<and>
    (\<forall>k. vec m k \<le> vec m' k) \<and> (\<forall>k. goal k \<le> vec m' k)"
proof -
  obtain ys zs where xs: "xs = ys @ zs" "in_turn N w ys" "\<forall>y\<in>set ys. ro_Vector y = []"
    "\<forall>z\<in>set zs. waiting_ok N (upto_seen ys w) z" "\<And>k. goal k \<le> upto_seen ys w k" using assms(3) by (auto simp: reply_ok_def)
  have safe: "heard_safe m ys" "\<And>m'. pfold ApplyRemoteOperation ys m = returns m' \<Longrightarrow> heard_safe m' zs"
    using heard_safe_append assms(5) xs(1) by blast+
  from handle_in_turn [OF assms(1,2) xs(2) assms(4) xs(3) safe(1)] obtain m1 where
    m1: "pfold ApplyRemoteOperation ys m = returns m1" "site_ok N m1" "same_owner m m1" "\<And>k. vec m k \<le> vec m1 k"
      "\<And>k. upto_seen ys w k \<le> vec m1 k" by blast
  have "\<forall>z\<in>set zs. waiting_ok N (vec m1) z"
    using xs(4) waiting_ok_mono [where w' = "vec m1", OF _ order_refl m1(5)] by blast
  from handle_copies [OF assms(1) m1(2) this safe(2) [OF m1(1)]] obtain m2 where
    m2: "pfold ApplyRemoteOperation zs m1 = returns m2" "site_ok N m2" "same_owner m1 m2" "\<And>k. vec m1 k \<le> vec m2 k" by blast
  have "vec m k \<le> vec m2 k" "goal k \<le> vec m2 k" for k
    using order_trans [OF m1(4) m2(4)] order_trans [OF xs(5) order_trans [OF m1(5) m2(4)]] by blast+
  then show ?thesis using m1(1) m2(1,2) same_owner_trans [OF m1(3) m2(3)] by (simp add: xs(1) pfold_append)
qed

section \<open>The sites together\<close>

text \<open>
  The open documents by the id of their site, every operation broadcast so far, every version vector asked with and every reply.
  Nothing is ever taken out of the three sets: a message may be read many times, late, out of order or never.
\<close>

record editor_net =
  en_sites :: "SiteId \<rightharpoonup> DocumentModel"
  en_casts :: "RemoteOperation set"
  en_asks :: "(SiteId \<times> VersionVector) set"
  en_replies :: "(SiteId \<times> RemoteOperation list) set"

abbreviation with_site :: "editor_net \<Rightarrow> SiteId \<Rightarrow> DocumentModel \<Rightarrow> editor_net" where
  "with_site n i m \<equiv> n\<lparr>en_sites := (en_sites n)(i \<mapsto> m)\<rparr>"

definition no_sites :: editor_net where
  "no_sites = \<lparr>en_sites = Map.empty, en_casts = {}, en_asks = {}, en_replies = {}\<rparr>"

definition asked_vector :: "DocumentModel \<Rightarrow> VersionVector" where
  "asked_vector m = FromVersionVectorJson (ToJsonable (GetVersionVectorReceived m))"

definition missing_for :: "DocumentModel \<Rightarrow> VersionVector \<Rightarrow> RemoteOperation list" where
  "missing_for m v = wire (fst (GetMissingOperations m v) @ snd (GetMissingOperations m v))"

inductive en_step :: "editor_net \<Rightarrow> editor_net \<Rightarrow> bool" where
  en_open: "en_sites n i = None \<Longrightarrow> SiteId_ok i \<Longrightarrow> 5 \<le> width \<Longrightarrow> newDocument width i = returns m \<Longrightarrow> en_step n (with_site n i m)"
| en_edit: "en_sites n i = Some m \<Longrightarrow> event_safe m ev \<Longrightarrow> event_edit m ev = returns (m', sent) \<Longrightarrow>
    en_step n (with_site n i m'\<lparr>en_casts := en_casts n \<union> set sent\<rparr>)"
| en_move: "en_sites n i = Some m \<Longrightarrow> buf_ok buf \<Longrightarrow> buf_text buf = buf_text (dm_Buffer m) \<Longrightarrow>
    en_step n (with_site n i (m\<lparr>dm_Buffer := buf\<rparr>))"
| en_hear: "en_sites n i = Some m \<Longrightarrow> r \<in> en_casts n \<Longrightarrow> heard_safe m (wire [r]) \<Longrightarrow>
    pfold ApplyRemoteOperation (wire [r]) m = returns m' \<Longrightarrow> en_step n (with_site n i m')"
| en_ask: "en_sites n i = Some m \<Longrightarrow> en_step n (n\<lparr>en_asks := insert (i, asked_vector m) (en_asks n)\<rparr>)"
| en_reply: "en_sites n i = Some m \<Longrightarrow> (j, v) \<in> en_asks n \<Longrightarrow>
    en_step n (n\<lparr>en_replies := insert (j, missing_for m v) (en_replies n)\<rparr>)"
| en_catch: "en_sites n i = Some m \<Longrightarrow> (i, ops) \<in> en_replies n \<Longrightarrow> heard_safe m ops \<Longrightarrow>
    pfold ApplyRemoteOperation ops m = returns m' \<Longrightarrow> en_step n (with_site n i m')"

inductive en_reachable :: "editor_net \<Rightarrow> bool" where
  en_start: "en_reachable no_sites"
| en_next: "en_reachable n \<Longrightarrow> en_step n n' \<Longrightarrow> en_reachable n'"

text \<open>The messages of the steps are those of the handlers of the interface, with JSON reading back what it wrote.\<close>

lemma remote_op_handler_hears:
  assumes "app_DocModel app = Some m" "get_ops J msg = map to_json ops" "pfold ApplyRemoteOperation (wire ops) m = returns m'"
  shows "remote_op_handler J app msg = returns (app\<lparr>app_DocModel := Some m'\<rparr>)"
  using assms by (simp add: remote_op_handler_def RemoteOperationsFromSlice_def wire_def o_def)

lemma ops_receive_version_asks:
  assumes "app_DocModel app = Some m" "ops_receive_version J app = Some data" "get_version J data = Some (ToJsonable (GetVersionVectorReceived m))"
  shows "UnmarshalJSON (get_version J) data = Some (asked_vector m)"
  using assms by (simp add: UnmarshalJSON_def asked_vector_def)

lemma version_check_handler_replies:
  assumes "app_DocModel app = Some m" "UnmarshalJSON (get_version J) data = Some v" "version_check_handler J app data = (msg, True)"
    "\<And>ops. msg = RemoteOperationsToSlice (put_ops J) ops \<Longrightarrow> get_ops J msg = map to_json ops"
  shows "RemoteOperationsFromSlice (get_ops J) msg = missing_for m v"
  using assms(1-3) assms(4) [of "fst (GetMissingOperations m v) @ snd (GetMissingOperations m v)"]
  by (auto simp: version_check_handler_def missing_for_def wire_def RemoteOperationsFromSlice_def o_def split: prod.splits if_splits)

section \<open>Invariant\<close>

definition ask_ok :: "(SiteId \<rightharpoonup> DocumentModel) \<Rightarrow> SiteId \<Rightarrow> VersionVector \<Rightarrow> bool" where
  "ask_ok sites j v \<longleftrightarrow> vv_ok v \<and> (\<exists>m. sites j = Some m \<and> (\<forall>k. Get v k \<le> vec m k))"

definition answer_ok :: "(SiteId \<rightharpoonup> DocumentModel) \<Rightarrow> RemoteOperation set \<Rightarrow> SiteId \<Rightarrow> RemoteOperation list \<Rightarrow> bool" where
  "answer_ok sites N j xs \<longleftrightarrow> (\<exists>m w goal. sites j = Some m \<and> (\<forall>k. w k \<le> vec m k) \<and> reply_ok N w goal xs)"

definition en_ok :: "editor_net \<Rightarrow> bool" where
  "en_ok n \<longleftrightarrow> history_ok (en_casts n) \<and> (\<forall>r\<in>en_casts n. ro_Id r \<in> dom (en_sites n)) \<and>
     (\<forall>i m. en_sites n i = Some m \<longrightarrow> site_ok (en_casts n) m \<and> OwnerId m = i) \<and>
     (\<forall>(j, v)\<in>en_asks n. ask_ok (en_sites n) j v) \<and>
     (\<forall>(j, xs)\<in>en_replies n. answer_ok (en_sites n) (en_casts n) j xs)"

lemma en_okD:
  assumes "en_ok n"
  shows "history_ok (en_casts n)" "en_sites n i = Some m \<Longrightarrow> site_ok (en_casts n) m \<and> OwnerId m = i"
    "(j, v) \<in> en_asks n \<Longrightarrow> ask_ok (en_sites n) j v" "(j, xs) \<in> en_replies n \<Longrightarrow> answer_ok (en_sites n) (en_casts n) j xs"
    "r \<in> en_casts n \<Longrightarrow> ro_Id r \<in> dom (en_sites n)"
  using assms by (auto simp: en_ok_def)

text \<open>Messages stay good when a document takes more operations and the history grows.\<close>

definition sites_grow :: "(SiteId \<rightharpoonup> DocumentModel) \<Rightarrow> (SiteId \<rightharpoonup> DocumentModel) \<Rightarrow> bool" where
  "sites_grow s s' \<longleftrightarrow> (\<forall>i m. s i = Some m \<longrightarrow> (\<exists>m'. s' i = Some m' \<and> (\<forall>k. vec m k \<le> vec m' k)))"

lemma sites_grow_upd:
  "s i = None \<Longrightarrow> sites_grow s (s(i \<mapsto> m'))"
  "s i = Some m \<Longrightarrow> (\<And>k. vec m k \<le> vec m' k) \<Longrightarrow> sites_grow s (s(i \<mapsto> m'))"
  by (auto simp: sites_grow_def)

lemma sites_growE:
  assumes "sites_grow s s'" "s j = Some m" "\<And>k. w k \<le> vec m k"
  obtains m' where "s' j = Some m'" "\<And>k. w k \<le> vec m' k"
proof -
  from assms(1,2) obtain m' where m': "s' j = Some m'" "\<forall>k. vec m k \<le> vec m' k" unfolding sites_grow_def by blast
  have "w k \<le> vec m' k" for k by (rule order_trans [OF assms(3)]) (simp add: m'(2))
  with m'(1) show thesis by (rule that)
qed

lemma ask_ok_mono:
  assumes "ask_ok s j v" "sites_grow s s'"
  shows "ask_ok s' j v"
proof -
  obtain m where m: "vv_ok v" "s j = Some m" "\<And>k. Get v k \<le> vec m k" using assms(1) by (auto simp: ask_ok_def)
  from sites_growE [OF assms(2) m(2,3)] show ?thesis using m(1) by (auto simp: ask_ok_def)
qed

lemma answer_ok_mono:
  assumes "answer_ok s N j xs" "sites_grow s s'" "N \<subseteq> N'"
  shows "answer_ok s' N' j xs"
proof -
  obtain m w goal where m: "s j = Some m" "\<And>k. w k \<le> vec m k" "reply_ok N w goal xs" using assms(1) by (auto simp: answer_ok_def)
  from sites_growE [OF assms(2) m(1,2)] obtain m' where "s' j = Some m'" "\<And>k. w k \<le> vec m' k" by blast
  then show ?thesis using reply_ok_mono [OF m(3) assms(3)] by (auto simp: answer_ok_def)
qed

lemma en_ok_grow:
  assumes "en_ok n" "sites_grow (en_sites n) s'" "en_casts n \<subseteq> N'" "history_ok N'" "\<And>r. r \<in> N' - en_casts n \<Longrightarrow> ro_Id r \<in> dom s'"
    "\<And>i m. s' i = Some m \<Longrightarrow> site_ok N' m \<and> OwnerId m = i"
  shows "en_ok (n\<lparr>en_sites := s', en_casts := N'\<rparr>)"
proof -
  have "ro_Id r \<in> dom s'" if "r \<in> N'" for r
    using that en_okD(5) [OF assms(1), of r] assms(2,5) by (cases "r \<in> en_casts n") (fastforce simp: sites_grow_def)+
  moreover have "ask_ok s' j v" if "(j, v) \<in> en_asks n" for j v
    by (rule ask_ok_mono [OF en_okD(3) [OF assms(1) that] assms(2)])
  moreover have "answer_ok s' N' j xs" if "(j, xs) \<in> en_replies n" for j xs
    by (rule answer_ok_mono [OF en_okD(4) [OF assms(1) that] assms(2,3)])
  ultimately show ?thesis using assms(4,6) unfolding en_ok_def by auto
qed

lemma en_ok_site:
  assumes "en_ok n" "en_sites n i = Some m" "site_ok (en_casts n) m'" "OwnerId m' = OwnerId m" "\<And>k. vec m k \<le> vec m' k"
  shows "en_ok (with_site n i m')"
proof -
  have "en_ok (n\<lparr>en_sites := (en_sites n)(i \<mapsto> m'), en_casts := en_casts n\<rparr>)"
  proof (rule en_ok_grow [OF assms(1) sites_grow_upd(2) [where s = "en_sites n" and i = i and m = m, OF assms(2,5)] order_refl en_okD(1) [OF assms(1)]])
    show "site_ok (en_casts n) m1 \<and> OwnerId m1 = i1" if "((en_sites n)(i \<mapsto> m')) i1 = Some m1" for i1 m1
      using that assms en_okD(2) [OF assms(1)] by (auto split: if_splits)
  qed simp
  then show ?thesis by simp
qed

section \<open>Every step keeps the invariant\<close>

lemma newDocument_site:
  assumes "history_ok N" "SiteId_ok i" "5 \<le> width" "newDocument width i = returns m" "\<And>r. r \<in> N \<Longrightarrow> ro_Id r \<noteq> i"
  shows "site_ok N m" "OwnerId m = i"
proof -
  obtain m1 where m1: "NewDocumentModel i (width - 1) True = returns m1" "model_ok m1" "OwnerId m1 = i"
    using NewDocumentModel_ok [OF assms(2), of "width - 1" True] assms(3) by auto
  with assms(4) have m: "m1 = m" by (simp add: newDocument_def)
  with m1 show own: "OwnerId m = i" by simp
  have ok: "model_ok m" using m1(2) m by simp
  have parts: "dm_Log m = NewLog" "dm_Queue m = NewQueue" "dm_Treedoc m = NewDocument" "BroadcastRemote m"
    using m1(1) m by (auto simp: NewDocumentModel_def)
  have "vec m = (\<lambda>_. 0)" by (auto simp: parts NewLog_def)
  then show "site_ok N m"
    using ok own assms(5) below_zero [OF assms(1)] describes_empty
    by (auto simp: site_ok_def parts NewLog_def NewQueue_def sites_ok_def vv_ok_def NewVector_def)
qed

lemma en_ok_open:
  assumes "en_ok n" "en_sites n i = None" "SiteId_ok i" "5 \<le> width" "newDocument width i = returns m"
  shows "en_ok (with_site n i m)"
proof -
  have other: "ro_Id r \<noteq> i" if "r \<in> en_casts n" for r using en_okD(5) [OF assms(1) that] assms(2) by auto
  note new = newDocument_site [OF en_okD(1) [OF assms(1)] assms(3-5) other]
  have "en_ok (n\<lparr>en_sites := (en_sites n)(i \<mapsto> m), en_casts := en_casts n\<rparr>)"
  proof (rule en_ok_grow [OF assms(1) sites_grow_upd(1) [where s = "en_sites n", OF assms(2)] order_refl en_okD(1) [OF assms(1)]])
    show "site_ok (en_casts n) m1 \<and> OwnerId m1 = i1" if "((en_sites n)(i \<mapsto> m)) i1 = Some m1" for i1 m1
      using that new en_okD(2) [OF assms(1)] by (auto split: if_splits)
  qed simp
  then show ?thesis by simp
qed

lemma cast_bound:
  assumes "en_ok n" "r \<in> en_casts n"
  shows "ro_Version r \<le> (case en_sites n (ro_Id r) of None \<Rightarrow> 0 | Some m \<Rightarrow> OpVersion m)"
  using en_okD(5) [OF assms] en_okD(2) [OF assms(1), of "ro_Id r"] assms(2) by (auto simp: site_ok_def split: option.splits)

lemma en_ok_edit:
  assumes "en_ok n" "en_sites n i = Some m" "event_safe m ev" "event_edit m ev = returns (m', [r])"
  shows "en_ok (n\<lparr>en_sites := (en_sites n)(i \<mapsto> m'), en_casts := insert r (en_casts n)\<rparr>)"
proof -
  let ?N = "en_casts n"
  note N = en_okD(1) [OF assms(1)] and m = en_okD(2) [OF assms(1,2)]
  note e = edit_op [OF conjunct1 [OF m] assms(3,4)] and site = edit_site [OF N conjunct1 [OF m] assms(3,4)]
  have id: "ro_Id r = i" "ro_Version r = OpVersion m + 1" using e(1) m by (auto simp: local_step_def)
  have new: "OpVersion m < ro_Version r" using version_step(1) [OF refl, of "OpVersion m"] e(3) by (simp add: id stamped_def)
  show ?thesis
  proof (rule en_ok_grow [OF assms(1) sites_grow_upd(2) [where s = "en_sites n" and i = i and m = m, OF assms(2) site(5)] subset_insertI])
    show "history_ok (insert r ?N)" by (rule edit_history [OF N conjunct1 [OF m] assms(3,4)])
    show "ro_Id r' \<in> dom ((en_sites n)(i \<mapsto> m'))" if "r' \<in> insert r ?N - ?N" for r' using that id(1) by auto
    show "site_ok (insert r ?N) m1 \<and> OwnerId m1 = i1" if "((en_sites n)(i \<mapsto> m')) i1 = Some m1" for i1 m1
    proof (cases "i1 = i")
      case True
      then show ?thesis using that site(1,2) m by auto
    next
      case False
      then have m1: "site_ok ?N m1" "OwnerId m1 = i1" using that en_okD(2) [OF assms(1), of i1 m1] by auto
      have "vec m1 i \<le> OpVersion m"
        using site_vec_le [OF m1(1) cast_bound [OF assms(1)], where k = i] assms(2) by simp
      then show ?thesis using site_ok_insert [OF m1(1), of r] id(1) new False m1(2) by simp
    qed
  qed
qed

lemma site_ok_move:
  assumes "site_ok N m" "buf_ok buf" "buf_text buf = buf_text (dm_Buffer m)"
  shows "site_ok N (m\<lparr>dm_Buffer := buf\<rparr>)"
  using assms by (auto simp: site_ok_def model_ok_def texts_ok_def ids_free_def clock_ok_def)

lemma hear_site:
  assumes "en_ok n" "en_sites n i = Some m" "r \<in> en_casts n" "heard_safe m (wire [r])"
  shows "\<exists>m'. pfold ApplyRemoteOperation (wire [r]) m = returns m' \<and> site_ok (en_casts n) m' \<and> same_owner m m' \<and> (\<forall>k. vec m k \<le> vec m' k)"
proof (rule handle_copies [OF en_okD(1) [OF assms(1)] _ _ assms(4)])
  show "site_ok (en_casts n) m" using en_okD(2) [OF assms(1,2)] by simp
  show "\<forall>x\<in>set (wire [r]). waiting_ok (en_casts n) (vec m) x"
    using wire_copy [OF cast_copy [OF en_okD(1) [OF assms(1)] assms(3)]] by (simp add: waiting_ok_def)
qed

lemma catch_site:
  assumes "en_ok n" "en_sites n i = Some m" "(i, ops) \<in> en_replies n" "heard_safe m ops"
  shows "\<exists>m'. pfold ApplyRemoteOperation ops m = returns m' \<and> site_ok (en_casts n) m' \<and> same_owner m m' \<and> (\<forall>k. vec m k \<le> vec m' k)"
proof -
  obtain w goal where r: "\<And>k. w k \<le> vec m k" "reply_ok (en_casts n) w goal ops"
    using en_okD(4) [OF assms(1,3)] assms(2) by (auto simp: answer_ok_def)
  have "site_ok (en_casts n) m" using en_okD(2) [OF assms(1,2)] by simp
  from handle_reply [OF en_okD(1) [OF assms(1)] this r(2,1) assms(4)] show ?thesis by blast
qed

lemma asked_vector_ok:
  assumes "site_ok N m"
  shows "vv_ok (asked_vector m)" "Get (asked_vector m) k = vec m k"
proof -
  have v: "sites_ok (l_Vector (dm_Log m))" "q_vector (dm_Queue m) = NewVector" using assms by (simp_all add: site_ok_def)
  then have eq: "GetVersionVectorReceived m = Copy (l_Vector (dm_Log m))"
    by (simp add: GetVersionVectorReceived_def NewVector_def)
  show "vv_ok (asked_vector m)" using vector_json_sites [OF sites_ok_Copy [OF v(1)]] by (simp add: asked_vector_def eq sites_ok_def)
  show "Get (asked_vector m) k = vec m k"
    using vector_json_roundtrip [OF sites_ok_Copy [OF v(1)]] Copy_ok(2) [of "l_Vector (dm_Log m)"] v(1)
    by (simp add: asked_vector_def eq sites_ok_def)
qed

lemma en_step_ok:
  assumes "en_step n n'" "en_ok n"
  shows "en_ok n'"
  using assms
proof (induction rule: en_step.induct)
  case (en_open n i width m)
  then show ?case by (intro en_ok_open)
next
  case (en_edit n i m ev m' sent)
  have "BroadcastRemote m" using en_okD(2) [OF en_edit.prems en_edit.hyps(1)] by (simp add: site_ok_def)
  with event_edit_keeps [OF en_edit.hyps(3)] consider "sent = []" "m' = m" | r where "sent = [r]" by blast
  then show ?case
  proof cases
    case 1
    then show ?thesis using en_edit by (simp add: fun_upd_idem)
  next
    case 2
    then show ?thesis using en_ok_edit [OF en_edit.prems en_edit.hyps(1,2)] en_edit.hyps(3) by simp
  qed
next
  case (en_move n i m buf)
  show ?case by (rule en_ok_site [OF en_move.prems en_move.hyps(1)])
      (use en_okD(2) [OF en_move.prems en_move.hyps(1)] site_ok_move en_move.hyps(2,3) in auto)
next
  case (en_hear n i m r m')
  from hear_site [OF en_hear.prems en_hear.hyps(1-3)] en_hear.hyps(4)
  have "site_ok (en_casts n) m'" "same_owner m m'" "\<And>k. vec m k \<le> vec m' k" by auto
  then show ?case by (intro en_ok_site [OF en_hear.prems en_hear.hyps(1)]) (simp_all add: same_owner_def)
next
  case (en_ask n i m)
  have "site_ok (en_casts n) m" using en_okD(2) [OF en_ask.prems en_ask.hyps] by simp
  then have "ask_ok (en_sites n) i (asked_vector m)" using asked_vector_ok [of "en_casts n" m] en_ask.hyps by (simp add: ask_ok_def)
  then show ?case using en_ask.prems by (auto simp: en_ok_def)
next
  case (en_reply n i m j v)
  obtain mj where j: "en_sites n j = Some mj" "vv_ok v" "\<And>k. Get v k \<le> vec mj k"
    using en_okD(3) [OF en_reply.prems en_reply.hyps(2)] by (auto simp: ask_ok_def)
  have "site_ok (en_casts n) m" using en_okD(2) [OF en_reply.prems en_reply.hyps(1)] by simp
  from GetMissingOperations_reply [OF this j(2)] have "answer_ok (en_sites n) (en_casts n) j (missing_for m v)"
    using j(1,3) by (auto simp: answer_ok_def missing_for_def)
  then show ?case using en_reply.prems by (auto simp: en_ok_def)
next
  case (en_catch n i m ops m')
  from catch_site [OF en_catch.prems en_catch.hyps(1-3)] en_catch.hyps(4)
  have "site_ok (en_casts n) m'" "same_owner m m'" "\<And>k. vec m k \<le> vec m' k" by auto
  then show ?case by (intro en_ok_site [OF en_catch.prems en_catch.hyps(1)]) (simp_all add: same_owner_def)
qed

lemma en_reachable_ok: "en_reachable n \<Longrightarrow> en_ok n"
proof (induction rule: en_reachable.induct)
  case en_start
  then show ?case by (simp add: en_ok_def no_sites_def history_ok_def)
qed (rule en_step_ok)

end
