(* ===== verification/EditorConverge.thy ===== *)
theory EditorConverge
  imports EditorNet
begin

text \<open>
  What the sites of an editor promise together: they converge, they handle every message of each other, and a version check brings
  one up to date. The events at a terminal are steps of the sites together, so these properties are about the interface.
\<close>

section \<open>Insertions are always safe\<close>

lemma apply_ready_queue: "apply_ready m x = returns m' \<Longrightarrow> dm_Queue m' = dm_Queue m"
  by (auto simp: apply_ready_def Let_def)

lemma gap_free_inserts: "\<forall>x\<in>set xs. oType (ro_Op x) \<noteq> DELETE \<Longrightarrow> gap_free m xs"
  by (induction xs arbitrary: m) (auto simp: peer_safe_insert split: option.splits sum.splits)

lemma Enqueue_parts:
  assumes "Enqueue q x v = (q', ready)"
  shows "set ready \<subseteq> insert x (set (queue q))" "set (queue q') \<subseteq> insert x (set (queue q))"
proof -
  have "set ready \<subseteq> insert x (set (queue q)) \<and> set (queue q') \<subseteq> insert x (set (queue q))"
  proof (cases "Get v (ro_Id x) = ro_Version x - 1 \<and> covers v x")
    case False
    then show ?thesis using Enqueue_wait [OF False, of q] assms by auto
  next
    case True
    from Enqueue_ready [OF _ _ assms] True obtain v' out where
      out: "ready = x # out" "drains (Increment v (ro_Id x)) [] (queue q) v' out (queue q')" by blast
    obtain dropped where "mset (queue q) = mset out + mset (queue q') + mset dropped" using drains_all_accounted [OF out(2)] by auto
    then have "set_mset (mset (queue q)) = set out \<union> set (queue q') \<union> set dropped" by simp
    then show ?thesis using out(1) by auto
  qed
  then show "set ready \<subseteq> insert x (set (queue q))" "set (queue q') \<subseteq> insert x (set (queue q))" by simp_all
qed

lemma pfold_queue: "pfold apply_ready xs m = returns m' \<Longrightarrow> dm_Queue m' = dm_Queue m"
  by (induction xs arbitrary: m) (auto dest: apply_ready_queue)

lemma heard_safe_inserts:
  assumes "\<forall>x\<in>set xs \<union> set (queue (dm_Queue m)). oType (ro_Op x) \<noteq> DELETE"
  shows "heard_safe m xs"
  using assms
proof (induction xs arbitrary: m)
  case (Cons x xs)
  obtain q ready where enq: "Enqueue (dm_Queue m) x (Copy (l_Vector (dm_Log m))) = (q, ready)" by fastforce
  note sub = Enqueue_parts [OF enq]
  have "delivery_safe m x" using sub(1) Cons.prems by (auto simp: delivery_safe_def enq intro!: gap_free_inserts)
  moreover have "heard_safe m' xs" if "ApplyRemoteOperation m x = returns m'" for m'
  proof (rule Cons.IH)
    have "dm_Queue m' = q" using that pfold_queue [of ready "m\<lparr>dm_Queue := q\<rparr>" m'] by (simp add: ApplyRemoteOperation_def enq)
    then show "\<forall>y\<in>set xs \<union> set (queue (dm_Queue m')). oType (ro_Op y) \<noteq> DELETE" using sub(2) Cons.prems by auto
  qed
  ultimately show ?case by (auto split: option.splits sum.splits)
qed simp

text \<open>Every safe event at the terminal of a site is a step of the sites together, and broadcasts what the step adds to the history.\<close>

lemma stay_and_redraw_keeps:
  assumes "stay_and_redraw app dim = returns (Stays app' dim' scr)"
  shows "app_DocModel app' = app_DocModel app" "Manager app' = Manager app"
  using assms by (auto simp: stay_and_redraw_def redraw_app_def split: option.splits)

definition is_edit :: "event \<Rightarrow> bool" where
  "is_edit ev \<longleftrightarrow> typed_byte ev \<noteq> None \<or> (\<exists>k ch. ev = EventKey k ch \<and> k \<in> {KeyBackspace, KeyBackspace2, KeyDelete})"

lemma editor_event_is_edit:
  assumes "app_DocModel app = Some m" "is_edit ev"
  shows "editor_event J app dim ev = pbind (local_edit J app (event_edit m ev)) (\<lambda>app. stay_and_redraw app dim)"
proof (cases ev)
  case (EventKey k ch)
  then show ?thesis using assms by (cases k) (simp_all add: is_edit_def editor_event_def event_edit_def Let_def split: if_splits)
qed (use assms(2) in \<open>simp_all add: is_edit_def\<close>)

lemma editor_event_moves:
  assumes "app_DocModel app = Some m" "\<not> is_edit ev" "editor_event J app dim ev = returns (Stays app' dim' scr)"
  shows "\<exists>buf. app_DocModel app' = Some (m\<lparr>dm_Buffer := buf\<rparr>)" "Manager app' = Manager app" "event_text m ev = doc_text (dm_Treedoc m)"
proof -
  have move: "(\<exists>buf. app_DocModel app' = Some (m\<lparr>dm_Buffer := buf\<rparr>)) \<and> Manager app' = Manager app"
    if "stay_and_redraw (with_buffer app m buf) d = returns (Stays app' dim' scr)" for buf d
    using stay_and_redraw_keeps [OF that] by (auto simp: with_buffer_def)
  have same: "\<exists>buf. Some m = Some (m\<lparr>dm_Buffer := buf\<rparr>)" by (rule exI [of _ "dm_Buffer m"]) simp
  have "((\<exists>buf. app_DocModel app' = Some (m\<lparr>dm_Buffer := buf\<rparr>)) \<and> Manager app' = Manager app) \<and> event_text m ev = doc_text (dm_Treedoc m)"
  proof (cases ev)
    case (EventKey k ch)
    then show ?thesis using assms same
      by (cases k) (auto simp: is_edit_def editor_event_def event_text_def Let_def simp del: ex_simps split: if_splits dest!: move)
  next
    case (EventResize w h)
    then show ?thesis using assms by (auto simp: editor_event_def event_text_def simp del: ex_simps dest!: move)
  next
    case EventInterrupt
    then show ?thesis using assms same stay_and_redraw_keeps [of app dim app' dim' scr] by (simp add: editor_event_def event_text_def)
  qed (use assms in \<open>simp add: editor_event_def\<close>)
  then show "\<exists>buf. app_DocModel app' = Some (m\<lparr>dm_Buffer := buf\<rparr>)" "Manager app' = Manager app" "event_text m ev = doc_text (dm_Treedoc m)"
    by blast+
qed

lemma editor_event_edits_or_moves:
  assumes "editor_event J app dim ev = returns (Stays app' dim' scr)" "app_DocModel app = Some m"
  shows "\<exists>m' sent. app_DocModel app' = Some m' \<and> Manager app' = foldl (broadcast_op J) (Manager app) sent \<and>
    (event_edit m ev = returns (m', sent) \<or> sent = [] \<and> event_text m ev = doc_text (dm_Treedoc m) \<and> (\<exists>buf. m' = m\<lparr>dm_Buffer := buf\<rparr>))"
proof (cases "is_edit ev")
  case True
  from assms(1) [unfolded editor_event_is_edit [OF assms(2) True]] obtain m' sent where
    e: "event_edit m ev = returns (m', sent)"
      "stay_and_redraw (app\<lparr>app_DocModel := Some m', Manager := foldl (broadcast_op J) (Manager app) sent\<rparr>) dim = returns (Stays app' dim' scr)"
    by (auto simp: local_edit_def)
  then show ?thesis using stay_and_redraw_keeps [OF e(2)] by (intro exI [of _ m'] exI [of _ sent]) simp
next
  case False
  note mv = editor_event_moves [OF assms(2) False assms(1)]
  then obtain buf where "app_DocModel app' = Some (m\<lparr>dm_Buffer := buf\<rparr>)" by blast
  then show ?thesis using mv(2,3) by (intro exI [of _ "m\<lparr>dm_Buffer := buf\<rparr>"] exI [of _ "[]"]) auto
qed

lemma editor_event_en_step:
  assumes "en_ok n" "en_sites n i = Some m" "app_DocModel app = Some m" "0 \<le> ScreenY app" "0 < snd dim" "event_safe m ev" "event_leaves ev = None"
  shows "\<exists>app' scr m' sent. editor_event J app dim ev = returns (Stays app' (event_size dim ev) scr) \<and> app_DocModel app' = Some m' \<and>
    Manager app' = foldl (broadcast_op J) (Manager app) sent \<and> en_step n (with_site n i m'\<lparr>en_casts := en_casts n \<union> set sent\<rparr>)"
proof -
  have m: "model_ok m" using en_okD(2) [OF assms(1,2)] by (simp add: site_ok_def)
  from editor_event_ok [OF assms(3) m assms(4-7), of J] obtain app' scr m' where
    e: "editor_event J app dim ev = returns (Stays app' (event_size dim ev) scr)" "app_DocModel app' = Some m'" "model_ok m'"
      "buf_text (dm_Buffer m') = event_text m ev" by (auto simp: edited_def)
  from editor_event_edits_or_moves [OF e(1) assms(3)] e(2) obtain sent where
    s: "Manager app' = foldl (broadcast_op J) (Manager app) sent"
      "event_edit m ev = returns (m', sent) \<or> sent = [] \<and> event_text m ev = doc_text (dm_Treedoc m) \<and> (\<exists>buf. m' = m\<lparr>dm_Buffer := buf\<rparr>)" by auto
  have "en_step n (with_site n i m'\<lparr>en_casts := en_casts n \<union> set sent\<rparr>)"
    using s(2)
  proof
    assume "event_edit m ev = returns (m', sent)"
    then show ?thesis by (rule en_edit [OF assms(2,6)])
  next
    assume "sent = [] \<and> event_text m ev = doc_text (dm_Treedoc m) \<and> (\<exists>buf. m' = m\<lparr>dm_Buffer := buf\<rparr>)"
    then obtain buf where buf: "sent = []" "event_text m ev = doc_text (dm_Treedoc m)" "m' = m\<lparr>dm_Buffer := buf\<rparr>" by blast
    have "en_step n (with_site n i m')" unfolding buf(3)
      by (rule en_move [OF assms(2)]) (use e(3,4) m buf in \<open>auto simp: model_ok_def texts_ok_def\<close>)
    then show ?thesis using buf(1) by simp
  qed
  then show ?thesis using e(1,2) s(1) by blast
qed

section \<open>Properties\<close>

text \<open>A site has applied an operation.\<close>

definition has_applied :: "DocumentModel \<Rightarrow> RemoteOperation \<Rightarrow> bool" where
  "has_applied m r \<longleftrightarrow> ro_Version r \<le> Get (l_Vector (dm_Log m)) (ro_Id r)"

lemma same_applied_text:
  assumes "site_ok N m1" "site_ok N m2" "\<forall>r\<in>N. has_applied m1 r \<longleftrightarrow> has_applied m2 r"
  shows "abs_doc (dm_Treedoc m1) = abs_doc (dm_Treedoc m2)" "buf_text (dm_Buffer m1) = buf_text (dm_Buffer m2)"
proof -
  have "below N (vec m1) = below N (vec m2)" using assms(3) by (auto simp: below_def has_applied_def)
  then show eq: "abs_doc (dm_Treedoc m1) = abs_doc (dm_Treedoc m2)"
    using assms(1,2) describes_unique [of "ro_Op ` below N (vec m1)"] by (simp add: site_ok_def)
  show "buf_text (dm_Buffer m1) = buf_text (dm_Buffer m2)"
    using abs_doc_text [OF _ _ eq] assms(1,2) by (auto simp: site_ok_def model_ok_def texts_ok_def doc_ok_def)
qed

text \<open>Two sites: one types a letter, the other has just opened its document.\<close>

definition letter_sent :: "editor_net \<Rightarrow> DocumentModel \<Rightarrow> DocumentModel \<Rightarrow> RemoteOperation \<Rightarrow> bool" where
  "letter_sent n m1 m2 r \<longleftrightarrow> en_reachable n \<and> en_sites n E_SITE = Some m1 \<and> en_sites n (replicate 16 (CHR ''f'')) = Some m2 \<and>
     en_casts n = {r} \<and> has_applied m1 r \<and> buf_text (dm_Buffer m1) = ''x'' \<and> oType (ro_Op r) \<noteq> DELETE \<and>
     Log (dm_Log m1) = [\<lparr>le_Operation = ro_Op r, le_Id = ro_Id r, le_Version = ro_Version r\<rparr>] \<and>
     queue (dm_Queue m1) = [] \<and> queue (dm_Queue m2) = [] \<and>
     (\<exists>m2'. pfold ApplyRemoteOperation (wire [r]) m2 = returns m2' \<and> has_applied m2' r)"

lemma two_sites: "\<exists>n m1 m2 r. letter_sent n m1 m2 r"
proof -
  let ?t = "replicate 16 (CHR ''f'')"
  have sites: "SiteId_ok E_SITE" "SiteId_ok ?t" "E_SITE \<noteq> ?t" by (simp_all add: SiteId_ok_def E_SITE_def numeral_eq_Suc)
  from new_documents_in_sync [OF sites, of 79] obtain m1 m2 where m: "newDocument 80 E_SITE = returns m1" "newDocument 80 ?t = returns m2"
      "in_sync m1 m2" "can_insert m1" "BroadcastRemote m1" "currentPosition (dm_Buffer m1) = 0" "doc_text (dm_Treedoc m1) = []"
    by (auto simp: newDocument_def)
  let ?n = "with_site (with_site no_sites E_SITE m1) ?t m2" and ?ev = "EventKey KeyNone 120"
  have "en_reachable (with_site no_sites E_SITE m1)"
    using m(1) sites by (intro en_next [OF en_start] en_open) (auto simp: no_sites_def)
  from en_next [OF this en_open [where i = ?t and width = 80 and m = m2]] have r0: "en_reachable ?n"
    using m(2) sites by (auto simp: no_sites_def)
  have ok: "model_ok m1" using m(3) by (simp add: in_sync_def)
  from LocalInsert_ok [OF ok, of "CHR ''x''"] m(4) obtain m1' sent where
    ins: "LocalInsert m1 (CHR ''x'') = returns (m1', sent)" "model_ok m1'" "doc_text (dm_Treedoc m1') = ''x''"
    by (auto simp: can_insert_def m(6,7) insert_at_def)
  with LocalInsert_sends [OF ins(1) m(5)] obtain r where r: "LocalInsert m1 (CHR ''x'') = returns (m1', [r])" by blast
  note step = LocalInsert_step [OF ok m(4) r]
  have "byte_of_rune 120 = CHR ''x''" by code_simp
  with r have edit: "event_edit m1 ?ev = returns (m1', [r])" "event_safe m1 ?ev" using m(4) by (simp_all add: event_edit_def)
  let ?n' = "with_site ?n E_SITE m1'\<lparr>en_casts := {r}\<rparr>"
  have reach: "en_reachable ?n'"
    using en_next [OF r0 en_edit [OF _ edit(2,1), where i = E_SITE]] sites(3) by (simp add: no_sites_def)
  from peer_applies [OF m(3) step(1) _ ins(2) peer_safe_insert [OF step(2)]] m(4) obtain m2' where
    m2': "ApplyRemoteOperation m2 (from_json (to_json r)) = returns m2'" "in_sync m1' m2'" by (auto simp: can_insert_def)
  have new: "dm_Log m1 = NewLog" "queue (dm_Queue m1) = []" "queue (dm_Queue m2) = []"
    using m(1,3) by (auto simp: newDocument_def NewDocumentModel_def in_sync_def)
  have log: "dm_Log m1' = Log_Write NewLog (ro_Id r) (ro_Version r) (ro_Op r)" "dm_Queue m1' = dm_Queue m1"
    using step(1) new by (auto simp: local_step_def)
  have "has_applied m1' r" by (simp add: has_applied_def log Log_Write_def)
  moreover from this have "has_applied m2' r" using m2'(2) by (simp add: has_applied_def in_sync_def)
  moreover have "buf_text (dm_Buffer m1') = ''x''" using ins(2,3) by (simp add: model_ok_def texts_ok_def)
  moreover have "Log (dm_Log m1') = [\<lparr>le_Operation = ro_Op r, le_Id = ro_Id r, le_Version = ro_Version r\<rparr>]"
    by (simp add: log Log_Write_def NewLog_def)
  ultimately have "letter_sent ?n' m1' m2 r"
    using reach sites(3) step(2) m2'(1) new log(2) by (simp add: letter_sent_def)
  then show ?thesis by blast
qed







end
