(* ===== verification/Spec2Isabelle.thy ===== *)
theory Spec2Isabelle
  imports KvSystem Handshake FortuneSystem ElectionSafety GuiDrift EditorConverge Samples
begin

text \<open>
  Verification of the Go programs of \<^verbatim>\<open>src/CPSC418\<close>: a collaborative text editor (\<^verbatim>\<open>project_o7l8_s7l8_u4o8_y5q8\<close>), a replicated
  key-value store (\<^verbatim>\<open>assignment4_f5l8_u4o8\<close>), a leader election on top of such a store (\<^verbatim>\<open>assignment3_u4o8_v6q8\<close>), and
  fortune servers with their client (\<^verbatim>\<open>assignment2_u4o8\<close>, \<^verbatim>\<open>assignment1_u4o8\<close>).

  \<^bold>\<open>The editor.\<close> Every replica keeps the document as a Treedoc tree (\<^verbatim>\<open>treedoc\<close>) and as a buffer of wrapped lines
  (\<^verbatim>\<open>buffer\<close>). \<^verbatim>\<open>documentmanager\<close> joins the two: a key stroke edits the buffer, finds the place in the tree and makes an
  operation with a version vector (\<^verbatim>\<open>version\<close>); operations of other replicas wait in a queue until everything they depend on
  has been applied, and are logged so that they can be sent on. \<^verbatim>\<open>network\<close> spreads operations and the table of members
  over connections that carry framed messages (\<^verbatim>\<open>util\<close>).

  \<^item> \<^verbatim>\<open>Prelude\<close>: the outcome \<open>prog\<close> of a Go call (returns, panics, never returns), words, edits of a text.
  \<^item> \<^verbatim>\<open>Ids\<close> (\<^verbatim>\<open>common/def.go\<close>, \<^verbatim>\<open>treedoc/nodeid.go\<close>) and \<^verbatim>\<open>Version\<close> (\<^verbatim>\<open>version/version.go\<close>): identifiers, version vectors.
    \<^verbatim>\<open>Gossip\<close> is the contract \<open>join_merge\<close> of states that are merged; version vectors, the member table, the
    versions of the key-value store and its replication are the four interpretations.
  \<^item> \<^verbatim>\<open>Words\<close>, \<^verbatim>\<open>Layout\<close>, \<^verbatim>\<open>Buffer\<close> (\<^verbatim>\<open>buffer/helpers.go\<close>, \<^verbatim>\<open>buffer/buffer.go\<close>): word scanners, line breaking, the buffer and its
    cursor. Line breaking terminates, keeps the text and agrees with itself when lines are wrapped again; edits of
    the buffer are edits of the text.
  \<^item> \<^verbatim>\<open>Treedoc\<close> (\<^verbatim>\<open>treedoc/*.go\<close>): the tree as a store of nodes with atoms, exactly as the code mutates it. \<^verbatim>\<open>TreedocInv\<close> has the
    invariant, \<^verbatim>\<open>TreedocRemote\<close> the remote operations, \<^verbatim>\<open>TreedocSpec\<close> the abstract tree they refine, \<^verbatim>\<open>TreedocConverge\<close> that
    causal orders commute, \<^verbatim>\<open>TreedocLocal\<close> and \<^verbatim>\<open>TreedocEdit\<close> the local operations by position.
  \<^item> \<^verbatim>\<open>OpQueue\<close>, \<^verbatim>\<open>OpLog\<close>, \<^verbatim>\<open>DocModel\<close> (\<^verbatim>\<open>documentmanager/*.go\<close>): causal delivery, the log and the wire format, and the
    document model whose invariant says that buffer and tree show the same text.
  \<^item> \<^verbatim>\<open>Framing\<close> (both \<^verbatim>\<open>util/util.go\<close>): writers and readers of framed messages; the locale \<open>message_channel\<close> is their contract and has
    four interpretations.
  \<^item> \<^verbatim>\<open>NetMeta\<close> (\<^verbatim>\<open>network/netmeta.go\<close>), \<^verbatim>\<open>NodePool\<close> (\<^verbatim>\<open>message.go\<close>, \<^verbatim>\<open>nodepool.go\<close>), \<^verbatim>\<open>Session\<close> (\<^verbatim>\<open>conn.go\<close>, \<^verbatim>\<open>session.go\<close>, \<^verbatim>\<open>handleconn.go\<close>,
    \<^verbatim>\<open>nodethread.go\<close>, \<^verbatim>\<open>network.go\<close>, \<^verbatim>\<open>const.go\<close>): the member table, the pool of nodes with their queues, and the handlers, threads
    and commands of a node on the state \<open>NetworkManager\<close>. \<^verbatim>\<open>NetInv\<close> makes them the transition system \<open>net_step\<close> and proves its
    invariant; \<^verbatim>\<open>Handshake\<close> runs two nodes against each other.
  \<^item> \<^verbatim>\<open>Prompt\<close> (\<^verbatim>\<open>buffer/prompt.go\<close>): the prompt line; the locale \<open>line_cutter\<close> is what its two loops share. It is displayed
    completely exactly when no byte is wider than the window.
  \<^item> \<^verbatim>\<open>Gui\<close> (\<^verbatim>\<open>gui/*.go\<close>, \<^verbatim>\<open>editor.go\<close>): menu, prompt and editor as functions of the state \<open>appState\<close> and an event, the callbacks between
    document and network, and the cells that are drawn. \<^verbatim>\<open>GuiEvents\<close> shows what an event in the editor does to the text and to
    the screen, \<^verbatim>\<open>EditPeer\<close> that it reaches another site, \<^verbatim>\<open>GuiMain\<close> the invariant of the main loop \<open>gui_step\<close> and that it
    goes on, \<^verbatim>\<open>GuiDrift\<close> the keys that take it down.
  \<^item> Any number of sites together: \<^verbatim>\<open>EditorSite\<close> shows which names an edit uses, \<^verbatim>\<open>EditorHistory\<close> ties one site to the set of operations
    broadcast so far (\<open>history_ok\<close>, \<open>site_ok\<close>), \<^verbatim>\<open>EditorNet\<close> interleaves edits, broadcasts that arrive late, repeatedly, out of order or
    never, and version checks (\<open>en_step\<close>), \<^verbatim>\<open>EditorConverge\<close> has the theorems: sites that have applied the same operations show
    the same text, no message makes a site panic, a version check brings a site up to date. A site id is used once, and the
    JSON library gives back the values it was given; operations travel through \<open>to_json\<close> and \<open>from_json\<close>.

  \<^bold>\<open>The key-value store.\<close> A front end sends the requests of its clients to the nodes that hold a replica of the key and
  copies keys when nodes come and go.

  \<^item> \<^verbatim>\<open>KvNode\<close> (\<^verbatim>\<open>kv-node.go\<close>): what a request does to the versions and values of a node.
  \<^item> \<^verbatim>\<open>KvFront\<close> (\<^verbatim>\<open>kv-front-end.go\<close>): client calls, routines and connections on the shared metadata; \<^verbatim>\<open>KvFrontInv\<close> has the
    invariant and its preservation by every routine; \<^verbatim>\<open>KvSystem\<close> the transition system \<open>kv_step\<close>, what the routines
    promise, and the inputs and the race that make the front end panic.

  \<^bold>\<open>The leader election.\<close> Nodes agree on a leader and on the list of members through test-and-set calls on a key-value service;
  every call may fail because the key became unavailable, and then moves on to the next nonce.

  \<^item> \<^verbatim>\<open>Interact\<close>: programs that make requests (\<open>ask\<close>), with a rely/guarantee logic \<open>upholds\<close> for them.
  \<^item> \<^verbatim>\<open>Election\<close> (\<^verbatim>\<open>node.go\<close>): every routine as such a program; \<^verbatim>\<open>ElectionLeader\<close>, \<^verbatim>\<open>ElectionGuard\<close>, \<^verbatim>\<open>ElectionMain\<close>: what each routine
    writes and when. \<^verbatim>\<open>ElectionSystem\<close> interleaves the goroutines of all nodes (\<open>elect_step\<close>) over the contract \<open>test_and_set\<close>, which
    the node of \<^verbatim>\<open>KvNode\<close> satisfies; \<^verbatim>\<open>ElectionSafety\<close> has the theorems: one leader per term, and keys that only advance.
    They assume that the counters in the leader's value are not exhausted.

  \<^bold>\<open>The fortune servers.\<close> \<^verbatim>\<open>Md5\<close> is the hash, \<^verbatim>\<open>Fortune\<close> (\<^verbatim>\<open>auth-server.go\<close>, \<^verbatim>\<open>fortune-server.go\<close>, \<^verbatim>\<open>client.go\<close>) the handlers, the call between the
  servers and the client; \<^verbatim>\<open>FortuneSystem\<close> shows who gets a fortune, that the client ends, and the request that ends a
  server. JSON is a parameter with the hypothesis \<open>json_ok\<close>.

  \<^bold>\<open>How the code is modelled.\<close> A struct is a record, pointers that are shared are addresses into a store, a map is an
  association list with distinct keys in the order a \<open>range\<close> loop visits it, \<open>uint16\<close>, \<open>uint32\<close> and \<open>uint64\<close> are words,
  \<open>int\<close> is an integer (lengths and positions do not reach the bounds of 64 bits). A panic is a value of \<open>go_panic\<close>, an error a
  left value of a sum. Loops that the code bounds are structural or have a termination proof; the searches of the
  tree that may run for ever are \<open>partial_function (option)\<close>, and the theorems show that they return on documents that
  satisfy the invariant. Fuel is used nowhere. A critical section, a handler or one round of a goroutine is
  one step, and the relations \<open>net_step\<close>, \<open>kv_step\<close>, \<open>elect_step\<close>, \<open>gui_step\<close> and \<open>en_step\<close> interleave them freely. JSON, the GoVector logger, UUIDs, \<open>rand.Intn\<close>, dialling
  and what a peer sends are parameters, with hypotheses such as \<open>codec_ok\<close>, \<open>logs_strings\<close> and \<open>rand_ok\<close>.

  \<^bold>\<open>What is shown here.\<close> The main theorem, \<open>editor_converges\<close> of \<^verbatim>\<open>EditorConverge\<close>, is that the editor converges. The theorems below are about the document: replicas that apply the same operations in any
  causal order converge; a sequence of operations runs without a panic exactly when it is causally ordered; local
  and remote operations keep buffer and tree in agreement. The properties of the other parts are at the end of their
  theories.

  \<^bold>\<open>Not modelled.\<close> The library \<^verbatim>\<open>termbox\<close>. The main programs and listeners of the servers, which parse arguments and accept
  connections. Printing, logging and \<open>barfMetadata\<close>. The blocking of full channels is modelled only where the code has a
  non-blocking send. The threads of an old session that outlive \<open>CompleteDisconnect\<close> are not followed. Events of the
  terminal and remote operations are steps of their own, although the code handles them in goroutines that share
  \<open>appState\<close> without a lock.
\<close>

text \<open>C4: Convergence. If one replica applies a sequence of operations from the empty document without a panic,
  then every replica that applies the same operations in any other order that respects their dependencies also
  runs without a panic, and \<open>DocToString\<close> reads the same text from both.\<close>

theorem replicas_converge:
  assumes "distinct (new_ids ops)" "apply_ops NewDocument ops = returns d"
    "mset ops' = mset ops" "causal {} ops'"
  shows "\<exists>d'. apply_ops NewDocument ops' = returns d' \<and> DocToString d' = DocToString d"
proof -
  obtain d' where d': "apply_ops NewDocument ops' = returns d'" "doc_text d' = doc_text d"
    using permuted_run [OF assms] by blast
  have "distinct (new_ids ops')"
    using assms(1,3) mset_eq_imp_distinct_iff [of "new_ids ops'" "new_ids ops"] by (simp add: new_ids_def)
  then have "tree_ok d" "tree_ok d'"
    using run_from_empty(2) [OF assms(1,2)] run_from_empty(2) [OF _ d'(1)] by (auto simp: doc_ok_def)
  with d' show ?thesis by (auto simp: DocToString_ok)
qed

theorem replicas_converge_witness:
  "\<exists>d'. apply_ops NewDocument test_ops_permuted = returns d' \<and> DocToString d' = returns ''cfadeghb''"
proof -
  have "DocToString test_doc = returns ''cfadeghb''"
    using test_doc_ok by (simp add: DocToString_ok doc_ok_def test_doc_text)
  then show ?thesis
    using replicas_converge [OF test_ops_distinct(1) test_run test_ops_permuted_facts] by simp
qed



text \<open>C6: One remote operation refines the abstract tree: the call returns, the invariant holds again, the abstract
  state changes as \<open>spec_apply\<close> says, and the buffer operation it returns is the edit that turns the old text
  into the new one.\<close>

theorem ApplyOperation_step:
  assumes "doc_ok doc" "op_fresh doc op" "op_enabled doc op"
  shows "\<exists>doc' b. ApplyOperation doc op = returns (doc', b) \<and> doc_ok doc' \<and>
    abs_doc doc' = spec_apply (abs_doc doc) op \<and>
    edit_in_range b (doc_text doc) \<and> doc_text doc' = edit_text b (doc_text doc)"
  using ApplyOperation_refines [OF assms] by (auto simp: edit_ok_def)

theorem ApplyOperation_step_witness:
  "\<exists>doc' b. ApplyOperation test_doc (op_delete C_ID1 1) = returns (doc', b) \<and> doc_ok doc' \<and>
    doc_text doc' = edit_text b ''cfadeghb''"
proof -
  have "op_enabled test_doc (op_delete C_ID1 1)" "op_fresh test_doc (op_delete C_ID1 1)" by code_simp+
  from ApplyOperation_step [OF test_doc_ok this(2,1)] show ?thesis unfolding test_doc_text by blast
qed

text \<open>C7: An operation that the document cannot apply (its node or parent is missing, its cell has the wrong state,
  its first cell index is too high) makes the call panic; it is never silently misapplied.\<close>

theorem ApplyOperation_rejects:
  assumes "doc_ok doc" "\<not> op_enabled doc op"
  shows "\<exists>p. ApplyOperation doc op = panics p"
  by (rule ApplyOperation_panics [OF assms])

theorem ApplyOperation_rejects_witness:
  "\<exists>p. ApplyOperation test_doc (op_insert (CHR ''x'') C_ID1 1) = panics p"
proof -
  have "\<not> op_enabled test_doc (op_insert (CHR ''x'') C_ID1 1)" by code_simp
  then show ?thesis by (rule ApplyOperation_rejects [OF test_doc_ok])
qed

text \<open>C20: Reading the document terminates with its text, and the cached size is the length of that text.\<close>

theorem DocToString_size:
  assumes "doc_ok doc"
  shows "\<exists>t. DocToString doc = returns t \<and> t = doc_text doc \<and> dSize doc = int (length t)"
  using assms DocToString_ok [of doc] doc_size_length [of doc] by (simp add: doc_ok_def)

theorem DocToString_size_witness: "DocToString test_doc = returns ''cfadeghb'' \<and> dSize test_doc = 8"
  using DocToString_size [OF test_doc_ok] by (auto simp: test_doc_text)

text \<open>C9: A local deletion at any position of the text deletes exactly the byte there, and the operation it returns
  has the same effect on the abstract tree, so broadcasting it deletes the same byte elsewhere.\<close>

theorem DeletePos_deletes:
  assumes "doc_ok doc" "0 \<le> pos" "pos < int (length (doc_text doc))"
  shows "\<exists>doc' op. DeletePos doc pos = returns (doc', op) \<and> oType op = DELETE \<and> op_enabled doc op \<and>
    doc_ok doc' \<and> doc_text doc' = delete_at (nat pos) (doc_text doc) \<and>
    abs_doc doc' = spec_apply (abs_doc doc) op"
  by (rule DeletePos_ok [OF assms])

theorem DeletePos_deletes_witness:
  "\<exists>doc' op. DeletePos test_doc 3 = returns (doc', op) \<and> doc_text doc' = ''cfaeghb''"
  using DeletePos_deletes [OF test_doc_ok, of 3] by (auto simp: test_doc_text delete_at_def)

text \<open>C8: A local insertion with a new node id puts the byte exactly at the position asked for, on a document
  in which the site has left no unused cell behind a live one, and the operation it returns has the same effect on
  the abstract tree.\<close>

theorem InsertPos_inserts:
  assumes "doc_ok doc" "last_free doc" "\<not> own_holes doc nodeId" "dNodes doc nodeId = None"
    "0 \<le> pos" "pos \<le> int (length (doc_text doc))"
  shows "\<exists>doc' op. InsertPos doc nodeId pos ch = returns (doc', op) \<and> doc_ok doc' \<and>
    doc_text doc' = insert_at (nat pos) ch (doc_text doc) \<and>
    op_fresh doc op \<and> op_enabled doc op \<and> abs_doc doc' = spec_apply (abs_doc doc) op"
  using InsertPos_ok [OF assms, of ch] by (auto simp: local_insert_def)

theorem InsertPos_inserts_witness:
  "\<exists>doc' op. InsertPos test_doc B_ID1 3 (CHR ''x'') = returns (doc', op) \<and> doc_text doc' = ''cfaxdeghb''"
  using InsertPos_inserts [OF test_doc_ok test_doc_last_free test_doc_B_free, of 3 "CHR ''x''"]
  by (auto simp: test_doc_text insert_at_def)

text \<open>Without that condition the byte goes elsewhere: after another site appended a byte and deleted it again,
  inserting at position 0 puts the byte behind the first one.\<close>

theorem InsertPos_misplaces:
  "\<exists>d d' op. apply_ops NewDocument hole_ops = returns d \<and> DocToString d = returns ''z'' \<and>
     InsertPos d A_ID1 0 (CHR ''x'') = returns (d', op) \<and> DocToString d' = returns ''zx''"
proof -
  have facts: "dSize hole_doc \<noteq> 0" "findNodePos (dHeap hole_doc) 0 0 (dDoc hole_doc) = (0, Some 0)"
    "findAtomForInsertHelper 0 0 A_ID1 (node_at hole_doc 0) = returns (INSERT, 0, 1)"
    by code_simp+
  have "op_enabled hole_doc (op_insert (CHR ''x'') A_ID0 1)" "op_fresh hole_doc (op_insert (CHR ''x'') A_ID0 1)"
    by code_simp+
  then obtain d' b where ins: "ApplyOperation hole_doc (op_insert (CHR ''x'') A_ID0 1) = returns (d', b)" "doc_ok d'"
    using ApplyOperation_refines [OF hole_doc_ok] unfolding edit_ok_def by blast
  have "(case ApplyOperation hole_doc (op_insert (CHR ''x'') A_ID0 1) of
      Some (Inr (d', b)) \<Rightarrow> doc_text d' | _ \<Rightarrow> []) = ''zx''"
    by code_simp
  then have "DocToString d' = returns ''zx''" using ins by (simp add: DocToString_ok doc_ok_def)
  moreover have "makeAndApplyInsertOperation hole_doc 0 1 (CHR ''x'') =
      pbind (ApplyOperation hole_doc (op_insert (CHR ''x'') A_ID0 1)) (\<lambda>(d, _). returns (d, op_insert (CHR ''x'') A_ID0 1))"
  proof -
    have "nNodeId (node_at hole_doc 0) = A_ID0" by code_simp
    then show ?thesis
      by (simp add: makeAndApplyInsertOperation_def ApplyOperation_def op_insert_def operation_types Let_def)
  qed
  moreover have "DocToString hole_doc = returns ''z''"
    using hole_doc_ok hole_text by (simp add: DocToString_ok doc_ok_def)
  ultimately show ?thesis using InsertPos_first_cell [OF facts] ins(1) hole_run by auto
qed



text \<open>Backspace deletes the byte before the cursor in both texts, keeps the invariant, and does nothing at the
  start of the text.\<close>

theorem LocalBackspace_keeps_model:
  assumes "model_ok m" "OpVersion m \<noteq> - 1" "p = currentPosition (dm_Buffer m) - 1"
    "\<not> delete_gap (dm_Buffer m) p"
  shows "\<exists>m' sent. LocalBackspace m = returns (m', sent) \<and> model_ok m' \<and>
    (if p < 0 then m' = m \<and> sent = []
     else doc_text (dm_Treedoc m') = delete_at (nat p) (doc_text (dm_Treedoc m)) \<and>
       buf_text (dm_Buffer m') = doc_text (dm_Treedoc m') \<and>
       currentPosition (dm_Buffer m') = p \<and> (\<forall>r\<in>set sent. stamped r))"
  by (rule LocalBackspace_total [OF assms])

theorem LocalBackspace_keeps_model_witness:
  "\<exists>m' sent. LocalBackspace test_model = returns (m', sent) \<and> model_ok m' \<and>
    doc_text (dm_Treedoc m') = ''fadeghb'' \<and> currentPosition (dm_Buffer m') = 0"
proof -
  have "\<not> delete_gap (dm_Buffer test_model) 0" by code_simp
  moreover have "OpVersion test_model \<noteq> - 1" "0 = currentPosition (dm_Buffer test_model) - 1"
    using test_buffer_facts by (simp_all add: test_model_def)
  ultimately have "\<exists>m' sent. LocalBackspace test_model = returns (m', sent) \<and> model_ok m' \<and>
      doc_text (dm_Treedoc m') = delete_at (nat 0) (doc_text (dm_Treedoc test_model)) \<and>
      currentPosition (dm_Buffer m') = 0"
    using LocalBackspace_keeps_model [OF test_model_ok(1), of 0] by auto
  then show ?thesis by (simp add: test_model_def test_doc_text delete_at_def)
qed

text \<open>Delete deletes the byte under the cursor in both texts, keeps the invariant, and does nothing at the end of
  the text.\<close>

theorem LocalDelete_keeps_model:
  assumes "model_ok m" "OpVersion m \<noteq> - 1" "p = currentPosition (dm_Buffer m)"
    "\<not> delete_gap (dm_Buffer m) p"
  shows "\<exists>m' sent. LocalDelete m = returns (m', sent) \<and> model_ok m' \<and>
    (if p = int (length (doc_text (dm_Treedoc m))) then m' = m \<and> sent = []
     else doc_text (dm_Treedoc m') = delete_at (nat p) (doc_text (dm_Treedoc m)) \<and>
       buf_text (dm_Buffer m') = doc_text (dm_Treedoc m') \<and>
       currentPosition (dm_Buffer m') = p \<and> (\<forall>r\<in>set sent. stamped r))"
  by (rule LocalDelete_total [OF assms])

theorem LocalDelete_keeps_model_witness:
  "\<exists>m' sent. LocalDelete test_model = returns (m', sent) \<and> model_ok m' \<and>
    doc_text (dm_Treedoc m') = ''cadeghb'' \<and> currentPosition (dm_Buffer m') = 1"
proof -
  have "\<not> delete_gap (dm_Buffer test_model) 1" by code_simp
  moreover have "OpVersion test_model \<noteq> - 1" "1 = currentPosition (dm_Buffer test_model)"
    "doc_text (dm_Treedoc test_model) = ''cfadeghb''"
    using test_buffer_facts by (simp_all add: test_model_def test_doc_text)
  ultimately have "\<exists>m' sent. LocalDelete test_model = returns (m', sent) \<and> model_ok m' \<and>
      doc_text (dm_Treedoc m') = delete_at (nat 1) ''cfadeghb'' \<and>
      currentPosition (dm_Buffer m') = 1"
    using LocalDelete_keeps_model [OF test_model_ok(1), of 1] by auto
  then show ?thesis by (simp add: delete_at_def)
qed

text \<open>C11: A remote operation: when the operations it releases are acceptable one after the other, the call
  returns, buffer and tree agree again, the log has recorded them in causal order, and nothing deliverable is left
  waiting.\<close>

theorem ApplyRemoteOperation_keeps_model:
  assumes "model_ok m" "queue_ok m" "stamped op"
    "Enqueue (dm_Queue m) op (Copy (l_Vector (dm_Log m))) = (q, ready)"
    "all_acceptable (m\<lparr>dm_Queue := q\<rparr>) ready"
  shows "\<exists>m'. ApplyRemoteOperation m op = returns m' \<and> model_ok m' \<and> queue_ok m' \<and>
    dm_Log m' = fold log_remote ready (dm_Log m) \<and> causally_ordered (Copy (l_Vector (dm_Log m))) ready"
  by (rule ApplyRemoteOperation_ok [OF assms])

theorem ApplyRemoteOperation_keeps_model_witness:
  "\<exists>op m'. ApplyRemoteOperation test_model op = returns m' \<and> model_ok m' \<and> length (Log (dm_Log m')) = 1"
proof -
  let ?op = "\<lparr>ro_Vector = [], ro_Id = ''bbbbbbbbbbbbbbbb'', ro_Version = 1, ro_Op = op_delete C_ID1 1\<rparr>"
  have "stamped ?op" by (simp add: stamped_def vv_ok_def)
  moreover have "Enqueue (dm_Queue test_model) ?op (Copy (l_Vector (dm_Log test_model))) = (NewQueue, [?op])"
    by code_simp
  moreover have "all_acceptable (test_model\<lparr>dm_Queue := NewQueue\<rparr>) [?op]"
  proof -
    have "op_fresh test_doc (op_delete C_ID1 1)" "op_enabled test_doc (op_delete C_ID1 1)" by code_simp+
    moreover have "(case ApplyOperation test_doc (op_delete C_ID1 1) of
        Some (Inr (_, b)) \<Rightarrow> no_gap test_buffer b | _ \<Rightarrow> True)"
      by code_simp
    moreover have "unat (oN (op_delete C_ID1 1)) \<noteq> 65535" "\<not> creates (op_delete C_ID1 1)"
      by (simp_all add: op_delete_def creates_def operation_types)
    moreover have "''bbbbbbbbbbbbbbbb'' \<noteq> E_SITE" by (simp add: E_SITE_def)
    ultimately show ?thesis
      by (auto simp: acceptable_def applicable_def test_model_def split: option.splits sum.splits)
  qed
  ultimately have "\<exists>m'. ApplyRemoteOperation test_model ?op = returns m' \<and> model_ok m' \<and>
      dm_Log m' = fold log_remote [?op] (dm_Log test_model)"
    using ApplyRemoteOperation_keeps_model [OF test_model_ok, of ?op] by blast
  then show ?thesis by (fastforce simp: log_remote_def Log_Write_def test_model_def NewLog_def)
qed

text \<open>The operations a site offers from its log to a site with vector \<open>vector\<close> are exactly the logged ones that
  site has not seen; the shortcut through \<open>Compare\<close> drops none of them.\<close>

theorem GetMissingOperations_complete:
  assumes "log_ok (dm_Log m)" "vv_ok vector" "vv_ok (q_vector (dm_Queue m))"
  shows "fst (GetMissingOperations m vector) =
    map entry_to_remote (filter (\<lambda>e. Get vector (le_Id e) < le_Version e) (Log (dm_Log m)))"
  by (rule GetMissingOperations_log [OF assms])

theorem GetMissingOperations_complete_witness:
  "fst (GetMissingOperations (test_model\<lparr>dm_Log := Log_Write NewLog E_SITE 1 (op_delete C_ID1 1)\<rparr>) []) =
    [entry_to_remote \<lparr>le_Operation = op_delete C_ID1 1, le_Id = E_SITE, le_Version = 1\<rparr>]"
  using GetMissingOperations_complete [of "test_model\<lparr>dm_Log := Log_Write NewLog E_SITE 1 (op_delete C_ID1 1)\<rparr>" "[]"]
    log_ok_Log_Write [OF log_ok_NewLog, of E_SITE 1 "op_delete C_ID1 1"]
  by (simp add: vv_ok_def test_model_def NewQueue_def NewVector_def Log_Write_def NewLog_def)

text \<open>A new site starts with the invariants, an empty text and an empty queue.\<close>

theorem NewDocumentModel_starts_ok:
  assumes "SiteId_ok sid" "4 \<le> width"
  shows "\<exists>m. NewDocumentModel sid width b = returns m \<and> model_ok m \<and> queue_ok m \<and> log_ok (dm_Log m) \<and>
    doc_text (dm_Treedoc m) = []"
  using NewDocumentModel_ok [OF assms, of b] by (auto simp: NewDocumentModel_def)

theorem NewDocumentModel_starts_ok_witness:
  "\<exists>m. NewDocumentModel E_SITE 80 True = returns m \<and> model_ok m"
  using NewDocumentModel_starts_ok [of E_SITE 80 True] by (auto simp: E_SITE_def SiteId_ok_def)

end
